(* ===== verification/Prelude.thy ===== *)
theory Prelude
  imports Main "HOL-Library.Word"
begin

text \<open>
  Shared ground of the development: the C integer types as words, the outcome type of kernel
  code (a value, a panic or a wait that never ends when no other process runs), and the generic
  lemmas on words and lists that the component theories use.
\<close>

unbundle bit_operations_syntax

section \<open>C types\<close>

text \<open>
  \<^verbatim>\<open>types.h\<close> on x86-64: \<open>uchar\<close>, \<open>ushort\<close>, \<open>uint\<close> and \<open>uint64\<close>/\<open>addr_t\<close>. A C \<open>int\<close> is
  the same 32 bits as a \<open>uint\<close>; where the code compares it as a signed number the model reads it
  with \<open>sint\<close>.
\<close>

type_synonym uchar = "8 word"
type_synonym ushort = "16 word"
type_synonym uint = "32 word"
type_synonym cint = "32 word"
type_synonym uint64 = "64 word"
type_synonym addr_t = "64 word"

text \<open>A string literal of the source, without its terminating NUL, as bytes.\<close>

definition cstr :: "string \<Rightarrow> uchar list" where
  "cstr s = map of_char s"

section \<open>Outcomes of kernel code\<close>

text \<open>
  \<open>Panic msg\<close> is a call of \<open>panic(msg)\<close>, which never returns. \<open>Blocked chan\<close> is a process that
  went to sleep (or spins) until another processor or process acts: in a run of one process it
  does not come back. \<open>Fault what\<close> is an access outside the object it goes to (past the end of an
  array, through a null pointer), which C leaves undefined.
\<close>

datatype 'a outcome = Ok 'a | Panic string | Blocked string | Fault string

named_theorems outcome_iff \<open>when does a composed operation return\<close>

primrec andthen :: "'a outcome \<Rightarrow> ('a \<Rightarrow> 'b outcome) \<Rightarrow> 'b outcome" where
  "andthen (Ok x) f = f x"
| "andthen (Panic m) f = Panic m"
| "andthen (Blocked c) f = Blocked c"
| "andthen (Fault w) f = Fault w"

lemma andthen_Ok_iff [outcome_iff]:
  "andthen m f = Ok y \<longleftrightarrow> (\<exists>x. m = Ok x \<and> f x = Ok y)"
  by (cases m) auto

lemma andthen_assoc: "andthen (andthen m f) g = andthen m (\<lambda>x. andthen (f x) g)"
  by (cases m) auto

lemma andthen_split:
  "P (andthen m f) \<longleftrightarrow>
     (\<forall>x. m = Ok x \<longrightarrow> P (f x)) \<and> (\<forall>s. m = Panic s \<longrightarrow> P (Panic s)) \<and>
     (\<forall>s. m = Blocked s \<longrightarrow> P (Blocked s)) \<and> (\<forall>s. m = Fault s \<longrightarrow> P (Fault s))"
  by (cases m) auto

lemma andthen_cong [fundef_cong]:
  "m = m' \<Longrightarrow> (\<And>x. m' = Ok x \<Longrightarrow> f x = f' x) \<Longrightarrow> andthen m f = andthen m' f'"
  by (cases m') auto

section \<open>Words\<close>

lemma unat_less_pow32: "unat (w :: uint) < 2 ^ 32"
proof -
  have "unat w < 2 ^ LENGTH(32)" by (rule unsigned_less)
  then show ?thesis by simp
qed

lemma unat_ucast_32_64 [simp]: "unat (ucast (n :: uint) :: uint64) = unat n"
  using unat_less_pow32 [of n] by (simp add: unsigned_ucast_eq take_bit_nat_eq_self)

lemma unat_less_pow8: "unat (c :: uchar) < 2 ^ 8"
proof -
  have "unat c < 2 ^ LENGTH(8)" by (rule unsigned_less)
  then show ?thesis by simp
qed

lemma unat_ucast_8_32 [simp]: "unat (ucast (c :: uchar) :: uint) = unat c"
  using unat_less_pow8 [of c] by (simp add: unsigned_ucast_eq take_bit_nat_eq_self)

lemma unat_ucast_64_32: "unat (n :: uint64) < 2 ^ 32 \<Longrightarrow> unat (ucast n :: uint) = unat n"
  by (simp add: unsigned_ucast_eq take_bit_nat_eq_self)

lemma unat_sub_wrap:
  fixes a b :: uint64
  assumes "a < b"
  shows "unat (a - b) = 2 ^ 64 + unat a - unat b"
  using assms by (simp add: unat_sub_if_size word_less_nat_alt word_le_nat_alt word_size)

lemma unat_add_less:
  fixes a b :: "'a::len word"
  assumes "unat a + unat b < 2 ^ LENGTH('a)"
  shows "unat (a + b) = unat a + unat b"
  using assms by (simp add: unat_word_ariths)

lemma unat_of_nat_small:
  assumes "n < 2 ^ LENGTH('a::len)"
  shows "unat (of_nat n :: 'a word) = n"
  using assms by (simp add: unat_of_nat take_bit_nat_eq_self)

lemma unat_sub_add_one:
  fixes r w :: uint
  assumes "unat (w - r) < 2 ^ 32 - 1"
  shows "unat (w + 1 - r) = unat (w - r) + 1"
proof -
  have eq: "w + 1 - r = (w - r) + 1" by simp
  have "unat ((w - r) + 1) = unat (w - r) + unat (1 :: uint)"
    by (rule unat_add_less) (use assms in simp)
  then show ?thesis by (simp add: eq)
qed

lemma unat_sub_pos_step:
  fixes r w :: uint
  assumes "r \<noteq> w"
  shows "unat (w - r) = Suc (unat (w - (r + 1)))"
proof -
  have nz: "w - r \<noteq> 0" using assms by simp
  have "w - (r + 1) = (w - r) - 1" by simp
  then have "unat (w - (r + 1)) = unat (w - r) - 1"
    using nz by (metis unat_minus_one)
  moreover have "unat (w - r) \<noteq> 0" using nz by (simp add: unat_eq_zero)
  ultimately show ?thesis by simp
qed

section \<open>Lists\<close>

lemma nth_list_update_if:
  "i < length xs \<Longrightarrow> xs[j := v] ! i = (if i = j then v else xs ! i)"
  by auto

lemma map_nth_upt: "length xs = n \<Longrightarrow> map (\<lambda>i. xs ! i) [0..<n] = xs"
  by (auto intro: nth_equalityI)

lemma sint_inc:
  fixes w :: cint
  assumes "sint w < 2 ^ 31 - 1"
  shows "sint (w + 1) = sint w + 1"
proof -
  have "- (2 ^ 31) \<le> sint w" using sint_greater_eq [of w] by simp
  then have "signed_take_bit 31 (sint w + 1) = sint w + 1"
    using assms by (intro signed_take_bit_int_eq_self) simp_all
  then show ?thesis by (simp add: sint_sbintrunc' sint_word_ariths(1))
qed

end
