(* ===== verification/Params.thy ===== *)
theory Params
  imports Prelude
begin

text \<open>
  The macros of the headers \<^verbatim>\<open>param.h\<close>, \<^verbatim>\<open>memlayout.h\<close>, \<^verbatim>\<open>mmu.h\<close>, \<^verbatim>\<open>fs.h\<close>, \<^verbatim>\<open>stat.h\<close>,
  \<^verbatim>\<open>buf.h\<close>, \<^verbatim>\<open>file.h\<close>, \<^verbatim>\<open>trace.h\<close> and \<^verbatim>\<open>syscall.h\<close> that the components use. A macro is an
  abbreviation, so its number is visible to the simplifier as it is to the C compiler.
\<close>

section \<open>param.h\<close>

abbreviation (input) NPROC :: nat where "NPROC \<equiv> 64"
abbreviation (input) KSTACKSIZE :: addr_t where "KSTACKSIZE \<equiv> 4096"
abbreviation (input) NOFILE :: nat where "NOFILE \<equiv> 16"
abbreviation (input) NFILE :: nat where "NFILE \<equiv> 100"
abbreviation (input) NINODE :: nat where "NINODE \<equiv> 50"
abbreviation (input) NDEV :: nat where "NDEV \<equiv> 10"
abbreviation (input) ROOTDEV :: uint where "ROOTDEV \<equiv> 1"
abbreviation (input) MAXARG :: nat where "MAXARG \<equiv> 32"
abbreviation (input) MAXOPBLOCKS :: nat where "MAXOPBLOCKS \<equiv> 10"
abbreviation (input) LOGSIZE :: nat where "LOGSIZE \<equiv> 30"
abbreviation (input) NBUF :: nat where "NBUF \<equiv> 30"
abbreviation (input) FSSIZE :: nat where "FSSIZE \<equiv> 1000"

section \<open>memlayout.h and mmu.h\<close>

abbreviation (input) EXTMEM :: addr_t where "EXTMEM \<equiv> 0x100000"
abbreviation (input) PHYSTOP :: addr_t where "PHYSTOP \<equiv> 0xE000000"
abbreviation (input) KERNBASE :: addr_t where "KERNBASE \<equiv> 0xFFFF800000000000"

definition V2P :: "addr_t \<Rightarrow> addr_t" where
  "V2P a = a - KERNBASE"

definition P2V :: "addr_t \<Rightarrow> addr_t" where
  "P2V a = a + KERNBASE"

lemma P2V_V2P [simp]: "P2V (V2P a) = a"
  by (simp add: P2V_def V2P_def)

lemma V2P_P2V [simp]: "V2P (P2V a) = a"
  by (simp add: P2V_def V2P_def)

abbreviation (input) FL_IF :: uint64 where "FL_IF \<equiv> 0x200"

abbreviation (input) PGSIZE :: addr_t where "PGSIZE \<equiv> 4096"

definition PGROUNDUP :: "addr_t \<Rightarrow> addr_t" where
  "PGROUNDUP sz = (sz + (PGSIZE - 1)) AND NOT (PGSIZE - 1)"

definition PGROUNDDOWN :: "addr_t \<Rightarrow> addr_t" where
  "PGROUNDDOWN a = a AND NOT (PGSIZE - 1)"

abbreviation (input) PTE_P :: addr_t where "PTE_P \<equiv> 0x001"
abbreviation (input) PTE_W :: addr_t where "PTE_W \<equiv> 0x002"
abbreviation (input) PTE_U :: addr_t where "PTE_U \<equiv> 0x004"

section \<open>Files and buffers\<close>

abbreviation (input) BSIZE :: nat where "BSIZE \<equiv> 512"
abbreviation (input) NDIRECT :: nat where "NDIRECT \<equiv> 12"
abbreviation (input) NINDIRECT :: nat where "NINDIRECT \<equiv> 128"
abbreviation (input) MAXFILE :: nat where "MAXFILE \<equiv> 140"
abbreviation (input) DIRSIZ :: nat where "DIRSIZ \<equiv> 14"

abbreviation (input) B_VALID :: cint where "B_VALID \<equiv> 0x2"
abbreviation (input) B_DIRTY :: cint where "B_DIRTY \<equiv> 0x4"

section \<open>trace.h\<close>

abbreviation (input) TRACE_TYPE_SYSCALL :: cint where "TRACE_TYPE_SYSCALL \<equiv> 1"
abbreviation (input) TRACE_TYPE_PROC :: cint where "TRACE_TYPE_PROC \<equiv> 2"
abbreviation (input) TRACE_TYPE_TRAP :: cint where "TRACE_TYPE_TRAP \<equiv> 3"
abbreviation (input) TRACE_TYPE_MEM :: cint where "TRACE_TYPE_MEM \<equiv> 4"
abbreviation (input) TRACE_NAME_LEN :: nat where "TRACE_NAME_LEN \<equiv> 16"

end
