(* ===== verification/KString.thy ===== *)
theory KString
  imports Params
begin

text \<open>
  \<^verbatim>\<open>string.c\<close>. The memory routines (\<open>memset\<close>, \<open>memmove\<close>, \<open>memcpy\<close>, \<open>memcmp\<close>) work on a
  byte-addressed memory, so that overlap and wrap-around of addresses are visible. The string
  routines work on arrays (byte lists); reading or writing past the end of an array is a \<open>Fault\<close>.
\<close>

type_synonym mem = "addr_t \<Rightarrow> uchar"

section \<open>memset\<close>

text \<open>
  \<open>rep stosb\<close> and \<open>rep stosl\<close> of \<^verbatim>\<open>x86.h\<close>: the latter stores 32-bit words, low byte first. Their
  count is an \<open>int\<close>, so \<open>memset\<close> passes the low 32 bits of its 64-bit length.
\<close>

primrec stosb :: "addr_t \<Rightarrow> uchar \<Rightarrow> nat \<Rightarrow> mem \<Rightarrow> mem" where
  "stosb a c 0 m = m"
| "stosb a c (Suc n) m = stosb (a + 1) c n (m(a := c))"

definition store32 :: "addr_t \<Rightarrow> uint \<Rightarrow> mem \<Rightarrow> mem" where
  "store32 a w m = m(a := ucast w, a + 1 := ucast (drop_bit 8 w),
     a + 2 := ucast (drop_bit 16 w), a + 3 := ucast (drop_bit 24 w))"

primrec stosl :: "addr_t \<Rightarrow> uint \<Rightarrow> nat \<Rightarrow> mem \<Rightarrow> mem" where
  "stosl a w 0 m = m"
| "stosl a w (Suc n) m = stosl (a + 4) w n (store32 a w m)"

definition memset :: "addr_t \<Rightarrow> cint \<Rightarrow> uint64 \<Rightarrow> mem \<Rightarrow> mem" where
  "memset dst c n m =
     (if dst mod 4 = 0 \<and> n mod 4 = 0
      then let c = c AND 0xFF in
        stosl dst (push_bit 24 c OR push_bit 16 c OR push_bit 8 c OR c)
          (unat (ucast (n div 4) :: cint)) m
      else stosb dst (ucast c) (unat (ucast n :: cint)) m)"

text \<open>What both routes should do: set the \<open>n\<close> bytes from \<open>a\<close> on.\<close>

definition fill :: "addr_t \<Rightarrow> nat \<Rightarrow> uchar \<Rightarrow> mem \<Rightarrow> mem" where
  "fill a n c m = (\<lambda>x. if unat (x - a) < n then c else m x)"

section \<open>memmove, memcpy, memcmp\<close>

primrec copy_up :: "addr_t \<Rightarrow> addr_t \<Rightarrow> nat \<Rightarrow> mem \<Rightarrow> mem" where
  "copy_up d s 0 m = m"
| "copy_up d s (Suc n) m = copy_up (d + 1) (s + 1) n (m(d := m s))"

primrec copy_down :: "addr_t \<Rightarrow> addr_t \<Rightarrow> nat \<Rightarrow> mem \<Rightarrow> mem" where
  "copy_down d s 0 m = m"
| "copy_down d s (Suc n) m =
     (let s = s - 1; d = d - 1 in copy_down d s n (m(d := m s)))"

definition memmove :: "addr_t \<Rightarrow> addr_t \<Rightarrow> uint \<Rightarrow> mem \<Rightarrow> mem" where
  "memmove dst src n m =
     (if src < dst \<and> src + ucast n > dst
      then copy_down (dst + ucast n) (src + ucast n) (unat n) m
      else copy_up dst src (unat n) m)"

definition memcpy :: "addr_t \<Rightarrow> addr_t \<Rightarrow> uint \<Rightarrow> mem \<Rightarrow> mem" where
  "memcpy dst src n m = memmove dst src n m"

primrec memcmp_loop :: "mem \<Rightarrow> addr_t \<Rightarrow> addr_t \<Rightarrow> nat \<Rightarrow> cint" where
  "memcmp_loop m s1 s2 0 = 0"
| "memcmp_loop m s1 s2 (Suc n) =
     (if m s1 \<noteq> m s2 then ucast (m s1) - ucast (m s2)
      else memcmp_loop m (s1 + 1) (s2 + 1) n)"

definition memcmp :: "mem \<Rightarrow> addr_t \<Rightarrow> addr_t \<Rightarrow> uint \<Rightarrow> cint" where
  "memcmp m v1 v2 n = memcmp_loop m v1 v2 (unat n)"

text \<open>A copy of \<open>n\<close> bytes that reads everything before it writes.\<close>

definition copied :: "addr_t \<Rightarrow> addr_t \<Rightarrow> nat \<Rightarrow> mem \<Rightarrow> mem" where
  "copied d s n m = (\<lambda>x. if unat (x - d) < n then m (s + (x - d)) else m x)"

section \<open>Strings\<close>

text \<open>An array access: element \<open>i\<close>, or a \<open>Fault\<close> past the end.\<close>

definition byte_at :: "uchar list \<Rightarrow> nat \<Rightarrow> uchar outcome" where
  "byte_at xs i = (if i < length xs then Ok (xs ! i) else Fault ''out of bounds'')"

definition byte_put :: "uchar list \<Rightarrow> nat \<Rightarrow> uchar \<Rightarrow> uchar list outcome" where
  "byte_put xs i c = (if i < length xs then Ok (xs[i := c]) else Fault ''out of bounds'')"

primrec strncmp_loop :: "uchar list \<Rightarrow> uchar list \<Rightarrow> nat \<Rightarrow> nat \<Rightarrow> cint outcome" where
  "strncmp_loop p q i 0 = Ok 0"
| "strncmp_loop p q i (Suc n) =
     andthen (byte_at p i) (\<lambda>a. andthen (byte_at q i) (\<lambda>b.
       if a \<noteq> 0 \<and> a = b then strncmp_loop p q (Suc i) n
       else Ok (ucast a - ucast b)))"

definition strncmp :: "uchar list \<Rightarrow> uchar list \<Rightarrow> uint \<Rightarrow> cint outcome" where
  "strncmp p q n = strncmp_loop p q 0 (unat n)"

text \<open>The copying loop \<open>while(n-- > 0 && (*s++ = *t++) != 0)\<close> and the index it stops at.\<close>

primrec strcopy_loop :: "uchar list \<Rightarrow> uchar list \<Rightarrow> nat \<Rightarrow> nat \<Rightarrow> (nat \<times> nat \<times> uchar list) outcome" where
  "strcopy_loop s t i 0 = Ok (i, 0, s)"
| "strcopy_loop s t i (Suc n) =
     andthen (byte_at t i) (\<lambda>c. andthen (byte_put s i c) (\<lambda>s.
       if c \<noteq> 0 then strcopy_loop s t (Suc i) n else Ok (Suc i, n, s)))"

primrec zero_loop :: "uchar list \<Rightarrow> nat \<Rightarrow> nat \<Rightarrow> uchar list outcome" where
  "zero_loop s i 0 = Ok s"
| "zero_loop s i (Suc n) = andthen (byte_put s i 0) (\<lambda>s. zero_loop s (Suc i) n)"

definition strncpy :: "uchar list \<Rightarrow> uchar list \<Rightarrow> cint \<Rightarrow> uchar list outcome" where
  "strncpy s t n =
     andthen (strcopy_loop s t 0 (nat (sint n))) (\<lambda>(i, n, s). zero_loop s i n)"

definition safestrcpy :: "uchar list \<Rightarrow> uchar list \<Rightarrow> cint \<Rightarrow> uchar list outcome" where
  "safestrcpy s t n =
     (if sint n \<le> 0 then Ok s
      else andthen (strcopy_loop s t 0 (nat (sint n) - 1)) (\<lambda>(i, _, s). byte_put s i 0))"

primrec strlen_loop :: "uchar list \<Rightarrow> cint \<Rightarrow> cint outcome" where
  "strlen_loop [] n = Fault ''out of bounds''"
| "strlen_loop (c # s) n = (if c = 0 then Ok n else strlen_loop s (n + 1))"

definition strlen :: "uchar list \<Rightarrow> cint outcome" where
  "strlen s = strlen_loop s 0"

text \<open>The string an array holds: its bytes before the first NUL.\<close>

definition str_of :: "uchar list \<Rightarrow> uchar list" where
  "str_of xs = takeWhile (\<lambda>c. c \<noteq> 0) xs"

section \<open>Correctness of memset\<close>

lemma unat_sub_one_step:
  fixes x a :: addr_t
  assumes "x \<noteq> a"
  shows "unat (x - a) = Suc (unat (x - (a + 1)))"
proof -
  have nz: "x - a \<noteq> 0" using assms by simp
  have "x - (a + 1) = (x - a) - 1" by simp
  then have "unat (x - (a + 1)) = unat (x - a) - 1" using nz by (metis unat_minus_one)
  moreover have "unat (x - a) \<noteq> 0" using nz by (simp add: unat_eq_zero)
  ultimately show ?thesis by simp
qed

lemma unat_lt64: "unat (n :: uint64) < 2 ^ 64"
proof -
  have "unat n < 2 ^ LENGTH(64)" by (rule unsigned_less)
  then show ?thesis by simp
qed

lemma stosb_fill: "n \<le> 2 ^ 64 \<Longrightarrow> stosb a c n m = fill a n c m"
proof (induction n arbitrary: a m)
  case 0
  then show ?case by (simp add: fill_def)
next
  case (Suc n)
  have "fill (a + 1) n c (m(a := c)) x = fill a (Suc n) c m x" for x
  proof (cases "x = a")
    case True
    then show ?thesis by (simp add: fill_def)
  next
    case False
    then show ?thesis using unat_sub_one_step [OF False] by (simp add: fill_def)
  qed
  then show ?case using Suc by (simp add: fun_eq_iff)
qed

lemma store32_same:
  assumes "w = push_bit 24 c OR push_bit 16 c OR push_bit 8 c OR c" and "c = c AND 0xFF"
  shows "store32 a w m = stosb a (ucast c) 4 m"
proof -
  have small: "k < 8" if "bit c k" for k
  proof -
    have "bit (c AND mask 8) k" using that assms(2) by (simp add: mask_eq_exp_minus_1)
    then show ?thesis by (simp add: bit_simps)
  qed
  have "ucast w = (ucast c :: uchar)" "ucast (drop_bit 8 w) = (ucast c :: uchar)"
    "ucast (drop_bit 16 w) = (ucast c :: uchar)" "ucast (drop_bit 24 w) = (ucast c :: uchar)"
    unfolding assms(1) by (rule bit_word_eqI, auto simp: bit_simps dest: small)+
  moreover have "stosb a b 4 m = m(a := b, a + 1 := b, a + 2 := b, a + 3 := b)" for b
    by (simp add: numeral_eq_Suc add.commute)
  ultimately show ?thesis by (simp add: store32_def)
qed

lemma stosb_add: "stosb a c (k + n) m = stosb (a + of_nat k) c n (stosb a c k m)"
  by (induction k arbitrary: a m) (simp_all add: add.assoc)

lemma stosl_stosb:
  assumes "w = push_bit 24 c OR push_bit 16 c OR push_bit 8 c OR c" and "c = c AND 0xFF"
  shows "stosl a w n m = stosb a (ucast c) (4 * n) m"
proof (induction n arbitrary: a m)
  case (Suc n)
  have "stosb a (ucast c) (4 * Suc n) m = stosb a (ucast c) (4 + 4 * n) m" by simp
  also have "\<dots> = stosb (a + 4) (ucast c) (4 * n) (stosb a (ucast c) 4 m)"
    by (simp only: stosb_add of_nat_numeral)
  also have "\<dots> = stosl a w (Suc n) m"
    by (simp only: stosl.simps Suc store32_same [OF assms])
  finally show ?case by simp
qed simp

lemma memset_fill:
  assumes small: "unat n < 2 ^ 31"
  shows "memset dst c n m = fill dst (unat n) (ucast c) m"
proof (cases "dst mod 4 = 0 \<and> n mod 4 = 0")
  case True
  let ?c = "c AND 0xFF"
  have len: "4 * unat (n div 4) = unat n"
  proof -
    have "unat (n mod 4) = unat n mod 4" by (simp add: unat_mod)
    then have "4 dvd unat n" using True by (simp add: mod_eq_0_iff_dvd)
    then show ?thesis by (simp add: unat_div)
  qed
  have "unat (n div 4) < 2 ^ 32" using small by (simp add: unat_div)
  then have cnt: "unat (ucast (n div 4) :: cint) = unat (n div 4)" by (rule unat_ucast_64_32)
  have byte: "ucast ?c = (ucast c :: uchar)"
  proof (rule bit_word_eqI)
    have low: "?c = c AND mask 8" by (simp add: mask_eq_exp_minus_1)
    show "bit (ucast ?c :: uchar) k = bit (ucast c :: uchar) k" if "k < LENGTH(8)" for k
      using that unfolding low by (auto simp: bit_simps)
  qed
  have "stosl dst (push_bit 24 ?c OR push_bit 16 ?c OR push_bit 8 ?c OR ?c) (unat (n div 4)) m =
      stosb dst (ucast ?c) (4 * unat (n div 4)) m"
    by (rule stosl_stosb [OF refl]) simp
  then show ?thesis
    using True small unat_lt64 [of n]
    by (simp add: memset_def Let_def len byte stosb_fill cnt)
next
  case False
  then show ?thesis
    using small unat_lt64 [of n] by (auto simp: memset_def stosb_fill unat_ucast_64_32)
qed

section \<open>Correctness of memmove\<close>

text \<open>
  Copying upwards is right when the destination is not strictly inside the source range,
  copying downwards when the source is not strictly inside the destination range.
\<close>

lemma copy_up_copied:
  "d = s \<or> n \<le> unat (d - s) \<Longrightarrow> n \<le> 2 ^ 64 \<Longrightarrow> copy_up d s n m = copied d s n m"
proof (induction n arbitrary: d s m)
  case 0
  then show ?case by (simp add: copied_def)
next
  case (Suc n)
  have IH: "copy_up (d + 1) (s + 1) n (m(d := m s)) = copied (d + 1) (s + 1) n (m(d := m s))"
    using Suc.prems by (intro Suc.IH) auto
  have "copied (d + 1) (s + 1) n (m(d := m s)) x = copied d s (Suc n) m x" for x
  proof (cases "x = d")
    case True
    have "unat (- 1 :: addr_t) = 2 ^ 64 - 1"
      by (simp add: unsigned_minus_1_eq_mask mask_eq_exp_minus_1)
    then show ?thesis using Suc.prems True by (simp add: copied_def)
  next
    case False
    have idx: "s + 1 + (x - (d + 1)) = s + (x - d)" by simp
    have "s + (x - d) \<noteq> d" if "unat (x - d) < Suc n"
    proof
      assume "s + (x - d) = d"
      then have "x - d = d - s" by (simp add: algebra_simps)
      then show False using that Suc.prems(1) False by auto
    qed
    then show ?thesis
      using unat_sub_one_step [OF False] unfolding copied_def idx by auto
  qed
  then show ?case using IH by (simp add: fun_eq_iff)
qed

lemma copy_down_copied:
  "n \<le> unat (s - d) \<Longrightarrow> n \<le> 2 ^ 64 \<Longrightarrow>
     copy_down (d + of_nat n) (s + of_nat n) n m = copied d s n m"
proof (induction n arbitrary: m)
  case 0
  then show ?case by (simp add: copied_def)
next
  case (Suc n)
  let ?k = "of_nat n :: addr_t"
  have k: "unat ?k = n" using Suc.prems by (simp add: unat_of_nat_small)
  let ?m = "m(d + ?k := m (s + ?k))"
  have IH: "copy_down (d + ?k) (s + ?k) n ?m = copied d s n ?m"
    using Suc.prems by (intro Suc.IH) auto
  have "copied d s n ?m x = copied d s (Suc n) m x" for x
  proof (cases "x = d + ?k")
    case True
    then show ?thesis using k by (simp add: copied_def)
  next
    case False
    have ne: "unat (x - d) \<noteq> n"
    proof
      assume "unat (x - d) = n"
      moreover have "x - d = of_nat (unat (x - d))" by simp
      ultimately have "x - d = ?k" by simp
      then show False using False by (simp add: algebra_simps)
    qed
    have "s + (x - d) \<noteq> d + ?k" if "unat (x - d) < n"
    proof
      assume "s + (x - d) = d + ?k"
      then have eq: "s - d = ?k - (x - d)" by (simp add: algebra_simps)
      have "unat (?k - (x - d)) \<le> n" using that k
        by (simp add: unat_sub_if')
      then show False using Suc.prems(1) eq by simp
    qed
    then show ?thesis using ne False by (auto simp: copied_def less_Suc_eq)
  qed
  then show ?case using IH by (simp add: Let_def algebra_simps fun_eq_iff)
qed

lemma memmove_copied:
  assumes "unat src + unat n < 2 ^ 64" and "unat dst + unat n \<le> 2 ^ 64"
  shows "memmove dst src n m = copied dst src (unat n) m"
proof -
  have n: "ucast n = (of_nat (unat n) :: addr_t)"
    by (rule word_unat_eq_iff [THEN iffD2]) (simp add: unat_of_nat_small unat_less_pow32)
  have n64: "unat n \<le> 2 ^ 64" using unat_less_pow32 [of n] by simp
  have sum: "unat (src + ucast n) = unat src + unat n"
    using assms(1) n64 by (subst unat_add_less) simp_all
  show ?thesis
  proof (cases "src < dst \<and> src + ucast n > dst")
    case True
    have "unat n \<le> unat (src - dst)"
      using unat_sub_wrap [OF conjunct1 [OF True]] assms(2) by linarith
    then show ?thesis
      using True copy_down_copied [of "unat n" src dst m, folded n] n64 by (simp add: memmove_def)
  next
    case False
    have "unat n \<le> unat (dst - src)" if "dst < src"
      using unat_sub_wrap [OF that] assms(1) by linarith
    moreover have "unat n \<le> unat (dst - src)" if "src < dst"
    proof -
      have "unat (dst - src) = unat dst - unat src" using that by (simp add: unat_sub)
      moreover have "unat src + unat n \<le> unat dst"
        using that False sum by (metis not_less word_le_nat_alt)
      ultimately show ?thesis by linarith
    qed
    ultimately have "dst = src \<or> unat n \<le> unat (dst - src)" by (meson linorder_cases)
    then show ?thesis
      using False n64 by (auto simp: memmove_def copy_up_copied)
  qed
qed

section \<open>Correctness of the string routines\<close>

lemma ucast_uchar_eq: "(ucast (a :: uchar) :: cint) = ucast b \<longleftrightarrow> a = b"
  using unat_ucast_8_32 [of a] unat_ucast_8_32 [of b] by (metis word_unat_eq_iff)

lemma str_of_cons [simp]:
  "str_of [] = []" "str_of (c # xs) = (if c = 0 then [] else c # str_of xs)"
  by (simp_all add: str_of_def)

lemma strlen_loop_str_of:
  "0 \<in> set s \<Longrightarrow> strlen_loop s n = Ok (n + of_nat (length (str_of s)))"
  by (induction s arbitrary: n) (auto simp: algebra_simps)

lemma strcopy_loop_eq:
  assumes "i + n \<le> length s" and "i + n \<le> length t \<or> 0 \<in> set (drop i t)" and "i \<le> length t"
  shows "strcopy_loop s t i n =
    (let str = take n (str_of (drop i t)); k = length str in
     if k < n then Ok (i + k + 1, n - k - 1, take i s @ str @ 0 # drop (i + k + 1) s)
     else Ok (i + n, 0, take i s @ str @ drop (i + n) s))"
  using assms
proof (induction n arbitrary: i s)
  case 0
  then show ?case by simp
next
  case (Suc n)
  have it: "i < length t" using Suc.prems by (cases "i < length t") auto
  then have dr: "drop i t = t ! i # drop (Suc i) t" by (simp add: Cons_nth_drop_Suc)
  show ?case
  proof (cases "t ! i = 0")
    case True
    then show ?thesis
      using Suc.prems it dr by (simp add: byte_at_def byte_put_def upd_conv_take_nth_drop)
  next
    case False
    have "strcopy_loop (s[i := t ! i]) t (Suc i) n =
      (let str = take n (str_of (drop (Suc i) t)); k = length str in
       if k < n then Ok (Suc i + k + 1, n - k - 1,
         take (Suc i) (s[i := t ! i]) @ str @ 0 # drop (Suc i + k + 1) (s[i := t ! i]))
       else Ok (Suc i + n, 0, take (Suc i) (s[i := t ! i]) @ str @ drop (Suc i + n) (s[i := t ! i])))"
      using Suc.prems it dr False by (intro Suc.IH) auto
    moreover have "i < length s" using Suc.prems by simp
    moreover have "strcopy_loop s t i (Suc n) = strcopy_loop (s[i := t ! i]) t (Suc i) n"
      using it False \<open>i < length s\<close> by (simp add: byte_at_def byte_put_def)
    moreover have "str_of (drop i t) = t ! i # str_of (drop (Suc i) t)" using dr False by simp
    moreover have "take (Suc i) (s[i := t ! i]) = take i s @ [t ! i]"
      using \<open>i < length s\<close> by (simp add: take_Suc_conv_app_nth)
    ultimately show ?thesis by (simp add: Let_def del: strcopy_loop.simps)
  qed
qed

lemma zero_loop_eq:
  "i + n \<le> length s \<Longrightarrow> zero_loop s i n = Ok (take i s @ replicate n 0 @ drop (i + n) s)"
proof (induction n arbitrary: i s)
  case (Suc n)
  have "take (Suc i) (s[i := 0]) = take i s @ [0]"
    using Suc.prems by (simp add: take_Suc_conv_app_nth)
  moreover have "zero_loop (s[i := 0]) (Suc i) n =
      Ok (take (Suc i) (s[i := 0]) @ replicate n 0 @ drop (Suc i + n) (s[i := 0]))"
    using Suc.prems by (intro Suc.IH) simp
  ultimately show ?case using Suc.prems by (simp add: byte_put_def)
qed simp

lemma strcopy_short:
  "n \<le> length s \<Longrightarrow> n \<le> length t \<or> 0 \<in> set t \<Longrightarrow> length (str_of t) < n \<Longrightarrow>
     strcopy_loop s t 0 n = Ok (Suc (length (str_of t)), n - length (str_of t) - 1,
       str_of t @ 0 # drop (Suc (length (str_of t))) s)"
  using strcopy_loop_eq [of 0 n s t] by (simp add: Let_def)

lemma strcopy_long:
  "n \<le> length s \<Longrightarrow> n \<le> length t \<or> 0 \<in> set t \<Longrightarrow> n \<le> length (str_of t) \<Longrightarrow>
     strcopy_loop s t 0 n = Ok (n, 0, take n (str_of t) @ drop n s)"
  using strcopy_loop_eq [of 0 n s t] by (simp add: Let_def)

lemma zero_rest:
  assumes "length str < k" and "k \<le> length s"
  shows "zero_loop (str @ 0 # drop (Suc (length str)) s) (Suc (length str)) (k - length str - 1) =
    Ok (str @ replicate (k - length str) 0 @ drop k s)"
proof -
  obtain d where k: "k = length str + Suc d" using assms(1) less_imp_Suc_add by auto
  show ?thesis using assms(2) unfolding k by (subst zero_loop_eq) (auto simp: add.commute)
qed

lemma strncpy_eq:
  assumes "nat (sint n) \<le> length s" and "nat (sint n) \<le> length t \<or> 0 \<in> set t"
  shows "strncpy s t n = Ok (take (nat (sint n)) (str_of t) @
    replicate (nat (sint n) - length (str_of t)) 0 @ drop (nat (sint n)) s)"
proof (cases "length (str_of t) < nat (sint n)")
  case True
  then show ?thesis using assms zero_rest [OF True assms(1)] by (simp add: strncpy_def strcopy_short)
next
  case False
  then show ?thesis using assms by (simp add: strncpy_def strcopy_long)
qed

lemma str_of_append:
  "str_of (xs @ ys) = (if 0 \<in> set xs then str_of xs else xs @ str_of ys)"
  by (induction xs) auto

lemma str_of_nonzero [simp]: "0 \<notin> set (str_of xs)"
  by (induction xs) auto

lemma zero_notin_take_str_of [simp]: "0 \<notin> set (take k (str_of xs))"
  using str_of_nonzero in_set_takeD by metis

lemma safestrcpy_ok:
  assumes "0 < sint n" and "nat (sint n) \<le> length s" and "nat (sint n) \<le> length t \<or> 0 \<in> set t"
  shows "\<exists>s'. safestrcpy s t n = Ok s' \<and> length s' = length s \<and>
    str_of s' = take (nat (sint n) - 1) (str_of t) \<and> drop (nat (sint n)) s' = drop (nat (sint n)) s"
proof -
  obtain k where k: "nat (sint n) = Suc k" using assms(1) by (cases "nat (sint n)") auto
  have src: "k \<le> length t \<or> 0 \<in> set t" using assms(3) k by auto
  show ?thesis
  proof (cases "length (str_of t) < k")
    case True
    have "safestrcpy s t n = Ok (str_of t @ 0 # (drop (Suc (length (str_of t))) s)[0 := 0])"
      using True assms(1,2) src k by (simp add: safestrcpy_def strcopy_short byte_put_def list_update_append)
    moreover obtain d where "k = Suc (length (str_of t) + d)" using True less_imp_Suc_add by blast
    ultimately show ?thesis using True assms k by (auto simp: str_of_append add.commute)
  next
    case False
    obtain c rest where "drop k s = c # rest" using assms k by (cases "drop k s") auto
    moreover from this have "safestrcpy s t n = Ok (take k (str_of t) @ 0 # rest)"
      using False assms(1,2) src k by (simp add: safestrcpy_def strcopy_long byte_put_def list_update_append)
    moreover have "rest = drop (Suc k) s" using calculation(1) by (metis drop_Suc list.sel(3) tl_drop)
    ultimately show ?thesis using False assms k by (auto simp: str_of_append)
  qed
qed

lemma strncmp_loop_zero:
  assumes "0 \<in> set (drop i p)" and "0 \<in> set (drop i q)"
  shows "\<exists>d. strncmp_loop p q i n = Ok d \<and>
    (d = 0 \<longleftrightarrow> take n (str_of (drop i p)) = take n (str_of (drop i q)))"
  using assms
proof (induction n arbitrary: i)
  case (Suc n)
  have lt: "i < length p" "i < length q" using Suc.prems by (auto intro: ccontr)
  then have dr: "drop i p = p ! i # drop (Suc i) p" "drop i q = q ! i # drop (Suc i) q"
    by (simp_all add: Cons_nth_drop_Suc)
  have cast: "ucast (p ! i) - ucast (q ! i) = (0 :: cint) \<longleftrightarrow> p ! i = q ! i"
    by (simp add: ucast_uchar_eq)
  show ?case
  proof (cases "p ! i \<noteq> 0 \<and> p ! i = q ! i")
    case True
    then show ?thesis using Suc.IH [of "Suc i"] Suc.prems dr lt by (auto simp: byte_at_def)
  next
    case False
    then show ?thesis using dr lt cast by (auto simp: byte_at_def)
  qed
qed simp

section \<open>Properties\<close>

text \<open>C17: \<open>memset\<close> sets exactly the \<open>n\<close> bytes from \<open>dst\<close> on to the low byte of \<open>c\<close>, and no other
  byte, for every length below 2 GiB: the fast route that stores four bytes at a time (taken when
  address and length are multiples of four) agrees with the byte-wise one.\<close>

theorem memset_sets_bytes:
  assumes "unat n < 2 ^ 31"
  shows "memset dst c n m x = (if unat (x - dst) < unat n then ucast c else m x)"
  using assms by (simp add: memset_fill fill_def)

theorem memset_sets_bytes_witness:
  "unat (8 :: uint64) < 2 ^ 31 \<and> memset 0x1000 0x1AB 8 (\<lambda>_. 7) 0x1007 = 0xAB \<and>
   memset 0x1000 0x1AB 8 (\<lambda>_. 7) 0x1008 = 7"
  using memset_sets_bytes [of 8 "0x1000" "0x1AB" "\<lambda>_. 7" "0x1007"]
    memset_sets_bytes [of 8 "0x1000" "0x1AB" "\<lambda>_. 7" "0x1008"] by simp

text \<open>C18: \<open>memmove\<close> moves correctly even when the ranges overlap: every destination byte ends with
  what the source byte held \<^emph>\<open>before\<close> the call, and nothing else changes, provided that neither
  range wraps around the address space.\<close>

theorem memmove_overlap:
  assumes "unat src + unat n < 2 ^ 64" and "unat dst + unat n \<le> 2 ^ 64"
  shows "memmove dst src n m x = (if unat (x - dst) < unat n then m (src + (x - dst)) else m x)"
  using assms by (simp add: memmove_copied copied_def)

theorem memmove_overlap_witness:
  "unat (0x1000 :: addr_t) + unat (8 :: uint) < 2 ^ 64 \<and> unat (0x1002 :: addr_t) + unat (8 :: uint) \<le> 2 ^ 64 \<and>
   memmove 0x1002 0x1000 8 (\<lambda>a. ucast a) 0x1005 = 3"
  using memmove_overlap [of "0x1000" 8 "0x1002" "\<lambda>a. ucast a" "0x1005"] by simp

text \<open>C19: \<open>safestrcpy\<close> on a NUL-terminated source never runs past the \<open>n\<close> bytes it was given, always
  leaves a NUL-terminated string, and that string is the longest prefix of the source that fits.\<close>

theorem safestrcpy_terminates:
  assumes "0 < sint n" and "nat (sint n) \<le> length s" and "0 \<in> set t"
  shows "\<exists>s'. safestrcpy s t n = Ok s' \<and> length s' = length s \<and>
    str_of s' = take (nat (sint n) - 1) (str_of t) \<and> drop (nat (sint n)) s' = drop (nat (sint n)) s"
  using assms by (intro safestrcpy_ok) simp_all

theorem safestrcpy_terminates_witness:
  "0 < sint (3 :: cint) \<and> nat (sint (3 :: cint)) \<le> length [1, 2, 3, 4 :: uchar] \<and>
   0 \<in> set [65, 66, 67, 0 :: uchar] \<and>
   (\<exists>s'. safestrcpy [1, 2, 3, 4] [65, 66, 67, 0] 3 = Ok s' \<and> str_of s' = [65, 66])"
  using safestrcpy_terminates [of 3 "[1, 2, 3, 4]" "[65, 66, 67, 0]"] by auto

end
