(* ===== verification/Spinlock.thy ===== *)
theory Spinlock
  imports Params
begin

text \<open>
  \<^verbatim>\<open>spinlock.c\<close>: interrupt masking (\<open>pushcli\<close>, \<open>popcli\<close>) and spin locks, first as operations of
  one processor and then as a step relation of any number of processors that contend for one
  lock. The call stack a lock records for debugging (\<open>pcs\<close>) is left out.
\<close>

section \<open>Processor and lock\<close>

text \<open>
  \<open>cpu_if\<close> is the \<open>FL_IF\<close> bit of the flags register, which \<open>cli\<close> clears and \<open>sti\<close> sets. The depth
  of nesting \<open>ncli\<close> is an \<open>int\<close>: its increments wrap at 32 bits and its tests read it as signed.
\<close>

record cpu =
  cpu_id :: nat
  cpu_ncli :: cint
  cpu_intena :: bool
  cpu_if :: bool

record spinlock =
  lk_locked :: bool
  lk_cpu :: "nat option"

definition initlock :: spinlock where
  "initlock = \<lparr>lk_locked = False, lk_cpu = None\<rparr>"

definition holding :: "cpu \<Rightarrow> spinlock \<Rightarrow> bool" where
  "holding c lk \<longleftrightarrow> lk_locked lk \<and> lk_cpu lk = Some (cpu_id c)"

definition pushcli :: "cpu \<Rightarrow> cpu" where
  "pushcli c =
     (let eflags = cpu_if c;
          c = c\<lparr>cpu_if := False\<rparr>;
          c = (if cpu_ncli c = 0 then c\<lparr>cpu_intena := eflags\<rparr> else c)
      in c\<lparr>cpu_ncli := cpu_ncli c + 1\<rparr>)"

definition popcli :: "cpu \<Rightarrow> cpu outcome" where
  "popcli c =
     (if cpu_if c then Panic ''popcli - interruptible''
      else let c = c\<lparr>cpu_ncli := cpu_ncli c - 1\<rparr> in
        if sint (cpu_ncli c) < 0 then Panic ''popcli''
        else if cpu_ncli c = 0 \<and> cpu_intena c then Ok (c\<lparr>cpu_if := True\<rparr>) else Ok c)"

text \<open>
  \<open>acquire\<close> spins while the lock is taken: on one processor alone that spin does not end, which
  is the outcome \<open>Blocked\<close>.
\<close>

definition acquire :: "cpu \<Rightarrow> spinlock \<Rightarrow> (cpu \<times> spinlock) outcome" where
  "acquire c lk =
     (let c = pushcli c in
      if holding c lk then Panic ''acquire''
      else if lk_locked lk then Blocked ''spin''
      else Ok (c, lk\<lparr>lk_locked := True, lk_cpu := Some (cpu_id c)\<rparr>))"

definition release :: "cpu \<Rightarrow> spinlock \<Rightarrow> (cpu \<times> spinlock) outcome" where
  "release c lk =
     (if \<not> holding c lk then Panic ''release''
      else let lk = lk\<lparr>lk_cpu := None\<rparr>; lk = lk\<lparr>lk_locked := False\<rparr>
        in andthen (popcli c) (\<lambda>c. Ok (c, lk)))"

section \<open>Matched calls on one processor\<close>

text \<open>
  A processor between calls: with no \<open>pushcli\<close> outstanding the remembered flag is the current
  one, with some outstanding interrupts are off, and the counter has room for one more. It is settled
  when there is room for two more, so that one lock may be taken under another.
\<close>

definition cpu_nested :: "cpu \<Rightarrow> bool" where
  "cpu_nested c \<longleftrightarrow>
     0 \<le> sint (cpu_ncli c) \<and> sint (cpu_ncli c) < 2 ^ 31 - 1 \<and>
     (if cpu_ncli c = 0 then cpu_intena c = cpu_if c else \<not> cpu_if c)"

definition cpu_settled :: "cpu \<Rightarrow> bool" where
  "cpu_settled c \<longleftrightarrow> cpu_nested c \<and> sint (cpu_ncli c) < 2 ^ 31 - 2"

lemma settled_nested [simp]: "cpu_settled c \<Longrightarrow> cpu_nested c"
  by (simp add: cpu_settled_def)

definition lock_free :: "spinlock \<Rightarrow> bool" where
  "lock_free lk \<longleftrightarrow> \<not> lk_locked lk \<and> lk_cpu lk = None"

lemma lock_free_eq: "lock_free lk \<Longrightarrow> lk = initlock"
  by (cases lk) (simp add: lock_free_def initlock_def)

lemma lock_free_initlock [simp]: "lock_free initlock"
  by (simp add: lock_free_def initlock_def)

lemma pushcli_id [simp]: "cpu_id (pushcli c) = cpu_id c"
  by (simp add: pushcli_def Let_def)

lemma popcli_pushcli: "cpu_nested c \<Longrightarrow> popcli (pushcli c) = Ok c"
  by (cases c) (auto simp: cpu_nested_def popcli_def pushcli_def Let_def split: if_splits)

lemma pushcli_if_off: "\<not> cpu_if (pushcli c)"
  by (simp add: pushcli_def Let_def)

lemma pushcli_ncli: "cpu_ncli (pushcli c) = cpu_ncli c + 1"
  by (simp add: pushcli_def Let_def)

lemma pushcli_nested:
  assumes "cpu_settled c"
  shows "cpu_nested (pushcli c)"
proof -
  have "sint (cpu_ncli (pushcli c)) = sint (cpu_ncli c) + 1"
    using assms by (simp add: cpu_settled_def pushcli_ncli sint_inc)
  then have "0 < sint (cpu_ncli (pushcli c))" "sint (cpu_ncli (pushcli c)) < 2 ^ 31 - 1"
    using assms by (simp_all add: cpu_settled_def cpu_nested_def)
  moreover from this(1) have "cpu_ncli (pushcli c) \<noteq> 0" by auto
  ultimately show ?thesis using pushcli_if_off by (simp add: cpu_nested_def)
qed

text \<open>The lock a processor holds after a successful \<open>acquire\<close>.\<close>

definition locked_by :: "cpu \<Rightarrow> spinlock" where
  "locked_by c = \<lparr>lk_locked = True, lk_cpu = Some (cpu_id c)\<rparr>"

named_theorems lock_simps \<open>taking and dropping a free lock\<close>

lemma acquire_free [lock_simps]:
  "lock_free lk \<Longrightarrow> acquire c lk = Ok (pushcli c, locked_by c)"
  by (cases lk) (simp add: acquire_def holding_def lock_free_def locked_by_def Let_def)

lemma release_locked_by [lock_simps]:
  "cpu_nested c \<Longrightarrow> release (pushcli c) (locked_by c) = Ok (c, initlock)"
  by (simp add: release_def holding_def locked_by_def popcli_pushcli initlock_def Let_def)

lemma acquire_again: "acquire (pushcli c) (locked_by c) = Panic ''acquire''"
  by (simp add: acquire_def holding_def locked_by_def Let_def)

primrec pushcli_n :: "nat \<Rightarrow> cpu \<Rightarrow> cpu" where
  "pushcli_n 0 c = c"
| "pushcli_n (Suc n) c = pushcli_n n (pushcli c)"

primrec popcli_n :: "nat \<Rightarrow> cpu \<Rightarrow> cpu outcome" where
  "popcli_n 0 c = Ok c"
| "popcli_n (Suc n) c = andthen (popcli c) (popcli_n n)"

lemma pushcli_n_snoc: "pushcli_n (Suc n) c = pushcli (pushcli_n n c)"
  by (induction n arbitrary: c) simp_all

lemma pushcli_n_nested:
  assumes "cpu_nested c" and "sint (cpu_ncli c) + int n < 2 ^ 31 - 1"
  shows "cpu_nested (pushcli_n n c) \<and> sint (cpu_ncli (pushcli_n n c)) = sint (cpu_ncli c) + int n"
  using assms(2)
proof (induction n)
  case (Suc n)
  then have IH: "cpu_settled (pushcli_n n c)" "sint (cpu_ncli (pushcli_n n c)) = sint (cpu_ncli c) + int n"
    by (simp_all add: cpu_settled_def)
  then show ?case
    using pushcli_nested [OF IH(1)]
    by (simp add: pushcli_n_snoc pushcli_ncli sint_inc cpu_settled_def del: pushcli_n.simps)
qed (use assms(1) in simp)

lemma pushcli_n_ncli:
  assumes "cpu_nested c" and "sint (cpu_ncli c) + int n < 2 ^ 31"
  shows "sint (cpu_ncli (pushcli_n n c)) = sint (cpu_ncli c) + int n"
proof (cases n)
  case (Suc m)
  then show ?thesis
    using pushcli_n_nested [OF assms(1), of m] assms(2)
    by (simp add: pushcli_n_snoc pushcli_ncli sint_inc del: pushcli_n.simps)
qed simp

lemma popcli_pushcli_n:
  "cpu_nested c \<Longrightarrow> sint (cpu_ncli c) + int n < 2 ^ 31 \<Longrightarrow> popcli_n n (pushcli_n n c) = Ok c"
proof (induction n)
  case (Suc n)
  then show ?case
    using pushcli_n_nested [of c n] by (simp add: pushcli_n_snoc popcli_pushcli del: pushcli_n.simps)
qed simp

section \<open>Several processors and one lock\<close>

text \<open>
  One processor's way through \<open>acquire\<close>, a critical section that reads the shared data and then
  writes it back changed, and \<open>release\<close>. Each constructor is a point between two memory accesses
  of the code, so other processors may run at every one of them.
\<close>

datatype 'd lock_pc =
    Idle
  | Entered
  | Tested
  | Spin
  | Got
  | Inside
  | Loaded 'd
  | Stored
  | Checked
  | Mine
  | Cleared
  | Unlocked
  | Panicked string

record 'd smp =
  smp_lock :: spinlock
  smp_cpu :: "nat \<Rightarrow> cpu"
  smp_pc :: "nat \<Rightarrow> 'd lock_pc"
  smp_data :: 'd
  smp_hist :: "nat list"

definition set_pc :: "nat \<Rightarrow> 'd lock_pc \<Rightarrow> 'd smp \<Rightarrow> 'd smp" where
  "set_pc i p s = s\<lparr>smp_pc := (smp_pc s)(i := p)\<rparr>"

definition set_cpu :: "nat \<Rightarrow> cpu \<Rightarrow> 'd smp \<Rightarrow> 'd smp" where
  "set_cpu i c s = s\<lparr>smp_cpu := (smp_cpu s)(i := c)\<rparr>"

text \<open>
  The steps of processor \<open>i\<close>: \<open>pushcli\<close>; the two loads of \<open>holding\<close> in \<open>acquire\<close>, of the lock word
  and, when that is set, of the owner; the \<open>xchg\<close> loop; recording the owner; the critical section; the
  two loads of \<open>holding\<close> in \<open>release\<close>; the clearing of the owner; the store that frees the lock;
  \<open>popcli\<close>. \<open>pushcli\<close> and \<open>popcli\<close> touch only what is the processor's own. \<open>smp_hist\<close> is a ghost: the
  order in which the processors stored.
\<close>

inductive smp_step :: "(nat \<Rightarrow> 'd \<Rightarrow> 'd) \<Rightarrow> 'd smp \<Rightarrow> 'd smp \<Rightarrow> bool" for f where
  enter: "smp_pc s i = Idle \<Longrightarrow> c = pushcli (smp_cpu s i) \<Longrightarrow>
     smp_step f s (set_pc i Entered (set_cpu i c s))"
| test: "smp_pc s i = Entered \<Longrightarrow>
     smp_step f s (set_pc i (if lk_locked (smp_lock s) then Tested else Spin) s)"
| test_cpu: "smp_pc s i = Tested \<Longrightarrow>
     smp_step f s (set_pc i (if lk_cpu (smp_lock s) = Some (cpu_id (smp_cpu s i))
       then Panicked ''acquire'' else Spin) s)"
| spin: "smp_pc s i = Spin \<Longrightarrow> lk_locked (smp_lock s) \<Longrightarrow> smp_step f s s"
| xchg: "smp_pc s i = Spin \<Longrightarrow> \<not> lk_locked (smp_lock s) \<Longrightarrow>
     smp_step f s (set_pc i Got (s\<lparr>smp_lock := (smp_lock s)\<lparr>lk_locked := True\<rparr>\<rparr>))"
| own: "smp_pc s i = Got \<Longrightarrow>
     smp_step f s (set_pc i Inside
       (s\<lparr>smp_lock := (smp_lock s)\<lparr>lk_cpu := Some (cpu_id (smp_cpu s i))\<rparr>\<rparr>))"
| load: "smp_pc s i = Inside \<Longrightarrow> smp_step f s (set_pc i (Loaded (smp_data s)) s)"
| store: "smp_pc s i = Loaded d \<Longrightarrow>
     smp_step f s (set_pc i Stored (s\<lparr>smp_data := f i d, smp_hist := smp_hist s @ [i]\<rparr>))"
| check: "smp_pc s i = Stored \<Longrightarrow>
     smp_step f s (set_pc i (if lk_locked (smp_lock s) then Checked else Panicked ''release'') s)"
| check_cpu: "smp_pc s i = Checked \<Longrightarrow>
     smp_step f s (set_pc i (if lk_cpu (smp_lock s) = Some (cpu_id (smp_cpu s i))
       then Mine else Panicked ''release'') s)"
| clear: "smp_pc s i = Mine \<Longrightarrow>
     smp_step f s (set_pc i Cleared (s\<lparr>smp_lock := (smp_lock s)\<lparr>lk_cpu := None\<rparr>\<rparr>))"
| unlock: "smp_pc s i = Cleared \<Longrightarrow>
     smp_step f s (set_pc i Unlocked (s\<lparr>smp_lock := (smp_lock s)\<lparr>lk_locked := False\<rparr>\<rparr>))"
| leave: "smp_pc s i = Unlocked \<Longrightarrow>
     smp_step f s (case popcli (smp_cpu s i) of
         Ok c \<Rightarrow> set_pc i Idle (set_cpu i c s)
       | Panic m \<Rightarrow> set_pc i (Panicked m) s
       | _ \<Rightarrow> s)"

inductive smp_reach :: "(nat \<Rightarrow> 'd \<Rightarrow> 'd) \<Rightarrow> 'd smp \<Rightarrow> 'd smp \<Rightarrow> bool" for f s\<^sub>0 where
  start: "smp_reach f s\<^sub>0 s\<^sub>0"
| next_step: "smp_reach f s\<^sub>0 s \<Longrightarrow> smp_step f s t \<Longrightarrow> smp_reach f s\<^sub>0 t"

text \<open>The processors that own the lock word, and those the lock's owner field names.\<close>

fun owns :: "'d lock_pc \<Rightarrow> bool" where
  "owns Got = True"
| "owns Inside = True"
| "owns (Loaded d) = True"
| "owns Stored = True"
| "owns Checked = True"
| "owns Mine = True"
| "owns Cleared = True"
| "owns p = False"

fun recorded :: "'d lock_pc \<Rightarrow> bool" where
  "recorded Inside = True"
| "recorded (Loaded d) = True"
| "recorded Stored = True"
| "recorded Checked = True"
| "recorded Mine = True"
| "recorded p = False"

fun masked :: "'d lock_pc \<Rightarrow> bool" where
  "masked Idle = False"
| "masked p = True"

definition smp_init :: "'d \<Rightarrow> 'd smp \<Rightarrow> bool" where
  "smp_init d s \<longleftrightarrow>
     lock_free (smp_lock s) \<and> (\<forall>i. smp_pc s i = Idle) \<and> smp_data s = d \<and> smp_hist s = [] \<and>
     (\<forall>i. cpu_id (smp_cpu s i) = i \<and> cpu_nested (smp_cpu s i))"

text \<open>
  The invariant in four parts: who owns the lock word, whom the owner field names, that the data
  are what the stores so far make of the initial data, and that the processors' interrupt state
  matches their place in the code.
\<close>

definition owners :: "'d smp \<Rightarrow> nat set" where
  "owners s = {i. owns (smp_pc s i)}"

definition recs :: "'d smp \<Rightarrow> nat set" where
  "recs s = {i. recorded (smp_pc s i)}"

definition own_inv :: "'d smp \<Rightarrow> bool" where
  "own_inv s \<longleftrightarrow>
     (if lk_locked (smp_lock s) then \<exists>k. owners s = {k} else owners s = {})"

definition rec_inv :: "'d smp \<Rightarrow> bool" where
  "rec_inv s \<longleftrightarrow>
     recs s = set_option (lk_cpu (smp_lock s)) \<and>
     (\<forall>i. cpu_id (smp_cpu s i) = i) \<and> (\<forall>i m. smp_pc s i \<noteq> Panicked m)"

definition data_inv :: "(nat \<Rightarrow> 'd \<Rightarrow> 'd) \<Rightarrow> 'd \<Rightarrow> 'd smp \<Rightarrow> bool" where
  "data_inv f d\<^sub>0 s \<longleftrightarrow>
     smp_data s = fold f (smp_hist s) d\<^sub>0 \<and>
     (\<forall>i d. smp_pc s i = Loaded d \<longrightarrow> d = smp_data s)"

definition cpu_inv :: "'d smp \<Rightarrow> bool" where
  "cpu_inv s \<longleftrightarrow>
     (\<forall>i. \<exists>c. cpu_nested c \<and>
        smp_cpu s i = (if masked (smp_pc s i) then pushcli c else c))"

definition smp_inv :: "(nat \<Rightarrow> 'd \<Rightarrow> 'd) \<Rightarrow> 'd \<Rightarrow> 'd smp \<Rightarrow> bool" where
  "smp_inv f d\<^sub>0 s \<longleftrightarrow> own_inv s \<and> rec_inv s \<and> data_inv f d\<^sub>0 s \<and> cpu_inv s"

lemmas smp_inv_defs = own_inv_def rec_inv_def data_inv_def cpu_inv_def smp_inv_def

lemma smp_init_inv: "smp_init d s \<Longrightarrow> smp_inv f d s"
  by (auto simp: smp_init_def smp_inv_defs lock_free_def owners_def recs_def)

lemma owns_recorded: "recorded p \<Longrightarrow> owns p"
  by (cases p) auto

lemma recs_owners: "recs s \<subseteq> owners s"
  by (auto simp: recs_def owners_def owns_recorded)

lemma owner_upd [simp]:
  "owners (set_pc i p s) = (if owns p then insert i (owners s) else owners s - {i})"
  "recs (set_pc i p s) = (if recorded p then insert i (recs s) else recs s - {i})"
  by (auto simp: owners_def recs_def set_pc_def)

lemma owner_frame [simp]:
  "owners (s\<lparr>smp_lock := l\<rparr>) = owners s" "recs (s\<lparr>smp_lock := l\<rparr>) = recs s"
  "owners (s\<lparr>smp_data := d, smp_hist := h\<rparr>) = owners s"
  "recs (s\<lparr>smp_data := d, smp_hist := h\<rparr>) = recs s"
  "owners (set_cpu i c s) = owners s" "recs (set_cpu i c s) = recs s"
  by (simp_all add: owners_def recs_def set_cpu_def)

lemma smp_pc_mem:
  "owns (smp_pc s i) \<longleftrightarrow> i \<in> owners s" "recorded (smp_pc s i) \<longleftrightarrow> i \<in> recs s"
  by (simp_all add: owners_def recs_def)

lemma set_pc_sel [simp]:
  "smp_lock (set_pc i p s) = smp_lock s" "smp_cpu (set_pc i p s) = smp_cpu s"
  "smp_data (set_pc i p s) = smp_data s" "smp_hist (set_pc i p s) = smp_hist s"
  "smp_pc (set_pc i p s) = (smp_pc s)(i := p)"
  by (simp_all add: set_pc_def)

lemma set_cpu_sel [simp]:
  "smp_lock (set_cpu i c s) = smp_lock s" "smp_pc (set_cpu i c s) = smp_pc s"
  "smp_data (set_cpu i c s) = smp_data s" "smp_hist (set_cpu i c s) = smp_hist s"
  "smp_cpu (set_cpu i c s) = (smp_cpu s)(i := c)"
  by (simp_all add: set_cpu_def)

text \<open>The owner field names a processor when it is one that has recorded itself.\<close>

lemma owner_iff:
  assumes "rec_inv s"
  shows "lk_cpu (smp_lock s) = Some (cpu_id (smp_cpu s i)) \<longleftrightarrow> recorded (smp_pc s i)"
  using assms by (auto simp: rec_inv_def smp_pc_mem)

lemma cpu_inv_popcli:
  assumes "cpu_inv s" and "smp_pc s i = Unlocked"
  obtains c where "popcli (smp_cpu s i) = Ok c" and "cpu_nested c"
    and "cpu_id c = cpu_id (smp_cpu s i)"
proof -
  from assms obtain c where "cpu_nested c" and "smp_cpu s i = pushcli c"
    by (metis cpu_inv_def masked.simps)
  then show thesis using popcli_pushcli by (intro that [of c]) auto
qed

lemma owner_locked:
  assumes "own_inv s" and "owns (smp_pc s i)"
  shows "lk_locked (smp_lock s)" and "owners s = {i}"
  using assms by (auto simp: own_inv_def smp_pc_mem split: if_splits)

lemma cpu_inv_upd:
  assumes "cpu_inv s" and "masked (smp_pc s i)" and "masked p"
  shows "cpu_inv (set_pc i p s)"
  using assms by (simp add: cpu_inv_def) metis

lemma cpu_inv_set:
  assumes "cpu_inv s" and "cpu_nested c" and "c' = (if masked p then pushcli c else c)"
  shows "cpu_inv (set_pc i p (set_cpu i c' s))"
  unfolding cpu_inv_def
proof
  fix j
  show "\<exists>c. cpu_nested c \<and> smp_cpu (set_pc i p (set_cpu i c' s)) j =
      (if masked (smp_pc (set_pc i p (set_cpu i c' s)) j) then pushcli c else c)"
  proof (cases "j = i")
    case True then show ?thesis using assms(2,3) by (intro exI [of _ c]) simp
  next
    case False then show ?thesis using assms(1) by (simp add: cpu_inv_def)
  qed
qed

lemma cpu_inv_frame [simp]:
  "cpu_inv (s\<lparr>smp_lock := l\<rparr>) = cpu_inv s"
  "cpu_inv (s\<lparr>smp_data := d, smp_hist := h\<rparr>) = cpu_inv s"
  by (simp_all add: cpu_inv_def)

lemma data_inv_upd:
  assumes "data_inv f d\<^sub>0 s" and "\<And>d. p = Loaded d \<Longrightarrow> d = smp_data s"
  shows "data_inv f d\<^sub>0 (set_pc i p s)"
  using assms by (simp add: data_inv_def) metis

lemma data_inv_frame [simp]:
  "data_inv f d\<^sub>0 (s\<lparr>smp_lock := l\<rparr>) = data_inv f d\<^sub>0 s"
  "data_inv f d\<^sub>0 (set_cpu i c s) = data_inv f d\<^sub>0 s"
  by (simp_all add: data_inv_def)

lemma smp_step_own:
  assumes "smp_step f s t" and "smp_inv f d\<^sub>0 s"
  shows "own_inv t"
proof -
  from assms(2) have inv: "own_inv s" "rec_inv s" "cpu_inv s" by (auto simp: smp_inv_def)
  note own_i = owner_locked [OF inv(1)]
  from assms(1) show ?thesis
  proof cases
    case (enter i c)
    have "i \<notin> owners s" using enter by (simp add: smp_pc_mem [symmetric])
    then show ?thesis using enter inv(1) by (auto simp: own_inv_def)
  next
    case (test i)
    have "i \<notin> owners s" using test by (simp add: smp_pc_mem [symmetric])
    then show ?thesis using test inv(1) by (auto simp: own_inv_def)
  next
    case (test_cpu i)
    have "i \<notin> owners s" using test_cpu by (simp add: smp_pc_mem [symmetric])
    then show ?thesis using test_cpu inv(1) by (auto simp: own_inv_def)
  next
    case (spin i) then show ?thesis using inv(1) by simp
  next
    case (xchg i) then show ?thesis using inv(1) by (simp add: own_inv_def)
  next
    case (own i) then show ?thesis using own_i [of i] by (simp add: own_inv_def)
  next
    case (load i) then show ?thesis using own_i [of i] by (simp add: own_inv_def)
  next
    case (store i d) then show ?thesis using own_i [of i] by (simp add: own_inv_def)
  next
    case (check i) then show ?thesis using own_i [of i] by (simp add: own_inv_def)
  next
    case (check_cpu i)
    then show ?thesis using own_i [of i] owner_iff [OF inv(2), of i] by (simp add: own_inv_def)
  next
    case (clear i) then show ?thesis using own_i [of i] by (simp add: own_inv_def)
  next
    case (unlock i) then show ?thesis using own_i [of i] by (simp add: own_inv_def)
  next
    case (leave i)
    have "i \<notin> owners s" using leave by (simp add: smp_pc_mem [symmetric])
    then show ?thesis using leave inv(1)
      by (auto simp: own_inv_def split: outcome.splits)
  qed
qed

lemma smp_step_rec:
  assumes "smp_step f s t" and "smp_inv f d\<^sub>0 s"
  shows "rec_inv t"
proof -
  from assms(2) have inv: "own_inv s" "rec_inv s" "cpu_inv s" by (auto simp: smp_inv_def)
  have cid: "\<And>i. cpu_id (smp_cpu s i) = i" using inv(2) by (simp add: rec_inv_def)
  note hold = owner_iff [OF inv(2)]
  from assms(1) show ?thesis
  proof cases
    case (enter i c)
    then have "i \<notin> recs s" by (simp add: smp_pc_mem [symmetric])
    then show ?thesis using enter inv(2) by (auto simp: rec_inv_def)
  next
    case (test i)
    then have "i \<notin> recs s" by (simp add: smp_pc_mem [symmetric])
    then show ?thesis using test inv(2) by (auto simp: rec_inv_def)
  next
    case (test_cpu i)
    then have "i \<notin> recs s" "lk_cpu (smp_lock s) \<noteq> Some (cpu_id (smp_cpu s i))"
      using hold [of i] by (simp_all add: smp_pc_mem [symmetric])
    then show ?thesis using test_cpu inv(2) by (auto simp: rec_inv_def)
  next
    case (spin i) then show ?thesis using inv(2) by simp
  next
    case (xchg i)
    then have "i \<notin> recs s" by (simp add: smp_pc_mem [symmetric])
    then show ?thesis using xchg inv(2) by (auto simp: rec_inv_def)
  next
    case (own i)
    then have "i \<notin> recs s" and "owners s = {i}"
      using owner_locked(2) [OF inv(1), of i] by (simp_all add: smp_pc_mem [symmetric])
    then have "recs s = {}" using recs_owners [of s] by auto
    then show ?thesis using own inv(2) cid by (auto simp: rec_inv_def)
  next
    case (load i)
    then have "i \<in> recs s" by (simp add: smp_pc_mem [symmetric])
    then show ?thesis using load inv(2) by (auto simp: rec_inv_def)
  next
    case (store i d)
    then have "i \<in> recs s" by (simp add: smp_pc_mem [symmetric])
    then show ?thesis using store inv(2) by (auto simp: rec_inv_def)
  next
    case (check i)
    then have "i \<in> recs s" "lk_locked (smp_lock s)"
      using owner_locked(1) [OF inv(1), of i] by (simp_all add: smp_pc_mem [symmetric])
    then show ?thesis using check inv(2) by (auto simp: rec_inv_def)
  next
    case (check_cpu i)
    then have "i \<in> recs s" "lk_cpu (smp_lock s) = Some (cpu_id (smp_cpu s i))"
      using hold [of i] by (simp_all add: smp_pc_mem [symmetric])
    then show ?thesis using check_cpu inv(2) by (auto simp: rec_inv_def)
  next
    case (clear i)
    then have "i \<in> recs s" by (simp add: smp_pc_mem [symmetric])
    then show ?thesis using clear inv(2) by (auto simp: rec_inv_def)
  next
    case (unlock i)
    then have "i \<notin> recs s" by (simp add: smp_pc_mem [symmetric])
    then show ?thesis using unlock inv(2) by (auto simp: rec_inv_def)
  next
    case (leave i)
    then have "i \<notin> recs s" by (simp add: smp_pc_mem [symmetric])
    moreover obtain c where "popcli (smp_cpu s i) = Ok c" and "cpu_id c = cpu_id (smp_cpu s i)"
      using cpu_inv_popcli [OF inv(3)] leave by blast
    ultimately show ?thesis using leave inv(2) by (auto simp: rec_inv_def)
  qed
qed

lemma smp_step_data:
  assumes "smp_step f s t" and "smp_inv f d\<^sub>0 s"
  shows "data_inv f d\<^sub>0 t"
proof -
  from assms(2) have inv: "own_inv s" "data_inv f d\<^sub>0 s" by (auto simp: smp_inv_def)
  from assms(1) show ?thesis
  proof cases
    case (store i d)
    have "smp_pc s j \<noteq> Loaded d'" if "j \<noteq> i" for j d'
    proof
      assume "smp_pc s j = Loaded d'"
      then have "j \<in> owners s" by (simp add: smp_pc_mem [symmetric])
      then show False using that store owner_locked(2) [OF inv(1), of i] by simp
    qed
    then show ?thesis using store inv(2) by (auto simp: data_inv_def)
  qed (use inv(2) in \<open>auto intro!: data_inv_upd split: outcome.splits if_splits\<close>)
qed

lemma smp_step_cpu:
  assumes "smp_step f s t" and "smp_inv f d\<^sub>0 s"
  shows "cpu_inv t"
proof -
  from assms(2) have inv: "own_inv s" "rec_inv s" "cpu_inv s" by (auto simp: smp_inv_def)
  from assms(1) show ?thesis
  proof cases
    case (enter i c)
    then have "cpu_nested (smp_cpu s i)" using inv(3) by (metis cpu_inv_def masked.simps(1))
    then show ?thesis
      unfolding enter(1) using enter by (intro cpu_inv_set [OF inv(3)]) auto
  next
    case (leave i)
    obtain c where "popcli (smp_cpu s i) = Ok c" and "cpu_nested c"
      using cpu_inv_popcli [OF inv(3)] leave by blast
    then have "t = set_pc i Idle (set_cpu i c s)" using leave by simp
    then show ?thesis using cpu_inv_set [OF inv(3) \<open>cpu_nested c\<close>, of c Idle i] by simp
  qed (use inv(3) in \<open>simp_all add: cpu_inv_upd\<close>)
qed

lemma smp_step_inv: "smp_step f s t \<Longrightarrow> smp_inv f d\<^sub>0 s \<Longrightarrow> smp_inv f d\<^sub>0 t"
  unfolding smp_inv_def [of f d\<^sub>0 t]
  by (intro conjI smp_step_own smp_step_rec smp_step_data smp_step_cpu)

lemma smp_reach_inv:
  assumes "smp_init d\<^sub>0 s\<^sub>0" and "smp_reach f s\<^sub>0 s"
  shows "smp_inv f d\<^sub>0 s"
  using assms(2)
proof induction
  case start
  show ?case using assms(1) by (rule smp_init_inv)
next
  case (next_step s t)
  show ?case by (rule smp_step_inv [OF next_step.hyps(2) next_step.IH])
qed

section \<open>Properties\<close>

text \<open>C15: Mutual exclusion and freedom from lost updates: however any number of processors interleave
  the memory accesses of \<open>acquire\<close>, critical section and \<open>release\<close>, two of them are never between the
  \<open>xchg\<close> that takes the lock and the store that frees it, no test of \<open>acquire\<close>, \<open>release\<close>
  or \<open>popcli\<close> panics, and the shared data are the updates applied one after another.
\<close>

theorem spinlock_mutual_exclusion:
  assumes "smp_init d\<^sub>0 s\<^sub>0" and "smp_reach f s\<^sub>0 s"
  shows "(owns (smp_pc s i) \<and> owns (smp_pc s j) \<longrightarrow> i = j) \<and>
    smp_pc s i \<noteq> Panicked m \<and> smp_data s = fold f (smp_hist s) d\<^sub>0"
proof -
  have inv: "smp_inv f d\<^sub>0 s" by (rule smp_reach_inv [OF assms])
  have "i = j" if "owns (smp_pc s i)" and "owns (smp_pc s j)"
    using owner_locked(2) [of s i] owner_locked(2) [of s j] that inv by (auto simp: smp_inv_def)
  then show ?thesis using inv by (auto simp: smp_inv_def rec_inv_def data_inv_def)
qed

definition two_cpus :: "nat smp" where
  "two_cpus = \<lparr>smp_lock = initlock,
     smp_cpu = (\<lambda>i. \<lparr>cpu_id = i, cpu_ncli = 0, cpu_intena = True, cpu_if = True\<rparr>),
     smp_pc = (\<lambda>_. Idle), smp_data = 0, smp_hist = []\<rparr>"

lemma two_cpus_init: "smp_init 0 two_cpus"
  by (simp add: smp_init_def two_cpus_def cpu_nested_def)

lemma two_cpus_spin:
  "smp_reach f two_cpus (set_pc 1 Spin (set_cpu 1 (pushcli (smp_cpu two_cpus 1)) two_cpus))"
proof -
  let ?s = "set_pc 1 Entered (set_cpu 1 (pushcli (smp_cpu two_cpus 1)) two_cpus)"
  have "smp_reach f two_cpus ?s"
    by (rule smp_reach.next_step [OF smp_reach.start smp_step.enter [OF _ refl]]) (simp add: two_cpus_def)
  from smp_reach.next_step [OF this smp_step.test [of ?s 1]] show ?thesis
    by (simp add: two_cpus_def initlock_def set_pc_def)
qed

theorem spinlock_mutual_exclusion_witness:
  "\<exists>s. smp_reach (\<lambda>i d. d + i) two_cpus s \<and> owns (smp_pc s 1) \<and> \<not> owns (smp_pc s 2) \<and>
     smp_data s = 0"
proof -
  let ?s = "set_pc 1 Spin (set_cpu 1 (pushcli (smp_cpu two_cpus 1)) two_cpus)"
  let ?t = "set_pc 1 Got (?s\<lparr>smp_lock := (smp_lock ?s)\<lparr>lk_locked := True\<rparr>\<rparr>)"
  have "smp_step (\<lambda>i d. d + i) ?s ?t"
    by (rule smp_step.xchg) (simp_all add: two_cpus_def initlock_def)
  then have r: "smp_reach (\<lambda>i d. d + i) two_cpus ?t"
    by (rule smp_reach.next_step [OF two_cpus_spin])
  have "owns (smp_pc ?t 1)" by simp
  moreover have "smp_hist ?t = []" by (simp add: two_cpus_def)
  ultimately show ?thesis
    using r spinlock_mutual_exclusion [OF two_cpus_init r, of 1 2 "[]"] by auto
qed

text \<open>C16: Interrupt masking nests, up to the range of the 32-bit counter: \<open>n\<close> calls of \<open>pushcli\<close>, from any
  depth that together with \<open>n\<close> is at most the largest \<open>int\<close>, are undone by as many \<open>popcli\<close> calls, which
  bring back the processor's state, the interrupt flag included, without a panic; in between interrupts
  are off and the counter is the depth.
\<close>

theorem cli_nesting:
  assumes "cpu_nested c" and "sint (cpu_ncli c) + int n < 2 ^ 31"
  shows "popcli_n n (pushcli_n n c) = Ok c \<and>
    sint (cpu_ncli (pushcli_n n c)) = sint (cpu_ncli c) + int n \<and> (0 < n \<longrightarrow> \<not> cpu_if (pushcli_n n c))"
  using popcli_pushcli_n [OF assms] pushcli_n_ncli [OF assms]
  by (cases n) (simp_all add: pushcli_n_snoc pushcli_if_off del: pushcli_n.simps)

theorem cli_nesting_witness:
  "let c = \<lparr>cpu_id = 0, cpu_ncli = 2147483644, cpu_intena = True, cpu_if = False\<rparr> in
   cpu_nested c \<and> sint (cpu_ncli c) + int 3 < 2 ^ 31 \<and> popcli_n 3 (pushcli_n 3 c) = Ok c \<and>
   sint (cpu_ncli (pushcli_n 3 c)) = 2 ^ 31 - 1 \<and> \<not> cpu_if (pushcli_n 3 c)"
proof -
  let ?c = "\<lparr>cpu_id = 0, cpu_ncli = 2147483644, cpu_intena = True, cpu_if = False\<rparr>"
  have c: "cpu_nested ?c" "sint (cpu_ncli ?c) + int 3 < 2 ^ 31" by (simp_all add: cpu_nested_def)
  show ?thesis using cli_nesting [OF c] c by (simp add: Let_def)
qed

end
