(* ===== verification/Sched.thy ===== *)
theory Sched
  imports KString Spinlock
begin

text \<open>
  The part of \<^verbatim>\<open>proc.c\<close> that the rest of the kernel leans on: the process table, \<open>sched\<close>,
  \<open>yield\<close>, \<open>sleep\<close>, \<open>wakeup\<close> and \<open>kill\<close>. The record \<open>kernel\<close> declared here
  is the base of the kernel's state; every later component extends it with its own globals.
  The loop of the scheduler needs virtual memory and is in \<open>Scheduler\<close>; creating and ending processes
  needs files too and is in \<open>Proc\<close>.
\<close>

section \<open>Process table\<close>

record trapframe =
  tf_rax :: uint64
  tf_rbx :: uint64
  tf_rcx :: uint64
  tf_rdx :: uint64
  tf_rbp :: uint64
  tf_rsi :: uint64
  tf_rdi :: uint64
  tf_r8 :: uint64
  tf_r9 :: uint64
  tf_r10 :: uint64
  tf_r11 :: uint64
  tf_r12 :: uint64
  tf_r13 :: uint64
  tf_r14 :: uint64
  tf_r15 :: uint64
  tf_trapno :: uint64
  tf_err :: uint64
  tf_rip :: uint64
  tf_cs :: uint64
  tf_rflags :: uint64
  tf_rsp :: uint64
  tf_ss :: uint64

record kcontext =
  c_r15 :: addr_t
  c_r14 :: addr_t
  c_r13 :: addr_t
  c_r12 :: addr_t
  c_rbx :: addr_t
  c_rbp :: addr_t
  c_rip :: addr_t

datatype procstate = UNUSED | EMBRYO | SLEEPING | RUNNABLE | RUNNING | ZOMBIE

text \<open>
  A channel is the address of the object a process waits for: the tick counter, a process, the
  log, a sleep lock of a buffer or of an inode, a buffer in the disk queue, the read or write
  counter of a pipe, or the console's input buffer.
\<close>

datatype chan =
    TicksChan
  | ProcChan nat
  | LogChan
  | BufLockChan nat
  | InodeLockChan nat
  | IdeChan nat
  | PipeReadChan nat
  | PipeWriteChan nat
  | InputChan

text \<open>
  Pointers into the tables of the kernel (processes, files, inodes) are indices, null is \<open>None\<close>.
  The trap frame and the saved context, which the code keeps on the process's kernel stack, are
  fields.
\<close>

record proc =
  p_sz :: addr_t
  p_pgdir :: addr_t
  p_kstack :: addr_t
  p_state :: procstate
  p_pid :: cint
  p_parent :: "nat option"
  p_tf :: trapframe
  p_context :: kcontext
  p_chan :: "chan option"
  p_killed :: bool
  p_ofile :: "nat option list"
  p_cwd :: "nat option"
  p_name :: "uchar list"

text \<open>\<open>k_proc\<close> is the per-processor variable \<open>proc\<close>, \<open>k_ptlock\<close> and \<open>k_procs\<close> are \<open>ptable\<close>.\<close>

record kernel =
  k_cpu :: cpu
  k_proc :: "nat option"
  k_ticks :: uint
  k_ptlock :: spinlock
  k_procs :: "proc list"
  k_initproc :: "nat option"
  k_nextpid :: cint

definition upd_proc :: "nat \<Rightarrow> (proc \<Rightarrow> proc) \<Rightarrow> 'a kernel_scheme \<Rightarrow> 'a kernel_scheme" where
  "upd_proc i f s = s\<lparr>k_procs := (k_procs s)[i := f (k_procs s ! i)]\<rparr>"

text \<open>The current process, or a \<open>Fault\<close> when \<open>proc\<close> is null.\<close>

definition with_proc :: "'a kernel_scheme \<Rightarrow> (nat \<Rightarrow> proc \<Rightarrow> 'b outcome) \<Rightarrow> 'b outcome" where
  "with_proc s f = (case k_proc s of None \<Rightarrow> Fault ''null proc'' | Some i \<Rightarrow> f i (k_procs s ! i))"

definition pinit :: "'a kernel_scheme \<Rightarrow> 'a kernel_scheme" where
  "pinit s = s\<lparr>k_ptlock := initlock\<rparr>"

definition acquire_pt :: "'a kernel_scheme \<Rightarrow> 'a kernel_scheme outcome" where
  "acquire_pt s = andthen (acquire (k_cpu s) (k_ptlock s)) (\<lambda>(c, lk). Ok (s\<lparr>k_cpu := c, k_ptlock := lk\<rparr>))"

definition release_pt :: "'a kernel_scheme \<Rightarrow> 'a kernel_scheme outcome" where
  "release_pt s = andthen (release (k_cpu s) (k_ptlock s)) (\<lambda>(c, lk). Ok (s\<lparr>k_cpu := c, k_ptlock := lk\<rparr>))"

section \<open>Sleep and wakeup\<close>

definition wakeup1 :: "chan \<Rightarrow> 'a kernel_scheme \<Rightarrow> 'a kernel_scheme" where
  "wakeup1 ch s = s\<lparr>k_procs :=
     map (\<lambda>p. if p_state p = SLEEPING \<and> p_chan p = Some ch then p\<lparr>p_state := RUNNABLE\<rparr> else p)
       (k_procs s)\<rparr>"

definition wakeup :: "chan \<Rightarrow> 'a kernel_scheme \<Rightarrow> 'a kernel_scheme outcome" where
  "wakeup ch s = andthen (acquire_pt s) (\<lambda>s. release_pt (wakeup1 ch s))"

text \<open>
  \<open>sched\<close> in two halves around \<open>swtch\<close>: the tests before it, after which the processor runs the
  scheduler, and what happens when the process is switched to again.
\<close>

definition sched_out :: "'a kernel_scheme \<Rightarrow> 'a kernel_scheme outcome" where
  "sched_out s =
     (if \<not> holding (k_cpu s) (k_ptlock s) then Panic ''sched ptable.lock''
      else if cpu_ncli (k_cpu s) \<noteq> 1 then Panic ''sched locks''
      else with_proc s (\<lambda>i p.
        if p_state p = RUNNING then Panic ''sched running''
        else if cpu_if (k_cpu s) then Panic ''sched interruptible''
        else Ok s))"

definition sched_in :: "bool \<Rightarrow> 'a kernel_scheme \<Rightarrow> 'a kernel_scheme" where
  "sched_in intena s = s\<lparr>k_cpu := (k_cpu s)\<lparr>cpu_intena := intena\<rparr>\<rparr>"

text \<open>
  \<open>sleep\<close> likewise. The lock is \<open>None\<close> when it is \<open>ptable.lock\<close> itself; otherwise the lock is
  passed in and out. \<open>sleep_enter\<close> ends where the process is switched away from, holding
  \<open>ptable.lock\<close>, and \<open>sleep_leave\<close> starts where it runs again, with that lock held.
\<close>

definition sleep_enter ::
  "chan \<Rightarrow> spinlock option \<Rightarrow> 'a kernel_scheme \<Rightarrow> (spinlock option \<times> 'a kernel_scheme) outcome" where
  "sleep_enter ch lk s =
     (case k_proc s of
        None \<Rightarrow> Panic ''sleep''
      | Some i \<Rightarrow>
          andthen
            (case lk of
               None \<Rightarrow> Ok (None, s)
             | Some l \<Rightarrow> andthen (acquire_pt s) (\<lambda>s. andthen (release (k_cpu s) l)
                 (\<lambda>(c, l). Ok (Some l, s\<lparr>k_cpu := c\<rparr>))))
            (\<lambda>(lk, s). andthen
              (sched_out (upd_proc i (\<lambda>p. p\<lparr>p_chan := Some ch, p_state := SLEEPING\<rparr>) s))
              (\<lambda>s. Ok (lk, s))))"

definition sleep_leave ::
  "bool \<Rightarrow> nat \<Rightarrow> spinlock option \<Rightarrow> 'a kernel_scheme \<Rightarrow> (spinlock option \<times> 'a kernel_scheme) outcome" where
  "sleep_leave intena i lk s =
     (let s = upd_proc i (\<lambda>p. p\<lparr>p_chan := None\<rparr>) (sched_in intena s) in
      case lk of
        None \<Rightarrow> Ok (None, s)
      | Some l \<Rightarrow> andthen (release_pt s) (\<lambda>s. andthen (acquire (k_cpu s) l)
          (\<lambda>(c, l). Ok (Some l, s\<lparr>k_cpu := c\<rparr>))))"

text \<open>\<open>yield\<close> up to the switch.\<close>

definition yield_out :: "'a kernel_scheme \<Rightarrow> 'a kernel_scheme outcome" where
  "yield_out s = andthen (acquire_pt s) (\<lambda>s. with_proc s (\<lambda>i p.
     sched_out (upd_proc i (\<lambda>p. p\<lparr>p_state := RUNNABLE\<rparr>) s)))"

definition yield_in :: "bool \<Rightarrow> 'a kernel_scheme \<Rightarrow> 'a kernel_scheme outcome" where
  "yield_in intena s = release_pt (sched_in intena s)"

section \<open>kill\<close>

primrec kill_loop :: "cint \<Rightarrow> nat list \<Rightarrow> 'a kernel_scheme \<Rightarrow> (cint \<times> 'a kernel_scheme) outcome" where
  "kill_loop pid [] s = andthen (release_pt s) (\<lambda>s. Ok (- 1, s))"
| "kill_loop pid (i # is) s =
     (if p_pid (k_procs s ! i) = pid
      then let s = upd_proc i (\<lambda>p. p\<lparr>p_killed := True\<rparr>) s;
               s = (if p_state (k_procs s ! i) = SLEEPING
                    then upd_proc i (\<lambda>p. p\<lparr>p_state := RUNNABLE\<rparr>) s else s)
        in andthen (release_pt s) (\<lambda>s. Ok (0, s))
      else kill_loop pid is s)"

definition kill :: "cint \<Rightarrow> 'a kernel_scheme \<Rightarrow> (cint \<times> 'a kernel_scheme) outcome" where
  "kill pid s = andthen (acquire_pt s) (kill_loop pid [0..<NPROC])"

section \<open>Taking and dropping the table's lock\<close>

text \<open>The table's lock is free; in the second case also when another lock is taken first.\<close>

definition pt_free :: "'a kernel_scheme \<Rightarrow> bool" where
  "pt_free s \<longleftrightarrow> cpu_nested (k_cpu s) \<and> k_ptlock s = initlock"

definition pt_quiet :: "'a kernel_scheme \<Rightarrow> bool" where
  "pt_quiet s \<longleftrightarrow> cpu_settled (k_cpu s) \<and> k_ptlock s = initlock"

lemma quiet_free [simp]: "pt_quiet s \<Longrightarrow> pt_free s"
  by (simp add: pt_quiet_def pt_free_def)

lemma pushcli_free: "pt_quiet s \<Longrightarrow> k_cpu t = pushcli (k_cpu s) \<Longrightarrow> k_ptlock t = k_ptlock s \<Longrightarrow> pt_free t"
  by (simp add: pt_quiet_def pt_free_def pushcli_nested)

lemma acquire_pt_ok [lock_simps]:
  "pt_free s \<Longrightarrow> acquire_pt s = Ok (s\<lparr>k_cpu := pushcli (k_cpu s), k_ptlock := locked_by (k_cpu s)\<rparr>)"
  by (simp add: acquire_pt_def pt_free_def lock_simps)

lemma release_pt_ok [lock_simps]:
  "cpu_nested c \<Longrightarrow> k_cpu s = pushcli c \<Longrightarrow> k_ptlock s = locked_by c \<Longrightarrow>
     release_pt s = Ok (s\<lparr>k_cpu := c, k_ptlock := initlock\<rparr>)"
  by (simp add: release_pt_def lock_simps)

lemma kernel_restore [simp]:
  "s\<lparr>k_cpu := k_cpu s, k_ptlock := k_ptlock s\<rparr> = s"
  "s\<lparr>k_cpu := k_cpu s\<rparr> = s"
  "s\<lparr>k_ptlock := k_ptlock s\<rparr> = s"
  by simp_all

lemma upd_proc_fields [simp]:
  "k_cpu (upd_proc i f s) = k_cpu s"
  "k_ptlock (upd_proc i f s) = k_ptlock s"
  "k_proc (upd_proc i f s) = k_proc s"
  "k_ticks (upd_proc i f s) = k_ticks s"
  "length (k_procs (upd_proc i f s)) = length (k_procs s)"
  "kernel.more (upd_proc i f s) = kernel.more s"
  by (simp_all add: upd_proc_def)

lemma upd_proc_nth:
  "i < length (k_procs s) \<Longrightarrow>
     k_procs (upd_proc j f s) ! i = (if i = j then f (k_procs s ! i) else k_procs s ! i)"
  by (auto simp: upd_proc_def)

lemma wakeup1_fields [simp]:
  "k_cpu (wakeup1 ch s) = k_cpu s"
  "k_ptlock (wakeup1 ch s) = k_ptlock s"
  "k_proc (wakeup1 ch s) = k_proc s"
  "k_ticks (wakeup1 ch s) = k_ticks s"
  "length (k_procs (wakeup1 ch s)) = length (k_procs s)"
  by (simp_all add: wakeup1_def)

lemma wakeup_ok [lock_simps]:
  assumes "pt_free s"
  shows "wakeup ch s = Ok (wakeup1 ch s)"
proof -
  let ?t = "wakeup1 ch (s\<lparr>k_cpu := pushcli (k_cpu s), k_ptlock := locked_by (k_cpu s)\<rparr>)"
  have "release_pt ?t = Ok (?t\<lparr>k_cpu := k_cpu s, k_ptlock := initlock\<rparr>)"
    using assms by (intro release_pt_ok) (simp_all add: pt_free_def)
  moreover have "?t\<lparr>k_cpu := k_cpu s, k_ptlock := initlock\<rparr> = wakeup1 ch s"
    using assms by (cases s) (simp add: wakeup1_def pt_free_def)
  ultimately show ?thesis using assms by (simp add: wakeup_def lock_simps)
qed

lemma wakeup1_other [simp]:
  "wakeup1 ch (s\<lparr>k_cpu := c\<rparr>) = (wakeup1 ch s)\<lparr>k_cpu := c\<rparr>"
  by (simp add: wakeup1_def)

lemma pt_quiet_wakeup1 [simp]:
  "pt_quiet (wakeup1 ch s) = pt_quiet s" "pt_free (wakeup1 ch s) = pt_free s"
  by (simp_all add: pt_quiet_def pt_free_def)

lemma wakeup1_nth:
  "i < length (k_procs s) \<Longrightarrow> k_procs (wakeup1 ch s) ! i =
     (let p = k_procs s ! i in
      if p_state p = SLEEPING \<and> p_chan p = Some ch then p\<lparr>p_state := RUNNABLE\<rparr> else p)"
  by (simp add: wakeup1_def Let_def)

section \<open>kill\<close>

definition killed_proc :: "proc \<Rightarrow> proc" where
  "killed_proc p = p\<lparr>p_killed := True,
     p_state := (if p_state p = SLEEPING then RUNNABLE else p_state p)\<rparr>"

lemma kill_loop_ok:
  assumes "cpu_nested c" and "k_cpu s = pushcli c" and "k_ptlock s = locked_by c"
    and "\<forall>i \<in> set is. i < length (k_procs s)"
  shows "kill_loop pid is s =
    (case find (\<lambda>i. p_pid (k_procs s ! i) = pid) is of
       None \<Rightarrow> Ok (- 1, s\<lparr>k_cpu := c, k_ptlock := initlock\<rparr>)
     | Some i \<Rightarrow> Ok (0, upd_proc i killed_proc s\<lparr>k_cpu := c, k_ptlock := initlock\<rparr>))"
  using assms(4)
proof (induction "is")
  case Nil
  then show ?case using assms by (simp add: release_pt_ok)
next
  case (Cons i "is")
  then show ?case
    using assms(1-3) by (simp add: Let_def release_pt_ok upd_proc_def killed_proc_def)
qed

lemma kill_ok:
  assumes "pt_free s" and "length (k_procs s) = NPROC"
  shows "kill pid s =
    (case find (\<lambda>i. p_pid (k_procs s ! i) = pid) [0..<NPROC] of
       None \<Rightarrow> Ok (- 1, s)
     | Some i \<Rightarrow> Ok (0, upd_proc i killed_proc s))"
proof -
  let ?t = "s\<lparr>k_cpu := pushcli (k_cpu s), k_ptlock := locked_by (k_cpu s)\<rparr>"
  have "kill pid s = kill_loop pid [0..<NPROC] ?t"
    using assms(1) by (simp add: kill_def acquire_pt_ok)
  also have "\<dots> = (case find (\<lambda>i. p_pid (k_procs ?t ! i) = pid) [0..<NPROC] of
       None \<Rightarrow> Ok (- 1, ?t\<lparr>k_cpu := k_cpu s, k_ptlock := initlock\<rparr>)
     | Some i \<Rightarrow> Ok (0, upd_proc i killed_proc ?t\<lparr>k_cpu := k_cpu s, k_ptlock := initlock\<rparr>))"
    using assms by (intro kill_loop_ok) (auto simp: pt_free_def)
  also have "\<dots> = (case find (\<lambda>i. p_pid (k_procs s ! i) = pid) [0..<NPROC] of
       None \<Rightarrow> Ok (- 1, s) | Some i \<Rightarrow> Ok (0, upd_proc i killed_proc s))"
    using assms(1) by (cases s) (auto simp: pt_free_def upd_proc_def split: option.split)
  finally show ?thesis .
qed

section \<open>A machine that has just started\<close>

definition idle_proc :: proc where
  "idle_proc = \<lparr>p_sz = 0, p_pgdir = 0, p_kstack = 0, p_state = UNUSED, p_pid = 0, p_parent = None,
     p_tf = \<lparr>tf_rax = 0, tf_rbx = 0, tf_rcx = 0, tf_rdx = 0, tf_rbp = 0, tf_rsi = 0, tf_rdi = 0,
       tf_r8 = 0, tf_r9 = 0, tf_r10 = 0, tf_r11 = 0, tf_r12 = 0, tf_r13 = 0, tf_r14 = 0, tf_r15 = 0,
       tf_trapno = 0, tf_err = 0, tf_rip = 0, tf_cs = 0, tf_rflags = 0, tf_rsp = 0, tf_ss = 0\<rparr>,
     p_context = \<lparr>c_r15 = 0, c_r14 = 0, c_r13 = 0, c_r12 = 0, c_rbx = 0, c_rbp = 0, c_rip = 0\<rparr>,
     p_chan = None, p_killed = False, p_ofile = replicate NOFILE None, p_cwd = None,
     p_name = replicate 16 0\<rparr>"

definition boot_cpu :: cpu where
  "boot_cpu = \<lparr>cpu_id = 0, cpu_ncli = 0, cpu_intena = True, cpu_if = True\<rparr>"

text \<open>The state of a machine that has just started, with zeroed globals.\<close>

definition boot_kernel :: "'a \<Rightarrow> 'a kernel_scheme" where
  "boot_kernel x = \<lparr>k_cpu = boot_cpu, k_proc = None, k_ticks = 0, k_ptlock = initlock,
     k_procs = replicate NPROC idle_proc, k_initproc = None, k_nextpid = 1, \<dots> = x\<rparr>"

section \<open>Properties\<close>

text \<open>C10: \<open>wakeup\<close> makes ready exactly the processes that sleep on the channel, changes nothing else
  of any process, and gives back the table's lock and the interrupt state, also when its caller
  holds other locks.\<close>

theorem wakeup_exact:
  assumes "pt_free s" and "i < length (k_procs s)"
  shows "\<exists>s'. wakeup ch s = Ok s' \<and> s'\<lparr>k_procs := k_procs s\<rparr> = s \<and>
    length (k_procs s') = length (k_procs s) \<and>
    (let p = k_procs s ! i; p' = k_procs s' ! i in
     p'\<lparr>p_state := p_state p\<rparr> = p \<and>
     (p_state p' \<noteq> p_state p \<longleftrightarrow> p_state p = SLEEPING \<and> p_chan p = Some ch) \<and>
     (p_state p = SLEEPING \<and> p_chan p = Some ch \<longrightarrow> p_state p' = RUNNABLE))"
  using assms by (simp add: wakeup_ok wakeup1_nth Let_def) (simp add: wakeup1_def)

theorem wakeup_exact_witness:
  "\<exists>s'. wakeup TicksChan (upd_proc 3 (\<lambda>p. p\<lparr>p_state := SLEEPING, p_chan := Some TicksChan\<rparr>)
      (boot_kernel ())) = Ok s' \<and> p_state (k_procs s' ! 3) = RUNNABLE"
proof -
  let ?s = "upd_proc 3 (\<lambda>p. p\<lparr>p_state := SLEEPING, p_chan := Some TicksChan\<rparr>) (boot_kernel ())"
  have "pt_free ?s"
    by (simp add: pt_free_def boot_kernel_def boot_cpu_def cpu_nested_def)
  moreover have "3 < length (k_procs ?s)" by (simp add: boot_kernel_def)
  moreover have "p_state (k_procs ?s ! 3) = SLEEPING" "p_chan (k_procs ?s ! 3) = Some TicksChan"
    by (simp_all add: upd_proc_nth boot_kernel_def)
  ultimately show ?thesis
    using wakeup_exact [of ?s 3 TicksChan] by (auto simp: Let_def)
qed

end
