(* ===== verification/Sleeplock.thy ===== *)
theory Sleeplock
  imports Sched
begin

text \<open>
  \<^verbatim>\<open>sleeplock.c\<close>: locks that may be held across disk operations. A process that finds the lock
  taken goes to sleep: the outcome is \<open>Blocked\<close>. The operations take the lock by value and give it
  back updated, next to the kernel state; the channel is the lock's address.
\<close>

record sleeplock =
  sl_locked :: bool
  sl_lk :: spinlock
  sl_pid :: cint

definition initsleeplock :: sleeplock where
  "initsleeplock = \<lparr>sl_locked = False, sl_lk = initlock, sl_pid = 0\<rparr>"

definition acquiresleep ::
  "sleeplock \<Rightarrow> 'a kernel_scheme \<Rightarrow> (sleeplock \<times> 'a kernel_scheme) outcome" where
  "acquiresleep lk s =
     andthen (acquire (k_cpu s) (sl_lk lk)) (\<lambda>(c, l).
     let lk = lk\<lparr>sl_lk := l\<rparr>; s = s\<lparr>k_cpu := c\<rparr> in
     if sl_locked lk then Blocked ''sleep lock''
     else with_proc s (\<lambda>i p.
       let lk = lk\<lparr>sl_locked := True, sl_pid := p_pid p\<rparr> in
       andthen (release (k_cpu s) (sl_lk lk)) (\<lambda>(c, l). Ok (lk\<lparr>sl_lk := l\<rparr>, s\<lparr>k_cpu := c\<rparr>))))"

definition releasesleep ::
  "chan \<Rightarrow> sleeplock \<Rightarrow> 'a kernel_scheme \<Rightarrow> (sleeplock \<times> 'a kernel_scheme) outcome" where
  "releasesleep ch lk s =
     andthen (acquire (k_cpu s) (sl_lk lk)) (\<lambda>(c, l).
     let lk = lk\<lparr>sl_lk := l\<rparr>; s = s\<lparr>k_cpu := c\<rparr>;
         lk = lk\<lparr>sl_locked := False, sl_pid := 0\<rparr>
     in andthen (wakeup ch s) (\<lambda>s.
        andthen (release (k_cpu s) (sl_lk lk)) (\<lambda>(c, l). Ok (lk\<lparr>sl_lk := l\<rparr>, s\<lparr>k_cpu := c\<rparr>))))"

definition holdingsleep ::
  "sleeplock \<Rightarrow> 'a kernel_scheme \<Rightarrow> (bool \<times> sleeplock \<times> 'a kernel_scheme) outcome" where
  "holdingsleep lk s =
     andthen (acquire (k_cpu s) (sl_lk lk)) (\<lambda>(c, l).
     let lk = lk\<lparr>sl_lk := l\<rparr>; s = s\<lparr>k_cpu := c\<rparr>; r = sl_locked lk
     in andthen (release (k_cpu s) (sl_lk lk)) (\<lambda>(c, l). Ok (r, lk\<lparr>sl_lk := l\<rparr>, s\<lparr>k_cpu := c\<rparr>)))"

section \<open>What they do when their inner lock is free\<close>

definition sl_quiet :: "sleeplock \<Rightarrow> bool" where
  "sl_quiet lk \<longleftrightarrow> sl_lk lk = initlock"

lemma sl_lk_restore: "sl_quiet lk \<Longrightarrow> lk\<lparr>sl_lk := initlock\<rparr> = lk"
  by (simp add: sl_quiet_def)

lemma acquiresleep_ok [lock_simps]:
  assumes "cpu_settled (k_cpu s)" and "k_proc s = Some i" and "sl_quiet lk" and "\<not> sl_locked lk"
  shows "acquiresleep lk s = Ok (lk\<lparr>sl_locked := True, sl_pid := p_pid (k_procs s ! i)\<rparr>, s)"
  using assms sl_lk_restore [OF assms(3)]
  by (cases lk) (simp add: acquiresleep_def acquire_free release_locked_by sl_quiet_def with_proc_def Let_def)

lemma acquiresleep_blocked:
  "sl_quiet lk \<Longrightarrow> sl_locked lk \<Longrightarrow> acquiresleep lk s = Blocked ''sleep lock''"
  by (simp add: acquiresleep_def acquire_free sl_quiet_def Let_def)

lemma releasesleep_ok [lock_simps]:
  assumes "pt_quiet s" and "sl_quiet lk"
  shows "releasesleep ch lk s = Ok (lk\<lparr>sl_locked := False, sl_pid := 0\<rparr>, wakeup1 ch s)"
proof -
  have "pt_free (s\<lparr>k_cpu := pushcli (k_cpu s)\<rparr>)"
    by (rule pushcli_free [OF assms(1)]) simp_all
  then have "wakeup ch (s\<lparr>k_cpu := pushcli (k_cpu s)\<rparr>) = Ok ((wakeup1 ch s)\<lparr>k_cpu := pushcli (k_cpu s)\<rparr>)"
    by (simp add: wakeup_ok)
  moreover have "(wakeup1 ch s)\<lparr>k_cpu := k_cpu s\<rparr> = wakeup1 ch s"
    by (simp add: wakeup1_def)
  ultimately show ?thesis
    using assms by (cases lk) (simp add: releasesleep_def acquire_free release_locked_by sl_quiet_def
        pt_quiet_def Let_def)
qed

lemma holdingsleep_ok [lock_simps]:
  "cpu_settled (k_cpu s) \<Longrightarrow> sl_quiet lk \<Longrightarrow> holdingsleep lk s = Ok (sl_locked lk, lk, s)"
  by (cases lk) (simp add: holdingsleep_def acquire_free release_locked_by sl_quiet_def Let_def)

end
