(* ===== verification/Ring.thy ===== *)
theory Ring
  imports Prelude
begin

text \<open>
  Ring buffers with free-running 32-bit counters, the data structure behind the trace buffer
  (\<^verbatim>\<open>ktrace.c\<close>), pipes (\<^verbatim>\<open>pipe.c\<close>) and console input (\<^verbatim>\<open>console.c\<close>). The reader's counter
  \<open>r\<close> and the writer's counter \<open>w\<close> only ever grow and wrap at \<open>2 ^ 32\<close>; slot \<open>c % N\<close> holds item
  number \<open>c\<close>. The locale \<open>ring_size\<close> says what the size must satisfy for that to be right across
  the wrap-around, and its lemmas say what pushing, popping and overwriting do to the list of
  unread items.
\<close>

definition ring_slot :: "nat \<Rightarrow> uint \<Rightarrow> nat" where
  "ring_slot N c = unat c mod N"

text \<open>The unread items, oldest first.\<close>

definition ring_items :: "nat \<Rightarrow> 'a list \<Rightarrow> uint \<Rightarrow> uint \<Rightarrow> 'a list" where
  "ring_items N buf r w = map (\<lambda>i. buf ! ring_slot N (r + of_nat i)) [0..<unat (w - r)]"

lemma length_ring_items [simp]: "length (ring_items N buf r w) = unat (w - r)"
  by (simp add: ring_items_def)

lemma ring_items_empty [simp]: "ring_items N buf r r = []"
  by (simp add: ring_items_def)

lemma ring_items_nth:
  "i < unat (w - r) \<Longrightarrow> ring_items N buf r w ! i = buf ! ring_slot N (r + of_nat i)"
  by (simp add: ring_items_def)

lemma ring_items_split:
  assumes "unat (m - r) + unat (w - m) < 2 ^ 32"
  shows "ring_items N buf r w = ring_items N buf r m @ ring_items N buf m w"
proof -
  have d: "unat (w - r) = unat (m - r) + unat (w - m)"
    using unat_add_less [of "m - r" "w - m"] assms by simp
  have at: "r + of_nat i = m + of_nat (i - unat (m - r))" if "unat (m - r) \<le> i" for i
  proof -
    have "(of_nat i :: uint) = of_nat (unat (m - r)) + of_nat (i - unat (m - r))"
      using that by (simp flip: of_nat_add)
    then show ?thesis by simp
  qed
  show ?thesis
    by (rule nth_equalityI) (auto simp: d ring_items_nth nth_append at not_less)
qed

locale ring_size =
  fixes N :: nat
  assumes size_pos: "0 < N"
    and size_small: "N < 2 ^ 32 - 1"
    and size_dvd: "N dvd 2 ^ 32"
begin

lemma slot_less [simp]: "ring_slot N c < N"
  using size_pos by (simp add: ring_slot_def)

lemma slot_add: "ring_slot N (r + of_nat i) = (unat r + i) mod N"
proof -
  have "unat (r + of_nat i :: uint) = (unat r + i) mod 2 ^ 32"
    by (simp add: unat_word_ariths unat_of_nat mod_add_right_eq take_bit_eq_mod)
  then show ?thesis
    using size_dvd by (simp add: ring_slot_def mod_mod_cancel)
qed

text \<open>Two items less than \<open>N\<close> apart never share a slot, wrap-around included.\<close>

lemma slot_distinct:
  assumes "i < j" and "j < i + N"
  shows "ring_slot N (r + of_nat i) \<noteq> ring_slot N (r + of_nat j)"
proof
  assume "ring_slot N (r + of_nat i) = ring_slot N (r + of_nat j)"
  then have "(unat r + j) mod N = (unat r + i) mod N"
    by (simp add: slot_add)
  then have "N dvd (unat r + j) - (unat r + i)"
    using assms(1) by (simp add: mod_eq_dvd_iff_nat)
  then have "N dvd j - i" by simp
  moreover have "0 < j - i" and "j - i < N" using assms by auto
  ultimately show False using nat_dvd_not_less by blast
qed

lemma writer_eq: "w = r + of_nat (unat (w - r))" for r w :: uint
  by simp

lemma items_update_other:
  assumes "unat (w - r) < N"
  shows "ring_items N (buf[ring_slot N w := x]) r w = ring_items N buf r w"
proof (rule nth_equalityI)
  fix i
  assume "i < length (ring_items N (buf[ring_slot N w := x]) r w)"
  then have i: "i < unat (w - r)" by simp
  have "ring_slot N (r + of_nat i) \<noteq> ring_slot N (r + of_nat (unat (w - r)))"
    using i assms by (intro slot_distinct) auto
  then have "ring_slot N (r + of_nat i) \<noteq> ring_slot N w" by simp
  then show "ring_items N (buf[ring_slot N w := x]) r w ! i = ring_items N buf r w ! i"
    using i by (simp add: ring_items_nth)
qed simp

lemma push_raw:
  assumes "unat (w - r) < 2 ^ 32 - 1"
  shows "ring_items N buf r (w + 1) = ring_items N buf r w @ [buf ! ring_slot N w]"
proof -
  have "unat (w + 1 - r) = Suc (unat (w - r))"
    using unat_sub_add_one [OF assms] by simp
  then show ?thesis by (simp add: ring_items_def)
qed

lemma push:
  assumes "length buf = N" and "unat (w - r) < N"
  shows "ring_items N (buf[ring_slot N w := x]) r (w + 1) = ring_items N buf r w @ [x]"
proof -
  have "unat (w - r) < 2 ^ 32 - 1" using assms(2) size_small by simp
  then show ?thesis
    using assms by (simp add: push_raw items_update_other)
qed

lemma pop:
  assumes "r \<noteq> w"
  shows "ring_items N buf r w = buf ! ring_slot N r # ring_items N buf (r + 1) w"
proof -
  have "unat (w - r) = Suc (unat (w - (r + 1)))"
    by (rule unat_sub_pos_step [OF assms])
  then have "ring_items N buf r w =
      map (\<lambda>i. buf ! ring_slot N (r + of_nat i)) (0 # map Suc [0..<unat (w - (r + 1))])"
    by (simp add: ring_items_def upt_conv_Cons map_Suc_upt del: upt_Suc)
  then show ?thesis by (simp add: ring_items_def comp_def add.assoc)
qed

text \<open>A push into a full ring: the oldest item is the one overwritten.\<close>

lemma push_full:
  assumes "length buf = N" and "unat (w - r) = N"
  shows "ring_items N (buf[ring_slot N w := x]) (r + 1) (w + 1) = tl (ring_items N buf r w) @ [x]"
proof -
  have neq: "r \<noteq> w" using assms(2) size_pos by auto
  have len: "unat (w - (r + 1)) < N"
    using unat_sub_pos_step [OF neq] assms(2) by simp
  have "ring_items N (buf[ring_slot N w := x]) (r + 1) (w + 1) = ring_items N buf (r + 1) w @ [x]"
    by (rule push [OF assms(1) len])
  then show ?thesis using pop [OF neq, of buf] by simp
qed

end

interpretation ring128: ring_size 128
  by unfold_locales simp_all

interpretation ring512: ring_size 512
  by unfold_locales simp_all

end
