(* ===== verification/Ktrace.thy ===== *)
theory Ktrace
  imports Sched Ring
begin

text \<open>
  The recording side of \<^verbatim>\<open>ktrace.c\<close>: the trace buffer, \<open>traceinit\<close> and \<open>traceevent\<close>. The buffer is a
  ring of 128 events with free-running counters that refines a bounded queue which drops its oldest
  event and counts the loss. The reading side, \<open>traceread\<close>, copies to user memory and is in
  \<open>Traceread\<close>.
\<close>

section \<open>The trace buffer\<close>

abbreviation (input) TRACE_BUF_SIZE :: nat where "TRACE_BUF_SIZE \<equiv> 128"

record trace_event =
  te_seq :: uint
  te_ticks :: uint
  te_type :: cint
  te_pid :: cint
  te_arg0 :: cint
  te_arg1 :: cint
  te_arg2 :: cint
  te_comm :: "uchar list"
  te_event :: "uchar list"
  te_overwritten :: uint

record trace_buffer =
  tb_lock :: spinlock
  tb_enabled :: bool
  tb_seq :: uint
  tb_readseq :: uint
  tb_overwritten :: uint
  tb_events :: "trace_event list"

record tkernel = kernel +
  k_trace :: trace_buffer

definition traceinit :: "'a tkernel_scheme \<Rightarrow> 'a tkernel_scheme" where
  "traceinit s = s\<lparr>k_trace := (k_trace s)\<lparr>tb_lock := initlock, tb_enabled := True, tb_seq := 0,
     tb_readseq := 0, tb_overwritten := 0\<rparr>\<rparr>"

text \<open>The two name fields: cleared, then filled by \<open>safestrcpy\<close>. Literals carry their NUL.\<close>

definition event_comm :: "'a kernel_scheme \<Rightarrow> uchar list outcome" where
  "event_comm s = safestrcpy (replicate TRACE_NAME_LEN 0)
     (case k_proc s of
        Some i \<Rightarrow> if 0 < sint (p_pid (k_procs s ! i)) then p_name (k_procs s ! i) else cstr ''kernel'' @ [0]
      | None \<Rightarrow> cstr ''kernel'' @ [0]) 16"

definition event_name :: "uchar list option \<Rightarrow> uchar list outcome" where
  "event_name name = (case name of
       None \<Rightarrow> Ok (replicate TRACE_NAME_LEN 0)
     | Some t \<Rightarrow> safestrcpy (replicate TRACE_NAME_LEN 0) t 16)"

definition put_event :: "trace_event \<Rightarrow> trace_buffer \<Rightarrow> trace_buffer" where
  "put_event e tb =
     (let tb = tb\<lparr>tb_events := (tb_events tb)[ring_slot TRACE_BUF_SIZE (tb_seq tb) := e]\<rparr>;
          tb = tb\<lparr>tb_seq := tb_seq tb + 1\<rparr>
      in if tb_seq tb - tb_readseq tb > 128
         then tb\<lparr>tb_readseq := tb_seq tb - 128, tb_overwritten := tb_overwritten tb + 1\<rparr>
         else tb)"

definition traceevent ::
  "cint \<Rightarrow> cint \<Rightarrow> cint \<Rightarrow> cint \<Rightarrow> cint \<Rightarrow> uchar list option \<Rightarrow> 'a tkernel_scheme \<Rightarrow> 'a tkernel_scheme outcome" where
  "traceevent type pid arg0 arg1 arg2 name s =
     (if \<not> tb_enabled (k_trace s) then Ok s
      else andthen (acquire (k_cpu s) (tb_lock (k_trace s))) (\<lambda>(c, lk).
        let s = s\<lparr>k_cpu := c, k_trace := (k_trace s)\<lparr>tb_lock := lk\<rparr>\<rparr> in
        andthen (event_comm s) (\<lambda>comm. andthen (event_name name) (\<lambda>event.
        let tb = k_trace s;
            e = \<lparr>te_seq = tb_seq tb, te_ticks = k_ticks s, te_type = type, te_pid = pid,
              te_arg0 = arg0, te_arg1 = arg1, te_arg2 = arg2, te_comm = comm, te_event = event,
              te_overwritten = tb_overwritten tb\<rparr>;
            tb = put_event e tb
        in andthen (release (k_cpu s) (tb_lock tb)) (\<lambda>(c, lk).
             Ok (s\<lparr>k_cpu := c, k_trace := tb\<lparr>tb_lock := lk\<rparr>\<rparr>))))))"

section \<open>The bounded queue behind it\<close>

text \<open>
  The specification: at most 128 unread events, oldest first, and the number of events lost. A new
  event goes to the back; when there is no room the oldest event goes.
\<close>

type_synonym trace_log = "trace_event list \<times> uint"

fun log_event :: "trace_event \<Rightarrow> trace_log \<Rightarrow> trace_log" where
  "log_event e (q, lost) =
     (if length q < TRACE_BUF_SIZE then (q @ [e], lost) else (tl q @ [e], lost + 1))"

definition unread :: "trace_buffer \<Rightarrow> trace_event list" where
  "unread tb = ring_items TRACE_BUF_SIZE (tb_events tb) (tb_readseq tb) (tb_seq tb)"

definition trace_abs :: "trace_buffer \<Rightarrow> trace_log" where
  "trace_abs tb = (unread tb, tb_overwritten tb)"

text \<open>The invariant: the window of unread events fits the ring, and they are numbered in sequence.\<close>

definition trace_ok :: "trace_buffer \<Rightarrow> bool" where
  "trace_ok tb \<longleftrightarrow> length (tb_events tb) = TRACE_BUF_SIZE \<and>
     unat (tb_seq tb - tb_readseq tb) \<le> TRACE_BUF_SIZE \<and>
     map te_seq (unread tb) = map (\<lambda>i. tb_readseq tb + of_nat i) [0..<length (unread tb)]"

lemma length_unread: "length (unread tb) = unat (tb_seq tb - tb_readseq tb)"
  by (simp add: unread_def)

lemma unread_lock [simp]: "unread (tb\<lparr>tb_lock := lk\<rparr>) = unread tb"
  by (simp add: unread_def)

lemma trace_ok_lock [simp]: "trace_ok (tb\<lparr>tb_lock := lk\<rparr>) = trace_ok tb"
  by (simp add: trace_ok_def)

lemma trace_abs_lock [simp]: "trace_abs (tb\<lparr>tb_lock := lk\<rparr>) = trace_abs tb"
  by (simp add: trace_abs_def)

lemma put_event_room:
  assumes "trace_ok tb" and "unat (tb_seq tb - tb_readseq tb) < 128"
  shows "put_event e tb = tb\<lparr>tb_events := (tb_events tb)[ring_slot 128 (tb_seq tb) := e],
    tb_seq := tb_seq tb + 1\<rparr>" and "unread (put_event e tb) = unread tb @ [e]"
proof -
  have "unat (tb_seq tb + 1 - tb_readseq tb) = unat (tb_seq tb - tb_readseq tb) + 1"
    using assms(2) by (intro unat_sub_add_one) simp
  then have "\<not> tb_seq tb + 1 - tb_readseq tb > 128"
    using assms(2) by (simp add: word_less_nat_alt)
  then show eq: "put_event e tb = tb\<lparr>tb_events := (tb_events tb)[ring_slot 128 (tb_seq tb) := e],
    tb_seq := tb_seq tb + 1\<rparr>"
    by (simp add: put_event_def Let_def)
  show "unread (put_event e tb) = unread tb @ [e]"
    using assms unfolding eq by (simp add: unread_def trace_ok_def ring128.push)
qed

lemma put_event_full:
  assumes "trace_ok tb" and "\<not> unat (tb_seq tb - tb_readseq tb) < 128"
  shows "put_event e tb = tb\<lparr>tb_events := (tb_events tb)[ring_slot 128 (tb_seq tb) := e],
    tb_seq := tb_seq tb + 1, tb_readseq := tb_readseq tb + 1, tb_overwritten := tb_overwritten tb + 1\<rparr>"
    and "unread (put_event e tb) = tl (unread tb) @ [e]"
proof -
  have full: "unat (tb_seq tb - tb_readseq tb) = 128" using assms by (simp add: trace_ok_def)
  then have diff: "tb_seq tb - tb_readseq tb = 128" by (simp add: word_unat_eq_iff)
  have "unat (tb_seq tb + 1 - tb_readseq tb) = 129"
    using unat_sub_add_one [of "tb_seq tb" "tb_readseq tb"] full by simp
  then have gt: "tb_seq tb + 1 - tb_readseq tb > 128" by (simp add: word_less_nat_alt)
  have "tb_seq tb + 1 - 128 = tb_readseq tb + 1"
    using diff by (simp add: algebra_simps)
  then show eq: "put_event e tb = tb\<lparr>tb_events := (tb_events tb)[ring_slot 128 (tb_seq tb) := e],
    tb_seq := tb_seq tb + 1, tb_readseq := tb_readseq tb + 1, tb_overwritten := tb_overwritten tb + 1\<rparr>"
    using gt by (simp add: put_event_def Let_def)
  show "unread (put_event e tb) = tl (unread tb) @ [e]"
    using assms(1) full unfolding eq by (simp add: unread_def trace_ok_def ring128.push_full)
qed

lemma put_event_abs: "trace_ok tb \<Longrightarrow> trace_abs (put_event e tb) = log_event e (trace_abs tb)"
  using put_event_room [of tb e] put_event_full [of tb e]
  by (cases "unat (tb_seq tb - tb_readseq tb) < 128") (simp_all add: trace_abs_def length_unread)

lemma put_event_ok:
  assumes "trace_ok tb" and "te_seq e = tb_seq tb"
  shows "trace_ok (put_event e tb)"
proof (cases "unat (tb_seq tb - tb_readseq tb) < 128")
  case True
  have "unat (tb_seq tb + 1 - tb_readseq tb) = unat (tb_seq tb - tb_readseq tb) + 1"
    using True by (intro unat_sub_add_one) simp
  then show ?thesis
    using put_event_room [OF assms(1) True, of e] assms True
    by (simp add: trace_ok_def length_unread)
next
  case False
  have full: "unat (tb_seq tb - tb_readseq tb) = 128" using assms False by (simp add: trace_ok_def)
  then have "tb_seq tb - tb_readseq tb = 128" by (simp add: word_unat_eq_iff)
  then have seq: "tb_readseq tb + 128 = tb_seq tb" by (metis add.commute diff_add_cancel)
  have "map te_seq (tl (unread tb)) = map (\<lambda>i. tb_readseq tb + 1 + of_nat i) [0..<127]"
  proof -
    have "map te_seq (tl (unread tb)) = tl (map (\<lambda>i. tb_readseq tb + of_nat i) [0..<128])"
      using assms(1) full by (simp add: trace_ok_def length_unread map_tl)
    also have "\<dots> = map (\<lambda>i. tb_readseq tb + of_nat i) (map Suc [0..<127])"
      by (simp add: map_tl [symmetric] map_Suc_upt)
    finally show ?thesis by (simp add: comp_def add.assoc)
  qed
  moreover have "[0..<128] = [0..<127] @ [127 :: nat]" by code_simp
  moreover have "tb_readseq tb + 1 + of_nat 127 = tb_seq tb" using seq by (simp add: add.commute)
  ultimately show ?thesis
    using put_event_full [OF assms(1) False, of e] assms full
    by (simp add: trace_ok_def length_unread)
qed

section \<open>traceevent\<close>

definition trace_quiet :: "'a tkernel_scheme \<Rightarrow> bool" where
  "trace_quiet s \<longleftrightarrow> cpu_settled (k_cpu s) \<and> tb_lock (k_trace s) = initlock \<and>
     trace_ok (k_trace s) \<and>
     (\<forall>i. k_proc s = Some i \<longrightarrow> length (p_name (k_procs s ! i)) = 16)"

text \<open>The string an event is labelled with.\<close>

definition comm_str :: "'a kernel_scheme \<Rightarrow> uchar list" where
  "comm_str s = (case k_proc s of
       Some i \<Rightarrow> if 0 < sint (p_pid (k_procs s ! i)) then take 15 (str_of (p_name (k_procs s ! i)))
                 else cstr ''kernel''
     | None \<Rightarrow> cstr ''kernel'')"

definition name_str :: "uchar list option \<Rightarrow> uchar list" where
  "name_str name = (case name of None \<Rightarrow> [] | Some t \<Rightarrow> take 15 (str_of t))"

lemma safestrcpy16:
  assumes "0 \<in> set t \<or> 16 \<le> length t"
  shows "\<exists>c. safestrcpy (replicate 16 0) t 16 = Ok c \<and> length c = 16 \<and> str_of c = take 15 (str_of t)"
  using safestrcpy_ok [of 16 "replicate 16 0" t] assms by auto

lemma event_comm_ok:
  assumes "\<And>i. k_proc s = Some i \<Longrightarrow> length (p_name (k_procs s ! i)) = 16"
  shows "\<exists>c. event_comm s = Ok c \<and> length c = 16 \<and> str_of c = comm_str s"
proof -
  have "str_of (cstr ''kernel'' @ [0]) = cstr ''kernel''" by (simp add: cstr_def)
  then show ?thesis
    using assms safestrcpy16 [of "cstr ''kernel'' @ [0]"]
      safestrcpy16 [of "p_name (k_procs s ! the (k_proc s))"]
    by (auto simp: event_comm_def comm_str_def cstr_def split: option.split)
qed

lemma event_name_ok:
  assumes "\<And>t. name = Some t \<Longrightarrow> 0 \<in> set t"
  shows "\<exists>c. event_name name = Ok c \<and> length c = 16 \<and> str_of c = name_str name"
proof -
  have "str_of (replicate n 0) = []" for n by (cases n) simp_all
  then show ?thesis
    using assms safestrcpy16 [of "the name"]
    by (auto simp: event_name_def name_str_def split: option.split)
qed

lemma traceevent_ok:
  assumes "trace_quiet s" and "tb_enabled (k_trace s)" and "\<And>t. name = Some t \<Longrightarrow> 0 \<in> set t"
  shows "\<exists>comm event. str_of comm = comm_str s \<and> str_of event = name_str name \<and>
    length comm = 16 \<and> length event = 16 \<and>
    traceevent type pid a0 a1 a2 name s = Ok (s\<lparr>k_trace := put_event
      \<lparr>te_seq = tb_seq (k_trace s), te_ticks = k_ticks s, te_type = type, te_pid = pid,
       te_arg0 = a0, te_arg1 = a1, te_arg2 = a2, te_comm = comm, te_event = event,
       te_overwritten = tb_overwritten (k_trace s)\<rparr> (k_trace s)\<rparr>)"
proof -
  let ?s = "s\<lparr>k_cpu := pushcli (k_cpu s), k_trace := (k_trace s)\<lparr>tb_lock := locked_by (k_cpu s)\<rparr>\<rparr>"
  have c: "cpu_settled (k_cpu s)" and lk: "tb_lock (k_trace s) = initlock"
    using assms(1) by (simp_all add: trace_quiet_def)
  have "comm_str ?s = comm_str s" by (simp add: comm_str_def split: option.split)
  then obtain comm where comm: "event_comm ?s = Ok comm" "length comm = 16" "str_of comm = comm_str s"
    using event_comm_ok [of ?s] assms(1) by (auto simp: trace_quiet_def)
  obtain event where event: "event_name name = Ok event" "length event = 16" "str_of event = name_str name"
    using event_name_ok [of name] assms(3) by blast
  have keep: "tb_lock (put_event e tb) = tb_lock tb" for e tb by (simp add: put_event_def Let_def)
  have lock: "put_event e (tb\<lparr>tb_lock := l\<rparr>)\<lparr>tb_lock := tb_lock tb\<rparr> = put_event e tb" for e tb l
    by (cases tb) (simp add: put_event_def Let_def)
  show ?thesis
    using assms(2) comm event lock [where tb = "k_trace s"]
    by (intro exI [of _ comm] exI [of _ event])
      (simp add: traceevent_def acquire_free release_locked_by c lk keep Let_def)
qed

text \<open>A sequence of calls, as one after another by the code that holds no other trace lock.\<close>

type_synonym trace_call = "cint \<times> cint \<times> cint \<times> cint \<times> cint \<times> uchar list option"

primrec trace_all :: "trace_call list \<Rightarrow> 'a tkernel_scheme \<Rightarrow> 'a tkernel_scheme outcome" where
  "trace_all [] s = Ok s"
| "trace_all (x # xs) s = (case x of (type, pid, a0, a1, a2, name) \<Rightarrow>
     andthen (traceevent type pid a0 a1 a2 name s) (trace_all xs))"

type_synonym trace_key = "cint \<times> cint \<times> cint \<times> cint \<times> cint \<times> uchar list"

definition call_key :: "trace_call \<Rightarrow> trace_key" where
  "call_key x = (case x of (type, pid, a0, a1, a2, name) \<Rightarrow> (type, pid, a0, a1, a2, name_str name))"

definition event_key :: "trace_event \<Rightarrow> trace_key" where
  "event_key e = (te_type e, te_pid e, te_arg0 e, te_arg1 e, te_arg2 e, str_of (te_event e))"

definition name_ok :: "trace_call \<Rightarrow> bool" where
  "name_ok x = (case x of (_, _, _, _, _, name) \<Rightarrow> case name of None \<Rightarrow> True | Some t \<Rightarrow> 0 \<in> set t)"

lemma log_event_fold:
  "length q \<le> 128 \<Longrightarrow> fold log_event es (q, lost) =
     (drop (length q + length es - 128) (q @ es), lost + of_nat (length q + length es - 128))"
proof (induction es arbitrary: q lost)
  case (Cons e es)
  show ?case
  proof (cases "length q < 128")
    case True
    then show ?thesis using Cons.IH [of "q @ [e]" lost] by simp
  next
    case False
    then have "length q = 128" using Cons.prems by simp
    moreover from this obtain a q' where "q = a # q'" by (cases q) auto
    ultimately show ?thesis using Cons.IH [of "q' @ [e]" "lost + 1"] by (simp add: algebra_simps)
  qed
qed simp

lemma put_event_keeps [simp]:
  "tb_lock (put_event e tb) = tb_lock tb" "tb_enabled (put_event e tb) = tb_enabled tb"
  by (simp_all add: put_event_def Let_def)

lemma trace_quiet_put:
  "trace_quiet s \<Longrightarrow> te_seq e = tb_seq (k_trace s) \<Longrightarrow> trace_quiet (s\<lparr>k_trace := put_event e (k_trace s)\<rparr>)"
  by (simp add: trace_quiet_def put_event_ok)

lemma trace_all_ok:
  assumes "trace_quiet s" and "tb_enabled (k_trace s)" and "list_all name_ok xs"
  shows "\<exists>es tb. map event_key es = map call_key xs \<and> trace_all xs s = Ok (s\<lparr>k_trace := tb\<rparr>) \<and>
    trace_quiet (s\<lparr>k_trace := tb\<rparr>) \<and> trace_abs tb = fold log_event es (trace_abs (k_trace s))"
  using assms
proof (induction xs arbitrary: s)
  case Nil
  then show ?case by (intro exI [of _ "[]"] exI [of _ "k_trace s"]) simp
next
  case (Cons x xs)
  obtain type pid a0 a1 a2 name where x: "x = (type, pid, a0, a1, a2, name)" by (cases x)
  have nm: "\<And>t. name = Some t \<Longrightarrow> 0 \<in> set t" using Cons.prems(3) by (simp add: x name_ok_def)
  obtain e where e: "event_key e = call_key x" "te_seq e = tb_seq (k_trace s)"
      "traceevent type pid a0 a1 a2 name s = Ok (s\<lparr>k_trace := put_event e (k_trace s)\<rparr>)"
  proof -
    obtain comm event where "str_of event = name_str name"
      "traceevent type pid a0 a1 a2 name s = Ok (s\<lparr>k_trace := put_event
        \<lparr>te_seq = tb_seq (k_trace s), te_ticks = k_ticks s, te_type = type, te_pid = pid,
         te_arg0 = a0, te_arg1 = a1, te_arg2 = a2, te_comm = comm, te_event = event,
         te_overwritten = tb_overwritten (k_trace s)\<rparr> (k_trace s)\<rparr>)"
      using traceevent_ok [OF Cons.prems(1,2) nm] by blast
    then show thesis by (intro that) (simp_all add: event_key_def call_key_def x)
  qed
  let ?s = "s\<lparr>k_trace := put_event e (k_trace s)\<rparr>"
  obtain es tb where es: "map event_key es = map call_key xs" "trace_all xs ?s = Ok (?s\<lparr>k_trace := tb\<rparr>)"
      "trace_quiet (?s\<lparr>k_trace := tb\<rparr>)" "trace_abs tb = fold log_event es (trace_abs (k_trace ?s))"
    using Cons.IH [of ?s] Cons.prems trace_quiet_put [OF Cons.prems(1) e(2)] by auto
  have "trace_abs (k_trace ?s) = log_event e (trace_abs (k_trace s))"
    using Cons.prems(1) by (simp add: trace_quiet_def put_event_abs)
  then show ?case
    using e es by (intro exI [of _ "e # es"] exI [of _ tb]) (simp add: x)
qed

section \<open>Properties\<close>

text \<open>C3: \<open>traceevent\<close> implements the bounded queue. With tracing enabled it appends one event, stamped
  with the sequence number, the clock, its arguments, the current process's name (or \<open>kernel\<close>) and
  the event's name, both truncated to 15 characters; if 128 events are unread it drops the oldest
  and counts it, also where the 32-bit counters wrap. It keeps the numbering invariant and touches
  nothing but the buffer.\<close>

theorem traceevent_refines:
  assumes "trace_quiet s" and "tb_enabled (k_trace s)" and "name_ok (type, pid, a0, a1, a2, name)"
  shows "\<exists>e tb. traceevent type pid a0 a1 a2 name s = Ok (s\<lparr>k_trace := tb\<rparr>) \<and>
    trace_abs tb = log_event e (trace_abs (k_trace s)) \<and> trace_quiet (s\<lparr>k_trace := tb\<rparr>) \<and>
    event_key e = call_key (type, pid, a0, a1, a2, name) \<and> te_seq e = tb_seq (k_trace s) \<and>
    te_ticks e = k_ticks s \<and> str_of (te_comm e) = comm_str s \<and>
    te_overwritten e = tb_overwritten (k_trace s)"
proof -
  have nm: "\<And>t. name = Some t \<Longrightarrow> 0 \<in> set t" using assms(3) by (simp add: name_ok_def)
  obtain comm event where names: "str_of comm = comm_str s" "str_of event = name_str name"
    and run: "traceevent type pid a0 a1 a2 name s = Ok (s\<lparr>k_trace := put_event
      \<lparr>te_seq = tb_seq (k_trace s), te_ticks = k_ticks s, te_type = type, te_pid = pid,
       te_arg0 = a0, te_arg1 = a1, te_arg2 = a2, te_comm = comm, te_event = event,
       te_overwritten = tb_overwritten (k_trace s)\<rparr> (k_trace s)\<rparr>)"
    using traceevent_ok [OF assms(1,2) nm] by blast
  let ?e = "\<lparr>te_seq = tb_seq (k_trace s), te_ticks = k_ticks s, te_type = type, te_pid = pid,
       te_arg0 = a0, te_arg1 = a1, te_arg2 = a2, te_comm = comm, te_event = event,
       te_overwritten = tb_overwritten (k_trace s)\<rparr>"
  have "trace_quiet (s\<lparr>k_trace := put_event ?e (k_trace s)\<rparr>)"
    using assms(1) by (rule trace_quiet_put) simp
  moreover have "trace_abs (put_event ?e (k_trace s)) = log_event ?e (trace_abs (k_trace s))"
    using assms(1) by (simp add: trace_quiet_def put_event_abs)
  ultimately show ?thesis
    using run names by (intro exI [of _ ?e] exI [of _ "put_event ?e (k_trace s)"])
      (simp add: event_key_def call_key_def)
qed

definition zero_event :: trace_event where
  "zero_event = \<lparr>te_seq = 0, te_ticks = 0, te_type = 0, te_pid = 0, te_arg0 = 0, te_arg1 = 0,
     te_arg2 = 0, te_comm = replicate 16 0, te_event = replicate 16 0, te_overwritten = 0\<rparr>"

definition boot_trace :: trace_buffer where
  "boot_trace = \<lparr>tb_lock = initlock, tb_enabled = False, tb_seq = 0, tb_readseq = 0,
     tb_overwritten = 0, tb_events = replicate TRACE_BUF_SIZE zero_event\<rparr>"

text \<open>The machine after \<open>traceinit\<close>, before any event.\<close>

definition boot_tkernel :: "'a \<Rightarrow> 'a tkernel_scheme" where
  "boot_tkernel x = traceinit (boot_kernel \<lparr>k_trace = boot_trace, \<dots> = x\<rparr>)"

lemma boot_tkernel_quiet:
  "trace_quiet (boot_tkernel x)" "tb_enabled (k_trace (boot_tkernel x))"
  "unread (k_trace (boot_tkernel x)) = []" "tb_overwritten (k_trace (boot_tkernel x)) = 0"
  by (simp_all add: trace_quiet_def trace_ok_def boot_tkernel_def traceinit_def boot_kernel_def
      boot_trace_def boot_cpu_def cpu_settled_def cpu_nested_def unread_def)

theorem traceevent_refines_witness:
  "\<exists>e tb. traceevent 2 7 1 0 0 (Some (cstr ''fork'' @ [0])) (boot_tkernel ()) = Ok ((boot_tkernel ())\<lparr>k_trace := tb\<rparr>) \<and>
    unread tb = [e] \<and> te_pid e = 7 \<and> str_of (te_event e) = cstr ''fork''"
proof -
  have "name_ok (2, 7, 1, 0, 0, Some (cstr ''fork'' @ [0]))" by (simp add: name_ok_def)
  moreover have "name_str (Some (cstr ''fork'' @ [0])) = cstr ''fork''" by (simp add: name_str_def cstr_def)
  ultimately show ?thesis
    using traceevent_refines [OF boot_tkernel_quiet(1,2), of 2 7 1 0 0 "Some (cstr ''fork'' @ [0])" "()"]
    by (fastforce simp: boot_tkernel_quiet trace_abs_def event_key_def call_key_def)
qed

text \<open>C7: A burst of any length keeps the newest 128 events, in order, and the loss counter is exact:
  starting from an empty buffer, \<open>n\<close> calls of \<open>traceevent\<close> leave the last \<open>min n 128\<close> of them
  unread and add \<open>n - 128\<close> (when positive, modulo the counter's width) to \<open>overwritten\<close>.\<close>

theorem trace_burst:
  assumes "trace_quiet s" and "tb_enabled (k_trace s)" and "unread (k_trace s) = []"
    and "list_all name_ok xs"
  shows "\<exists>s'. trace_all xs s = Ok s' \<and>
    map event_key (unread (k_trace s')) = drop (length xs - 128) (map call_key xs) \<and>
    tb_overwritten (k_trace s') = tb_overwritten (k_trace s) + of_nat (length xs - 128)"
proof -
  obtain es tb where es: "map event_key es = map call_key xs" "trace_all xs s = Ok (s\<lparr>k_trace := tb\<rparr>)"
      "trace_abs tb = fold log_event es (trace_abs (k_trace s))"
    using trace_all_ok [OF assms(1,2,4)] by blast
  have len: "length es = length xs" using es(1) by (metis length_map)
  have "trace_abs tb = (drop (length es - 128) es, tb_overwritten (k_trace s) + of_nat (length es - 128))"
    using es(3) log_event_fold [of "[]" es "tb_overwritten (k_trace s)"] assms(3)
    by (simp add: trace_abs_def)
  then show ?thesis
    using es(1,2) by (simp add: trace_abs_def len flip: drop_map)
qed

theorem trace_burst_witness:
  "\<exists>s'. trace_all (replicate 130 (1, 5, 3, 0, 0, None)) (boot_tkernel ()) = Ok s' \<and>
    length (unread (k_trace s')) = 128 \<and> tb_overwritten (k_trace s') = 2"
proof -
  have "list_all name_ok (replicate 130 (1, 5, 3, 0, 0, None))"
    by (simp add: name_ok_def list_all_length)
  then show ?thesis
    using trace_burst [OF boot_tkernel_quiet(1-3), of "replicate 130 (1, 5, 3, 0, 0, None)" "()"]
    by (auto simp: boot_tkernel_quiet dest: arg_cong [of _ _ length])
qed

end
