(* ===== verification/Memory.thy ===== *)
theory Memory
  imports KString
begin

text \<open>
  Bytes, words and pages: little-endian encoding of words as byte lists, loads and stores of byte
  ranges and 64-bit words in the byte-addressed memory, and the arithmetic of 4096-byte pages. A
  page is named by its address; different pages do not overlap.
\<close>

section \<open>Little-endian words\<close>

primrec word_of_bytes :: "uchar list \<Rightarrow> 'a::len word" where
  "word_of_bytes [] = 0"
| "word_of_bytes (b # bs) = ucast b OR push_bit 8 (word_of_bytes bs)"

primrec bytes_of :: "nat \<Rightarrow> 'a::len word \<Rightarrow> uchar list" where
  "bytes_of 0 w = []"
| "bytes_of (Suc n) w = ucast w # bytes_of n (drop_bit 8 w)"

lemma length_bytes_of [simp]: "length (bytes_of n w) = n"
  by (induction n arbitrary: w) simp_all

lemma bytes_of_nth: "i < n \<Longrightarrow> bytes_of n w ! i = ucast (drop_bit (8 * i) w)"
proof (induction n arbitrary: i w)
  case (Suc n)
  then show ?case by (cases i) (simp_all add: add.commute)
qed simp

lemma bit_word_of_bytes:
  "bit (word_of_bytes bs :: 'a::len word) k \<longleftrightarrow>
     k < LENGTH('a) \<and> k div 8 < length bs \<and> bit (bs ! (k div 8)) (k mod 8)"
proof (induction bs arbitrary: k)
  case (Cons b bs)
  show ?case
  proof (cases "k < 8")
    case True
    then show ?thesis by (auto simp: bit_simps)
  next
    case False
    then have "k div 8 = Suc ((k - 8) div 8)" "(k - 8) mod 8 = k mod 8"
      by (simp_all add: le_div_geq le_mod_geq)
    moreover have "\<not> bit b k" using False by (auto dest: bit_imp_le_length)
    ultimately show ?thesis using False Cons.IH [of "k - 8"] by (auto simp: bit_simps)
  qed
qed simp

lemma word_of_bytes_of:
  assumes "LENGTH('a) \<le> 8 * n"
  shows "word_of_bytes (bytes_of n w) = (w :: 'a::len word)"
proof (rule bit_word_eqI)
  fix k
  assume k: "k < LENGTH('a)"
  then have "k div 8 < n" using assms by (simp add: less_mult_imp_div_less mult.commute)
  then have "bit (word_of_bytes (bytes_of n w) :: 'a word) k \<longleftrightarrow> bit w (8 * (k div 8) + k mod 8)"
    using k by (simp add: bit_word_of_bytes bytes_of_nth bit_simps)
  then show "bit (word_of_bytes (bytes_of n w) :: 'a word) k \<longleftrightarrow> bit w k" by simp
qed

lemma bytes_of_word_of:
  assumes "length bs = n" and "8 * n \<le> LENGTH('a::len)"
  shows "bytes_of n (word_of_bytes bs :: 'a word) = bs"
proof (rule nth_equalityI)
  fix i
  assume "i < length (bytes_of n (word_of_bytes bs :: 'a word))"
  then have i: "i < n" by simp
  show "bytes_of n (word_of_bytes bs :: 'a word) ! i = bs ! i"
  proof (rule bit_word_eqI)
    fix k
    assume "k < LENGTH(8)"
    then have k: "k < 8" by simp
    have "8 * i + k < 8 * n" using i k by linarith
    then have "8 * i + k < LENGTH('a)" using assms(2) by linarith
    moreover have "(8 * i + k) div 8 = i" "(8 * i + k) mod 8 = k" using k by simp_all
    ultimately show "bit (bytes_of n (word_of_bytes bs :: 'a word) ! i) k = bit (bs ! i) k"
      using i k assms(1) by (simp add: bytes_of_nth bit_simps bit_word_of_bytes)
  qed
qed (use assms in simp)

section \<open>Words inside a byte array\<close>

text \<open>The 32-bit (and 16-bit) word at an offset of an array, as the code reads and writes it
  through a cast pointer.\<close>

definition get32 :: "uchar list \<Rightarrow> nat \<Rightarrow> uint" where
  "get32 bs off = word_of_bytes (take 4 (drop off bs))"

definition put32 :: "nat \<Rightarrow> uint \<Rightarrow> uchar list \<Rightarrow> uchar list" where
  "put32 off w bs = take off bs @ bytes_of 4 w @ drop (off + 4) bs"

definition get16 :: "uchar list \<Rightarrow> nat \<Rightarrow> ushort" where
  "get16 bs off = word_of_bytes (take 2 (drop off bs))"

definition put16 :: "nat \<Rightarrow> ushort \<Rightarrow> uchar list \<Rightarrow> uchar list" where
  "put16 off w bs = take off bs @ bytes_of 2 w @ drop (off + 2) bs"

lemma length_put32 [simp]: "off + 4 \<le> length bs \<Longrightarrow> length (put32 off w bs) = length bs"
  by (simp add: put32_def)

lemma length_put16 [simp]: "off + 2 \<le> length bs \<Longrightarrow> length (put16 off w bs) = length bs"
  by (simp add: put16_def)

lemma get32_put32 [simp]: "off + 4 \<le> length bs \<Longrightarrow> get32 (put32 off w bs) off = w"
  by (simp add: get32_def put32_def word_of_bytes_of)

lemma get16_put16 [simp]: "off + 2 \<le> length bs \<Longrightarrow> get16 (put16 off w bs) off = w"
  by (simp add: get16_def put16_def word_of_bytes_of)

text \<open>Replacing \<open>length ys\<close> bytes at \<open>off\<close> is not seen by a read elsewhere.\<close>

lemma take_drop_patch:
  assumes "off + length ys \<le> length bs" and "p + k \<le> off \<or> off + length ys \<le> p"
  shows "take k (drop p (take off bs @ ys @ drop (off + length ys) bs)) = take k (drop p bs)"
proof -
  define xs where "xs = take off bs @ ys @ drop (off + length ys) bs"
  have len: "length xs = length bs" using assms(1) by (simp add: xs_def)
  have "xs ! (p + i) = bs ! (p + i)" if "i < k" "p + i < length bs" for i
    using that assms by (auto simp: xs_def nth_append)
  then have "take k (drop p xs) = take k (drop p bs)"
    by (intro nth_equalityI) (auto simp: len)
  then show ?thesis by (simp add: xs_def)
qed

lemma get32_put32_other:
  "off + 4 \<le> length bs \<Longrightarrow> p + 4 \<le> off \<or> off + 4 \<le> p \<Longrightarrow> get32 (put32 off w bs) p = get32 bs p"
  using take_drop_patch [of off "bytes_of 4 w" bs p 4] by (simp add: get32_def put32_def)

section \<open>Byte ranges in memory\<close>

definition read_bytes :: "mem \<Rightarrow> addr_t \<Rightarrow> nat \<Rightarrow> uchar list" where
  "read_bytes m a n = map (\<lambda>i. m (a + of_nat i)) [0..<n]"

definition write_bytes :: "addr_t \<Rightarrow> uchar list \<Rightarrow> mem \<Rightarrow> mem" where
  "write_bytes a bs m = (\<lambda>x. if unat (x - a) < length bs then bs ! unat (x - a) else m x)"

lemma length_read_bytes [simp]: "length (read_bytes m a n) = n"
  by (simp add: read_bytes_def)

lemma read_write_bytes:
  assumes "length bs \<le> 2 ^ 64"
  shows "read_bytes (write_bytes a bs m) a (length bs) = bs"
proof (rule nth_equalityI)
  fix i
  assume "i < length (read_bytes (write_bytes a bs m) a (length bs))"
  then have i: "i < length bs" by simp
  then have "unat (of_nat i :: addr_t) = i" using assms by (intro unat_of_nat_small) simp
  then show "read_bytes (write_bytes a bs m) a (length bs) ! i = bs ! i"
    using i by (simp add: read_bytes_def write_bytes_def)
qed simp

text \<open>Memories that agree on \<open>n\<close> bytes from \<open>a\<close> on.\<close>

definition same_on :: "addr_t \<Rightarrow> nat \<Rightarrow> mem \<Rightarrow> mem \<Rightarrow> bool" where
  "same_on a n m m' \<longleftrightarrow> (\<forall>x. unat (x - a) < n \<longrightarrow> m x = m' x)"

lemma same_on_read:
  assumes "same_on a n m m'" and "n \<le> 2 ^ 64"
  shows "read_bytes m a n = read_bytes m' a n"
proof -
  have "m (a + of_nat i) = m' (a + of_nat i)" if "i < n" for i
  proof -
    have "unat (of_nat i :: addr_t) = i" using that assms(2) by (intro unat_of_nat_small) simp
    then show ?thesis using that assms(1) by (simp add: same_on_def)
  qed
  then show ?thesis by (simp add: read_bytes_def)
qed

lemma same_on_refl [simp]: "same_on a n m m" by (simp add: same_on_def)

lemma same_on_trans: "same_on a n m m' \<Longrightarrow> same_on a n m' m'' \<Longrightarrow> same_on a n m m''"
  by (simp add: same_on_def)

definition load64 :: "mem \<Rightarrow> addr_t \<Rightarrow> uint64" where
  "load64 m a = word_of_bytes (read_bytes m a 8)"

definition store64 :: "addr_t \<Rightarrow> uint64 \<Rightarrow> mem \<Rightarrow> mem" where
  "store64 a w m = write_bytes a (bytes_of 8 w) m"

lemma load_store64: "load64 (store64 a w m) a = w"
  using read_write_bytes [of "bytes_of 8 w" a m] by (simp add: load64_def store64_def word_of_bytes_of)

lemma load_store64_other:
  assumes "8 \<le> unat (b - a)" and "8 \<le> unat (a - b)"
  shows "load64 (store64 a w m) b = load64 m b"
proof -
  have "store64 a w m (b + of_nat i) = m (b + of_nat i)" if i: "i < 8" for i
  proof -
    have oi: "unat (of_nat i :: addr_t) = i" using i by (intro unat_of_nat_small) simp
    have "\<not> unat (b + of_nat i - a) < 8"
    proof
      assume lt: "unat (b + of_nat i - a) < 8"
      have eq: "b + of_nat i - a = (b - a) + of_nat i" by simp
      have "2 ^ 64 \<le> unat (b - a) + i"
      proof (rule ccontr)
        assume "\<not> 2 ^ 64 \<le> unat (b - a) + i"
        then have "unat ((b - a) + of_nat i) = unat (b - a) + i" using oi by (subst unat_add_less) simp_all
        then show False using lt assms(1) unfolding eq by simp
      qed
      moreover have "unat (a - b) = 2 ^ 64 - unat (b - a)"
        using assms(1) unat_sub_wrap [of a b] unat_sub_wrap [of b a]
        by (cases "a < b") (auto simp: unat_sub not_less word_less_nat_alt word_le_nat_alt order_le_less)
      ultimately show False using i assms(2) by simp
    qed
    then show ?thesis by (simp add: store64_def write_bytes_def)
  qed
  then have "read_bytes (store64 a w m) b 8 = read_bytes m b 8"
    unfolding read_bytes_def by (intro map_cong refl) simp
  then show ?thesis by (simp add: load64_def)
qed

lemma load64_zero: "load64 (\<lambda>_. 0) a = 0"
  by (simp add: load64_def read_bytes_def numeral_eq_Suc)

section \<open>Pages\<close>

lemma unat_less_pow64: "unat (w :: uint64) < 2 ^ 64"
proof -
  have "unat w < 2 ^ LENGTH(64)" by (rule unsigned_less)
  then show ?thesis by simp
qed

lemma pgrounddown_bits: "PGROUNDDOWN a = push_bit 12 (drop_bit 12 a)"
proof (rule bit_word_eqI)
  have eq: "PGROUNDDOWN a = a AND NOT (mask 12)" by (simp add: PGROUNDDOWN_def mask_eq_exp_minus_1)
  show "bit (PGROUNDDOWN a) k = bit (push_bit 12 (drop_bit 12 a)) k" if "k < LENGTH(64)" for k
    using that unfolding eq by (auto simp: bit_simps)
qed

lemma unat_pgrounddown: "unat (PGROUNDDOWN a) = unat a div 4096 * 4096"
proof -
  have "unat (a div 4096) * 4096 < 2 ^ 64"
    using unat_less_pow64 [of a] by (simp add: unat_div)
  then have "unat (push_bit 12 (drop_bit 12 a)) = unat (a div 4096) * 4096"
    by (simp add: push_bit_eq_mult drop_bit_eq_div unat_word_ariths)
  then show ?thesis by (simp add: pgrounddown_bits unat_div)
qed

definition page_aligned :: "addr_t \<Rightarrow> bool" where
  "page_aligned a \<longleftrightarrow> a mod PGSIZE = 0"

lemma page_aligned_unat: "page_aligned a \<longleftrightarrow> unat a mod 4096 = 0"
proof -
  have "unat (a mod 4096) = unat a mod 4096" by (simp add: unat_mod)
  then show ?thesis by (metis page_aligned_def unat_eq_zero)
qed

lemma page_aligned_rounddown [simp]: "page_aligned (PGROUNDDOWN a)"
  by (simp add: page_aligned_unat unat_pgrounddown)

lemma page_alignedE:
  assumes "page_aligned v"
  obtains q where "unat v = 4096 * q"
  using assms by (auto simp: page_aligned_unat elim: dvdE)

lemma page_aligned_room:
  assumes "page_aligned v"
  shows "unat v + 4096 \<le> 2 ^ 64"
proof -
  have "(2 :: nat) ^ 64 = 4096 * 2 ^ 52" by simp
  moreover obtain q where q: "unat v = 4096 * q" using assms by (rule page_alignedE)
  moreover have "q < 2 ^ 52" using unat_less_pow64 [of v] q by simp
  ultimately show ?thesis by simp
qed

lemma unat_page_add:
  assumes "page_aligned v" and "unat d < 4096"
  shows "unat (v + d) = unat v + unat d"
  using page_aligned_room [OF assms(1)] assms(2) by (intro unat_add_less) simp

lemma in_page_iff:
  assumes "page_aligned v"
  shows "unat (x - v) < 4096 \<longleftrightarrow> PGROUNDDOWN x = v"
proof
  assume d: "unat (x - v) < 4096"
  obtain q where q: "unat v = 4096 * q" using assms by (rule page_alignedE)
  have "unat x = unat v + unat (x - v)" using unat_page_add [OF assms d] by simp
  then have "unat x div 4096 = q" using d unfolding q by simp
  then have "unat (PGROUNDDOWN x) = unat v" by (simp add: unat_pgrounddown q)
  then show "PGROUNDDOWN x = v" by (simp add: word_unat_eq_iff)
next
  assume v: "PGROUNDDOWN x = v"
  then have uv: "unat v = unat x div 4096 * 4096" using unat_pgrounddown by blast
  then have "v \<le> x" by (simp add: word_le_nat_alt)
  then have "unat (x - v) = unat x - unat v" by (simp add: unat_sub)
  also have "\<dots> = unat x mod 4096" using uv by (simp add: minus_div_mult_eq_mod)
  finally show "unat (x - v) < 4096" by simp
qed

text \<open>Writes inside one page leave every other page as it was.\<close>

lemma same_on_write_page:
  assumes "page_aligned v" and "page_aligned w" and "v \<noteq> w"
    and "\<And>x. PGROUNDDOWN x \<noteq> v \<Longrightarrow> m' x = m x"
  shows "same_on w 4096 m m'"
  using assms by (auto simp: same_on_def in_page_iff)

lemma same_on_less: "same_on a n m m' \<Longrightarrow> k \<le> n \<Longrightarrow> same_on a k m m'"
  by (auto simp: same_on_def)

lemma same_on_load64: "same_on a n m m' \<Longrightarrow> 8 \<le> n \<Longrightarrow> load64 m a = load64 m' a"
  using same_on_read [of a 8 m m'] same_on_less [of a n m m' 8] by (simp add: load64_def)

lemma store64_page:
  assumes "page_aligned v" and "PGROUNDDOWN x \<noteq> v"
  shows "store64 v w m x = m x"
proof -
  have "\<not> unat (x - v) < 4096" using assms by (simp add: in_page_iff)
  then show ?thesis by (simp add: store64_def write_bytes_def)
qed

lemma fill_page:
  assumes "page_aligned v" and "PGROUNDDOWN x \<noteq> v"
  shows "fill v 4096 c m x = m x"
  using assms by (simp add: fill_def in_page_iff)

end
