(* ===== verification/Kalloc.thy ===== *)
theory Kalloc
  imports Ktrace Memory
begin

text \<open>
  \<^verbatim>\<open>kalloc.c\<close>: the page allocator. The free list runs through the free pages themselves, so the
  model keeps it in the byte memory, as the code does: \<open>chain\<close> relates the pointer in \<open>kmem\<close> to the
  list of free pages.
\<close>

section \<open>State and operations\<close>

text \<open>
  \<open>k_mem\<close> is kernel memory, \<open>k_end\<close> the address \<open>end\<close> that the linker puts after the kernel. The
  three \<open>kmem\<close> fields are a lock, whether to use it, and the head of the free list.
\<close>

record mkernel = tkernel +
  k_mem :: mem
  k_end :: addr_t
  k_kmemlock :: spinlock
  k_use_lock :: bool
  k_freelist :: addr_t

definition acquire_kmem :: "'a mkernel_scheme \<Rightarrow> 'a mkernel_scheme outcome" where
  "acquire_kmem s = (if k_use_lock s
     then andthen (acquire (k_cpu s) (k_kmemlock s)) (\<lambda>(c, lk). Ok (s\<lparr>k_cpu := c, k_kmemlock := lk\<rparr>))
     else Ok s)"

definition release_kmem :: "'a mkernel_scheme \<Rightarrow> 'a mkernel_scheme outcome" where
  "release_kmem s = (if k_use_lock s
     then andthen (release (k_cpu s) (k_kmemlock s)) (\<lambda>(c, lk). Ok (s\<lparr>k_cpu := c, k_kmemlock := lk\<rparr>))
     else Ok s)"

definition cur_pid :: "'a kernel_scheme \<Rightarrow> cint" where
  "cur_pid s = (case k_proc s of None \<Rightarrow> 0 | Some i \<Rightarrow> p_pid (k_procs s ! i))"

definition trace_mem :: "addr_t \<Rightarrow> string \<Rightarrow> 'a mkernel_scheme \<Rightarrow> 'a mkernel_scheme outcome" where
  "trace_mem v name s =
     traceevent TRACE_TYPE_MEM (cur_pid s) (ucast (V2P v)) 0 0 (Some (cstr name @ [0])) s"

definition kfree :: "addr_t \<Rightarrow> 'a mkernel_scheme \<Rightarrow> 'a mkernel_scheme outcome" where
  "kfree v s =
     (if v mod PGSIZE \<noteq> 0 \<or> v < k_end s \<or> V2P v \<ge> PHYSTOP then Panic ''kfree''
      else let s = s\<lparr>k_mem := memset v 1 PGSIZE (k_mem s)\<rparr> in
        andthen (acquire_kmem s) (\<lambda>s.
        let s = s\<lparr>k_mem := store64 v (k_freelist s) (k_mem s)\<rparr>;
            s = s\<lparr>k_freelist := v\<rparr>
        in andthen (release_kmem s) (\<lambda>s.
          if k_use_lock s then trace_mem v ''kfree'' s else Ok s)))"

definition kalloc :: "'a mkernel_scheme \<Rightarrow> (addr_t \<times> 'a mkernel_scheme) outcome" where
  "kalloc s =
     andthen (acquire_kmem s) (\<lambda>s.
     let r = k_freelist s in
     if r \<noteq> 0 then
       let s = s\<lparr>k_freelist := load64 (k_mem s) r\<rparr> in
       andthen (release_kmem s) (\<lambda>s.
         andthen (if k_use_lock s \<and> r \<noteq> 0 then trace_mem r ''kalloc'' s else Ok s) (\<lambda>s. Ok (r, s)))
     else Panic ''Out of memory!'')"

text \<open>
  The loop of \<open>freerange\<close> adds \<open>PGSIZE\<close> until the next page would pass \<open>vend\<close>. It ends because
  \<open>kfree\<close> only returns for pages below the top of physical memory, where the sum cannot wrap.
\<close>

definition page_ok :: "'a mkernel_scheme \<Rightarrow> addr_t \<Rightarrow> bool" where
  "page_ok s v \<longleftrightarrow> v mod PGSIZE = 0 \<and> \<not> v < k_end s \<and> V2P v < PHYSTOP"

lemma kfree_page_ok: "kfree v s = Ok s' \<Longrightarrow> page_ok s v"
  by (auto simp: kfree_def page_ok_def split: if_splits)

lemma V2P_range:
  assumes "V2P v < PHYSTOP"
  shows "unat v = unat KERNBASE + unat (V2P v)"
proof -
  have lt: "unat (V2P v) < 0xE000000" using assms by (simp add: word_less_nat_alt)
  have "KERNBASE \<le> v"
  proof (rule ccontr)
    assume "\<not> KERNBASE \<le> v"
    then have "unat (V2P v) = 2 ^ 64 + unat v - unat KERNBASE"
      unfolding V2P_def by (intro unat_sub_wrap) simp
    then show False using lt by simp
  qed
  then have "unat (V2P v) = unat v - unat KERNBASE" "unat KERNBASE \<le> unat v"
    unfolding V2P_def by (simp_all add: unat_sub word_le_nat_alt)
  then show ?thesis by linarith
qed

lemma page_ok_range:
  assumes "page_ok s v"
  shows "unat (v + PGSIZE) = unat v + 4096" and "v \<noteq> 0" and "page_aligned v"
proof -
  have eq: "unat v = unat KERNBASE + unat (V2P v)" and "unat (V2P v) < 0xE000000"
    using assms V2P_range [of v] by (simp_all add: page_ok_def word_less_nat_alt)
  then show "unat (v + PGSIZE) = unat v + 4096" by (subst unat_add_less) simp_all
  show "v \<noteq> 0" using eq by auto
  show "page_aligned v" using assms by (simp add: page_ok_def page_aligned_def)
qed

function freerange_loop :: "addr_t \<Rightarrow> addr_t \<Rightarrow> 'a mkernel_scheme \<Rightarrow> 'a mkernel_scheme outcome" where
  "freerange_loop p vend s =
     (if p + PGSIZE \<le> vend then andthen (kfree p s) (freerange_loop (p + PGSIZE) vend) else Ok s)"
  by pat_completeness auto

termination
proof (relation "measure (\<lambda>(p, vend, s). 2 ^ 64 - unat p)")
  fix p vend :: addr_t and s s' :: "'a mkernel_scheme"
  assume "kfree p s = Ok s'"
  then have "unat (p + PGSIZE) = unat p + 4096" by (intro page_ok_range(1) kfree_page_ok)
  then show "((p + PGSIZE, vend, s'), p, vend, s) \<in> measure (\<lambda>(p, vend, s). 2 ^ 64 - unat p)"
    using unat_less_pow64 [of "p + PGSIZE"] by simp
qed simp

definition freerange :: "addr_t \<Rightarrow> addr_t \<Rightarrow> 'a mkernel_scheme \<Rightarrow> 'a mkernel_scheme outcome" where
  "freerange vstart vend s = freerange_loop (PGROUNDUP vstart) vend s"

definition kinit1 :: "addr_t \<Rightarrow> addr_t \<Rightarrow> 'a mkernel_scheme \<Rightarrow> 'a mkernel_scheme outcome" where
  "kinit1 vstart vend s =
     freerange vstart vend (s\<lparr>k_kmemlock := initlock, k_use_lock := False, k_freelist := 0\<rparr>)"

definition kinit2 :: "'a mkernel_scheme \<Rightarrow> 'a mkernel_scheme" where
  "kinit2 s = s\<lparr>k_use_lock := True\<rparr>"

section \<open>The free list\<close>

primrec chain :: "mem \<Rightarrow> addr_t \<Rightarrow> addr_t list \<Rightarrow> bool" where
  "chain m a [] \<longleftrightarrow> a = 0"
| "chain m a (x # xs) \<longleftrightarrow> a = x \<and> a \<noteq> 0 \<and> chain m (load64 m a) xs"

text \<open>The free pages of a state, which are valid, distinct pages linked in this order.\<close>

definition free_pages :: "'a mkernel_scheme \<Rightarrow> addr_t list \<Rightarrow> bool" where
  "free_pages s xs \<longleftrightarrow> chain (k_mem s) (k_freelist s) xs \<and> distinct xs \<and> (\<forall>x \<in> set xs. page_ok s x)"

definition mem_quiet :: "'a mkernel_scheme \<Rightarrow> bool" where
  "mem_quiet s \<longleftrightarrow> trace_quiet s \<and> k_kmemlock s = initlock"

lemma page_ok_upd [simp]:
  "page_ok (s\<lparr>k_mem := m\<rparr>) v = page_ok s v"
  "page_ok (s\<lparr>k_freelist := f\<rparr>) v = page_ok s v"
  "page_ok (s\<lparr>k_trace := tb\<rparr>) v = page_ok s v"
  "page_ok (s\<lparr>k_use_lock := u\<rparr>) v = page_ok s v"
  "page_ok (s\<lparr>k_kmemlock := lk\<rparr>) v = page_ok s v"
  "page_ok (s\<lparr>k_cpu := c\<rparr>) v = page_ok s v"
  by (simp_all add: page_ok_def)

lemma chain_same:
  assumes "\<And>x. x \<in> set xs \<Longrightarrow> load64 m' x = load64 m x"
  shows "chain m' a xs = chain m a xs"
  using assms by (induction xs arbitrary: a) auto

lemma chain_unique: "chain m a xs \<Longrightarrow> chain m a ys \<Longrightarrow> xs = ys"
proof (induction xs arbitrary: a ys)
  case Nil
  then show ?case by (cases ys) auto
next
  case (Cons x xs)
  then show ?case by (cases ys) auto
qed

lemma free_pages_other:
  assumes "free_pages s xs" and "page_aligned v" and "v \<notin> set xs"
    and "\<And>x. PGROUNDDOWN x \<noteq> v \<Longrightarrow> m x = k_mem s x"
  shows "free_pages (s\<lparr>k_mem := m\<rparr>) xs"
proof -
  have "load64 m x = load64 (k_mem s) x" if "x \<in> set xs" for x
  proof -
    have "page_aligned x" using assms(1) that page_ok_range(3) by (auto simp: free_pages_def)
    then have "same_on x 4096 (k_mem s) m"
      using assms that by (intro same_on_write_page [OF assms(2)]) auto
    then show ?thesis using same_on_load64 [of x 4096 "k_mem s" m] by simp
  qed
  then show ?thesis using assms(1) by (simp add: free_pages_def chain_same [of xs m "k_mem s"])
qed

lemma acquire_kmem_ok [lock_simps]:
  "k_kmemlock s = initlock \<Longrightarrow> acquire_kmem s = Ok (if k_use_lock s
     then s\<lparr>k_cpu := pushcli (k_cpu s), k_kmemlock := locked_by (k_cpu s)\<rparr> else s)"
  by (simp add: acquire_kmem_def lock_simps)

lemma release_kmem_ok [lock_simps]:
  "cpu_settled c \<Longrightarrow> k_use_lock s \<Longrightarrow> k_cpu s = pushcli c \<Longrightarrow> k_kmemlock s = locked_by c \<Longrightarrow>
     release_kmem s = Ok (s\<lparr>k_cpu := c, k_kmemlock := initlock\<rparr>)"
  "\<not> k_use_lock s \<Longrightarrow> release_kmem s = Ok s"
  by (simp_all add: release_kmem_def lock_simps)

lemma trace_mem_ok:
  assumes "mem_quiet s"
  shows "\<exists>tb. trace_mem v name s = Ok (s\<lparr>k_trace := tb\<rparr>) \<and> mem_quiet (s\<lparr>k_trace := tb\<rparr>)"
proof (cases "tb_enabled (k_trace s)")
  case True
  have quiet: "trace_quiet s" using assms by (simp add: mem_quiet_def)
  have nm: "\<And>t. Some (cstr name @ [0]) = Some t \<Longrightarrow> 0 \<in> set t" by auto
  obtain e where "te_seq e = tb_seq (k_trace s)"
    "trace_mem v name s = Ok (s\<lparr>k_trace := put_event e (k_trace s)\<rparr>)"
    using traceevent_ok [OF quiet True nm] unfolding trace_mem_def
    by (metis trace_event.select_convs(1))
  then show ?thesis
    using trace_quiet_put [OF quiet] assms by (auto simp: mem_quiet_def)
next
  case False
  then have "trace_mem v name s = Ok (s\<lparr>k_trace := k_trace s\<rparr>)"
    by (simp add: trace_mem_def traceevent_def)
  then show ?thesis using assms by (metis tkernel.surjective tkernel.update_convs(1) mem_quiet_def)
qed

lemma trace_mem_if:
  assumes "mem_quiet s"
  shows "\<exists>tb. (if b then trace_mem v name s else Ok s) = Ok (s\<lparr>k_trace := tb\<rparr>) \<and>
    mem_quiet (s\<lparr>k_trace := tb\<rparr>)"
proof (cases b)
  case True
  then show ?thesis using trace_mem_ok [OF assms] by simp
next
  case False
  then show ?thesis using assms by (intro exI [of _ "k_trace s"]) simp
qed

text \<open>What a page holds after \<open>kfree\<close>: the link and then the fill pattern.\<close>

definition freed_mem :: "addr_t \<Rightarrow> addr_t \<Rightarrow> mem \<Rightarrow> mem" where
  "freed_mem v next m = store64 v next (fill v 4096 1 m)"

lemma freed_mem_other: "page_aligned v \<Longrightarrow> PGROUNDDOWN x \<noteq> v \<Longrightarrow> freed_mem v next m x = m x"
  by (simp add: freed_mem_def store64_page fill_page)

lemma load64_freed_mem: "load64 (freed_mem v next m) v = next"
  by (simp add: freed_mem_def load_store64)

lemma mem_quiet_upd [simp]:
  "mem_quiet (s\<lparr>k_mem := m\<rparr>) = mem_quiet s"
  "mem_quiet (s\<lparr>k_freelist := f\<rparr>) = mem_quiet s"
  by (simp_all add: mem_quiet_def trace_quiet_def)

lemma kfree_ok:
  assumes "mem_quiet s" and "page_ok s v"
  shows "\<exists>tb. kfree v s = Ok (s\<lparr>k_mem := freed_mem v (k_freelist s) (k_mem s), k_freelist := v, k_trace := tb\<rparr>) \<and>
    mem_quiet (s\<lparr>k_mem := freed_mem v (k_freelist s) (k_mem s), k_freelist := v, k_trace := tb\<rparr>)"
proof -
  let ?s = "s\<lparr>k_mem := freed_mem v (k_freelist s) (k_mem s), k_freelist := v\<rparr>"
  have "memset v 1 PGSIZE (k_mem s) = fill v 4096 1 (k_mem s)"
    by (simp add: memset_fill)
  then have "kfree v s = (if k_use_lock s then trace_mem v ''kfree'' ?s else Ok ?s)"
    using assms by (cases s)
      (auto simp: kfree_def page_ok_def mem_quiet_def trace_quiet_def acquire_kmem_ok
        release_kmem_ok Let_def freed_mem_def)
  moreover have "mem_quiet ?s" using assms(1) by simp
  ultimately show ?thesis using trace_mem_if [of ?s "k_use_lock s" v "''kfree''"] by auto
qed

lemma kfree_free_pages:
  assumes "page_ok s v" and "free_pages s xs" and "v \<notin> set xs"
  shows "free_pages (s\<lparr>k_mem := freed_mem v (k_freelist s) (k_mem s), k_freelist := v, k_trace := tb\<rparr>) (v # xs)"
proof -
  let ?m = "freed_mem v (k_freelist s) (k_mem s)"
  have "free_pages (s\<lparr>k_mem := ?m\<rparr>) xs"
    using assms page_ok_range(3) [OF assms(1)]
    by (intro free_pages_other [where v = v]) (auto simp: freed_mem_other)
  then have "chain ?m (k_freelist s) xs" "distinct xs" "\<forall>x \<in> set xs. page_ok s x"
    by (simp_all add: free_pages_def)
  then show ?thesis
    using assms page_ok_range(2) by (auto simp: free_pages_def load64_freed_mem)
qed

lemma kalloc_ok:
  assumes "mem_quiet s" and "free_pages s (v # xs)"
  shows "\<exists>tb. kalloc s = Ok (v, s\<lparr>k_freelist := load64 (k_mem s) v, k_trace := tb\<rparr>) \<and>
    mem_quiet (s\<lparr>k_freelist := load64 (k_mem s) v, k_trace := tb\<rparr>) \<and>
    free_pages (s\<lparr>k_freelist := load64 (k_mem s) v, k_trace := tb\<rparr>) xs"
proof -
  let ?s = "s\<lparr>k_freelist := load64 (k_mem s) v\<rparr>"
  have v: "k_freelist s = v" "v \<noteq> 0" using assms(2) by (auto simp: free_pages_def)
  have "kalloc s = andthen (if k_use_lock s then trace_mem v ''kalloc'' ?s else Ok ?s) (\<lambda>s. Ok (v, s))"
    using assms(1) v by (cases s)
      (auto simp: kalloc_def mem_quiet_def trace_quiet_def acquire_kmem_ok release_kmem_ok Let_def)
  moreover have "mem_quiet ?s" using assms(1) by simp
  moreover have "free_pages (?s\<lparr>k_trace := tb\<rparr>) xs" for tb
    using assms(2) by (auto simp: free_pages_def)
  ultimately show ?thesis using trace_mem_if [of ?s "k_use_lock s" v "''kalloc''"] by auto
qed

lemma kalloc_empty:
  "mem_quiet s \<Longrightarrow> free_pages s [] \<Longrightarrow> kalloc s = Panic ''Out of memory!''"
  by (simp add: kalloc_def acquire_kmem_ok mem_quiet_def free_pages_def)

section \<open>The allocator as an interface\<close>

text \<open>Taking \<open>n\<close> pages one after another, and giving a list of pages back.\<close>

primrec alloc_n :: "('s \<Rightarrow> (addr_t \<times> 's) outcome) \<Rightarrow> nat \<Rightarrow> 's \<Rightarrow> (addr_t list \<times> 's) outcome" where
  "alloc_n alloc 0 s = Ok ([], s)"
| "alloc_n alloc (Suc n) s =
     andthen (alloc s) (\<lambda>(v, s). andthen (alloc_n alloc n s) (\<lambda>(vs, s). Ok (v # vs, s)))"

primrec free_all :: "(addr_t \<Rightarrow> 's \<Rightarrow> 's outcome) \<Rightarrow> addr_t list \<Rightarrow> 's \<Rightarrow> 's outcome" where
  "free_all free [] s = Ok s"
| "free_all free (v # vs) s = andthen (free v s) (free_all free vs)"

text \<open>
  What a client of a page allocator may rely on: \<open>pages s xs\<close> says that \<open>xs\<close> are the free pages,
  in the order in which they will be handed out.
\<close>

locale page_allocator =
  fixes alloc :: "'s \<Rightarrow> (addr_t \<times> 's) outcome"
    and free :: "addr_t \<Rightarrow> 's \<Rightarrow> 's outcome"
    and inv :: "'s \<Rightarrow> bool"
    and pages :: "'s \<Rightarrow> addr_t list \<Rightarrow> bool"
    and valid :: "'s \<Rightarrow> addr_t \<Rightarrow> bool"
  assumes pages_distinct: "pages s xs \<Longrightarrow> distinct xs"
    and pages_valid: "pages s xs \<Longrightarrow> v \<in> set xs \<Longrightarrow> valid s v"
    and alloc_law: "inv s \<Longrightarrow> pages s (v # xs) \<Longrightarrow>
      \<exists>s'. alloc s = Ok (v, s') \<and> inv s' \<and> pages s' xs \<and> valid s' = valid s"
    and free_law: "inv s \<Longrightarrow> pages s xs \<Longrightarrow> valid s v \<Longrightarrow> v \<notin> set xs \<Longrightarrow>
      \<exists>s'. free v s = Ok s' \<and> inv s' \<and> pages s' (v # xs) \<and> valid s' = valid s"
begin

lemma alloc_n_law:
  "inv s \<Longrightarrow> pages s (ys @ xs) \<Longrightarrow>
     \<exists>s'. alloc_n alloc (length ys) s = Ok (ys, s') \<and> inv s' \<and> pages s' xs \<and> valid s' = valid s"
proof (induction ys arbitrary: s)
  case (Cons v ys)
  then obtain s1 where s1: "alloc s = Ok (v, s1)" "inv s1" "pages s1 (ys @ xs)" "valid s1 = valid s"
    using alloc_law [of s v "ys @ xs"] by auto
  then show ?case using Cons.IH [of s1] by auto
qed simp

lemma free_all_law:
  "inv s \<Longrightarrow> pages s xs \<Longrightarrow> distinct ys \<Longrightarrow> set ys \<inter> set xs = {} \<Longrightarrow> \<forall>v \<in> set ys. valid s v \<Longrightarrow>
     \<exists>s'. free_all free ys s = Ok s' \<and> inv s' \<and> pages s' (rev ys @ xs) \<and> valid s' = valid s"
proof (induction ys arbitrary: s xs)
  case (Cons v ys)
  then obtain s1 where "free v s = Ok s1" "inv s1" "pages s1 (v # xs)" "valid s1 = valid s"
    using free_law [of s xs v] by auto
  then show ?case using Cons.IH [of s1 "v # xs"] Cons.prems by auto
qed simp

text \<open>Pages handed out are distinct, and giving them back in reverse restores the free list.\<close>

lemma alloc_free_roundtrip:
  assumes "inv s" and "pages s (ys @ xs)"
  shows "\<exists>s' s''. alloc_n alloc (length ys) s = Ok (ys, s') \<and> pages s' xs \<and>
    free_all free (rev ys) s' = Ok s'' \<and> inv s'' \<and> pages s'' (ys @ xs)"
proof -
  obtain s' where s': "alloc_n alloc (length ys) s = Ok (ys, s')" "inv s'" "pages s' xs" "valid s' = valid s"
    using alloc_n_law [OF assms] by blast
  have "distinct ys" "set (rev ys) \<inter> set xs = {}" using pages_distinct [OF assms(2)] by auto
  moreover have "\<forall>v \<in> set (rev ys). valid s' v" using pages_valid [OF assms(2)] s' by auto
  ultimately show ?thesis using free_all_law [of s' xs "rev ys"] s' by auto
qed

end

lemma page_ok_cong: "k_end s' = k_end s \<Longrightarrow> page_ok s' = page_ok s"
  by (rule ext) (simp add: page_ok_def)

interpretation kmem: page_allocator kalloc kfree mem_quiet free_pages page_ok
proof unfold_locales
  fix s :: "'a mkernel_scheme" and v xs
  assume a: "mem_quiet s"
  show "\<exists>s'. kalloc s = Ok (v, s') \<and> mem_quiet s' \<and> free_pages s' xs \<and> page_ok s' = page_ok s"
    if "free_pages s (v # xs)"
    using kalloc_ok [OF a that] page_ok_cong by fastforce
  show "\<exists>s'. kfree v s = Ok s' \<and> mem_quiet s' \<and> free_pages s' (v # xs) \<and> page_ok s' = page_ok s"
    if "free_pages s xs" "page_ok s v" "v \<notin> set xs"
    using kfree_ok [OF a that(2)] kfree_free_pages [OF that(2,1,3)]
    by (auto intro!: page_ok_cong)
qed (auto simp: free_pages_def)

section \<open>Initialisation\<close>

lemma unat_pgroundup:
  assumes "unat a + 4095 < 2 ^ 64"
  shows "unat (PGROUNDUP a) = (unat a + 4095) div 4096 * 4096"
proof -
  have "PGROUNDUP a = PGROUNDDOWN (a + 4095)" by (simp add: PGROUNDUP_def PGROUNDDOWN_def)
  moreover have "unat (a + 4095) = unat a + 4095" using assms by (subst unat_add_less) simp_all
  ultimately show ?thesis by (simp add: unat_pgrounddown)
qed

text \<open>The \<open>n\<close> pages from \<open>p\<close> on.\<close>

definition page_run :: "addr_t \<Rightarrow> nat \<Rightarrow> addr_t list" where
  "page_run p n = map (\<lambda>i. p + of_nat i * PGSIZE) [0..<n]"

lemma page_run_Suc: "page_run p (Suc n) = p # page_run (p + PGSIZE) n"
  by (simp add: page_run_def upt_conv_Cons map_Suc_upt [symmetric] comp_def algebra_simps del: upt_Suc)

lemma in_page_run: "v \<in> set (page_run p n) \<Longrightarrow> \<exists>i < n. v = p + of_nat i * PGSIZE"
  by (auto simp: page_run_def)

lemma unat_page_run:
  assumes "unat p + 4096 * n < 2 ^ 64" and "i < n"
  shows "unat (p + of_nat i * PGSIZE) = unat p + 4096 * i"
proof -
  have i: "4096 * i < 2 ^ 64" using assms by linarith
  have "unat (of_nat i * PGSIZE) = unat (of_nat (4096 * i) :: addr_t)" by (simp add: mult.commute)
  also have "\<dots> = 4096 * i" using i by (intro unat_of_nat_small) simp
  finally show ?thesis using assms by (subst unat_add_less) simp_all
qed

lemma distinct_page_run:
  assumes "unat p + 4096 * n < 2 ^ 64"
  shows "distinct (page_run p n)"
proof -
  have "i = j" if "i < n" "j < n" "p + of_nat i * PGSIZE = p + of_nat j * PGSIZE" for i j
    using arg_cong [OF that(3), of unat] unfolding unat_page_run [OF assms that(1)]
      unat_page_run [OF assms that(2)] by linarith
  then have "inj_on (\<lambda>i. p + of_nat i * PGSIZE) {0..<n}" by (auto simp: inj_on_def)
  then show ?thesis by (simp add: page_run_def distinct_map)
qed

lemma freerange_loop_free_all:
  assumes "unat p + 4096 * n \<le> unat vend" and "unat vend < unat p + 4096 * Suc n"
    and "unat vend + 4096 < 2 ^ 64"
  shows "freerange_loop p vend s = free_all kfree (page_run p n) s"
  using assms
proof (induction n arbitrary: p s)
  case 0
  have "unat (p + PGSIZE) = unat p + 4096" using 0 by (subst unat_add_less) simp_all
  then have "\<not> p + PGSIZE \<le> vend" using 0 by (simp add: word_le_nat_alt)
  then show ?case by (subst freerange_loop.simps) (simp add: page_run_def)
next
  case (Suc n)
  have u: "unat (p + PGSIZE) = unat p + 4096" using Suc.prems by (subst unat_add_less) simp_all
  then have "p + PGSIZE \<le> vend" using Suc.prems by (simp add: word_le_nat_alt)
  moreover have "freerange_loop (p + PGSIZE) vend t = free_all kfree (page_run (p + PGSIZE) n) t"
    for t :: "'a mkernel_scheme"
    using Suc.prems u by (intro Suc.IH) simp_all
  ultimately show ?case
    by (subst freerange_loop.simps) (simp add: page_run_Suc cong: andthen_cong)
qed

text \<open>A range of memory that lies between the end of the kernel and the top of physical memory.\<close>

definition free_range :: "'a mkernel_scheme \<Rightarrow> addr_t \<Rightarrow> addr_t \<Rightarrow> bool" where
  "free_range s vstart vend \<longleftrightarrow> k_end s \<le> vstart \<and> KERNBASE \<le> vstart \<and>
     unat vstart + 4096 \<le> unat vend \<and> vend \<le> KERNBASE + PHYSTOP"

definition range_pages :: "addr_t \<Rightarrow> addr_t \<Rightarrow> addr_t list" where
  "range_pages vstart vend =
     page_run (PGROUNDUP vstart) ((unat vend - unat (PGROUNDUP vstart)) div 4096)"

lemma V2P_less:
  assumes "KERNBASE \<le> v" and "v < KERNBASE + PHYSTOP"
  shows "V2P v < PHYSTOP"
proof -
  have "unat (V2P v) = unat v - unat KERNBASE"
    using assms(1) unfolding V2P_def by (simp add: unat_sub)
  then show ?thesis using assms by (simp add: word_less_nat_alt word_le_nat_alt)
qed

lemma freerange_ok:
  assumes "mem_quiet s" and "free_pages s []" and "free_range s vstart vend"
  shows "\<exists>s'. freerange vstart vend s = Ok s' \<and> mem_quiet s' \<and>
    free_pages s' (rev (range_pages vstart vend))"
proof -
  let ?p = "PGROUNDUP vstart" and ?n = "(unat vend - unat (PGROUNDUP vstart)) div 4096"
  have bounds: "unat (k_end s) \<le> unat vstart" "unat KERNBASE \<le> unat vstart"
      "unat vend \<le> unat KERNBASE + 0xE000000" "unat vstart + 4096 \<le> unat vend"
    using assms(3) by (simp_all add: free_range_def word_le_nat_alt)
  have p: "unat ?p = (unat vstart + 4095) div 4096 * 4096"
    using bounds by (intro unat_pgroundup) simp
  have p_bounds: "unat vstart \<le> unat ?p" "unat ?p \<le> unat vend" "unat vend < 2 ^ 64 - 4096"
    using bounds unfolding p by (linarith | simp)+
  have n: "unat ?p + 4096 * ?n \<le> unat vend" "unat vend < unat ?p + 4096 * Suc ?n"
    using p_bounds by (auto simp: mult.commute [of 4096] dividend_less_times_div)
  have "page_ok s v" if mem: "v \<in> set (page_run ?p ?n)" for v
  proof -
    obtain i where i: "i < ?n" "v = ?p + of_nat i * PGSIZE" using in_page_run [OF mem] by blast
    have v: "unat v = unat ?p + 4096 * i"
      using unat_page_run [of ?p ?n i] n p_bounds i by simp
    moreover have "4096 * i + 4096 \<le> 4096 * ?n" using i(1) by simp
    ultimately have "unat v + 4096 \<le> unat vend" using n by linarith
    moreover have "unat v mod 4096 = 0" using v p by simp
    moreover from calculation have "V2P v < PHYSTOP"
      using v bounds p_bounds
      by (intro V2P_less) (simp_all add: word_less_nat_alt word_le_nat_alt)
    ultimately show ?thesis
      using v bounds p_bounds by (simp add: page_ok_def page_aligned_unat [unfolded page_aligned_def]
        word_less_nat_alt)
  qed
  moreover have "distinct (page_run ?p ?n)" using n p_bounds by (intro distinct_page_run) simp
  moreover have "freerange vstart vend s = free_all kfree (page_run ?p ?n) s"
    unfolding freerange_def using n p_bounds by (intro freerange_loop_free_all) simp_all
  ultimately show ?thesis
    using kmem.free_all_law [OF assms(1,2), of "page_run ?p ?n"] by (auto simp: range_pages_def)
qed

section \<open>Properties\<close>

text \<open>C8: \<open>kalloc\<close> and \<open>kfree\<close> keep the free list sound and undo each other. From a state whose free list
  links distinct valid pages, allocating \<open>n\<close> pages hands out the first \<open>n\<close> of them, all different,
  each call leaving a sound list of the rest; freeing them again in reverse order gives back the
  original list. Nothing panics on the way.\<close>

theorem kalloc_kfree_roundtrip:
  assumes "mem_quiet s" and "free_pages s (ys @ xs)"
  shows "distinct ys \<and> (\<exists>s' s''. alloc_n kalloc (length ys) s = Ok (ys, s') \<and> free_pages s' xs \<and>
    free_all kfree (rev ys) s' = Ok s'' \<and> mem_quiet s'' \<and> free_pages s'' (ys @ xs))"
  using kmem.alloc_free_roundtrip [OF assms] assms(2) by (auto simp: free_pages_def)

text \<open>A machine whose kernel ends at 2 MiB, and the same machine with one free page.\<close>

definition boot_mkernel :: "'a \<Rightarrow> 'a mkernel_scheme" where
  "boot_mkernel x = boot_tkernel \<lparr>k_mem = (\<lambda>_. 0), k_end = KERNBASE + 0x200000,
     k_kmemlock = initlock, k_use_lock = True, k_freelist = 0, \<dots> = x\<rparr>"

definition one_page :: "unit mkernel_scheme" where
  "one_page = (boot_mkernel ())\<lparr>k_freelist := KERNBASE + 0x300000\<rparr>"

lemma boot_mkernel_fields [simp]:
  "k_end (boot_mkernel x) = KERNBASE + 0x200000" "k_mem (boot_mkernel x) = (\<lambda>_. 0)"
  "k_kmemlock (boot_mkernel x) = initlock" "k_freelist (boot_mkernel x) = 0"
  by (simp_all add: boot_mkernel_def boot_tkernel_def traceinit_def boot_kernel_def)

lemma one_page_ok: "mem_quiet one_page" "free_pages one_page [KERNBASE + 0x300000]"
proof -
  have "trace_quiet (boot_mkernel ())" unfolding boot_mkernel_def by (rule boot_tkernel_quiet)
  then show "mem_quiet one_page" by (simp add: one_page_def mem_quiet_def trace_quiet_def)
  have "read_bytes (\<lambda>_. 0) a 8 = [0, 0, 0, 0, 0, 0, 0, 0]" for a
    by (simp add: read_bytes_def upt_rec)
  then have "load64 (\<lambda>_. 0) a = 0" for a by (simp add: load64_def)
  then show "free_pages one_page [KERNBASE + 0x300000]"
    by (simp add: free_pages_def one_page_def page_ok_def V2P_def)
qed

theorem kalloc_kfree_roundtrip_witness:
  "\<exists>s' s''. alloc_n kalloc 1 one_page = Ok ([KERNBASE + 0x300000], s') \<and> free_pages s' [] \<and>
    free_all kfree [KERNBASE + 0x300000] s' = Ok s'' \<and> free_pages s'' [KERNBASE + 0x300000]"
  using kalloc_kfree_roundtrip [of one_page "[KERNBASE + 0x300000]" "[]"] one_page_ok
  by (simp del: alloc_n.simps free_all.simps) blast

text \<open>C12: \<open>kfree\<close> panics on exactly the addresses that are not pages of allocatable memory (unaligned,
  inside the kernel image, or beyond physical memory), and \<open>kalloc\<close> panics exactly when no page is
  free; in every other case both return.\<close>

theorem kalloc_kfree_panics:
  assumes "mem_quiet s" and "free_pages s xs"
  shows "(kfree v s = Panic ''kfree'' \<longleftrightarrow> \<not> page_ok s v) \<and>
    (page_ok s v \<longrightarrow> (\<exists>s'. kfree v s = Ok s')) \<and>
    (kalloc s = Panic ''Out of memory!'' \<longleftrightarrow> xs = []) \<and>
    (xs \<noteq> [] \<longrightarrow> (\<exists>s'. kalloc s = Ok (hd xs, s')))"
proof -
  have "\<not> page_ok s v \<Longrightarrow> kfree v s = Panic ''kfree''"
    by (auto simp: kfree_def page_ok_def)
  moreover have "page_ok s v \<Longrightarrow> \<exists>s'. kfree v s = Ok s'" using kfree_ok [OF assms(1)] by blast
  moreover have "xs = [] \<Longrightarrow> kalloc s = Panic ''Out of memory!''"
    using kalloc_empty assms by blast
  moreover have "xs \<noteq> [] \<Longrightarrow> \<exists>s'. kalloc s = Ok (hd xs, s')"
    using kalloc_ok [OF assms(1), of "hd xs" "tl xs"] assms(2) by auto
  ultimately show ?thesis by (metis outcome.distinct(1))
qed

theorem kalloc_kfree_panics_witness:
  "(\<exists>s'. kalloc one_page = Ok (KERNBASE + 0x300000, s')) \<and>
   kfree (KERNBASE + 0x300008) one_page = Panic ''kfree''"
proof -
  have "\<not> page_ok one_page (KERNBASE + 0x300008)" by (simp add: page_ok_def)
  then show ?thesis
    using kalloc_kfree_panics [OF one_page_ok, of "KERNBASE + 0x300008"] by auto
qed

text \<open>C13: \<open>kinit1\<close> puts exactly the whole pages of the given range on the free list, each once, and
  none beyond it.\<close>

theorem kinit1_frees_range:
  assumes "trace_quiet s" and "free_range s vstart vend"
  shows "\<exists>s'. kinit1 vstart vend s = Ok s' \<and> free_pages s' (rev (range_pages vstart vend))"
proof -
  let ?s = "s\<lparr>k_kmemlock := initlock, k_use_lock := False, k_freelist := 0\<rparr>"
  have "mem_quiet ?s" using assms(1) by (simp add: mem_quiet_def trace_quiet_def)
  moreover have "free_pages ?s []" by (simp add: free_pages_def)
  moreover have "free_range ?s vstart vend" using assms(2) by (simp add: free_range_def)
  ultimately show ?thesis using freerange_ok [of ?s vstart vend] by (auto simp: kinit1_def)
qed

theorem kinit1_frees_range_witness:
  "\<exists>s'. kinit1 (KERNBASE + 0x200010) (KERNBASE + 0x203000) (boot_mkernel ()) = Ok s' \<and>
    free_pages s' [KERNBASE + 0x202000, KERNBASE + 0x201000]"
proof -
  have "trace_quiet (boot_mkernel ())" unfolding boot_mkernel_def by (rule boot_tkernel_quiet)
  moreover have "free_range (boot_mkernel ()) (KERNBASE + 0x200010) (KERNBASE + 0x203000)"
    by (simp add: free_range_def)
  moreover have "range_pages (KERNBASE + 0x200010) (KERNBASE + 0x203000) =
      [KERNBASE + 0x201000, KERNBASE + 0x202000]"
    by (simp add: range_pages_def PGROUNDUP_def page_run_def upt_rec)
  ultimately show ?thesis
    using kinit1_frees_range [of "boot_mkernel ()" "KERNBASE + 0x200010" "KERNBASE + 0x203000"] by simp
qed

end
