(* ===== verification/Bio.thy ===== *)
theory Bio
  imports Sleeplock Kalloc
begin

text \<open>
  The buffer cache, \<^verbatim>\<open>bio.c\<close>, over the block device of \<^verbatim>\<open>memide.c\<close>, which keeps the disk image in
  memory. The cache is a set of buffers on a doubly linked list in order of use; its promise to the
  rest of the kernel is stated on a \<^emph>\<open>view\<close> of the disk, block number to contents, that \<open>bread\<close> and
  \<open>brelse\<close> do not change.
\<close>

section \<open>State\<close>

text \<open>
  \<open>b_valid\<close> and \<open>b_dirty\<close> are the bits \<open>B_VALID\<close> and \<open>B_DIRTY\<close> of \<open>flags\<close>. The fields \<open>prev\<close> and
  \<open>next\<close> of the buffers and of \<open>bcache.head\<close> are the arrays \<open>k_bprev\<close> and \<open>k_bnext\<close>; index \<open>NBUF\<close> is
  the head. \<open>k_disk\<close> is \<open>memdisk\<close>, block by block. \<open>k_dwrites\<close> is a ghost that no code reads: the
  writes the device has performed so far, in order.
\<close>

record buf =
  b_valid :: bool
  b_dirty :: bool
  b_dev :: uint
  b_blockno :: uint
  b_lock :: sleeplock
  b_refcnt :: uint
  b_data :: "uchar list"

record bkernel = mkernel +
  k_blk :: spinlock
  k_bufs :: "buf list"
  k_bprev :: "nat list"
  k_bnext :: "nat list"
  k_disk :: "uchar list list"
  k_dwrites :: "(uint \<times> uchar list) list"

abbreviation (input) BHEAD :: nat where "BHEAD \<equiv> NBUF"

definition upd_buf :: "nat \<Rightarrow> (buf \<Rightarrow> buf) \<Rightarrow> 'a bkernel_scheme \<Rightarrow> 'a bkernel_scheme" where
  "upd_buf i f s = s\<lparr>k_bufs := (k_bufs s)[i := f (k_bufs s ! i)]\<rparr>"

section \<open>The block device\<close>

definition iderw :: "nat \<Rightarrow> 'a bkernel_scheme \<Rightarrow> 'a bkernel_scheme outcome" where
  "iderw i s =
     andthen (holdingsleep (b_lock (k_bufs s ! i)) s) (\<lambda>(r, lk, s).
     let s = upd_buf i (\<lambda>b. b\<lparr>b_lock := lk\<rparr>) s; b = k_bufs s ! i in
     if \<not> r then Panic ''iderw: buf not locked''
     else if b_valid b \<and> \<not> b_dirty b then Panic ''iderw: nothing to do''
     else if b_dev b \<noteq> 1 then Panic ''iderw: request not for disk 1''
     else if unat (b_blockno b) \<ge> length (k_disk s) then Panic ''iderw: block out of range''
     else if b_dirty b then
       let s = upd_buf i (\<lambda>b. b\<lparr>b_dirty := False\<rparr>) s;
           s = s\<lparr>k_disk := (k_disk s)[unat (b_blockno b) := b_data b],
                 k_dwrites := k_dwrites s @ [(b_blockno b, b_data b)]\<rparr>
       in Ok (upd_buf i (\<lambda>b. b\<lparr>b_valid := True\<rparr>) s)
     else
       let s = upd_buf i (\<lambda>c. c\<lparr>b_data := k_disk s ! unat (b_blockno b)\<rparr>) s
       in Ok (upd_buf i (\<lambda>b. b\<lparr>b_valid := True\<rparr>) s))"

section \<open>The cache\<close>

text \<open>One turn of the loop of \<open>binit\<close>: put buffer \<open>b\<close> behind the head.\<close>

definition link_front :: "nat \<Rightarrow> nat list \<Rightarrow> nat list \<Rightarrow> nat list \<times> nat list" where
  "link_front b pv nx =
     (let nx = nx[b := nx ! BHEAD]; pv = pv[b := BHEAD];
          pv = pv[nx ! BHEAD := b]; nx = nx[BHEAD := b]
      in (pv, nx))"

definition unlink :: "nat \<Rightarrow> nat list \<Rightarrow> nat list \<Rightarrow> nat list \<times> nat list" where
  "unlink b pv nx =
     (let pv = pv[nx ! b := pv ! b]; nx = nx[pv ! b := nx ! b] in (pv, nx))"

primrec binit_loop :: "nat list \<Rightarrow> 'a bkernel_scheme \<Rightarrow> 'a bkernel_scheme" where
  "binit_loop [] s = s"
| "binit_loop (b # bs) s =
     (let (pv, nx) = link_front b (k_bprev s) (k_bnext s);
          s = s\<lparr>k_bprev := pv, k_bnext := nx\<rparr>;
          s = upd_buf b (\<lambda>b. b\<lparr>b_lock := initsleeplock\<rparr>) s
      in binit_loop bs s)"

definition binit :: "'a bkernel_scheme \<Rightarrow> 'a bkernel_scheme" where
  "binit s = binit_loop [0..<NBUF] (s\<lparr>k_blk := initlock,
     k_bprev := (k_bprev s)[BHEAD := BHEAD], k_bnext := (k_bnext s)[BHEAD := BHEAD]\<rparr>)"

text \<open>
  The two searches of \<open>bget\<close> walk the list until they come back to the head. The fuel bounds the
  walk; on a well-formed list \<open>NBUF + 1\<close> steps always suffice (lemma \<open>walk_ring\<close> below).
\<close>

primrec walk :: "(nat \<Rightarrow> bool) \<Rightarrow> nat list \<Rightarrow> nat \<Rightarrow> nat \<Rightarrow> nat option outcome" where
  "walk P nx 0 b = Fault ''endless list''"
| "walk P nx (Suc fuel) b =
     (if b = BHEAD then Ok None else if P b then Ok (Some b) else walk P nx fuel (nx ! b))"

definition acquire_blk :: "'a bkernel_scheme \<Rightarrow> 'a bkernel_scheme outcome" where
  "acquire_blk s = andthen (acquire (k_cpu s) (k_blk s)) (\<lambda>(c, lk). Ok (s\<lparr>k_cpu := c, k_blk := lk\<rparr>))"

definition release_blk :: "'a bkernel_scheme \<Rightarrow> 'a bkernel_scheme outcome" where
  "release_blk s = andthen (release (k_cpu s) (k_blk s)) (\<lambda>(c, lk). Ok (s\<lparr>k_cpu := c, k_blk := lk\<rparr>))"

definition lock_buf :: "nat \<Rightarrow> 'a bkernel_scheme \<Rightarrow> (nat \<times> 'a bkernel_scheme) outcome" where
  "lock_buf b s = andthen (acquiresleep (b_lock (k_bufs s ! b)) s)
     (\<lambda>(lk, s). Ok (b, upd_buf b (\<lambda>x. x\<lparr>b_lock := lk\<rparr>) s))"

definition bget :: "uint \<Rightarrow> uint \<Rightarrow> 'a bkernel_scheme \<Rightarrow> (nat \<times> 'a bkernel_scheme) outcome" where
  "bget dev blockno s =
     andthen (acquire_blk s) (\<lambda>s.
     andthen (walk (\<lambda>b. b_dev (k_bufs s ! b) = dev \<and> b_blockno (k_bufs s ! b) = blockno)
       (k_bnext s) (Suc NBUF) (k_bnext s ! BHEAD)) (\<lambda>hit.
     case hit of
       Some b \<Rightarrow>
         let s = upd_buf b (\<lambda>x. x\<lparr>b_refcnt := b_refcnt x + 1\<rparr>) s
         in andthen (release_blk s) (lock_buf b)
     | None \<Rightarrow>
         andthen (walk (\<lambda>b. b_refcnt (k_bufs s ! b) = 0 \<and> \<not> b_dirty (k_bufs s ! b))
           (k_bprev s) (Suc NBUF) (k_bprev s ! BHEAD)) (\<lambda>free.
         case free of
           Some b \<Rightarrow>
             let s = upd_buf b (\<lambda>x. x\<lparr>b_dev := dev, b_blockno := blockno, b_valid := False,
                   b_dirty := False, b_refcnt := 1\<rparr>) s
             in andthen (release_blk s) (lock_buf b)
         | None \<Rightarrow> Panic ''bget: no buffers'')))"

definition bread :: "uint \<Rightarrow> uint \<Rightarrow> 'a bkernel_scheme \<Rightarrow> (nat \<times> 'a bkernel_scheme) outcome" where
  "bread dev blockno s =
     andthen (bget dev blockno s) (\<lambda>(b, s).
     andthen (if \<not> b_valid (k_bufs s ! b) then iderw b s else Ok s) (\<lambda>s. Ok (b, s)))"

definition bwrite :: "nat \<Rightarrow> 'a bkernel_scheme \<Rightarrow> 'a bkernel_scheme outcome" where
  "bwrite b s =
     andthen (holdingsleep (b_lock (k_bufs s ! b)) s) (\<lambda>(r, lk, s).
     let s = upd_buf b (\<lambda>x. x\<lparr>b_lock := lk\<rparr>) s in
     if \<not> r then Panic ''bwrite'' else iderw b (upd_buf b (\<lambda>x. x\<lparr>b_dirty := True\<rparr>) s))"

definition brelse :: "nat \<Rightarrow> 'a bkernel_scheme \<Rightarrow> 'a bkernel_scheme outcome" where
  "brelse b s =
     andthen (holdingsleep (b_lock (k_bufs s ! b)) s) (\<lambda>(r, lk, s).
     let s = upd_buf b (\<lambda>x. x\<lparr>b_lock := lk\<rparr>) s in
     if \<not> r then Panic ''brelse''
     else andthen (releasesleep (BufLockChan b) (b_lock (k_bufs s ! b)) s) (\<lambda>(lk, s).
       let s = upd_buf b (\<lambda>x. x\<lparr>b_lock := lk\<rparr>) s in
       andthen (acquire_blk s) (\<lambda>s.
       let s = upd_buf b (\<lambda>x. x\<lparr>b_refcnt := b_refcnt x - 1\<rparr>) s;
           s = (if b_refcnt (k_bufs s ! b) = 0
                then let (pv, nx) = unlink b (k_bprev s) (k_bnext s); (pv, nx) = link_front b pv nx
                     in s\<lparr>k_bprev := pv, k_bnext := nx\<rparr>
                else s)
       in release_blk s)))"

section \<open>The linked list\<close>

text \<open>
  \<open>linked pv nx a xs b\<close>: following \<open>nx\<close> from \<open>a\<close> visits exactly \<open>xs\<close> and arrives at \<open>b\<close>, and \<open>pv\<close>
  leads back. The cache's list is such a path from the head to the head.
\<close>

primrec linked :: "nat list \<Rightarrow> nat list \<Rightarrow> nat \<Rightarrow> nat list \<Rightarrow> nat \<Rightarrow> bool" where
  "linked pv nx a [] b \<longleftrightarrow> nx ! a = b \<and> pv ! b = a"
| "linked pv nx a (x # xs) b \<longleftrightarrow> nx ! a = x \<and> pv ! x = a \<and> linked pv nx x xs b"

definition ring_list :: "nat list \<Rightarrow> nat list \<Rightarrow> nat list \<Rightarrow> bool" where
  "ring_list pv nx xs \<longleftrightarrow> length pv = Suc NBUF \<and> length nx = Suc NBUF \<and> distinct xs \<and>
     set xs \<subseteq> {0..<NBUF} \<and> linked pv nx BHEAD xs BHEAD"

lemma linked_append [simp]:
  "linked pv nx a (ys @ b # zs) c \<longleftrightarrow> linked pv nx a ys b \<and> linked pv nx b zs c"
  by (induction ys arbitrary: a) auto

lemma linked_rev: "linked nx pv b (rev xs) a \<longleftrightarrow> linked pv nx a xs b"
  by (induction xs arbitrary: a) auto

lemma linked_cong:
  "(\<And>y. y \<in> set (a # xs) \<Longrightarrow> nx' ! y = nx ! y) \<Longrightarrow> (\<And>y. y \<in> set (xs @ [b]) \<Longrightarrow> pv' ! y = pv ! y) \<Longrightarrow>
     linked pv' nx' a xs b = linked pv nx a xs b"
  by (induction xs arbitrary: a) auto

lemma nth_update_notin: "y \<in> set zs \<Longrightarrow> i \<notin> set zs \<Longrightarrow> xs[i := v] ! y = xs ! y"
  by (metis nth_list_update_neq)

lemma linked_next: "linked pv nx a xs b \<Longrightarrow> nx ! a = hd (xs @ [b])"
  by (cases xs) auto

lemma linked_prev: "linked pv nx a xs b \<Longrightarrow> pv ! b \<in> set (a # xs)"
  by (induction xs arbitrary: a) auto

lemma linked_remove:
  assumes "linked pv nx a ys b" and "linked pv nx b zs c" and "distinct (ys @ b # zs)"
    and "a \<notin> set (ys @ b # zs)" and "c \<notin> set (ys @ b # zs)"
    and "\<forall>x \<in> set (a # c # ys @ b # zs). x < length pv \<and> x < length nx"
  shows "linked (pv[nx ! b := pv ! b]) (nx[pv ! b := nx ! b]) a (ys @ zs) c"
  using assms
proof (induction ys arbitrary: a)
  case Nil
  have p: "pv ! b = a" using Nil by simp
  show ?case
  proof (cases zs)
    case Nil
    then show ?thesis using Nil.prems p by auto
  next
    case (Cons z zs')
    have "linked (pv[z := a]) (nx[a := z]) z zs' c = linked pv nx z zs' c"
      using Nil.prems Cons by (intro linked_cong) (auto simp: nth_update_notin)
    then show ?thesis using Nil.prems p Cons by auto
  qed
next
  case (Cons y ys)
  have IH: "linked (pv[nx ! b := pv ! b]) (nx[pv ! b := nx ! b]) y (ys @ zs) c"
    using Cons.prems by (intro Cons.IH) auto
  have "pv ! b \<in> set (y # ys)" using linked_prev [of pv nx y ys b] Cons.prems by simp
  then have "a \<noteq> pv ! b" using Cons.prems by auto
  moreover have "nx ! b \<in> set (zs @ [c])"
    using linked_next [of pv nx b zs c] Cons.prems by (cases zs) auto
  then have "y \<noteq> nx ! b" using Cons.prems by auto
  ultimately show ?case using IH Cons.prems by simp
qed

lemma ring_unlink:
  assumes "ring_list pv nx (ys @ b # zs)"
  shows "ring_list (fst (unlink b pv nx)) (snd (unlink b pv nx)) (ys @ zs)"
proof -
  have l: "linked pv nx BHEAD ys b" "linked pv nx b zs BHEAD" "distinct (ys @ b # zs)"
    and set: "set (ys @ b # zs) \<subseteq> {0..<NBUF}" and len: "length pv = Suc NBUF" "length nx = Suc NBUF"
    using assms by (simp_all add: ring_list_def)
  have "nx ! b \<noteq> b" using linked_next [OF l(2)] l(3) set by (cases zs) auto
  then have "unlink b pv nx = (pv[nx ! b := pv ! b], nx[pv ! b := nx ! b])"
    by (simp add: unlink_def Let_def)
  moreover have "linked (pv[nx ! b := pv ! b]) (nx[pv ! b := nx ! b]) BHEAD (ys @ zs) BHEAD"
    using l set len by (intro linked_remove) auto
  ultimately show ?thesis using l set len by (simp add: ring_list_def)
qed

lemma ring_link_front:
  assumes "ring_list pv nx xs" and "b \<notin> set xs" and "b < NBUF"
  shows "ring_list (fst (link_front b pv nx)) (snd (link_front b pv nx)) (b # xs)"
proof -
  have l: "linked pv nx BHEAD xs BHEAD" "distinct xs" and set: "set xs \<subseteq> {0..<NBUF}"
    and len: "length pv = Suc NBUF" "length nx = Suc NBUF"
    using assms(1) by (simp_all add: ring_list_def)
  define h where "h = nx ! BHEAD"
  define pv' where "pv' = pv[b := BHEAD, h := b]"
  define nx' where "nx' = nx[b := h, BHEAD := b]"
  have head_notin: "BHEAD \<notin> set xs" using set by auto
  have h: "h = hd (xs @ [BHEAD])" using linked_next [OF l(1)] by (simp add: h_def)
  have eq: "link_front b pv nx = (pv', nx')"
    using assms(3) by (simp add: link_front_def Let_def pv'_def nx'_def h_def)
  have "linked pv' nx' b xs BHEAD"
  proof (cases xs)
    case Nil
    then show ?thesis using h assms len by (simp add: pv'_def nx'_def)
  next
    case (Cons x xs')
    have "linked pv' nx' x xs' BHEAD = linked pv nx x xs' BHEAD"
      using Cons h assms(2,3) l(2) head_notin by (intro linked_cong)
        (auto simp: pv'_def nx'_def nth_update_notin)
    then show ?thesis using Cons h assms l set len by (auto simp: pv'_def nx'_def)
  qed
  moreover have "pv' ! b = BHEAD" using h assms len by (cases xs) (auto simp: pv'_def)
  moreover have "nx' ! BHEAD = b" using assms len by (simp add: nx'_def)
  ultimately show ?thesis
    using assms l set len eq by (simp add: ring_list_def) (simp add: pv'_def nx'_def)
qed

lemma walk_ring:
  "linked pv nx a xs BHEAD \<Longrightarrow> BHEAD \<notin> set xs \<Longrightarrow> length xs < fuel \<Longrightarrow>
     walk P nx fuel (nx ! a) = Ok (find P xs)"
proof (induction xs arbitrary: a fuel)
  case Nil
  then show ?case by (cases fuel) auto
next
  case (Cons x xs)
  then show ?case by (cases fuel) auto
qed

lemma walk_next:
  assumes "ring_list pv nx xs"
  shows "walk P nx (Suc NBUF) (nx ! BHEAD) = Ok (find P xs)"
proof -
  have "length xs \<le> NBUF"
    using assms card_mono [of "{0..<NBUF}" "set xs"] by (simp add: ring_list_def distinct_card)
  then show ?thesis using assms by (intro walk_ring) (auto simp: ring_list_def)
qed

lemma walk_prev:
  assumes "ring_list pv nx xs"
  shows "walk P pv (Suc NBUF) (pv ! BHEAD) = Ok (find P (rev xs))"
proof -
  have "length xs \<le> NBUF"
    using assms card_mono [of "{0..<NBUF}" "set xs"] by (simp add: ring_list_def distinct_card)
  then show ?thesis
    using assms by (intro walk_ring [where pv = nx]) (auto simp: ring_list_def linked_rev)
qed

section \<open>The invariant and the view of the disk\<close>

text \<open>
  What holds of every buffer: its sleep lock is at rest, the reference count is that of its one
  holder (a process that waits for the buffer has not returned from \<open>bget\<close>), a dirty buffer is
  valid, and a buffer that nobody holds and that is clean agrees with the disk.
\<close>

definition b_locked :: "buf \<Rightarrow> bool" where
  "b_locked b = sl_locked (b_lock b)"

definition buf_ok :: "uchar list list \<Rightarrow> buf \<Rightarrow> bool" where
  "buf_ok d b \<longleftrightarrow> sl_quiet (b_lock b) \<and> b_refcnt b = (if b_locked b then 1 else 0) \<and>
     length (b_data b) = BSIZE \<and> (b_dev b = 1 \<longrightarrow> unat (b_blockno b) < length d) \<and>
     (b_dirty b \<longrightarrow> b_valid b \<and> b_dev b = 1) \<and> (b_locked b \<longrightarrow> b_dev b = 1) \<and>
     (\<not> b_locked b \<and> \<not> b_dirty b \<and> b_valid b \<and> b_dev b = 1 \<longrightarrow> b_data b = d ! unat (b_blockno b))"

text \<open>Two buffers never cache the same block.\<close>

definition bufs_unique :: "buf list \<Rightarrow> bool" where
  "bufs_unique bs \<longleftrightarrow> (\<forall>i < length bs. \<forall>j < length bs.
     b_dev (bs ! i) = 1 \<longrightarrow> b_dev (bs ! j) = 1 \<longrightarrow> b_blockno (bs ! i) = b_blockno (bs ! j) \<longrightarrow> i = j)"

definition bc_ok :: "'a bkernel_scheme \<Rightarrow> bool" where
  "bc_ok s \<longleftrightarrow> length (k_bufs s) = NBUF \<and> k_blk s = initlock \<and>
     (\<exists>xs. ring_list (k_bprev s) (k_bnext s) xs \<and> set xs = {0..<NBUF}) \<and>
     (\<forall>b \<in> set (k_bufs s). buf_ok (k_disk s) b) \<and> bufs_unique (k_bufs s) \<and>
     (\<forall>d \<in> set (k_disk s). length d = BSIZE)"

definition bio_quiet :: "'a bkernel_scheme \<Rightarrow> bool" where
  "bio_quiet s \<longleftrightarrow> pt_quiet s \<and> k_proc s \<noteq> None \<and> bc_ok s"

definition has_buf :: "'a bkernel_scheme \<Rightarrow> nat \<Rightarrow> uint \<Rightarrow> bool" where
  "has_buf s i n \<longleftrightarrow> i < NBUF \<and> b_dev (k_bufs s ! i) = 1 \<and> b_blockno (k_bufs s ! i) = n"

definition buf_of :: "'a bkernel_scheme \<Rightarrow> uint \<Rightarrow> nat option" where
  "buf_of s n = find (\<lambda>i. has_buf s i n) [0..<NBUF]"

definition view :: "'a bkernel_scheme \<Rightarrow> uint \<Rightarrow> uchar list" where
  "view s n = (case buf_of s n of
       Some i \<Rightarrow> if b_valid (k_bufs s ! i) then b_data (k_bufs s ! i) else k_disk s ! unat n
     | None \<Rightarrow> k_disk s ! unat n)"

text \<open>The buffers that \<open>bget\<close> may recycle.\<close>

definition spare :: "'a bkernel_scheme \<Rightarrow> nat set" where
  "spare s = {i. i < NBUF \<and> \<not> b_locked (k_bufs s ! i) \<and> \<not> b_dirty (k_bufs s ! i)}"

lemma has_buf_unique: "bc_ok s \<Longrightarrow> has_buf s i n \<Longrightarrow> has_buf s j n \<Longrightarrow> i = j"
  by (auto simp: bc_ok_def bufs_unique_def has_buf_def)

lemma buf_of_Some: "bc_ok s \<Longrightarrow> buf_of s n = Some i \<longleftrightarrow> has_buf s i n"
proof -
  assume ok: "bc_ok s"
  have "has_buf s i n \<Longrightarrow> buf_of s n \<noteq> None" by (auto simp: buf_of_def find_None_iff has_buf_def)
  moreover have "buf_of s n = Some j \<Longrightarrow> has_buf s j n" for j by (auto simp: buf_of_def find_Some_iff)
  ultimately show ?thesis using has_buf_unique [OF ok] by (metis option.exhaust)
qed

lemma buf_of_None: "buf_of s n = None \<longleftrightarrow> (\<forall>i. \<not> has_buf s i n)"
  by (auto simp: buf_of_def find_None_iff has_buf_def)

lemma bc_ok_buf: "bc_ok s \<Longrightarrow> i < NBUF \<Longrightarrow> buf_ok (k_disk s) (k_bufs s ! i)"
  by (auto simp: bc_ok_def)

lemma bc_ok_ring:
  assumes "bc_ok s"
  obtains xs where "ring_list (k_bprev s) (k_bnext s) xs" "set xs = {0..<NBUF}"
  using assms by (auto simp: bc_ok_def)

lemma view_has_buf:
  "bc_ok s \<Longrightarrow> has_buf s i n \<Longrightarrow>
     view s n = (if b_valid (k_bufs s ! i) then b_data (k_bufs s ! i) else k_disk s ! unat n)"
  by (simp add: view_def buf_of_Some [THEN iffD2])

lemma view_no_buf: "buf_of s n = None \<Longrightarrow> view s n = k_disk s ! unat n"
  by (simp add: view_def)

text \<open>A spare buffer never differs from the disk, so its block's view is the disk's.\<close>

lemma view_spare:
  "bc_ok s \<Longrightarrow> i \<in> spare s \<Longrightarrow> has_buf s i n \<Longrightarrow> view s n = k_disk s ! unat n"
  using bc_ok_buf [of s i] by (auto simp: view_has_buf spare_def has_buf_def buf_ok_def)

text \<open>Replacing one buffer.\<close>

definition set_buf :: "nat \<Rightarrow> buf \<Rightarrow> 'a bkernel_scheme \<Rightarrow> 'a bkernel_scheme" where
  "set_buf i b s = s\<lparr>k_bufs := (k_bufs s)[i := b]\<rparr>"

lemma has_buf_set:
  assumes "bc_ok s" and "i < NBUF"
  shows "has_buf (set_buf i b s) j n \<longleftrightarrow>
    (if j = i then b_dev b = 1 \<and> b_blockno b = n else has_buf s j n)"
  using assms by (auto simp: has_buf_def set_buf_def bc_ok_def)

lemma bc_ok_set:
  assumes "bc_ok s" and "i < NBUF" and "buf_ok (k_disk s) b"
    and "\<And>j. b_dev b = 1 \<Longrightarrow> has_buf s j (b_blockno b) \<Longrightarrow> j = i"
  shows "bc_ok (set_buf i b s)"
proof -
  have "bufs_unique ((k_bufs s)[i := b])"
    using assms by (auto simp: bc_ok_def bufs_unique_def has_buf_def nth_list_update)
  moreover have "\<forall>b \<in> set ((k_bufs s)[i := b]). buf_ok (k_disk s) b"
    using assms by (auto simp: bc_ok_def dest: set_update_subset_insert [THEN subsetD])
  ultimately show ?thesis using assms(1) by (simp add: bc_ok_def set_buf_def)
qed

lemma view_set:
  assumes "bc_ok s" and "bc_ok (set_buf i b s)" and "i < NBUF" and "b_dev b = 1"
    and "b_blockno b = b_blockno (k_bufs s ! i) \<and> b_dev (k_bufs s ! i) = 1 \<or> i \<in> spare s"
  shows "view (set_buf i b s) n = (if n = b_blockno b
    then (if b_valid b then b_data b else k_disk s ! unat n) else view s n)"
proof (cases "n = b_blockno b")
  case True
  have "has_buf (set_buf i b s) i n" using assms True by (simp add: has_buf_set)
  then show ?thesis
    using True assms view_has_buf [of "set_buf i b s" i n] by (simp add: set_buf_def bc_ok_def)
next
  case False
  show ?thesis
  proof (cases "has_buf s i n")
    case True
    then have "i \<in> spare s" using assms(5) False by (auto simp: has_buf_def)
    moreover have "buf_of (set_buf i b s) n = None"
      using False True has_buf_unique [OF assms(1)] assms by (auto simp: buf_of_None has_buf_set)
    ultimately show ?thesis
      using False True assms(1) by (simp add: view_no_buf view_spare) (simp add: set_buf_def)
  next
    case no: False
    show ?thesis
    proof (cases "buf_of s n")
      case None
      then have "buf_of (set_buf i b s) n = None"
        using False assms by (auto simp: buf_of_None has_buf_set)
      then show ?thesis using None False by (simp add: view_no_buf) (simp add: set_buf_def)
    next
      case (Some j)
      then have j: "has_buf s j n" "j \<noteq> i" using no assms(1) by (auto simp: buf_of_Some)
      then have "has_buf (set_buf i b s) j n" using assms by (simp add: has_buf_set)
      then show ?thesis
        using j False assms(1,2) by (simp add: view_has_buf) (simp add: set_buf_def)
    qed
  qed
qed

section \<open>The operations on a quiet cache\<close>

lemma set_buf_fields [simp]:
  "k_cpu (set_buf i b s) = k_cpu s" "k_proc (set_buf i b s) = k_proc s"
  "k_procs (set_buf i b s) = k_procs s" "k_ptlock (set_buf i b s) = k_ptlock s"
  "k_disk (set_buf i b s) = k_disk s" "k_dwrites (set_buf i b s) = k_dwrites s"
  "k_blk (set_buf i b s) = k_blk s" "k_bprev (set_buf i b s) = k_bprev s"
  "k_bnext (set_buf i b s) = k_bnext s" "length (k_bufs (set_buf i b s)) = length (k_bufs s)"
  by (simp_all add: set_buf_def)

lemma set_buf_nth [simp]: "i < length (k_bufs s) \<Longrightarrow> k_bufs (set_buf i b s) ! i = b"
  by (simp add: set_buf_def)

lemma upd_buf_set: "upd_buf i f s = set_buf i (f (k_bufs s ! i)) s"
  by (simp add: upd_buf_def set_buf_def)

lemma set_buf_set [simp]: "set_buf i b (set_buf i b' s) = set_buf i b s"
  by (simp add: set_buf_def)

lemma set_buf_id: "set_buf i (k_bufs s ! i) s = s"
  by (simp add: set_buf_def)

lemma set_buf_disk:
  "set_buf i b (s\<lparr>k_disk := d, k_dwrites := w\<rparr>) = (set_buf i b s)\<lparr>k_disk := d, k_dwrites := w\<rparr>"
  by (simp add: set_buf_def)

lemma iderw_write:
  assumes "cpu_settled (k_cpu s)" and "i < length (k_bufs s)" and "k_bufs s ! i = b"
    and "sl_quiet (b_lock b)" and "b_locked b" and "b_dirty b" and "b_dev b = 1"
    and "unat (b_blockno b) < length (k_disk s)"
  shows "iderw i s = Ok (set_buf i (b\<lparr>b_dirty := False, b_valid := True\<rparr>)
    (s\<lparr>k_disk := (k_disk s)[unat (b_blockno b) := b_data b],
       k_dwrites := k_dwrites s @ [(b_blockno b, b_data b)]\<rparr>))"
  using assms by (simp add: iderw_def holdingsleep_ok b_locked_def upd_buf_set Let_def)
    (simp add: set_buf_def)

lemma iderw_read:
  assumes "cpu_settled (k_cpu s)" and "i < length (k_bufs s)" and "k_bufs s ! i = b"
    and "sl_quiet (b_lock b)" and "b_locked b" and "\<not> b_dirty b" and "\<not> b_valid b" and "b_dev b = 1"
    and "unat (b_blockno b) < length (k_disk s)"
  shows "iderw i s = Ok (set_buf i (b\<lparr>b_data := k_disk s ! unat (b_blockno b), b_valid := True\<rparr>) s)"
  using assms by (simp add: iderw_def holdingsleep_ok b_locked_def upd_buf_set Let_def)

lemma acquire_blk_ok:
  "k_blk s = initlock \<Longrightarrow> acquire_blk s = Ok (s\<lparr>k_cpu := pushcli (k_cpu s), k_blk := locked_by (k_cpu s)\<rparr>)"
  by (simp add: acquire_blk_def acquire_free)

lemma release_blk_ok:
  "cpu_settled c \<Longrightarrow> k_cpu s = pushcli c \<Longrightarrow> k_blk s = locked_by c \<Longrightarrow>
     release_blk s = Ok (s\<lparr>k_cpu := c, k_blk := initlock\<rparr>)"
  by (simp add: release_blk_def release_locked_by)

lemma set_buf_locked:
  "k_blk s = initlock \<Longrightarrow> set_buf i b (s\<lparr>k_cpu := c, k_blk := l\<rparr>)\<lparr>k_cpu := k_cpu s, k_blk := initlock\<rparr> = set_buf i b s"
  by (cases s) (simp add: set_buf_def)

text \<open>The buffer \<open>b\<close> held by the current process.\<close>

definition hold_buf :: "'a kernel_scheme \<Rightarrow> buf \<Rightarrow> buf" where
  "hold_buf s b = b\<lparr>b_lock := (b_lock b)\<lparr>sl_locked := True, sl_pid := p_pid (k_procs s ! the (k_proc s))\<rparr>\<rparr>"

lemma lock_buf_ok:
  assumes "cpu_settled (k_cpu s)" and "k_proc s \<noteq> None"
    and "sl_quiet (b_lock (k_bufs s ! i))" and "\<not> b_locked (k_bufs s ! i)"
  shows "lock_buf i s = Ok (i, set_buf i (hold_buf s (k_bufs s ! i)) s)"
proof -
  obtain p where p: "k_proc s = Some p" using assms(2) by auto
  then show ?thesis
    using assms by (simp add: lock_buf_def acquiresleep_ok b_locked_def upd_buf_set hold_buf_def)
qed

lemma bget_finish:
  assumes "cpu_settled (k_cpu s)" and "k_blk s = initlock" and "k_proc s \<noteq> None"
    and "i < length (k_bufs s)" and "sl_quiet (b_lock b)" and "\<not> b_locked b"
  shows "andthen (release_blk (set_buf i b (s\<lparr>k_cpu := pushcli (k_cpu s), k_blk := locked_by (k_cpu s)\<rparr>)))
    (lock_buf i) = Ok (i, set_buf i (hold_buf s b) s)"
proof -
  have "release_blk (set_buf i b (s\<lparr>k_cpu := pushcli (k_cpu s), k_blk := locked_by (k_cpu s)\<rparr>)) =
      Ok (set_buf i b s)"
    using assms set_buf_locked [where c = "pushcli (k_cpu s)" and l = "locked_by (k_cpu s)"]
    by (simp add: release_blk_ok [OF assms(1)])
  moreover have "lock_buf i (set_buf i b s) = Ok (i, set_buf i (hold_buf (set_buf i b s) b) s)"
    using assms lock_buf_ok [of "set_buf i b s" i] by simp
  ultimately show ?thesis by (simp add: hold_buf_def)
qed

lemma find_ring:
  assumes "set xs = {0..<NBUF}"
  shows "find P xs = Some i \<Longrightarrow> i < NBUF \<and> P i" and "find P xs = None \<longleftrightarrow> (\<forall>i < NBUF. \<not> P i)"
  using assms by (auto simp: find_Some_iff find_None_iff)

lemma bio_quietD:
  assumes "bio_quiet s"
  shows "cpu_settled (k_cpu s)" "pt_quiet s" "k_proc s \<noteq> None" "bc_ok s" "k_blk s = initlock"
    "length (k_bufs s) = NBUF"
  using assms by (auto simp: bio_quiet_def pt_quiet_def bc_ok_def)

lemma bget_hit:
  assumes "bio_quiet s" and "has_buf s i n" and "\<not> b_locked (k_bufs s ! i)"
  shows "bget 1 n s = Ok (i, set_buf i (hold_buf s ((k_bufs s ! i)\<lparr>b_refcnt := 1\<rparr>)) s)"
proof -
  note q = bio_quietD [OF assms(1)]
  let ?P = "\<lambda>b. b_dev (k_bufs s ! b) = 1 \<and> b_blockno (k_bufs s ! b) = n"
  let ?s = "s\<lparr>k_cpu := pushcli (k_cpu s), k_blk := locked_by (k_cpu s)\<rparr>"
  obtain xs where xs: "ring_list (k_bprev s) (k_bnext s) xs" "set xs = {0..<NBUF}"
    using q(4) by (rule bc_ok_ring)
  have i: "i < NBUF" "buf_ok (k_disk s) (k_bufs s ! i)"
    using assms(2) bc_ok_buf [OF q(4)] by (auto simp: has_buf_def)
  obtain j where "find ?P xs = Some j"
    using find_ring(2) [OF xs(2), of ?P] assms(2) by (cases "find ?P xs") (auto simp: has_buf_def)
  moreover have "j = i"
    using find_ring(1) [OF xs(2) calculation] assms(2) has_buf_unique [OF q(4)] by (auto simp: has_buf_def)
  ultimately have "walk ?P (k_bnext s) (Suc NBUF) (k_bnext s ! BHEAD) = Ok (Some i)"
    using walk_next [OF xs(1), of ?P] by simp
  then have "bget 1 n s = andthen (release_blk (set_buf i ((k_bufs s ! i)\<lparr>b_refcnt := 1\<rparr>) ?s)) (lock_buf i)"
    using q i assms(3) by (simp add: bget_def acquire_blk_ok upd_buf_set buf_ok_def)
  also have "\<dots> = Ok (i, set_buf i (hold_buf s ((k_bufs s ! i)\<lparr>b_refcnt := 1\<rparr>)) s)"
    using q i assms(3) by (intro bget_finish) (auto simp: buf_ok_def b_locked_def)
  finally show ?thesis .
qed

lemma bget_miss:
  assumes "bio_quiet s" and "buf_of s n = None" and "spare s \<noteq> {}"
  shows "\<exists>i \<in> spare s. bget 1 n s = Ok (i, set_buf i (hold_buf s ((k_bufs s ! i)\<lparr>b_dev := 1, b_blockno := n,
    b_valid := False, b_dirty := False, b_refcnt := 1\<rparr>)) s)"
proof -
  note q = bio_quietD [OF assms(1)]
  let ?P = "\<lambda>b. b_dev (k_bufs s ! b) = 1 \<and> b_blockno (k_bufs s ! b) = n"
  let ?Q = "\<lambda>b. b_refcnt (k_bufs s ! b) = 0 \<and> \<not> b_dirty (k_bufs s ! b)"
  let ?s = "s\<lparr>k_cpu := pushcli (k_cpu s), k_blk := locked_by (k_cpu s)\<rparr>"
  obtain xs where xs: "ring_list (k_bprev s) (k_bnext s) xs" "set xs = {0..<NBUF}"
    using q(4) by (rule bc_ok_ring)
  have spare: "i \<in> spare s \<longleftrightarrow> i < NBUF \<and> ?Q i" for i
    using bc_ok_buf [OF q(4), of i] by (auto simp: spare_def buf_ok_def split: if_splits)
  have "find ?P xs = None" using find_ring(2) [OF xs(2)] assms(2) by (auto simp: buf_of_None has_buf_def)
  then have miss: "walk ?P (k_bnext s) (Suc NBUF) (k_bnext s ! BHEAD) = Ok None"
    using walk_next [OF xs(1), of ?P] by simp
  obtain i where i: "find ?Q (rev xs) = Some i"
    using find_ring(2) [of "rev xs" ?Q] xs(2) assms(3) spare by (cases "find ?Q (rev xs)") auto
  then have "i \<in> spare s" using find_ring(1) [of "rev xs" ?Q i] xs(2) spare by simp
  have free: "walk ?Q (k_bprev s) (Suc NBUF) (k_bprev s ! BHEAD) = Ok (Some i)"
    using walk_prev [OF xs(1), of ?Q] i by simp
  let ?b = "(k_bufs s ! i)\<lparr>b_dev := 1, b_blockno := n, b_valid := False, b_dirty := False, b_refcnt := 1\<rparr>"
  have "bget 1 n s = andthen (release_blk (set_buf i ?b ?s)) (lock_buf i)"
    using q miss free by (simp add: bget_def acquire_blk_ok upd_buf_set)
  also have "\<dots> = Ok (i, set_buf i (hold_buf s ?b) s)"
    using q \<open>i \<in> spare s\<close> bc_ok_buf [OF q(4), of i]
    by (intro bget_finish) (auto simp: buf_ok_def b_locked_def spare_def)
  finally show ?thesis using \<open>i \<in> spare s\<close> by blast
qed

section \<open>The cache as a map from block numbers to contents\<close>

text \<open>The blocks some process holds, and those that are pinned because they are dirty.\<close>

definition held :: "'a bkernel_scheme \<Rightarrow> uint set" where
  "held s = {n. \<exists>i. has_buf s i n \<and> b_locked (k_bufs s ! i)}"

definition pinned :: "'a bkernel_scheme \<Rightarrow> uint set" where
  "pinned s = {n. \<exists>i. has_buf s i n \<and> b_dirty (k_bufs s ! i)}"

definition holds :: "'a bkernel_scheme \<Rightarrow> nat \<Rightarrow> uint \<Rightarrow> bool" where
  "holds s i n \<longleftrightarrow> has_buf s i n \<and> b_locked (k_bufs s ! i) \<and> b_valid (k_bufs s ! i)"

text \<open>What the operations of the cache leave alone: everything but its own globals, the disk and
  the scheduling state of the processes they wake.\<close>

definition asleep :: "proc \<Rightarrow> proc" where
  "asleep p = p\<lparr>p_state := UNUSED\<rparr>"

definition bio_frame :: "'a bkernel_scheme \<Rightarrow> 'a bkernel_scheme \<Rightarrow> bool" where
  "bio_frame s s' \<longleftrightarrow> s' = s\<lparr>k_bufs := k_bufs s', k_bprev := k_bprev s', k_bnext := k_bnext s',
     k_disk := k_disk s', k_dwrites := k_dwrites s', k_procs := k_procs s'\<rparr> \<and>
     map asleep (k_procs s') = map asleep (k_procs s) \<and> length (k_disk s') = length (k_disk s)"

lemma bio_frame_refl [simp]: "bio_frame s s" by (simp add: bio_frame_def)

lemma bio_frame_trans: "bio_frame s t \<Longrightarrow> bio_frame t u \<Longrightarrow> bio_frame s u"
  unfolding bio_frame_def by (cases s, cases t, cases u) simp

lemma bio_frame_set_buf [simp]: "bio_frame s (set_buf i b s)"
  by (simp add: bio_frame_def set_buf_def)

lemma finite_held: "finite (held s \<union> pinned s)"
proof -
  have "held s \<union> pinned s \<subseteq> (\<lambda>i. b_blockno (k_bufs s ! i)) ` {0..<NBUF}"
    by (auto simp: held_def pinned_def has_buf_def)
  then show ?thesis by (rule finite_subset) simp
qed

text \<open>As long as fewer than \<open>NBUF\<close> blocks are held or pinned, a buffer can be recycled.\<close>

lemma spare_exists:
  assumes "bc_ok s" and "card (held s \<union> pinned s) < NBUF"
  shows "spare s \<noteq> {}"
proof
  assume none: "spare s = {}"
  let ?f = "\<lambda>i. b_blockno (k_bufs s ! i)"
  have busy: "b_dev (k_bufs s ! i) = 1 \<and> (b_locked (k_bufs s ! i) \<or> b_dirty (k_bufs s ! i))" if "i < NBUF" for i
    using that none bc_ok_buf [OF assms(1) that] by (auto simp: spare_def buf_ok_def)
  have "inj_on ?f {0..<NBUF}"
    using busy assms(1) by (auto simp: inj_on_def bc_ok_def bufs_unique_def)
  then have "card (?f ` {0..<NBUF}) = NBUF" by (simp add: card_image)
  moreover have "?f ` {0..<NBUF} \<subseteq> held s \<union> pinned s"
    using busy by (fastforce simp: held_def pinned_def has_buf_def)
  ultimately have "NBUF \<le> card (held s \<union> pinned s)"
    using card_mono [OF finite_held, of "?f ` {0..<NBUF}" s] by simp
  then show False using assms(2) by simp
qed

lemma not_held: "n \<notin> held s \<Longrightarrow> has_buf s i n \<Longrightarrow> \<not> b_locked (k_bufs s ! i)"
  by (auto simp: held_def)

lemma bio_quiet_set_buf:
  "bio_quiet s \<Longrightarrow> bc_ok (set_buf i b s) \<Longrightarrow> bio_quiet (set_buf i b s)"
  by (simp add: bio_quiet_def pt_quiet_def)

text \<open>Both routes through \<open>bget\<close> end with a buffer for the block, held by the caller.\<close>

definition got :: "'a bkernel_scheme \<Rightarrow> uint \<Rightarrow> nat \<Rightarrow> buf \<Rightarrow> bool" where
  "got s n i b \<longleftrightarrow> i < NBUF \<and> \<not> b_locked (k_bufs s ! i) \<and> (has_buf s i n \<or> i \<in> spare s \<and> buf_of s n = None) \<and>
     b_dev b = 1 \<and> b_blockno b = n \<and> sl_quiet (b_lock b) \<and> b_locked b \<and> b_refcnt b = 1 \<and>
     (b_dirty b \<longleftrightarrow> has_buf s i n \<and> b_dirty (k_bufs s ! i)) \<and>
     (b_valid b \<longleftrightarrow> has_buf s i n \<and> b_valid (k_bufs s ! i)) \<and> b_data b = b_data (k_bufs s ! i)"

lemma bget_got:
  assumes "bio_quiet s" and "n \<notin> held s" and "n \<in> pinned s \<or> card (held s \<union> pinned s) < NBUF"
  shows "\<exists>i b. bget 1 n s = Ok (i, set_buf i b s) \<and> got s n i b"
proof (cases "buf_of s n")
  case (Some i)
  note q = bio_quietD [OF assms(1)]
  have i: "has_buf s i n" "\<not> b_locked (k_bufs s ! i)" "i < NBUF"
    using Some assms(2) q by (auto simp: buf_of_Some not_held has_buf_def)
  have "got s n i (hold_buf s ((k_bufs s ! i)\<lparr>b_refcnt := 1\<rparr>))"
    using i bc_ok_buf [OF q(4) i(3)]
    by (auto simp: got_def hold_buf_def b_locked_def buf_ok_def has_buf_def sl_quiet_def)
  then show ?thesis using bget_hit [OF assms(1) i(1,2)] by blast
next
  case None
  note q = bio_quietD [OF assms(1)]
  obtain i where i: "i \<in> spare s" and run: "bget 1 n s = Ok (i, set_buf i (hold_buf s ((k_bufs s ! i)\<lparr>b_dev := 1,
      b_blockno := n, b_valid := False, b_dirty := False, b_refcnt := 1\<rparr>)) s)"
    using bget_miss [OF assms(1) None spare_exists [OF q(4)]] assms(3) None
    by (auto simp: pinned_def buf_of_None)
  have "\<not> has_buf s i n" using None by (simp add: buf_of_None)
  then have "got s n i (hold_buf s ((k_bufs s ! i)\<lparr>b_dev := 1, b_blockno := n, b_valid := False,
      b_dirty := False, b_refcnt := 1\<rparr>))"
    using i None bc_ok_buf [OF q(4), of i]
    by (auto simp: got_def hold_buf_def b_locked_def buf_ok_def spare_def sl_quiet_def)
  then show ?thesis using run by blast
qed

text \<open>Putting a buffer for block \<open>n\<close> in the place of one for \<open>n\<close>, or of a spare one.\<close>

definition replaces :: "'a bkernel_scheme \<Rightarrow> nat \<Rightarrow> uint \<Rightarrow> buf \<Rightarrow> bool" where
  "replaces s i n b \<longleftrightarrow> i < NBUF \<and> b_dev b = 1 \<and> b_blockno b = n \<and> buf_ok (k_disk s) b \<and>
     (has_buf s i n \<or> i \<in> spare s \<and> buf_of s n = None)"

lemma replaces_ok:
  assumes "bc_ok s" and "replaces s i n b"
  shows "bc_ok (set_buf i b s)"
    and "held (set_buf i b s) = held s - {n} \<union> (if b_locked b then {n} else {})"
    and "pinned (set_buf i b s) = pinned s - {n} \<union> (if b_dirty b then {n} else {})"
    and "view (set_buf i b s) = (view s)(n := if b_valid b then b_data b else k_disk s ! unat n)"
proof -
  have r: "i < NBUF" "b_dev b = 1" "b_blockno b = n" "buf_ok (k_disk s) b"
      "has_buf s i n \<or> i \<in> spare s \<and> buf_of s n = None"
    using assms(2) by (simp_all add: replaces_def)
  have only: "j = i" if "has_buf s j n" for j
    using that r(5) has_buf_unique [OF assms(1)] by (auto simp: buf_of_None)
  show ok: "bc_ok (set_buf i b s)" using assms(1) r only by (intro bc_ok_set) auto
  have len: "length (k_bufs s) = NBUF" using assms(1) by (simp add: bc_ok_def)
  have other: "(\<exists>j. has_buf (set_buf i b s) j m \<and> P (k_bufs (set_buf i b s) ! j)) \<longleftrightarrow>
      (\<exists>j. has_buf s j m \<and> P (k_bufs s ! j))"
    if "m \<noteq> n" "i \<in> spare s \<Longrightarrow> \<not> P (k_bufs s ! i)" for P m
  proof -
    have "has_buf s i m \<Longrightarrow> \<not> P (k_bufs s ! i)" using that r(5) by (auto simp: has_buf_def)
    moreover have "has_buf (set_buf i b s) j m \<longleftrightarrow> j \<noteq> i \<and> has_buf s j m" for j
      using that(1) r assms(1) by (auto simp: has_buf_set)
    moreover have "j \<noteq> i \<Longrightarrow> k_bufs (set_buf i b s) ! j = k_bufs s ! j" for j
      by (simp add: set_buf_def)
    ultimately show ?thesis by metis
  qed
  have this_one: "has_buf (set_buf i b s) j n \<longleftrightarrow> j = i" for j
    using r assms(1) only by (auto simp: has_buf_set)
  have "m \<in> held (set_buf i b s) \<longleftrightarrow> (if m = n then b_locked b else m \<in> held s)" for m
    using other [of m b_locked] this_one r(1) len by (auto simp: held_def spare_def)
  then show "held (set_buf i b s) = held s - {n} \<union> (if b_locked b then {n} else {})"
    by (intro set_eqI) simp
  have "m \<in> pinned (set_buf i b s) \<longleftrightarrow> (if m = n then b_dirty b else m \<in> pinned s)" for m
    using other [of m b_dirty] this_one r(1) len by (auto simp: pinned_def spare_def)
  then show "pinned (set_buf i b s) = pinned s - {n} \<union> (if b_dirty b then {n} else {})"
    by (intro set_eqI) simp
  show "view (set_buf i b s) = (view s)(n := if b_valid b then b_data b else k_disk s ! unat n)"
    using view_set [OF assms(1) ok r(1,2)] r by (auto simp: fun_eq_iff has_buf_def)
qed

lemma bread_ok:
  assumes "bio_quiet s" and "unat n < length (k_disk s)" and "n \<notin> held s"
    and "n \<in> pinned s \<or> card (held s \<union> pinned s) < NBUF"
  shows "\<exists>i b. bread 1 n s = Ok (i, set_buf i b s) \<and> replaces s i n b \<and> b_locked b \<and> b_valid b \<and>
    b_data b = view s n \<and> (b_dirty b \<longleftrightarrow> n \<in> pinned s) \<and> \<not> b_locked (k_bufs s ! i)"
proof -
  note q = bio_quietD [OF assms(1)]
  obtain i b where run: "bget 1 n s = Ok (i, set_buf i b s)" and got: "got s n i b"
    using bget_got [OF assms(1,3,4)] by blast
  have i: "i < NBUF" "\<not> b_locked (k_bufs s ! i)" and old: "buf_ok (k_disk s) (k_bufs s ! i)"
    using got bc_ok_buf [OF q(4)] by (auto simp: got_def)
  have disk: "length (k_disk s ! unat n) = BSIZE" using q(4) assms(2) by (simp add: bc_ok_def)
  have pin: "b_dirty b \<longleftrightarrow> n \<in> pinned s"
    using got has_buf_unique [OF q(4)] by (auto simp: got_def pinned_def buf_of_None)
  let ?b = "if b_valid b then b else b\<lparr>b_data := k_disk s ! unat n, b_valid := True\<rparr>"
  have "bread 1 n s = Ok (i, set_buf i ?b s)"
    using run got iderw_read [of "set_buf i b s" i b] q i assms(2)  old
    by (auto simp: bread_def got_def buf_ok_def)
  moreover have "b_data ?b = view s n"
    using got view_has_buf [OF q(4), of i n] view_no_buf [of s n] by (auto simp: got_def)
  moreover have "replaces s i n ?b"
    using got old assms(2) disk by (auto simp: replaces_def got_def buf_ok_def b_locked_def)
  moreover have "b_locked ?b" "b_valid ?b" using got by (simp_all add: got_def b_locked_def)
  moreover have "b_dirty ?b \<longleftrightarrow> n \<in> pinned s" using pin by simp
  ultimately show ?thesis using i(2) by blast
qed

section \<open>The contract of the cache\<close>

text \<open>
  The state of the block layer as its clients see it. The contract says of every operation how
  these five components change; \<open>keeps\<close> adds that the buffers a process holds for other blocks stay
  where they are.
\<close>

record blocks =
  bl_view :: "uint \<Rightarrow> uchar list"
  bl_disk :: "uchar list list"
  bl_held :: "uint set"
  bl_pinned :: "uint set"
  bl_writes :: "(uint \<times> uchar list) list"

definition blk :: "'a bkernel_scheme \<Rightarrow> blocks" where
  "blk s = \<lparr>bl_view = view s, bl_disk = k_disk s, bl_held = held s, bl_pinned = pinned s,
     bl_writes = k_dwrites s\<rparr>"

definition keeps :: "'a bkernel_scheme \<Rightarrow> uint set \<Rightarrow> 'a bkernel_scheme \<Rightarrow> bool" where
  "keeps s X s' \<longleftrightarrow> bio_quiet s' \<and> bio_frame s s' \<and>
     (\<forall>j m. holds s j m \<longrightarrow> m \<notin> X \<longrightarrow> holds s' j m \<and> k_bufs s' ! j = k_bufs s ! j)"

lemma keeps_refl: "bio_quiet s \<Longrightarrow> keeps s X s"
  by (simp add: keeps_def)

lemma keeps_trans: "keeps s X t \<Longrightarrow> keeps t Y u \<Longrightarrow> keeps s (X \<union> Y) u"
  unfolding keeps_def using bio_frame_trans by (metis Un_iff)

lemma keepsD:
  assumes "keeps s X s'"
  shows "bio_quiet s'" "bio_frame s s'"
    "holds s j m \<Longrightarrow> m \<notin> X \<Longrightarrow> holds s' j m" "holds s j m \<Longrightarrow> m \<notin> X \<Longrightarrow> k_bufs s' ! j = k_bufs s ! j"
  using assms by (auto simp: keeps_def)

lemma keeps_set_buf:
  assumes "bio_quiet s" and "bc_ok (set_buf i b s)" and "\<And>m. holds s i m \<Longrightarrow> m \<in> X"
  shows "keeps s X (set_buf i b s)"
proof -
  have "holds (set_buf i b s) j m \<and> k_bufs (set_buf i b s) ! j = k_bufs s ! j"
    if "holds s j m" "m \<notin> X" for j m
  proof -
    have "j \<noteq> i" using that assms(3) by auto
    then show ?thesis using that(1) by (simp add: holds_def has_buf_def set_buf_def)
  qed
  then show ?thesis using assms(1,2) by (simp add: keeps_def bio_quiet_set_buf)
qed

lemma holds_iff_held: "holds s i n \<Longrightarrow> n \<in> held s"
  by (auto simp: holds_def held_def)

lemma bread_contract:
  assumes "bio_quiet s" and "unat n < length (k_disk s)" and "n \<notin> held s"
    and "n \<in> pinned s \<or> card (held s \<union> pinned s) < NBUF"
  shows "\<exists>i s'. bread 1 n s = Ok (i, s') \<and> keeps s {} s' \<and> holds s' i n \<and>
    b_data (k_bufs s' ! i) = view s n \<and> blk s' = (blk s)\<lparr>bl_held := insert n (held s)\<rparr>"
proof -
  note q = bio_quietD [OF assms(1)]
  obtain i b where run: "bread 1 n s = Ok (i, set_buf i b s)" and rep: "replaces s i n b"
    and b: "b_locked b" "b_valid b" "b_data b = view s n" "b_dirty b \<longleftrightarrow> n \<in> pinned s"
      "\<not> b_locked (k_bufs s ! i)"
    using bread_ok [OF assms] by blast
  note r = replaces_ok [OF q(4) rep]
  have i: "i < NBUF" "b_dev b = 1" "b_blockno b = n" using rep by (simp_all add: replaces_def)
  have "keeps s {} (set_buf i b s)"
    using assms(1) r(1) b(5) by (intro keeps_set_buf) (auto simp: holds_def)
  moreover have "holds (set_buf i b s) i n"
    using i b q by (simp add: holds_def has_buf_def)
  moreover have "blk (set_buf i b s) = (blk s)\<lparr>bl_held := insert n (held s)\<rparr>"
    using r b assms(3) by (auto simp: blk_def)
  ultimately show ?thesis
    using run b i q by (intro exI [of _ i] exI [of _ "set_buf i b s"]) simp
qed

text \<open>Changing the data of a held buffer, and marking it dirty.\<close>

definition set_data :: "nat \<Rightarrow> uchar list \<Rightarrow> 'a bkernel_scheme \<Rightarrow> 'a bkernel_scheme" where
  "set_data i d s = upd_buf i (\<lambda>b. b\<lparr>b_data := d\<rparr>) s"

definition set_dirty :: "nat \<Rightarrow> 'a bkernel_scheme \<Rightarrow> 'a bkernel_scheme" where
  "set_dirty i s = upd_buf i (\<lambda>b. b\<lparr>b_dirty := True\<rparr>) s"

lemma holds_inj: "holds s i n \<Longrightarrow> holds s i m \<Longrightarrow> m \<in> {n}"
  by (simp add: holds_def has_buf_def)

lemma holdsD:
  assumes "bio_quiet s" and "holds s i n"
  shows "i < NBUF" "i < length (k_bufs s)" "b_dev (k_bufs s ! i) = 1" "b_blockno (k_bufs s ! i) = n"
    "b_locked (k_bufs s ! i)" "b_valid (k_bufs s ! i)" "buf_ok (k_disk s) (k_bufs s ! i)"
    "unat n < length (k_disk s)" "view s n = b_data (k_bufs s ! i)"
    "b_dirty (k_bufs s ! i) \<longleftrightarrow> n \<in> pinned s"
proof -
  note q = bio_quietD [OF assms(1)]
  show i: "i < NBUF" "b_dev (k_bufs s ! i) = 1" "b_blockno (k_bufs s ! i) = n"
    "b_locked (k_bufs s ! i)" "b_valid (k_bufs s ! i)"
    using assms(2) by (simp_all add: holds_def has_buf_def)
  show "i < length (k_bufs s)" using i q by simp
  show ok: "buf_ok (k_disk s) (k_bufs s ! i)" by (rule bc_ok_buf [OF q(4) i(1)])
  then show "unat n < length (k_disk s)" using i by (simp add: buf_ok_def)
  show "view s n = b_data (k_bufs s ! i)"
    using view_has_buf [OF q(4), of i n] assms(2) by (simp add: holds_def)
  show "b_dirty (k_bufs s ! i) \<longleftrightarrow> n \<in> pinned s"
    using has_buf_unique [OF q(4)] assms(2) by (auto simp: pinned_def holds_def)
qed

lemma set_data_contract:
  assumes "bio_quiet s" and "holds s i n" and "length d = BSIZE"
  shows "keeps s {n} (set_data i d s)" "holds (set_data i d s) i n"
    "b_data (k_bufs (set_data i d s) ! i) = d"
    "blk (set_data i d s) = (blk s)\<lparr>bl_view := (view s)(n := d)\<rparr>"
proof -
  note q = bio_quietD [OF assms(1)] and h = holdsD [OF assms(1,2)]
  let ?b = "(k_bufs s ! i)\<lparr>b_data := d\<rparr>"
  have eq: "set_data i d s = set_buf i ?b s" by (simp add: set_data_def upd_buf_set)
  have "replaces s i n ?b"
    using h assms(2,3) by (auto simp: replaces_def holds_def buf_ok_def b_locked_def)
  note r = replaces_ok [OF q(4) this]
  show "keeps s {n} (set_data i d s)"
    unfolding eq by (rule keeps_set_buf [OF assms(1) r(1) holds_inj [OF assms(2)]])
  show "holds (set_data i d s) i n" "b_data (k_bufs (set_data i d s) ! i) = d"
    using h by (simp_all add: eq holds_def has_buf_def b_locked_def)
  have "n \<in> held s" using assms(2) by (rule holds_iff_held)
  then show "blk (set_data i d s) = (blk s)\<lparr>bl_view := (view s)(n := d)\<rparr>"
    using r h by (auto simp: eq blk_def b_locked_def)
qed

lemma set_dirty_contract:
  assumes "bio_quiet s" and "holds s i n"
  shows "keeps s {n} (set_dirty i s)" "holds (set_dirty i s) i n"
    "blk (set_dirty i s) = (blk s)\<lparr>bl_pinned := insert n (pinned s)\<rparr>"
proof -
  note q = bio_quietD [OF assms(1)] and h = holdsD [OF assms(1,2)]
  let ?b = "(k_bufs s ! i)\<lparr>b_dirty := True\<rparr>"
  have eq: "set_dirty i s = set_buf i ?b s" by (simp add: set_dirty_def upd_buf_set)
  have "replaces s i n ?b"
    using h assms(2) by (auto simp: replaces_def holds_def buf_ok_def b_locked_def)
  note r = replaces_ok [OF q(4) this]
  show "keeps s {n} (set_dirty i s)"
    unfolding eq by (rule keeps_set_buf [OF assms(1) r(1) holds_inj [OF assms(2)]])
  show "holds (set_dirty i s) i n" using h by (simp add: eq holds_def has_buf_def b_locked_def)
  have "n \<in> held s" using assms(2) by (rule holds_iff_held)
  then show "blk (set_dirty i s) = (blk s)\<lparr>bl_pinned := insert n (pinned s)\<rparr>"
    using r h by (auto simp: eq blk_def b_locked_def)
qed

text \<open>A write to the disk behind a held buffer.\<close>

definition put_disk :: "uint \<Rightarrow> uchar list \<Rightarrow> 'a bkernel_scheme \<Rightarrow> 'a bkernel_scheme" where
  "put_disk n d s = s\<lparr>k_disk := (k_disk s)[unat n := d], k_dwrites := k_dwrites s @ [(n, d)]\<rparr>"

lemma put_disk_fields [simp]:
  "k_bufs (put_disk n d s) = k_bufs s" "k_disk (put_disk n d s) = (k_disk s)[unat n := d]"
  "k_dwrites (put_disk n d s) = k_dwrites s @ [(n, d)]" "k_cpu (put_disk n d s) = k_cpu s"
  "k_proc (put_disk n d s) = k_proc s" "k_ptlock (put_disk n d s) = k_ptlock s"
  "has_buf (put_disk n d s) = has_buf s" "holds (put_disk n d s) = holds s"
  "held (put_disk n d s) = held s" "pinned (put_disk n d s) = pinned s"
  "buf_of (put_disk n d s) = buf_of s"
  by (simp_all add: put_disk_def has_buf_def holds_def held_def pinned_def buf_of_def fun_eq_iff)

lemma buf_ok_disk:
  assumes "buf_ok d b" and "b_locked b \<or> b_dev b \<noteq> 1 \<or> b_blockno b \<noteq> n"
  shows "buf_ok (d[unat n := x]) b"
  using assms by (auto simp: buf_ok_def word_unat_eq_iff)

lemma put_disk_ok:
  assumes "bio_quiet s" and "holds s i n" and "length d = BSIZE"
  shows "bio_quiet (put_disk n d s)" "view (put_disk n d s) = view s"
proof -
  note q = bio_quietD [OF assms(1)] and h = holdsD [OF assms(1,2)]
  have "buf_ok ((k_disk s)[unat n := d]) (k_bufs s ! j)" if "j < NBUF" for j
  proof (rule buf_ok_disk [OF bc_ok_buf [OF q(4) that]])
    show "b_locked (k_bufs s ! j) \<or> b_dev (k_bufs s ! j) \<noteq> 1 \<or> b_blockno (k_bufs s ! j) \<noteq> n"
      using h that has_buf_unique [OF q(4), of i n j] assms(2) by (auto simp: holds_def has_buf_def)
  qed
  then have "\<forall>b \<in> set (k_bufs s). buf_ok ((k_disk s)[unat n := d]) b"
    using q(6) by (auto simp: in_set_conv_nth)
  moreover have "\<forall>x \<in> set ((k_disk s)[unat n := d]). length x = BSIZE"
    using q(4) assms(3) by (auto simp: bc_ok_def dest: set_update_subset_insert [THEN subsetD])
  ultimately have ok: "bc_ok (put_disk n d s)" using q(4) by (simp add: bc_ok_def) (simp add: put_disk_def)
  then show "bio_quiet (put_disk n d s)" using assms(1) by (simp add: bio_quiet_def pt_quiet_def)
  have "view (put_disk n d s) m = view s m" for m
  proof (cases "m = n")
    case True
    then show ?thesis
      using view_has_buf [OF ok, of i n] view_has_buf [OF q(4), of i n] assms(2) h by (simp add: holds_def)
  next
    case False
    then have "unat m \<noteq> unat n" by (simp add: word_unat_eq_iff)
    then show ?thesis by (simp add: view_def split: option.split)
  qed
  then show "view (put_disk n d s) = view s" by (rule ext)
qed

lemma bio_frame_put_disk [simp]: "bio_frame s (put_disk n d s)"
  by (simp add: bio_frame_def put_disk_def)

lemma bwrite_contract:
  assumes "bio_quiet s" and "holds s i n"
  shows "\<exists>s'. bwrite i s = Ok s' \<and> keeps s {n} s' \<and> holds s' i n \<and>
    b_data (k_bufs s' ! i) = view s n \<and>
    blk s' = (blk s)\<lparr>bl_disk := (k_disk s)[unat n := view s n], bl_pinned := pinned s - {n},
      bl_writes := k_dwrites s @ [(n, view s n)]\<rparr>"
proof -
  note q = bio_quietD [OF assms(1)] and h = holdsD [OF assms(1,2)]
  let ?b = "(k_bufs s ! i)\<lparr>b_dirty := False, b_valid := True\<rparr>"
  let ?t = "put_disk n (view s n) s"
  let ?s' = "set_buf i ?b ?t"
  have len: "length (view s n) = BSIZE" using h by (simp add: buf_ok_def)
  note t = put_disk_ok [OF assms len]
  have sl: "sl_quiet (b_lock (k_bufs s ! i))" "sl_locked (b_lock (k_bufs s ! i))"
    using h by (simp_all add: buf_ok_def b_locked_def)
  have "bwrite i s = iderw i (set_buf i ((k_bufs s ! i)\<lparr>b_dirty := True\<rparr>) s)"
    using sl q h by (simp add: bwrite_def holdingsleep_ok upd_buf_set set_buf_id)
  also have "\<dots> = Ok ?s'"
    using iderw_write [of "set_buf i ((k_bufs s ! i)\<lparr>b_dirty := True\<rparr>) s" i] sl q h
    by (simp add: b_locked_def) (simp add: set_buf_def put_disk_def)
  finally have run: "bwrite i s = Ok ?s'" .
  have "replaces ?t i n ?b"
    using h assms(2) by (auto simp: replaces_def holds_def buf_ok_def b_locked_def)
  note r = replaces_ok [OF bio_quietD(4) [OF t(1)] this]
  have "keeps ?t {n} ?s'"
    using holds_inj assms(2) by (intro keeps_set_buf [OF t(1) r(1)]) auto
  moreover have "keeps s {} ?t" using t(1) by (simp add: keeps_def)
  ultimately have "keeps s {n} ?s'" using keeps_trans by fastforce
  moreover have "holds ?s' i n" "b_data (k_bufs ?s' ! i) = view s n"
    using h by (simp_all add: holds_def has_buf_def b_locked_def set_buf_def)
  moreover have "n \<in> held s" using assms(2) by (rule holds_iff_held)
  then have "blk ?s' = (blk s)\<lparr>bl_disk := (k_disk s)[unat n := view s n], bl_pinned := pinned s - {n},
      bl_writes := k_dwrites s @ [(n, view s n)]\<rparr>"
    using r h t(2) by (auto simp: blk_def b_locked_def)
  ultimately show ?thesis using run by blast
qed

text \<open>Moving a buffer to the front of the list, and waking processes, change no buffer.\<close>

definition relink :: "chan \<Rightarrow> nat list \<times> nat list \<Rightarrow> 'a bkernel_scheme \<Rightarrow> 'a bkernel_scheme" where
  "relink ch l s = (wakeup1 ch s)\<lparr>k_bprev := fst l, k_bnext := snd l\<rparr>"

lemma relink_fields [simp]:
  "k_bufs (relink ch l s) = k_bufs s" "k_disk (relink ch l s) = k_disk s"
  "k_dwrites (relink ch l s) = k_dwrites s" "k_blk (relink ch l s) = k_blk s"
  "k_proc (relink ch l s) = k_proc s" "k_cpu (relink ch l s) = k_cpu s" "k_ptlock (relink ch l s) = k_ptlock s"
  "has_buf (relink ch l s) = has_buf s" "holds (relink ch l s) = holds s"
  "held (relink ch l s) = held s" "pinned (relink ch l s) = pinned s"
  "buf_of (relink ch l s) = buf_of s" "view (relink ch l s) = view s"
  by (simp_all add: relink_def wakeup1_def has_buf_def holds_def held_def pinned_def buf_of_def view_def
      fun_eq_iff split: option.split)

lemma bio_frame_relink [simp]: "bio_frame s (relink ch l s)"
proof -
  have "map asleep (k_procs (wakeup1 ch s)) = map asleep (k_procs s)"
    by (simp add: wakeup1_def asleep_def)
  then show ?thesis by (cases s) (simp add: bio_frame_def relink_def wakeup1_def)
qed

lemma relink_quiet:
  assumes "bio_quiet s" and "ring_list (fst l) (snd l) xs" and "set xs = {0..<NBUF}"
  shows "bio_quiet (relink ch l s)"
proof -
  have "bc_ok (relink ch l s)"
    using assms bio_quietD(4) [OF assms(1)] by (simp add: bc_ok_def) (auto simp: relink_def)
  then show ?thesis using assms(1) by (simp add: bio_quiet_def pt_quiet_def)
qed

definition to_front :: "nat \<Rightarrow> nat list \<Rightarrow> nat list \<Rightarrow> nat list \<times> nat list" where
  "to_front i pv nx = link_front i (fst (unlink i pv nx)) (snd (unlink i pv nx))"

lemma to_front_ring:
  assumes "ring_list pv nx xs" and "set xs = {0..<NBUF}" and "i < NBUF"
  shows "\<exists>ys. ring_list (fst (to_front i pv nx)) (snd (to_front i pv nx)) ys \<and> set ys = {0..<NBUF}"
proof -
  have "i \<in> set xs" using assms by simp
  then obtain ys zs where xs: "xs = ys @ i # zs" by (meson split_list)
  have "ring_list (fst (unlink i pv nx)) (snd (unlink i pv nx)) (ys @ zs)"
    using assms(1) unfolding xs by (rule ring_unlink)
  moreover have "i \<notin> set (ys @ zs)" using assms(1) xs by (auto simp: ring_list_def)
  ultimately have "ring_list (fst (to_front i pv nx)) (snd (to_front i pv nx)) (i # ys @ zs)"
    unfolding to_front_def by (rule ring_link_front) (rule assms(3))
  moreover have "set (i # ys @ zs) = set xs" unfolding xs by auto
  ultimately show ?thesis using assms(2) by metis
qed

definition free_buf :: "buf \<Rightarrow> buf" where
  "free_buf b = b\<lparr>b_lock := (b_lock b)\<lparr>sl_locked := False, sl_pid := 0\<rparr>, b_refcnt := 0\<rparr>"

lemma brelse_eq:
  assumes "bio_quiet s" and "holds s i n"
  shows "brelse i s = Ok (set_buf i (free_buf (k_bufs s ! i))
    (relink (BufLockChan i) (to_front i (k_bprev s) (k_bnext s)) s))"
proof -
  note q = bio_quietD [OF assms(1)] and h = holdsD [OF assms(1,2)]
  have sl: "sl_quiet (b_lock (k_bufs s ! i))" "sl_locked (b_lock (k_bufs s ! i))" "b_refcnt (k_bufs s ! i) = 1"
    using h by (simp_all add: buf_ok_def b_locked_def)
  let ?w = "wakeup1 (BufLockChan i) s"
  have w: "k_bufs ?w = k_bufs s" "k_bprev ?w = k_bprev s" "k_bnext ?w = k_bnext s" "k_blk ?w = initlock"
    using q by (simp_all add: wakeup1_def)
  show ?thesis
    using q(1,2) h(2) sl w
    by (simp add: brelse_def holdingsleep_ok releasesleep_ok upd_buf_set set_buf_id acquire_blk_ok Let_def
        case_prod_unfold release_blk_ok free_buf_def)
      (simp add: set_buf_def relink_def to_front_def)
qed

lemma brelse_contract:
  assumes "bio_quiet s" and "holds s i n" and "n \<in> pinned s \<or> view s n = k_disk s ! unat n"
  shows "\<exists>s'. brelse i s = Ok s' \<and> keeps s {n} s' \<and> blk s' = (blk s)\<lparr>bl_held := held s - {n}\<rparr>"
proof -
  note q = bio_quietD [OF assms(1)] and h = holdsD [OF assms(1,2)]
  let ?t = "relink (BufLockChan i) (to_front i (k_bprev s) (k_bnext s)) s"
  let ?b = "free_buf (k_bufs s ! i)"
  obtain xs where xs: "ring_list (k_bprev s) (k_bnext s) xs" "set xs = {0..<NBUF}"
    using q(4) by (rule bc_ok_ring)
  obtain ys where ys: "ring_list (fst (to_front i (k_bprev s) (k_bnext s))) (snd (to_front i (k_bprev s) (k_bnext s))) ys"
      "set ys = {0..<NBUF}"
    using to_front_ring [OF xs h(1)] by blast
  have t: "bio_quiet ?t" by (rule relink_quiet [OF assms(1) ys])
  have "replaces ?t i n ?b"
    using h assms(2,3) by (auto simp: replaces_def holds_def buf_ok_def b_locked_def free_buf_def sl_quiet_def)
  note r = replaces_ok [OF bio_quietD(4) [OF t] this]
  have "keeps ?t {n} (set_buf i ?b ?t)"
    using holds_inj assms(2) by (intro keeps_set_buf [OF t r(1)]) auto
  moreover have "keeps s {} ?t" using t by (simp add: keeps_def)
  ultimately have "keeps s {n} (set_buf i ?b ?t)" using keeps_trans by fastforce
  moreover have "blk (set_buf i ?b ?t) = (blk s)\<lparr>bl_held := held s - {n}\<rparr>"
    using r h by (auto simp: blk_def b_locked_def free_buf_def)
  ultimately show ?thesis using brelse_eq [OF assms(1,2)] by blast
qed

section \<open>Initialisation\<close>

text \<open>The lists that the loop makes, apart from the state they are in.\<close>

primrec link_all :: "nat list \<Rightarrow> nat list \<Rightarrow> nat list \<Rightarrow> nat list \<times> nat list" where
  "link_all [] pv nx = (pv, nx)"
| "link_all (b # bs) pv nx = (let (pv, nx) = link_front b pv nx in link_all bs pv nx)"

primrec reset_all :: "nat list \<Rightarrow> buf list \<Rightarrow> buf list" where
  "reset_all [] bufs = bufs"
| "reset_all (b # bs) bufs = reset_all bs (bufs[b := (bufs ! b)\<lparr>b_lock := initsleeplock\<rparr>])"

lemma binit_loop_eq:
  "binit_loop bs s = s\<lparr>k_bprev := fst (link_all bs (k_bprev s) (k_bnext s)),
     k_bnext := snd (link_all bs (k_bprev s) (k_bnext s)), k_bufs := reset_all bs (k_bufs s)\<rparr>"
  by (induction bs arbitrary: s) (simp_all add: split_beta Let_def upd_buf_def)

lemma binit_loop_ok:
  assumes "ring_list (k_bprev s) (k_bnext s) xs" and "distinct bs" and "set bs \<inter> set xs = {}"
    and "set bs \<subseteq> {0..<NBUF}" and "length (k_bufs s) = NBUF"
  shows "ring_list (k_bprev (binit_loop bs s)) (k_bnext (binit_loop bs s)) (rev bs @ xs) \<and>
    k_bufs (binit_loop bs s) = map (\<lambda>i. if i \<in> set bs then (k_bufs s ! i)\<lparr>b_lock := initsleeplock\<rparr>
      else k_bufs s ! i) [0..<NBUF] \<and>
    binit_loop bs s = s\<lparr>k_bprev := k_bprev (binit_loop bs s), k_bnext := k_bnext (binit_loop bs s),
      k_bufs := k_bufs (binit_loop bs s)\<rparr>"
  using assms
proof (induction bs arbitrary: s xs)
  case Nil
  then show ?case by (simp add: map_nth_upt)
next
  case (Cons b bs)
  let ?s = "set_buf b ((k_bufs s ! b)\<lparr>b_lock := initsleeplock\<rparr>)
    (s\<lparr>k_bprev := fst (link_front b (k_bprev s) (k_bnext s)),
       k_bnext := snd (link_front b (k_bprev s) (k_bnext s))\<rparr>)"
  have eq: "binit_loop (b # bs) s = binit_loop bs ?s"
    by (simp add: case_prod_unfold Let_def upd_buf_set)
  have "ring_list (k_bprev ?s) (k_bnext ?s) (b # xs)"
    using ring_link_front [OF Cons.prems(1), of b] Cons.prems by simp
  moreover have "set bs \<inter> set (b # xs) = {}" "distinct bs" "set bs \<subseteq> {0..<NBUF}" "length (k_bufs ?s) = NBUF"
    using Cons.prems by auto
  ultimately have IH: "ring_list (k_bprev (binit_loop bs ?s)) (k_bnext (binit_loop bs ?s)) (rev bs @ b # xs)"
    "k_bufs (binit_loop bs ?s) = map (\<lambda>i. if i \<in> set bs then (k_bufs ?s ! i)\<lparr>b_lock := initsleeplock\<rparr>
      else k_bufs ?s ! i) [0..<NBUF]"
    "binit_loop bs ?s = ?s\<lparr>k_bprev := k_bprev (binit_loop bs ?s), k_bnext := k_bnext (binit_loop bs ?s),
      k_bufs := k_bufs (binit_loop bs ?s)\<rparr>"
    using Cons.IH [of ?s "b # xs"] by blast+
  have "k_bufs ?s ! i = (if i = b then (k_bufs s ! i)\<lparr>b_lock := initsleeplock\<rparr> else k_bufs s ! i)"
    if "i < NBUF" for i
    using that Cons.prems by (auto simp: set_buf_def nth_list_update)
  then have "k_bufs (binit_loop bs ?s) = map (\<lambda>i. if i \<in> set (b # bs) then (k_bufs s ! i)\<lparr>b_lock := initsleeplock\<rparr>
      else k_bufs s ! i) [0..<NBUF]"
    unfolding IH(2) using Cons.prems by (intro map_cong) auto
  moreover have "?s\<lparr>k_bprev := p, k_bnext := q, k_bufs := bb\<rparr> = s\<lparr>k_bprev := p, k_bnext := q, k_bufs := bb\<rparr>" for p q bb
    by (simp add: set_buf_def)
  ultimately show ?case using IH unfolding eq by simp
qed

definition zero_buf :: "buf \<Rightarrow> bool" where
  "zero_buf b \<longleftrightarrow> \<not> b_valid b \<and> \<not> b_dirty b \<and> b_dev b = 0 \<and> b_refcnt b = 0 \<and> length (b_data b) = BSIZE"

lemma binit_ok:
  assumes "length (k_bufs s) = NBUF" and "list_all zero_buf (k_bufs s)"
    and "length (k_bprev s) = Suc NBUF" and "length (k_bnext s) = Suc NBUF"
    and "list_all (\<lambda>d. length d = BSIZE) (k_disk s)"
  shows "bc_ok (binit s)" "held (binit s) = {}" "pinned (binit s) = {}"
    "view (binit s) n = k_disk s ! unat n" "k_disk (binit s) = k_disk s" "k_cpu (binit s) = k_cpu s"
    "k_ptlock (binit s) = k_ptlock s" "k_proc (binit s) = k_proc s"
proof -
  let ?t = "s\<lparr>k_blk := initlock, k_bprev := (k_bprev s)[BHEAD := BHEAD], k_bnext := (k_bnext s)[BHEAD := BHEAD]\<rparr>"
  have b: "binit s = binit_loop [0..<NBUF] ?t" by (simp only: binit_def)
  have "ring_list (k_bprev ?t) (k_bnext ?t) []" "distinct [0..<NBUF]" "set [0..<NBUF] \<inter> set [] = {}"
      "set [0..<NBUF] \<subseteq> {0..<NBUF}" "length (k_bufs ?t) = NBUF"
    using assms by (simp_all add: ring_list_def)
  note loop = binit_loop_ok [OF this, folded b]
  have r: "ring_list (k_bprev (binit s)) (k_bnext (binit s)) (rev [0..<NBUF])"
    and bufs: "k_bufs (binit s) = map (\<lambda>i. if i \<in> set [0..<NBUF] then (k_bufs ?t ! i)\<lparr>b_lock := initsleeplock\<rparr>
        else k_bufs ?t ! i) [0..<NBUF]"
    and all: "binit s = ?t\<lparr>k_bprev := k_bprev (binit s), k_bnext := k_bnext (binit s), k_bufs := k_bufs (binit s)\<rparr>"
    using loop by (simp, blast, blast)
  show same: "k_disk (binit s) = k_disk s" "k_cpu (binit s) = k_cpu s"
    "k_ptlock (binit s) = k_ptlock s" "k_proc (binit s) = k_proc s"
    by (subst all, simp)+
  have blk: "k_blk (binit s) = initlock" by (subst all) simp
  have nth: "k_bufs (binit s) ! i = (k_bufs s ! i)\<lparr>b_lock := initsleeplock\<rparr>" if "i < NBUF" for i
    using that by (simp add: bufs)
  have zero: "zero_buf (k_bufs s ! i)" if "i < NBUF" for i
    using that assms(1,2) by (simp add: list_all_length)
  have len: "length (k_bufs (binit s)) = NBUF" by (simp add: bufs)
  have "buf_ok (k_disk s) (k_bufs (binit s) ! i)" if "i < NBUF" for i
    using zero [OF that] by (simp add: nth [OF that] buf_ok_def zero_buf_def b_locked_def initsleeplock_def sl_quiet_def)
  then have "\<forall>b \<in> set (k_bufs (binit s)). buf_ok (k_disk s) b"
    using len by (auto simp: in_set_conv_nth)
  moreover have none: "\<not> has_buf (binit s) i n" for i n
    using zero [of i] by (auto simp: has_buf_def nth zero_buf_def)
  then have "bufs_unique (k_bufs (binit s))" using len by (auto simp: bufs_unique_def has_buf_def)
  moreover have "\<exists>xs. ring_list (k_bprev (binit s)) (k_bnext (binit s)) xs \<and> set xs = {0..<NBUF}"
    using r by (intro exI [of _ "rev [0..<NBUF]"]) simp
  ultimately show "bc_ok (binit s)"
    using len blk same(1) assms(5) by (simp add: bc_ok_def list_all_iff)
  show "held (binit s) = {}" "pinned (binit s) = {}" using none by (simp_all add: held_def pinned_def)
  have "buf_of (binit s) n = None" using none by (simp add: buf_of_None)
  then show "view (binit s) n = k_disk s ! unat n" by (simp add: view_no_buf same)
qed

section \<open>Properties\<close>

text \<open>C11: The buffer cache is transparent. Reading a block that nobody holds returns its current
  contents (the cached ones if it is cached, else the disk's), also when that evicts another block;
  releasing the unmodified buffer then brings the cache back to a sound state (no block cached
  twice, clean buffers equal to the disk, the use-order list intact) in which every block has the
  contents it had before, nothing was written, and the same blocks are held and pinned.\<close>

theorem bread_brelse_transparent:
  assumes "bio_quiet s" and "unat n < length (k_disk s)" and "n \<notin> held s"
    and "n \<in> pinned s \<or> card (held s \<union> pinned s) < NBUF"
    and "n \<in> pinned s \<or> view s n = k_disk s ! unat n"
  shows "\<exists>i s1 s2. bread 1 n s = Ok (i, s1) \<and> b_data (k_bufs s1 ! i) = view s n \<and>
    brelse i s1 = Ok s2 \<and> bio_quiet s2 \<and> blk s2 = blk s"
proof -
  obtain i s1 where s1: "bread 1 n s = Ok (i, s1)" "keeps s {} s1" "holds s1 i n"
      "b_data (k_bufs s1 ! i) = view s n" "blk s1 = (blk s)\<lparr>bl_held := insert n (held s)\<rparr>"
    using bread_contract [OF assms(1-4)] by blast
  have same: "view s1 = view s" "k_disk s1 = k_disk s" "pinned s1 = pinned s" "held s1 = insert n (held s)"
      "k_dwrites s1 = k_dwrites s"
    using s1(5) by (simp_all add: blk_def)
  obtain s2 where s2: "brelse i s1 = Ok s2" "keeps s1 {n} s2" "blk s2 = (blk s1)\<lparr>bl_held := held s1 - {n}\<rparr>"
    using brelse_contract [OF keepsD(1) [OF s1(2)] s1(3)] assms(5) same by auto
  have "blk s2 = blk s" using s2(3) s1(5) same assms(3) by (simp add: blk_def)
  then show ?thesis using s1 s2 keepsD(1) [OF s2(2)] by blast
qed

text \<open>A machine with \<open>n\<close> empty disk blocks, whose first process runs, after \<open>binit\<close>.\<close>

definition boot_buf :: buf where
  "boot_buf = \<lparr>b_valid = False, b_dirty = False, b_dev = 0, b_blockno = 0, b_lock = initsleeplock,
     b_refcnt = 0, b_data = replicate BSIZE 0\<rparr>"

definition boot_bkernel :: "uchar list list \<Rightarrow> 'a \<Rightarrow> 'a bkernel_scheme" where
  "boot_bkernel d x = binit ((boot_mkernel \<lparr>k_blk = initlock, k_bufs = replicate NBUF boot_buf,
     k_bprev = replicate (Suc NBUF) 0, k_bnext = replicate (Suc NBUF) 0, k_disk = d, k_dwrites = [],
     \<dots> = x\<rparr>)\<lparr>k_proc := Some 0\<rparr>)"

definition boot_links :: "nat list \<times> nat list" where
  "boot_links = link_all [0..<NBUF] ((replicate (Suc NBUF) 0)[BHEAD := BHEAD]) ((replicate (Suc NBUF) 0)[BHEAD := BHEAD])"

definition boot_bufs :: "buf list" where
  "boot_bufs = reset_all [0..<NBUF] (replicate NBUF boot_buf)"

lemma boot_bkernel_eq:
  "boot_bkernel d x = (boot_mkernel \<lparr>k_blk = initlock, k_bufs = boot_bufs, k_bprev = fst boot_links,
     k_bnext = snd boot_links, k_disk = d, k_dwrites = [], \<dots> = x\<rparr>)\<lparr>k_proc := Some 0\<rparr>"
  by (simp add: boot_bkernel_def binit_def binit_loop_eq boot_links_def boot_bufs_def boot_mkernel_def
      boot_tkernel_def traceinit_def boot_kernel_def)

lemma boot_bkernel_ok:
  assumes "list_all (\<lambda>d. length d = BSIZE) d"
  shows "bio_quiet (boot_bkernel d x)" "held (boot_bkernel d x) = {}" "pinned (boot_bkernel d x) = {}"
    "view (boot_bkernel d x) n = d ! unat n" "k_disk (boot_bkernel d x) = d"
proof -
  let ?s = "(boot_mkernel \<lparr>k_blk = initlock, k_bufs = replicate NBUF boot_buf,
     k_bprev = replicate (Suc NBUF) 0, k_bnext = replicate (Suc NBUF) 0, k_disk = d, k_dwrites = [],
     \<dots> = x\<rparr>)\<lparr>k_proc := Some 0\<rparr>"
  have fields: "k_bufs ?s = replicate NBUF boot_buf" "k_bprev ?s = replicate (Suc NBUF) 0"
      "k_bnext ?s = replicate (Suc NBUF) 0" "k_disk ?s = d" "k_proc ?s = Some 0" "k_cpu ?s = boot_cpu"
      "k_ptlock ?s = initlock"
    by (simp_all add: boot_mkernel_def boot_tkernel_def traceinit_def boot_kernel_def)
  have b: "length (k_bufs ?s) = NBUF" "list_all zero_buf (k_bufs ?s)" "length (k_bprev ?s) = Suc NBUF"
      "length (k_bnext ?s) = Suc NBUF" "list_all (\<lambda>d. length d = BSIZE) (k_disk ?s)"
    unfolding fields using assms by (simp_all add: zero_buf_def boot_buf_def list_all_length)
  note ok = binit_ok [OF b, folded boot_bkernel_def, unfolded fields]
  show "bio_quiet (boot_bkernel d x)"
    using ok by (simp add: bio_quiet_def pt_quiet_def boot_cpu_def cpu_settled_def cpu_nested_def)
  show "held (boot_bkernel d x) = {}" "pinned (boot_bkernel d x) = {}"
    "view (boot_bkernel d x) n = d ! unat n" "k_disk (boot_bkernel d x) = d"
    using ok by simp_all
qed

theorem bread_brelse_transparent_witness:
  "\<exists>i s1 s2. bread 1 2 (boot_bkernel (replicate 4 (replicate 512 7)) ()) = Ok (i, s1) \<and>
    b_data (k_bufs s1 ! i) = replicate 512 7 \<and> brelse i s1 = Ok s2 \<and> bio_quiet s2"
proof -
  let ?d = "replicate 4 (replicate 512 (7 :: uchar))"
  have d: "list_all (\<lambda>d. length d = BSIZE) ?d" by (simp add: list_all_length)
  note ok = boot_bkernel_ok [OF d, of "()"]
  have "view (boot_bkernel ?d ()) 2 = replicate 512 7" by (simp add: ok)
  then show ?thesis
    using bread_brelse_transparent [of "boot_bkernel ?d ()" 2] ok by fastforce
qed

end
