(* ===== verification/Log.thy ===== *)
theory Log
  imports Bio
begin

text \<open>
  \<^verbatim>\<open>log.c\<close>: the redo log that makes file system operations atomic with respect to crashes. A
  transaction first writes its blocks to the log, then the header (the commit point), then installs
  them, then clears the header. The main theorem follows the device's writes one by one: a crash
  after any number of them and a recovery leave all of a transaction or nothing.
\<close>

section \<open>State\<close>

text \<open>
  \<open>start\<close>, \<open>size\<close>, \<open>outstanding\<close> and the header's \<open>n\<close> are C \<open>int\<close>s that stay far from their limits;
  they are integers here. The header's block numbers are compared and passed on as \<open>uint\<close>.
\<close>

record logheader =
  lh_n :: int
  lh_block :: "uint list"

record log =
  lg_lock :: spinlock
  lg_start :: int
  lg_size :: int
  lg_outstanding :: int
  lg_committing :: bool
  lg_dev :: uint
  lg_lh :: logheader

record lkernel = bkernel +
  k_log :: log

definition upd_log :: "(log \<Rightarrow> log) \<Rightarrow> 'a lkernel_scheme \<Rightarrow> 'a lkernel_scheme" where
  "upd_log f s = s\<lparr>k_log := f (k_log s)\<rparr>"

definition set_lh :: "logheader \<Rightarrow> 'a lkernel_scheme \<Rightarrow> 'a lkernel_scheme" where
  "set_lh h = upd_log (\<lambda>l. l\<lparr>lg_lh := h\<rparr>)"

record superblock =
  sb_size :: uint
  sb_nblocks :: uint
  sb_ninodes :: uint
  sb_nlog :: uint
  sb_logstart :: uint
  sb_inodestart :: uint
  sb_bmapstart :: uint

text \<open>The structure the bytes of block 1 hold.\<close>

definition sb_of :: "uchar list \<Rightarrow> superblock" where
  "sb_of d = \<lparr>sb_size = get32 d 0, sb_nblocks = get32 d 4, sb_ninodes = get32 d 8, sb_nlog = get32 d 12,
     sb_logstart = get32 d 16, sb_inodestart = get32 d 20, sb_bmapstart = get32 d 24\<rparr>"

definition readsb :: "uint \<Rightarrow> 'a bkernel_scheme \<Rightarrow> (superblock \<times> 'a bkernel_scheme) outcome" where
  "readsb dev s =
     andthen (bread dev 1 s) (\<lambda>(bp, s).
     let sb = sb_of (b_data (k_bufs s ! bp)) in
     andthen (brelse bp s) (\<lambda>s. Ok (sb, s)))"

section \<open>Operations\<close>

text \<open>The number of the log block \<open>tail\<close>: \<open>log.start + tail + 1\<close>.\<close>

definition log_block :: "log \<Rightarrow> nat \<Rightarrow> uint" where
  "log_block l tail = word_of_int (lg_start l + int tail + 1)"

primrec install_trans_loop :: "nat list \<Rightarrow> 'a lkernel_scheme \<Rightarrow> 'a lkernel_scheme outcome" where
  "install_trans_loop [] s = Ok s"
| "install_trans_loop (tail # ts) s =
     andthen (bread (lg_dev (k_log s)) (log_block (k_log s) tail) s) (\<lambda>(lbuf, s).
     andthen (bread (lg_dev (k_log s)) (lh_block (lg_lh (k_log s)) ! tail) s) (\<lambda>(dbuf, s).
     let s = set_data dbuf (b_data (k_bufs s ! lbuf)) s in
     andthen (bwrite dbuf s) (\<lambda>s.
     andthen (brelse lbuf s) (\<lambda>s.
     andthen (brelse dbuf s) (install_trans_loop ts)))))"

definition install_trans :: "'a lkernel_scheme \<Rightarrow> 'a lkernel_scheme outcome" where
  "install_trans s = install_trans_loop [0..<nat (lh_n (lg_lh (k_log s)))] s"

text \<open>The on-disk header: \<open>n\<close> at offset 0 and \<open>block[i]\<close> at \<open>4 + 4 * i\<close>.\<close>

definition head_n :: "uchar list \<Rightarrow> int" where
  "head_n d = sint (get32 d 0)"

definition head_block :: "uchar list \<Rightarrow> nat \<Rightarrow> uint" where
  "head_block d i = get32 d (4 + 4 * i)"

primrec read_head_loop :: "uchar list \<Rightarrow> nat list \<Rightarrow> uint list \<Rightarrow> uint list outcome" where
  "read_head_loop d [] bs = Ok bs"
| "read_head_loop d (i # is) bs =
     (if i < length bs then read_head_loop d is (bs[i := head_block d i])
      else Fault ''log header past the end'')"

definition read_head :: "'a lkernel_scheme \<Rightarrow> 'a lkernel_scheme outcome" where
  "read_head s =
     andthen (bread (lg_dev (k_log s)) (word_of_int (lg_start (k_log s))) s) (\<lambda>(buf, s).
     let d = b_data (k_bufs s ! buf); n = head_n d in
     andthen (read_head_loop d [0..<nat n] (lh_block (lg_lh (k_log s)))) (\<lambda>bs.
     let s = set_lh \<lparr>lh_n = n, lh_block = bs\<rparr> s in brelse buf s))"

primrec write_head_loop :: "uint list \<Rightarrow> nat list \<Rightarrow> uchar list \<Rightarrow> uchar list" where
  "write_head_loop bs [] d = d"
| "write_head_loop bs (i # is) d = write_head_loop bs is (put32 (4 + 4 * i) (bs ! i) d)"

definition write_head :: "'a lkernel_scheme \<Rightarrow> 'a lkernel_scheme outcome" where
  "write_head s =
     andthen (bread (lg_dev (k_log s)) (word_of_int (lg_start (k_log s))) s) (\<lambda>(buf, s).
     let h = lg_lh (k_log s); d = b_data (k_bufs s ! buf);
         d = put32 0 (word_of_int (lh_n h)) d;
         d = write_head_loop (lh_block h) [0..<nat (lh_n h)] d;
         s = set_data buf d s
     in andthen (bwrite buf s) (brelse buf))"

definition set_n :: "int \<Rightarrow> 'a lkernel_scheme \<Rightarrow> 'a lkernel_scheme" where
  "set_n n s = set_lh ((lg_lh (k_log s))\<lparr>lh_n := n\<rparr>) s"

definition recover_from_log :: "'a lkernel_scheme \<Rightarrow> 'a lkernel_scheme outcome" where
  "recover_from_log s =
     andthen (read_head s) (\<lambda>s.
     andthen (install_trans s) (\<lambda>s. write_head (set_n 0 s)))"

text \<open>The test of the header's size in \<open>initlog\<close>, \<open>124 >= 512\<close>, is a constant and false.\<close>

definition initlog :: "uint \<Rightarrow> 'a lkernel_scheme \<Rightarrow> 'a lkernel_scheme outcome" where
  "initlog dev s =
     andthen (readsb dev (upd_log (\<lambda>l. l\<lparr>lg_lock := initlock\<rparr>) s)) (\<lambda>(sb, s).
     recover_from_log (upd_log (\<lambda>l. l\<lparr>lg_start := sint (sb_logstart sb), lg_size := sint (sb_nlog sb),
       lg_dev := dev\<rparr>) s))"

primrec write_log_loop :: "nat list \<Rightarrow> 'a lkernel_scheme \<Rightarrow> 'a lkernel_scheme outcome" where
  "write_log_loop [] s = Ok s"
| "write_log_loop (tail # ts) s =
     andthen (bread (lg_dev (k_log s)) (log_block (k_log s) tail) s) (\<lambda>(to, s).
     andthen (bread (lg_dev (k_log s)) (lh_block (lg_lh (k_log s)) ! tail) s) (\<lambda>(from, s).
     let s = set_data to (b_data (k_bufs s ! from)) s in
     andthen (bwrite to s) (\<lambda>s.
     andthen (brelse from s) (\<lambda>s.
     andthen (brelse to s) (write_log_loop ts)))))"

definition write_log :: "'a lkernel_scheme \<Rightarrow> 'a lkernel_scheme outcome" where
  "write_log s = write_log_loop [0..<nat (lh_n (lg_lh (k_log s)))] s"

definition commit :: "'a lkernel_scheme \<Rightarrow> 'a lkernel_scheme outcome" where
  "commit s =
     (if lh_n (lg_lh (k_log s)) > 0
      then andthen (write_log s) (\<lambda>s. andthen (write_head s) (\<lambda>s.
        andthen (install_trans s) (\<lambda>s. write_head (set_n 0 s))))
      else Ok s)"

definition acquire_log :: "'a lkernel_scheme \<Rightarrow> 'a lkernel_scheme outcome" where
  "acquire_log s = andthen (acquire (k_cpu s) (lg_lock (k_log s)))
     (\<lambda>(c, lk). Ok (upd_log (\<lambda>l. l\<lparr>lg_lock := lk\<rparr>) (s\<lparr>k_cpu := c\<rparr>)))"

definition release_log :: "'a lkernel_scheme \<Rightarrow> 'a lkernel_scheme outcome" where
  "release_log s = andthen (release (k_cpu s) (lg_lock (k_log s)))
     (\<lambda>(c, lk). Ok (upd_log (\<lambda>l. l\<lparr>lg_lock := lk\<rparr>) (s\<lparr>k_cpu := c\<rparr>)))"

text \<open>A caller of \<open>begin_op\<close> that has to wait sleeps on the log and tests again when it is woken.\<close>

definition begin_op :: "'a lkernel_scheme \<Rightarrow> 'a lkernel_scheme outcome" where
  "begin_op s =
     andthen (acquire_log s) (\<lambda>s.
     if lg_committing (k_log s) then Blocked ''log committing''
     else if lh_n (lg_lh (k_log s)) + (lg_outstanding (k_log s) + 1) * int MAXOPBLOCKS > int LOGSIZE
     then Blocked ''log full''
     else release_log (upd_log (\<lambda>l. l\<lparr>lg_outstanding := lg_outstanding l + 1\<rparr>) s))"

definition end_op :: "'a lkernel_scheme \<Rightarrow> 'a lkernel_scheme outcome" where
  "end_op s =
     andthen (acquire_log s) (\<lambda>s.
     let s = upd_log (\<lambda>l. l\<lparr>lg_outstanding := lg_outstanding l - 1\<rparr>) s in
     if lg_committing (k_log s) then Panic ''log.committing''
     else if lg_outstanding (k_log s) = 0 then
       andthen (release_log (upd_log (\<lambda>l. l\<lparr>lg_committing := True\<rparr>) s)) (\<lambda>s.
       andthen (commit s) (\<lambda>s.
       andthen (acquire_log s) (\<lambda>s.
       andthen (wakeup LogChan (upd_log (\<lambda>l. l\<lparr>lg_committing := False\<rparr>) s)) release_log)))
     else andthen (wakeup LogChan s) release_log)"

text \<open>The search of \<open>log_write\<close>: the first of \<open>n\<close> entries with the number, or \<open>n\<close>.\<close>

primrec absorb_loop :: "uint list \<Rightarrow> uint \<Rightarrow> nat \<Rightarrow> nat \<Rightarrow> nat" where
  "absorb_loop bs b i 0 = i"
| "absorb_loop bs b i (Suc n) = (if bs ! i = b then i else absorb_loop bs b (Suc i) n)"

definition log_write :: "nat \<Rightarrow> 'a lkernel_scheme \<Rightarrow> 'a lkernel_scheme outcome" where
  "log_write b s =
     (let h = lg_lh (k_log s) in
      if lh_n h \<ge> int LOGSIZE \<or> lh_n h \<ge> lg_size (k_log s) - 1 then Panic ''too big a transaction''
      else if lg_outstanding (k_log s) < 1 then Panic ''log_write outside of trans''
      else andthen (acquire_log s) (\<lambda>s.
        let h = lg_lh (k_log s); blockno = b_blockno (k_bufs s ! b);
            i = absorb_loop (lh_block h) blockno 0 (nat (lh_n h));
            h = h\<lparr>lh_block := (lh_block h)[i := blockno]\<rparr>;
            h = (if int i = lh_n h then h\<lparr>lh_n := lh_n h + 1\<rparr> else h)
        in release_log (set_dirty b (set_lh h s))))"

section \<open>Copying one block to another\<close>

lemma bio_frame_log: "bio_frame s s' \<Longrightarrow> k_log s' = k_log s"
proof -
  assume "bio_frame s s'"
  then have "s' = s\<lparr>k_bufs := k_bufs s', k_bprev := k_bprev s', k_bnext := k_bnext s',
     k_disk := k_disk s', k_dwrites := k_dwrites s', k_procs := k_procs s'\<rparr>"
    by (simp add: bio_frame_def)
  from arg_cong [OF this, of k_log] show ?thesis by simp
qed

lemma keeps_log: "keeps s X s' \<Longrightarrow> k_log s' = k_log s"
  by (rule bio_frame_log) (rule keepsD)

text \<open>On the blocks: block \<open>b\<close> becomes a copy of block \<open>a\<close>, in the cache and on the disk.\<close>

definition bcopy :: "uint \<Rightarrow> uint \<Rightarrow> blocks \<Rightarrow> blocks" where
  "bcopy a b B = B\<lparr>bl_view := (bl_view B)(b := bl_view B a),
     bl_disk := (bl_disk B)[unat b := bl_view B a], bl_pinned := bl_pinned B - {b},
     bl_writes := bl_writes B @ [(b, bl_view B a)]\<rparr>"

lemma copy_core:
  assumes "bio_quiet s" and "holds s la a" and "holds s lb b" and "a \<noteq> b"
    and "a \<in> pinned s \<or> view s a = k_disk s ! unat a"
  shows "\<exists>s3 s4 s5. bwrite lb (set_data lb (b_data (k_bufs s ! la)) s) = Ok s3 \<and> brelse la s3 = Ok s4 \<and>
    brelse lb s4 = Ok s5 \<and> keeps s {a, b} s5 \<and> blk s5 = (bcopy a b (blk s))\<lparr>bl_held := held s - {a, b}\<rparr>"
proof -
  note ha = holdsD [OF assms(1,2)] and hb = holdsD [OF assms(1,3)]
  have d: "b_data (k_bufs s ! la) = view s a" "length (view s a) = BSIZE"
    using ha by (simp_all add: buf_ok_def)
  have idx: "unat b \<noteq> unat a" using assms(4) by (simp add: word_unat_eq_iff)
  let ?s2 = "set_data lb (view s a) s"
  note s2 = set_data_contract [OF assms(1,3) d(2)]
  have a2: "holds ?s2 la a" using keepsD(3) [OF s2(1) assms(2)] assms(4) by simp
  obtain s3 where s3: "bwrite lb ?s2 = Ok s3" "keeps ?s2 {b} s3" "holds s3 lb b"
      "blk s3 = (blk ?s2)\<lparr>bl_disk := (k_disk ?s2)[unat b := view ?s2 b], bl_pinned := pinned ?s2 - {b},
        bl_writes := k_dwrites ?s2 @ [(b, view ?s2 b)]\<rparr>"
    using bwrite_contract [OF keepsD(1) [OF s2(1)] s2(2)] by blast
  have a3: "holds s3 la a" using keepsD(3) [OF s3(2) a2] assms(4) by simp
  have B3: "view s3 = (view s)(b := view s a)" "k_disk s3 = (k_disk s)[unat b := view s a]"
      "held s3 = held s" "pinned s3 = pinned s - {b}" "k_dwrites s3 = k_dwrites s @ [(b, view s a)]"
    using s3(4) s2(4) by (simp_all add: blk_def)
  have "a \<in> pinned s3 \<or> view s3 a = k_disk s3 ! unat a"
    using assms(4,5) idx by (auto simp: B3)
  then obtain s4 where s4: "brelse la s3 = Ok s4" "keeps s3 {a} s4" "blk s4 = (blk s3)\<lparr>bl_held := held s3 - {a}\<rparr>"
    using brelse_contract [OF keepsD(1) [OF s3(2)] a3] by blast
  have b4: "holds s4 lb b" using keepsD(3) [OF s4(2) s3(3)] assms(4) by simp
  have B4: "view s4 = (view s)(b := view s a)" "k_disk s4 = (k_disk s)[unat b := view s a]"
      "held s4 = held s - {a}" "pinned s4 = pinned s - {b}" "k_dwrites s4 = k_dwrites s @ [(b, view s a)]"
    using s4(3) B3 by (simp_all add: blk_def)
  have "view s4 b = k_disk s4 ! unat b" using hb by (simp add: B4)
  then obtain s5 where s5: "brelse lb s4 = Ok s5" "keeps s4 {b} s5" "blk s5 = (blk s4)\<lparr>bl_held := held s4 - {b}\<rparr>"
    using brelse_contract [OF keepsD(1) [OF s4(2)] b4] by blast
  have "keeps s ({b} \<union> ({b} \<union> ({a} \<union> {b}))) s5"
    using s2(1) s3(2) s4(2) s5(2) by (intro keeps_trans)
  moreover have "{b} \<union> ({b} \<union> ({a} \<union> {b})) = {a, b}" by auto
  moreover have "held s - {a} - {b} = held s - {a, b}" by auto
  ultimately show ?thesis
    using s3(1) s4(1) s5 B4 unfolding d(1)
    by (intro exI [of _ s3] exI [of _ s4] exI [of _ s5]) (simp add: blk_def bcopy_def)
qed

text \<open>Room in the cache for one more block.\<close>

definition room :: "uint \<Rightarrow> uint set \<Rightarrow> 'a bkernel_scheme \<Rightarrow> bool" where
  "room n X s \<longleftrightarrow> n \<in> pinned s \<or> card (X \<union> pinned s) < NBUF"

lemma two_reads:
  assumes "bio_quiet s" and "x \<noteq> y" and "held s = {}" and "unat x < length (k_disk s)"
    and "unat y < length (k_disk s)" and "room x {} s" and "room y {x} s"
  shows "\<exists>i s1 j s2. bread 1 x s = Ok (i, s1) \<and> bread 1 y s1 = Ok (j, s2) \<and> k_log s1 = k_log s \<and>
    keeps s {} s2 \<and> holds s2 i x \<and> holds s2 j y \<and> blk s2 = (blk s)\<lparr>bl_held := {x, y}\<rparr>"
proof -
  obtain i s1 where s1: "bread 1 x s = Ok (i, s1)" "keeps s {} s1" "holds s1 i x"
      "blk s1 = (blk s)\<lparr>bl_held := insert x (held s)\<rparr>"
    using bread_contract [of s x] assms by (auto simp: room_def)
  have B1: "held s1 = {x}" "k_disk s1 = k_disk s" "pinned s1 = pinned s"
    using s1(4) assms(3) by (simp_all add: blk_def)
  obtain j s2 where s2: "bread 1 y s1 = Ok (j, s2)" "keeps s1 {} s2" "holds s2 j y"
      "blk s2 = (blk s1)\<lparr>bl_held := insert y (held s1)\<rparr>"
    using bread_contract [of s1 y] assms B1 keepsD(1) [OF s1(2)] by (auto simp: room_def)
  have "keeps s {} s2" using keeps_trans [OF s1(2) s2(2)] by simp
  moreover have "holds s2 i x" using keepsD(3) [OF s2(2) s1(3)] by simp
  moreover have "blk s2 = (blk s)\<lparr>bl_held := {x, y}\<rparr>"
    using s1(4) s2(4) B1 by (simp add: insert_commute)
  ultimately show ?thesis using s1(1) s2(1,3) keeps_log [OF s1(2)] by blast
qed

text \<open>The body of the two loops: both blocks are read, in either order, and the copy is made.\<close>

lemma copy_step:
  assumes "bio_quiet s" and "held s = {}" and "a \<noteq> b" and "{x, y} = {a, b}"
    and "unat a < length (k_disk s)" and "unat b < length (k_disk s)" and "room x {} s" and "room y {x} s"
    and "a \<in> pinned s \<or> view s a = k_disk s ! unat a"
  shows "\<exists>i s1 j s2 s3 s4 s5. bread 1 x s = Ok (i, s1) \<and> bread 1 y s1 = Ok (j, s2) \<and>
    k_log s1 = k_log s \<and>
    (let la = (if x = a then i else j); lb = (if x = a then j else i) in
     bwrite lb (set_data lb (b_data (k_bufs s2 ! la)) s2) = Ok s3 \<and> brelse la s3 = Ok s4 \<and>
     brelse lb s4 = Ok s5) \<and> keeps s {} s5 \<and> blk s5 = bcopy a b (blk s)"
proof -
  have xy: "x \<noteq> y" "unat x < length (k_disk s)" "unat y < length (k_disk s)" "x = a \<and> y = b \<or> x = b \<and> y = a"
    using assms(3-6) by (auto simp: doubleton_eq_iff)
  obtain i s1 j s2 where s2: "bread 1 x s = Ok (i, s1)" "bread 1 y s1 = Ok (j, s2)" "k_log s1 = k_log s"
      "keeps s {} s2" "holds s2 i x" "holds s2 j y" "blk s2 = (blk s)\<lparr>bl_held := {x, y}\<rparr>"
    using two_reads [OF assms(1) xy(1) assms(2) xy(2,3) assms(7,8)] by blast
  let ?la = "if x = a then i else j" and ?lb = "if x = a then j else i"
  have h: "holds s2 ?la a" "holds s2 ?lb b" using s2(5,6) xy(4) assms(3) by auto
  have B2: "view s2 = view s" "k_disk s2 = k_disk s" "pinned s2 = pinned s" "held s2 = {a, b}"
    using s2(7) assms(4) by (simp_all add: blk_def)
  obtain s3 s4 s5 where s5: "bwrite ?lb (set_data ?lb (b_data (k_bufs s2 ! ?la)) s2) = Ok s3"
      "brelse ?la s3 = Ok s4" "brelse ?lb s4 = Ok s5" "keeps s2 {a, b} s5"
      "blk s5 = (bcopy a b (blk s2))\<lparr>bl_held := held s2 - {a, b}\<rparr>"
    using copy_core [OF keepsD(1) [OF s2(4)] h assms(3)] assms(9) B2 by auto
  have "keeps s {a, b} s5" using keeps_trans [OF s2(4) s5(4)] by simp
  then have "keeps s {} s5" using assms(2) holds_iff_held by (fastforce simp: keeps_def)
  moreover have "blk s5 = bcopy a b (blk s)"
    using s5(5) s2(7) assms(2) B2 by (simp add: bcopy_def blk_def)
  ultimately show ?thesis using s2 s5 unfolding Let_def by blast
qed

section \<open>A sequence of copies\<close>

type_synonym writes = "(uint \<times> uchar list) list"

definition apply_writes :: "writes \<Rightarrow> uchar list list \<Rightarrow> uchar list list" where
  "apply_writes ws d = fold (\<lambda>(b, x) d. d[unat b := x]) ws d"

definition view_writes :: "writes \<Rightarrow> (uint \<Rightarrow> uchar list) \<Rightarrow> uint \<Rightarrow> uchar list" where
  "view_writes ws v = fold (\<lambda>(b, x) v. v(b := x)) ws v"

definition bcopies :: "(uint \<times> uint) list \<Rightarrow> blocks \<Rightarrow> blocks" where
  "bcopies ps B = fold (\<lambda>(a, b). bcopy a b) ps B"

definition copy_writes :: "(uint \<times> uint) list \<Rightarrow> (uint \<Rightarrow> uchar list) \<Rightarrow> writes" where
  "copy_writes ps v = map (\<lambda>(a, b). (b, v a)) ps"

lemma apply_writes_simps [simp]:
  "apply_writes [] d = d" "apply_writes ((b, x) # ws) d = apply_writes ws (d[unat b := x])"
  "apply_writes (ws @ us) d = apply_writes us (apply_writes ws d)"
  "length (apply_writes ws d) = length d"
proof -
  show "length (apply_writes ws d) = length d"
    unfolding apply_writes_def by (induction ws arbitrary: d) auto
qed (simp_all add: apply_writes_def)

lemma apply_writes_other: "m \<notin> unat ` fst ` set ws \<Longrightarrow> apply_writes ws d ! m = d ! m"
  by (induction ws arbitrary: d) auto

lemma view_writes_other: "m \<notin> fst ` set ws \<Longrightarrow> view_writes ws v m = v m"
  unfolding view_writes_def by (induction ws arbitrary: v) auto

lemma bcopies_eq:
  assumes "\<forall>(a, b) \<in> set ps. a \<notin> snd ` set ps"
  shows "bcopies ps B = B\<lparr>bl_view := view_writes (copy_writes ps (bl_view B)) (bl_view B),
    bl_disk := apply_writes (copy_writes ps (bl_view B)) (bl_disk B),
    bl_pinned := bl_pinned B - snd ` set ps,
    bl_writes := bl_writes B @ copy_writes ps (bl_view B)\<rparr>"
  using assms
proof (induction ps arbitrary: B)
  case Nil
  then show ?case by (simp add: bcopies_def copy_writes_def view_writes_def)
next
  case (Cons p ps)
  obtain a b where p: "p = (a, b)" by (cases p)
  have "copy_writes ps ((bl_view B)(b := bl_view B a)) = copy_writes ps (bl_view B)"
    using Cons.prems by (auto simp: copy_writes_def p)
  moreover have "bcopies (p # ps) B = bcopies ps (bcopy a b B)" by (simp add: bcopies_def p)
  moreover have "bcopies ps (bcopy a b B) = (bcopy a b B)\<lparr>
      bl_view := view_writes (copy_writes ps (bl_view (bcopy a b B))) (bl_view (bcopy a b B)),
      bl_disk := apply_writes (copy_writes ps (bl_view (bcopy a b B))) (bl_disk (bcopy a b B)),
      bl_pinned := bl_pinned (bcopy a b B) - snd ` set ps,
      bl_writes := bl_writes (bcopy a b B) @ copy_writes ps (bl_view (bcopy a b B))\<rparr>"
    using Cons.prems by (intro Cons.IH) (auto simp: p)
  moreover have "copy_writes (p # ps) (bl_view B) = (b, bl_view B a) # copy_writes ps (bl_view B)"
    by (simp add: copy_writes_def p)
  moreover have "bl_pinned B - {b} - snd ` set ps = bl_pinned B - snd ` set (p # ps)" by (auto simp: p)
  ultimately show ?case by (simp add: bcopy_def view_writes_def)
qed

section \<open>The loops of the log\<close>

definition log_n :: "log \<Rightarrow> nat" where
  "log_n l = nat (lh_n (lg_lh l))"

definition home :: "log \<Rightarrow> nat \<Rightarrow> uint" where
  "home l t = lh_block (lg_lh l) ! t"

text \<open>
  A log that fits its disk of \<open>D\<close> blocks: the log area, header included, is on the disk, the
  transaction fits behind the header, its home blocks are different blocks of the disk outside the
  log area.
\<close>

definition in_log :: "log \<Rightarrow> uint \<Rightarrow> bool" where
  "in_log l b \<longleftrightarrow> lg_start l \<le> int (unat b) \<and> int (unat b) < lg_start l + lg_size l"

definition log_area :: "log \<Rightarrow> nat \<Rightarrow> bool" where
  "log_area l D \<longleftrightarrow> lg_dev l = 1 \<and> 0 \<le> lg_start l \<and> 0 < lg_size l \<and> lg_size l \<le> int LOGSIZE \<and>
     lg_start l + lg_size l \<le> int D \<and> D < 2 ^ 31 \<and> length (lh_block (lg_lh l)) = LOGSIZE"

definition log_geo :: "log \<Rightarrow> nat \<Rightarrow> bool" where
  "log_geo l D \<longleftrightarrow> log_area l D \<and> 0 \<le> lh_n (lg_lh l) \<and> lh_n (lg_lh l) < lg_size l \<and>
     distinct (map (home l) [0..<log_n l]) \<and>
     (\<forall>t < log_n l. unat (home l t) < D \<and> \<not> in_log l (home l t))"

lemma unat_word_of_int: "0 \<le> k \<Longrightarrow> k < 2 ^ 32 \<Longrightarrow> unat (word_of_int k :: uint) = nat k"
  by (simp add: unsigned_of_int take_bit_int_eq_self)

lemma log_block_unat:
  assumes "log_area l D" and "int t + 1 < lg_size l"
  shows "unat (log_block l t) = nat (lg_start l) + t + 1"
  using assms unat_word_of_int [of "lg_start l + int t + 1"] by (auto simp: log_block_def log_area_def nat_add_distrib)

lemma log_geoD:
  assumes "log_geo l D" and "t < log_n l"
  shows "unat (log_block l t) = nat (lg_start l) + t + 1" "unat (log_block l t) < D" "in_log l (log_block l t)"
    "unat (home l t) < D" "\<not> in_log l (home l t)"
proof -
  have t: "int t + 1 < lg_size l" using assms by (auto simp: log_geo_def log_n_def)
  show u: "unat (log_block l t) = nat (lg_start l) + t + 1"
    using assms(1) t by (intro log_block_unat) (auto simp: log_geo_def)
  show "unat (log_block l t) < D" "in_log l (log_block l t)"
    using u t assms(1) by (auto simp: log_geo_def log_area_def in_log_def)
  show "unat (home l t) < D" "\<not> in_log l (home l t)" using assms by (auto simp: log_geo_def)
qed

lemma home_neq: "log_geo l D \<Longrightarrow> t < log_n l \<Longrightarrow> u < log_n l \<Longrightarrow> home l t \<noteq> log_block l u"
  using log_geoD(3,5) by metis

lemma home_distinct: "log_geo l D \<Longrightarrow> t < log_n l \<Longrightarrow> u < log_n l \<Longrightarrow> t \<noteq> u \<Longrightarrow> home l t \<noteq> home l u"
  by (auto simp: log_geo_def distinct_map inj_on_def)

lemma log_block_distinct:
  "log_geo l D \<Longrightarrow> t < log_n l \<Longrightarrow> u < log_n l \<Longrightarrow> t \<noteq> u \<Longrightarrow> log_block l t \<noteq> log_block l u"
  using log_geoD(1) [of l D t] log_geoD(1) [of l D u] by auto

definition install_pairs :: "log \<Rightarrow> nat list \<Rightarrow> (uint \<times> uint) list" where
  "install_pairs l ts = map (\<lambda>t. (log_block l t, home l t)) ts"

definition log_pairs :: "log \<Rightarrow> nat list \<Rightarrow> (uint \<times> uint) list" where
  "log_pairs l ts = map (\<lambda>t. (home l t, log_block l t)) ts"

lemma install_loop:
  assumes "bio_quiet s" and "held s = {}" and "log_geo (k_log s) (length (k_disk s))"
    and "distinct ts" and "set ts \<subseteq> {0..<log_n (k_log s)}" and "card (pinned s) < NBUF"
    and "pinned s = {} \<or> (\<forall>t \<in> set ts. home (k_log s) t \<in> pinned s)"
    and "\<forall>t \<in> set ts. view s (log_block (k_log s) t) = k_disk s ! unat (log_block (k_log s) t)"
  shows "\<exists>s'. install_trans_loop ts s = Ok s' \<and> keeps s {} s' \<and>
    blk s' = bcopies (install_pairs (k_log s) ts) (blk s)"
  using assms
proof (induction ts arbitrary: s)
  case Nil
  then show ?case by (simp add: keeps_refl bcopies_def install_pairs_def)
next
  case (Cons t ts)
  define a where "a = log_block (k_log s) t"
  define b where "b = home (k_log s) t"
  note geo = Cons.prems(3)
  have t: "t < log_n (k_log s)" using Cons.prems(5) by auto
  note g = log_geoD [OF geo t, folded a_def b_def]
  have dev: "lg_dev (k_log s) = 1" using geo by (simp add: log_geo_def log_area_def)
  have "a \<noteq> b" using home_neq [OF geo t t] by (auto simp: a_def b_def)
  moreover have "room a {} s" "room b {a} s" using Cons.prems(6,7) by (auto simp: room_def b_def)
  ultimately obtain i s1 j s2 s3 s4 s5 where run: "bread 1 a s = Ok (i, s1)" "bread 1 b s1 = Ok (j, s2)"
      "k_log s1 = k_log s" "bwrite j (set_data j (b_data (k_bufs s2 ! i)) s2) = Ok s3"
      "brelse i s3 = Ok s4" "brelse j s4 = Ok s5" and s5: "keeps s {} s5" "blk s5 = bcopy a b (blk s)"
    using copy_step [OF Cons.prems(1,2), of a b a b] Cons.prems(8) g by (auto simp: Let_def a_def)
  have log5: "k_log s5 = k_log s" using s5(1) by (rule keeps_log)
  have B5: "held s5 = {}" "pinned s5 = pinned s - {b}" "view s5 = (view s)(b := view s a)"
      "k_disk s5 = (k_disk s)[unat b := view s a]"
    using s5(2) Cons.prems(2) by (simp_all add: blk_def bcopy_def)
  have lt: "u < log_n (k_log s)" if "u \<in> set ts" for u using that Cons.prems(5) by auto
  have u: "home (k_log s) u \<noteq> b" "log_block (k_log s) u \<noteq> b" "unat b \<noteq> unat (log_block (k_log s) u)"
    if "u \<in> set ts" for u
    using that Cons.prems(4) home_distinct [OF geo lt [OF that] t] home_neq [OF geo t lt [OF that]]
    by (auto simp: b_def simp flip: word_unat_eq_iff)
  have "card (pinned s5) < NBUF"
    using Cons.prems(6) card_mono [of "pinned s" "pinned s - {b}"] finite_held [of s] by (auto simp: B5)
  moreover have "\<forall>u \<in> set ts. view s5 (log_block (k_log s) u) = k_disk s5 ! unat (log_block (k_log s) u)"
    using Cons.prems(8) u by (simp add: B5)
  moreover have "pinned s5 = {} \<or> (\<forall>u \<in> set ts. home (k_log s) u \<in> pinned s5)"
    using Cons.prems(7) u by (auto simp: B5)
  ultimately have "\<exists>s'. install_trans_loop ts s5 = Ok s' \<and> keeps s5 {} s' \<and>
      blk s' = bcopies (install_pairs (k_log s5) ts) (blk s5)"
    using Cons.prems keepsD(1) [OF s5(1)] B5 log5 by (intro Cons.IH) simp_all
  then obtain s' where s': "install_trans_loop ts s5 = Ok s'" "keeps s5 {} s'"
      "blk s' = bcopies (install_pairs (k_log s) ts) (blk s5)"
    unfolding log5 by blast
  have "keeps s {} s'" using keeps_trans [OF s5(1) s'(2)] by simp
  moreover have "blk s' = bcopies (install_pairs (k_log s) (t # ts)) (blk s)"
    using s'(3) s5(2) by (simp add: bcopies_def install_pairs_def a_def b_def)
  moreover have "install_trans_loop (t # ts) s = Ok s'"
    using run s'(1) dev by (simp add: a_def b_def home_def)
  ultimately show ?case by blast
qed

lemma write_log_loop_ok:
  assumes "bio_quiet s" and "held s = {}" and "log_geo (k_log s) (length (k_disk s))"
    and "distinct ts" and "set ts \<subseteq> {0..<log_n (k_log s)}" and "card (pinned s) < NBUF"
    and "\<forall>t \<in> set ts. home (k_log s) t \<in> pinned s"
  shows "\<exists>s'. write_log_loop ts s = Ok s' \<and> keeps s {} s' \<and>
    blk s' = bcopies (log_pairs (k_log s) ts) (blk s)"
  using assms
proof (induction ts arbitrary: s)
  case Nil
  then show ?case by (simp add: keeps_refl bcopies_def log_pairs_def)
next
  case (Cons t ts)
  define a where "a = home (k_log s) t"
  define b where "b = log_block (k_log s) t"
  note geo = Cons.prems(3)
  have t: "t < log_n (k_log s)" using Cons.prems(5) by auto
  note g = log_geoD [OF geo t, folded a_def b_def]
  have dev: "lg_dev (k_log s) = 1" using geo by (simp add: log_geo_def log_area_def)
  have ab: "a \<noteq> b" using home_neq [OF geo t t] by (simp add: a_def b_def)
  have "room b {} s" "room a {b} s" using Cons.prems(6,7) by (auto simp: room_def a_def)
  then obtain i s1 j s2 s3 s4 s5 where run: "bread 1 b s = Ok (i, s1)" "bread 1 a s1 = Ok (j, s2)"
      "k_log s1 = k_log s" "bwrite i (set_data i (b_data (k_bufs s2 ! j)) s2) = Ok s3"
      "brelse j s3 = Ok s4" "brelse i s4 = Ok s5" and s5: "keeps s {} s5" "blk s5 = bcopy a b (blk s)"
    using copy_step [OF Cons.prems(1,2) ab, of b a] Cons.prems(7) g ab
    by (auto simp: Let_def a_def insert_commute)
  have log5: "k_log s5 = k_log s" using s5(1) by (rule keeps_log)
  have B5: "held s5 = {}" "pinned s5 = pinned s - {b}" "length (k_disk s5) = length (k_disk s)"
    using s5(2) Cons.prems(2) by (simp_all add: blk_def bcopy_def)
  have lt: "u < log_n (k_log s)" if "u \<in> set ts" for u using that Cons.prems(5) by auto
  have "card (pinned s5) < NBUF"
    using Cons.prems(6) card_mono [of "pinned s" "pinned s - {b}"] finite_held [of s] by (auto simp: B5)
  moreover have "\<forall>u \<in> set ts. home (k_log s) u \<in> pinned s5"
    using Cons.prems(7) home_neq [OF geo lt t] by (simp add: B5 b_def)
  ultimately have "\<exists>s'. write_log_loop ts s5 = Ok s' \<and> keeps s5 {} s' \<and>
      blk s' = bcopies (log_pairs (k_log s5) ts) (blk s5)"
    using Cons.prems keepsD(1) [OF s5(1)] B5 log5 by (intro Cons.IH) simp_all
  then obtain s' where s': "write_log_loop ts s5 = Ok s'" "keeps s5 {} s'"
      "blk s' = bcopies (log_pairs (k_log s) ts) (blk s5)"
    unfolding log5 by blast
  have "keeps s {} s'" using keeps_trans [OF s5(1) s'(2)] by simp
  moreover have "blk s' = bcopies (log_pairs (k_log s) (t # ts)) (blk s)"
    using s'(3) s5(2) by (simp add: bcopies_def log_pairs_def a_def b_def)
  moreover have "write_log_loop (t # ts) s = Ok s'"
    using run s'(1) dev by (simp add: a_def b_def home_def)
  ultimately show ?case by blast
qed

section \<open>The header\<close>

definition head_bytes :: "logheader \<Rightarrow> uchar list \<Rightarrow> uchar list" where
  "head_bytes h d = write_head_loop (lh_block h) [0..<nat (lh_n h)] (put32 0 (word_of_int (lh_n h)) d)"

lemma length_write_head_loop:
  "length d = BSIZE \<Longrightarrow> \<forall>i \<in> set is. i < 127 \<Longrightarrow> length (write_head_loop bs is d) = BSIZE"
  by (induction "is" arbitrary: d) auto

lemma length_head_bytes:
  "length d = BSIZE \<Longrightarrow> lh_n h \<le> int LOGSIZE \<Longrightarrow> length (head_bytes h d) = BSIZE"
  unfolding head_bytes_def by (rule length_write_head_loop) auto

lemma write_head_loop_n:
  "length d = BSIZE \<Longrightarrow> \<forall>i \<in> set is. i < 127 \<Longrightarrow> get32 (write_head_loop bs is d) 0 = get32 d 0"
  by (induction "is" arbitrary: d) (auto simp: get32_put32_other)

lemma head_block_put_other:
  assumes "length d = BSIZE" and "a < 127" and "j \<noteq> a"
  shows "head_block (put32 (4 + 4 * a) w d) j = head_block d j"
proof -
  have "4 + 4 * j + 4 \<le> 4 + 4 * a \<or> 4 + 4 * a + 4 \<le> 4 + 4 * j" using assms(3) by linarith
  then show ?thesis unfolding head_block_def using assms by (intro get32_put32_other) auto
qed

lemma write_head_loop_other:
  "length d = BSIZE \<Longrightarrow> \<forall>i \<in> set is. i < 127 \<Longrightarrow> j \<notin> set is \<Longrightarrow>
     head_block (write_head_loop bs is d) j = head_block d j"
  by (induction "is" arbitrary: d) (auto simp: head_block_put_other)

lemma write_head_loop_block:
  "length d = BSIZE \<Longrightarrow> \<forall>i \<in> set is. i < 127 \<Longrightarrow> distinct is \<Longrightarrow> j \<in> set is \<Longrightarrow>
     head_block (write_head_loop bs is d) j = bs ! j"
proof (induction "is" arbitrary: d)
  case (Cons i "is")
  show ?case
  proof (cases "j = i")
    case True
    then show ?thesis using Cons.prems by (simp add: write_head_loop_other) (simp add: head_block_def)
  next
    case False
    then show ?thesis using Cons by simp
  qed
qed simp

lemma head_bytes_n:
  assumes "length d = BSIZE" and "0 \<le> lh_n h" and "lh_n h \<le> int LOGSIZE"
  shows "head_n (head_bytes h d) = lh_n h"
proof -
  have "get32 (head_bytes h d) 0 = word_of_int (lh_n h)"
    unfolding head_bytes_def using assms by (subst write_head_loop_n) auto
  then show ?thesis using assms by (simp add: head_n_def signed_of_int signed_take_bit_int_eq_self)
qed

lemma head_bytes_block:
  "length d = BSIZE \<Longrightarrow> lh_n h \<le> int LOGSIZE \<Longrightarrow> j < nat (lh_n h) \<Longrightarrow>
     head_block (head_bytes h d) j = lh_block h ! j"
  unfolding head_bytes_def by (rule write_head_loop_block) auto

definition head_blk :: "log \<Rightarrow> uint" where
  "head_blk l = word_of_int (lg_start l)"

definition put_block :: "uint \<Rightarrow> uchar list \<Rightarrow> blocks \<Rightarrow> blocks" where
  "put_block b x B = B\<lparr>bl_view := (bl_view B)(b := x), bl_disk := (bl_disk B)[unat b := x],
     bl_pinned := bl_pinned B - {b}, bl_writes := bl_writes B @ [(b, x)]\<rparr>"

lemma head_blk_unat: "log_area l D \<Longrightarrow> unat (head_blk l) = nat (lg_start l)"
  using unat_word_of_int [of "lg_start l"] by (auto simp: head_blk_def log_area_def)

lemma head_blk_less: "log_area l D \<Longrightarrow> unat (head_blk l) < D"
  by (simp add: head_blk_unat) (auto simp: log_area_def)

lemma head_blk_in_log: "log_area l D \<Longrightarrow> in_log l (head_blk l)"
  by (simp add: in_log_def head_blk_unat) (auto simp: log_area_def)

lemma upd_log_fields [simp]:
  "k_bufs (upd_log f s) = k_bufs s" "k_disk (upd_log f s) = k_disk s" "k_dwrites (upd_log f s) = k_dwrites s"
  "k_cpu (upd_log f s) = k_cpu s" "k_proc (upd_log f s) = k_proc s" "k_log (upd_log f s) = f (k_log s)"
  "k_procs (upd_log f s) = k_procs s" "k_ptlock (upd_log f s) = k_ptlock s"
  "bio_quiet (upd_log f s) = bio_quiet s" "holds (upd_log f s) = holds s" "held (upd_log f s) = held s"
  "pinned (upd_log f s) = pinned s" "view (upd_log f s) = view s" "blk (upd_log f s) = blk s"
  "pt_quiet (upd_log f s) = pt_quiet s"
  by (simp_all add: upd_log_def bio_quiet_def pt_quiet_def bc_ok_def holds_def has_buf_def held_def pinned_def
      view_def buf_of_def blk_def fun_eq_iff split: option.split)

lemma set_lh_simps [simp]: "k_log (set_lh h s) = (k_log s)\<lparr>lg_lh := h\<rparr>"
  by (simp add: set_lh_def)

lemma write_head_ok:
  assumes "bio_quiet s" and "held s = {}" and "log_area (k_log s) (length (k_disk s))"
    and "lh_n (lg_lh (k_log s)) \<le> int LOGSIZE" and "card (pinned s) < NBUF"
  shows "\<exists>s'. write_head s = Ok s' \<and> keeps s {} s' \<and> blk s' = put_block (head_blk (k_log s))
    (head_bytes (lg_lh (k_log s)) (view s (head_blk (k_log s)))) (blk s)"
proof -
  define h where "h = head_blk (k_log s)"
  define d where "d = head_bytes (lg_lh (k_log s)) (view s h)"
  have dev: "lg_dev (k_log s) = 1" using assms(3) by (simp add: log_area_def)
  obtain i s1 where s1: "bread 1 h s = Ok (i, s1)" "keeps s {} s1" "holds s1 i h"
      "b_data (k_bufs s1 ! i) = view s h" "blk s1 = (blk s)\<lparr>bl_held := insert h (held s)\<rparr>"
    using bread_contract [of s h] assms head_blk_less by (fastforce simp: h_def)
  have q1: "bio_quiet s1" and log1: "k_log s1 = k_log s"
    using keepsD(1) [OF s1(2)] keeps_log [OF s1(2)] by simp_all
  have "length (view s h) = BSIZE" using holdsD(7) [OF q1 s1(3)] s1(4) by (simp add: buf_ok_def)
  then have len: "length d = BSIZE" unfolding d_def using assms(4) by (rule length_head_bytes)
  note s2 = set_data_contract [OF q1 s1(3) len]
  obtain s3 where s3: "bwrite i (set_data i d s1) = Ok s3" "keeps (set_data i d s1) {h} s3" "holds s3 i h"
      "blk s3 = (blk (set_data i d s1))\<lparr>bl_disk := (k_disk (set_data i d s1))[unat h := view (set_data i d s1) h],
        bl_pinned := pinned (set_data i d s1) - {h},
        bl_writes := k_dwrites (set_data i d s1) @ [(h, view (set_data i d s1) h)]\<rparr>"
    using bwrite_contract [OF keepsD(1) [OF s2(1)] s2(2)] by blast
  have B3: "view s3 = (view s)(h := d)" "k_disk s3 = (k_disk s)[unat h := d]" "held s3 = {h}"
      "pinned s3 = pinned s - {h}" "k_dwrites s3 = k_dwrites s @ [(h, d)]"
    using s3(4) s2(4) s1(5) assms(2) by (simp_all add: blk_def)
  have "view s3 h = k_disk s3 ! unat h"
    using head_blk_less [OF assms(3)] by (simp add: B3 h_def)
  then obtain s4 where s4: "brelse i s3 = Ok s4" "keeps s3 {h} s4" "blk s4 = (blk s3)\<lparr>bl_held := held s3 - {h}\<rparr>"
    using brelse_contract [OF keepsD(1) [OF s3(2)] s3(3)] by blast
  have "keeps s ({} \<union> ({h} \<union> ({h} \<union> {h}))) s4"
    using s1(2) s2(1) s3(2) s4(2) by (intro keeps_trans)
  then have "keeps s {} s4" using assms(2) holds_iff_held by (fastforce simp: keeps_def)
  moreover have "blk s4 = put_block h d (blk s)"
    using s4(3) B3 assms(2) by (simp add: blk_def put_block_def)
  moreover have "write_head s = Ok s4"
    using s1(1,4) s3(1) s4(1) dev log1
    by (simp add: write_head_def h_def d_def head_blk_def head_bytes_def Let_def)
  ultimately show ?thesis by (auto simp: h_def d_def)
qed

lemma read_head_loop_ok:
  "\<forall>i \<in> set is. i < length bs \<Longrightarrow> distinct is \<Longrightarrow>
     \<exists>bs'. read_head_loop d is bs = Ok bs' \<and> length bs' = length bs \<and>
       (\<forall>j < length bs. bs' ! j = (if j \<in> set is then head_block d j else bs ! j))"
proof (induction "is" arbitrary: bs)
  case (Cons i "is")
  then show ?case using Cons.IH [of "bs[i := head_block d i]"] by (auto simp: nth_list_update)
qed simp

definition disk_lh :: "uchar list \<Rightarrow> logheader \<Rightarrow> bool" where
  "disk_lh d h \<longleftrightarrow> lh_n h = head_n d \<and> length (lh_block h) = LOGSIZE \<and>
     (\<forall>j < nat (head_n d). lh_block h ! j = head_block d j)"

lemma read_head_ok:
  assumes "bio_quiet s" and "held s = {}" and "log_area (k_log s) (length (k_disk s))"
    and "card (pinned s) < NBUF" and "view s (head_blk (k_log s)) = k_disk s ! unat (head_blk (k_log s))"
    and "head_n (view s (head_blk (k_log s))) \<le> int LOGSIZE"
  shows "\<exists>s' h. read_head s = Ok s' \<and> bio_quiet s' \<and> k_log s' = (k_log s)\<lparr>lg_lh := h\<rparr> \<and>
    disk_lh (view s (head_blk (k_log s))) h \<and> blk s' = blk s"
proof -
  define b where "b = head_blk (k_log s)"
  define d where "d = view s b"
  have dev: "lg_dev (k_log s) = 1" and len: "length (lh_block (lg_lh (k_log s))) = LOGSIZE"
    using assms(3) by (simp_all add: log_area_def)
  obtain i s1 where s1: "bread 1 b s = Ok (i, s1)" "keeps s {} s1" "holds s1 i b"
      "b_data (k_bufs s1 ! i) = d" "blk s1 = (blk s)\<lparr>bl_held := insert b (held s)\<rparr>"
    using bread_contract [of s b] assms head_blk_less by (fastforce simp: b_def d_def)
  have q1: "bio_quiet s1" and log1: "k_log s1 = k_log s"
    using keepsD(1) [OF s1(2)] keeps_log [OF s1(2)] by simp_all
  have n: "head_n d \<le> int LOGSIZE" using assms(6) by (simp add: d_def b_def)
  then have "\<forall>i \<in> set [0..<nat (head_n d)]. i < length (lh_block (lg_lh (k_log s)))" using len by auto
  then obtain bs where bs: "read_head_loop d [0..<nat (head_n d)] (lh_block (lg_lh (k_log s))) = Ok bs"
      "length bs = LOGSIZE"
      "\<forall>j < LOGSIZE. bs ! j = (if j \<in> set [0..<nat (head_n d)] then head_block d j
        else lh_block (lg_lh (k_log s)) ! j)"
    using read_head_loop_ok [of "[0..<nat (head_n d)]" "lh_block (lg_lh (k_log s))" d] len
    by (metis distinct_upt)
  let ?h = "\<lparr>lh_n = head_n d, lh_block = bs\<rparr>"
  let ?s2 = "set_lh ?h s1"
  have B1: "view s1 = view s" "k_disk s1 = k_disk s" using s1(5) by (simp_all add: blk_def)
  have "bio_quiet ?s2" "holds ?s2 i b" "view ?s2 b = k_disk ?s2 ! unat b"
    using q1 s1(3) assms(5) by (simp_all add: set_lh_def B1 b_def)
  then obtain s3 where s3: "brelse i ?s2 = Ok s3" "keeps ?s2 {b} s3" "blk s3 = (blk ?s2)\<lparr>bl_held := held ?s2 - {b}\<rparr>"
    using brelse_contract by blast
  have "blk s3 = blk s" using s3(3) s1(5) assms(2) by (simp add: set_lh_def blk_def)
  moreover have "k_log s3 = (k_log s)\<lparr>lg_lh := ?h\<rparr>" using keeps_log [OF s3(2)] log1 by simp
  moreover have "read_head s = Ok s3"
    using s1(1,4) s3(1) bs(1) dev log1 by (simp add: read_head_def b_def head_blk_def Let_def)
  moreover have "disk_lh d ?h" using bs n by (auto simp: disk_lh_def)
  ultimately show ?thesis using keepsD(1) [OF s3(2)] by (auto simp: d_def b_def)
qed

section \<open>commit\<close>

lemma view_clean:
  assumes "bio_quiet s" and "b \<notin> held s" and "b \<notin> pinned s"
  shows "view s b = k_disk s ! unat b"
proof (cases "buf_of s b")
  case None
  then show ?thesis by (rule view_no_buf)
next
  case (Some i)
  have "bc_ok s" using assms(1) by (rule bio_quietD)
  moreover from this have "has_buf s i b" using Some by (simp add: buf_of_Some)
  moreover from this have "i \<in> spare s" using assms(2,3) by (auto simp: held_def pinned_def spare_def has_buf_def)
  ultimately show ?thesis by (intro view_spare)
qed

lemma view_writes_nth:
  "distinct (map fst ws) \<Longrightarrow> (b, x) \<in> set ws \<Longrightarrow> view_writes ws v b = x"
proof (induction ws arbitrary: v)
  case (Cons w ws)
  obtain b' x' where w: "w = (b', x')" by (cases w)
  have step: "view_writes (w # ws) v = view_writes ws (v(b' := x'))" by (simp add: view_writes_def w)
  show ?case
  proof (cases "(b, x) \<in> set ws")
    case True
    then show ?thesis using Cons.IH Cons.prems step by simp
  next
    case False
    then have "b = b'" "x = x'" "b \<notin> fst ` set ws" using Cons.prems w by auto
    then show ?thesis using step by (simp add: view_writes_other)
  qed
qed simp

lemma apply_writes_nth:
  "distinct (map fst ws) \<Longrightarrow> (b, x) \<in> set ws \<Longrightarrow> unat b < length d \<Longrightarrow> apply_writes ws d ! unat b = x"
proof (induction ws arbitrary: d)
  case (Cons w ws)
  obtain b' x' where w: "w = (b', x')" by (cases w)
  show ?case
  proof (cases "(b, x) \<in> set ws")
    case True
    then show ?thesis using Cons.IH [of "d[unat b' := x']"] Cons.prems w by simp
  next
    case False
    then have eq: "b = b'" "x = x'" "b \<notin> fst ` set ws" using Cons.prems w by auto
    then have "unat b \<notin> unat ` fst ` set ws" by (force simp: word_unat_eq_iff [symmetric])
    then show ?thesis using Cons.prems eq w by (simp add: apply_writes_other)
  qed
qed simp

definition log_writes :: "log \<Rightarrow> (uint \<Rightarrow> uchar list) \<Rightarrow> writes" where
  "log_writes l v = map (\<lambda>t. (log_block l t, v (home l t))) [0..<log_n l]"

definition home_writes :: "log \<Rightarrow> (uint \<Rightarrow> uchar list) \<Rightarrow> writes" where
  "home_writes l v = map (\<lambda>t. (home l t, v (home l t))) [0..<log_n l]"

definition commit_head :: "log \<Rightarrow> (uint \<Rightarrow> uchar list) \<Rightarrow> uchar list" where
  "commit_head l v = head_bytes (lg_lh l) (v (head_blk l))"

definition clear_head :: "log \<Rightarrow> (uint \<Rightarrow> uchar list) \<Rightarrow> uchar list" where
  "clear_head l v = head_bytes ((lg_lh l)\<lparr>lh_n := 0\<rparr>) (commit_head l v)"

text \<open>The device writes of \<open>commit\<close>, in order: log blocks, header, home blocks, cleared header.\<close>

definition commit_writes :: "log \<Rightarrow> (uint \<Rightarrow> uchar list) \<Rightarrow> writes" where
  "commit_writes l v = log_writes l v @ [(head_blk l, commit_head l v)] @ home_writes l v @
     [(head_blk l, clear_head l v)]"

text \<open>A transaction ready to commit: the blocks it has written are exactly the pinned ones.\<close>

definition ready :: "'a lkernel_scheme \<Rightarrow> bool" where
  "ready s \<longleftrightarrow> bio_quiet s \<and> held s = {} \<and> log_geo (k_log s) (length (k_disk s)) \<and>
     0 < log_n (k_log s) \<and> pinned s = home (k_log s) ` {0..<log_n (k_log s)}"

lemma log_geo_bounds:
  assumes "log_geo l D"
  shows "log_area l D" "lh_n (lg_lh l) \<le> int LOGSIZE" "log_n l < NBUF" "0 \<le> lh_n (lg_lh l)"
  using assms by (auto simp: log_geo_def log_area_def log_n_def)

lemma head_neq:
  assumes "log_geo l D" and "t < log_n l"
  shows "head_blk l \<noteq> home l t" "head_blk l \<noteq> log_block l t"
proof -
  have "log_area l D" using assms(1) by (rule log_geo_bounds)
  then show "head_blk l \<noteq> home l t"
    using head_blk_in_log log_geoD(5) [OF assms] by metis
  show "head_blk l \<noteq> log_block l t"
    using log_geoD(1) [OF assms] head_blk_unat [OF \<open>log_area l D\<close>] by auto
qed

lemma fst_log_writes [simp]: "fst ` set (log_writes l v) = log_block l ` {0..<log_n l}"
  by (force simp: log_writes_def)

lemma fst_home_writes [simp]: "fst ` set (home_writes l v) = home l ` {0..<log_n l}"
  by (force simp: home_writes_def)

lemma distinct_log_writes: "log_geo l D \<Longrightarrow> distinct (map fst (log_writes l v))"
  by (auto simp: log_writes_def distinct_map inj_on_def comp_def dest: log_block_distinct)

lemma distinct_home_writes: "log_geo l D \<Longrightarrow> distinct (map fst (home_writes l v))"
  by (auto simp: home_writes_def distinct_map inj_on_def comp_def dest: home_distinct)

lemma write_log_ok:
  assumes "ready s"
  shows "\<exists>s1. write_log s = Ok s1 \<and> keeps s {} s1 \<and> blk s1 = (blk s)\<lparr>
    bl_view := view_writes (log_writes (k_log s) (view s)) (view s),
    bl_disk := apply_writes (log_writes (k_log s) (view s)) (k_disk s),
    bl_writes := k_dwrites s @ log_writes (k_log s) (view s)\<rparr>"
proof -
  let ?l = "k_log s" and ?ts = "[0..<log_n (k_log s)]"
  have geo: "log_geo ?l (length (k_disk s))" and q: "bio_quiet s" "held s = {}"
    and pin: "pinned s = home ?l ` {0..<log_n ?l}"
    using assms by (simp_all add: ready_def)
  have card: "card (pinned s) < NBUF"
    using log_geo_bounds(3) [OF geo] card_image_le [of "{0..<log_n ?l}" "home ?l"] by (simp add: pin)
  obtain s1 where s1: "write_log_loop ?ts s = Ok s1" "keeps s {} s1" "blk s1 = bcopies (log_pairs ?l ?ts) (blk s)"
    using write_log_loop_ok [OF q geo, of ?ts] card pin by auto
  have "\<forall>(a, b) \<in> set (log_pairs ?l ?ts). a \<notin> snd ` set (log_pairs ?l ?ts)"
    using home_neq [OF geo] by (auto simp: log_pairs_def)
  note eq = bcopies_eq [OF this, of "blk s"]
  have "copy_writes (log_pairs ?l ?ts) (view s) = log_writes ?l (view s)"
    by (simp add: copy_writes_def log_pairs_def log_writes_def)
  moreover have "pinned s - snd ` set (log_pairs ?l ?ts) = pinned s"
    using home_neq [OF geo] by (auto simp: pin log_pairs_def)
  ultimately have "blk s1 = (blk s)\<lparr>bl_view := view_writes (log_writes ?l (view s)) (view s),
      bl_disk := apply_writes (log_writes ?l (view s)) (k_disk s),
      bl_writes := k_dwrites s @ log_writes ?l (view s)\<rparr>"
    using s1(3) eq by (simp add: blk_def)
  then show ?thesis using s1(1,2) by (auto simp: write_log_def log_n_def)
qed

lemma blk_fields [simp]:
  "bl_view (blk s) = view s" "bl_disk (blk s) = k_disk s" "bl_held (blk s) = held s"
  "bl_pinned (blk s) = pinned s" "bl_writes (blk s) = k_dwrites s"
  by (simp_all add: blk_def)

lemma blk_eqD:
  assumes "blk s = B"
  shows "view s = bl_view B" "k_disk s = bl_disk B" "held s = bl_held B" "pinned s = bl_pinned B"
    "k_dwrites s = bl_writes B"
  using assms by auto

lemma commit_ok:
  assumes "ready s"
  shows "\<exists>s'. commit s = Ok s' \<and> bio_quiet s' \<and>
    k_log s' = (k_log s)\<lparr>lg_lh := (lg_lh (k_log s))\<lparr>lh_n := 0\<rparr>\<rparr> \<and>
    blk s' = (blk s)\<lparr>bl_view := view_writes (commit_writes (k_log s) (view s)) (view s),
      bl_disk := apply_writes (commit_writes (k_log s) (view s)) (k_disk s), bl_pinned := {},
      bl_writes := k_dwrites s @ commit_writes (k_log s) (view s)\<rparr>"
proof -
  define l where "l = k_log s"
  define v where "v = view s"
  define h where "h = head_blk l"
  define W1 where "W1 = log_writes l v"
  define W3 where "W3 = home_writes l v"
  have geo: "log_geo l (length (k_disk s))" and q: "bio_quiet s" "held s = {}" and n: "0 < log_n l"
    and pin: "pinned s = home l ` {0..<log_n l}"
    using assms by (simp_all add: ready_def l_def)
  note b = log_geo_bounds [OF geo]
  have card: "card (pinned s) < NBUF"
    using b(3) card_image_le [of "{0..<log_n l}" "home l"] by (simp add: pin)
  obtain s1 where s1: "write_log s = Ok s1" "keeps s {} s1"
      "blk s1 = (blk s)\<lparr>bl_view := view_writes W1 v, bl_disk := apply_writes W1 (k_disk s),
        bl_writes := k_dwrites s @ W1\<rparr>"
    using write_log_ok [OF assms] by (auto simp: W1_def l_def v_def)
  note B1 = blk_eqD [OF s1(3), simplified]
  have log1: "k_log s1 = l" using keeps_log [OF s1(2)] by (simp add: l_def)
  have "h \<notin> fst ` set W1" 
    unfolding W1_def h_def fst_log_writes using head_neq(2) [OF geo] by fastforce
  then have vh: "view s1 h = v h" by (simp add: B1 view_writes_other)
  have "log_area (k_log s1) (length (k_disk s1))" "held s1 = {}" "card (pinned s1) < NBUF"
      "lh_n (lg_lh (k_log s1)) \<le> int LOGSIZE"
    using b q card by (simp_all add: B1 log1)
  then obtain s2 where s2: "write_head s1 = Ok s2" "keeps s1 {} s2" "blk s2 = put_block h (commit_head l v) (blk s1)"
    using write_head_ok [of s1] keepsD(1) [OF s1(2)] vh by (auto simp: log1 h_def commit_head_def)
  have log2: "k_log s2 = l" using keeps_log [OF s2(2)] log1 by simp
  have h_home: "h \<notin> pinned s" unfolding pin h_def using head_neq(1) [OF geo] by fastforce
  have B2: "view s2 = (view_writes W1 v)(h := commit_head l v)"
      "k_disk s2 = (apply_writes W1 (k_disk s))[unat h := commit_head l v]" "held s2 = {}" "pinned s2 = pinned s"
      "k_dwrites s2 = k_dwrites s @ W1 @ [(h, commit_head l v)]"
    using blk_eqD [OF s2(3)] q h_home by (simp_all add: put_block_def B1)
  have mem: "(log_block l t, v (home l t)) \<in> set W1" if "t < log_n l" for t
    using that by (auto simp: W1_def log_writes_def)
  have lb: "view s2 (log_block l t) = v (home l t)" "k_disk s2 ! unat (log_block l t) = v (home l t)" if t: "t < log_n l" for t
  proof -
    have "log_block l t \<noteq> h" "unat h \<noteq> unat (log_block l t)"
      using head_neq(2) [OF geo t] by (auto simp: h_def simp flip: word_unat_eq_iff)
    then show "view s2 (log_block l t) = v (home l t)" "k_disk s2 ! unat (log_block l t) = v (home l t)"
      using view_writes_nth [OF distinct_log_writes [OF geo, of v, folded W1_def] mem [OF t]]
        apply_writes_nth [OF distinct_log_writes [OF geo, of v, folded W1_def] mem [OF t]] log_geoD(2) [OF geo t]
      by (simp_all add: B2)
  qed
  obtain s3 where s3: "install_trans_loop [0..<log_n l] s2 = Ok s3" "keeps s2 {} s3"
      "blk s3 = bcopies (install_pairs l [0..<log_n l]) (blk s2)"
    using install_loop [OF keepsD(1) [OF s2(2)], of "[0..<log_n l]"] B2 geo card lb pin by (auto simp: log2)
  have log3: "k_log s3 = l" using keeps_log [OF s3(2)] log2 by simp
  have inst: "install_trans s2 = Ok s3" using s3(1) by (simp add: install_trans_def log2 log_n_def)
  have "\<forall>(a, b) \<in> set (install_pairs l [0..<log_n l]). a \<notin> snd ` set (install_pairs l [0..<log_n l])"
    using home_neq [OF geo] by (force simp: install_pairs_def)
  note eq = bcopies_eq [OF this, of "blk s2"]
  have "copy_writes (install_pairs l [0..<log_n l]) (view s2) = W3"
    using lb by (simp add: copy_writes_def install_pairs_def W3_def home_writes_def)
  moreover have "pinned s2 - snd ` set (install_pairs l [0..<log_n l]) = {}"
    by (force simp: B2 pin install_pairs_def)
  ultimately have B3: "view s3 = view_writes W3 (view s2)" "k_disk s3 = apply_writes W3 (k_disk s2)"
      "held s3 = {}" "pinned s3 = {}" "k_dwrites s3 = k_dwrites s2 @ W3"
    using blk_eqD [OF s3(3)] eq B2 by simp_all
  have "h \<notin> fst ` set W3" 
    unfolding W3_def h_def fst_home_writes using head_neq(1) [OF geo] by fastforce
  then have vh3: "view s3 h = commit_head l v" by (simp add: B3 view_writes_other B2)
  let ?s3 = "set_n 0 s3"
  have l3: "k_log ?s3 = l\<lparr>lg_lh := (lg_lh l)\<lparr>lh_n := 0\<rparr>\<rparr>" by (simp add: set_n_def log3)
  have same3: "bio_quiet ?s3" "held ?s3 = {}" "pinned ?s3 = {}" "view ?s3 = view s3" "k_disk ?s3 = k_disk s3"
      "blk ?s3 = blk s3"
    using keepsD(1) [OF s3(2)] B3 by (simp_all add: set_n_def set_lh_def)
  have "log_area (k_log ?s3) (length (k_disk ?s3))"
    using b(1) B2 B3 by (simp add: l3 same3 log_area_def)
  moreover have "head_blk (k_log ?s3) = h" by (simp add: l3 h_def head_blk_def)
  ultimately obtain s4 where s4: "write_head ?s3 = Ok s4" "keeps ?s3 {} s4"
      "blk s4 = put_block h (clear_head l v) (blk s3)"
    using write_head_ok [OF same3(1,2)] same3 vh3 by (auto simp: l3 clear_head_def)
  have "commit s = Ok s4"
    using s1(1) s2(1) inst s4(1) n by (simp add: commit_def log_n_def l_def)
  moreover have "k_log s4 = l\<lparr>lg_lh := (lg_lh l)\<lparr>lh_n := 0\<rparr>\<rparr>" using keeps_log [OF s4(2)] l3 by simp
  moreover have W: "commit_writes l v = W1 @ [(h, commit_head l v)] @ W3 @ [(h, clear_head l v)]"
    by (simp add: commit_writes_def W1_def W3_def h_def)
  moreover have "blk s4 = (blk s)\<lparr>bl_view := view_writes (commit_writes l v) v,
      bl_disk := apply_writes (commit_writes l v) (k_disk s), bl_pinned := {},
      bl_writes := k_dwrites s @ commit_writes l v\<rparr>"
    using s4(3) B2 B3 q(2) by (simp add: blk_def put_block_def W view_writes_def)
  ultimately show ?thesis using keepsD(1) [OF s4(2)] unfolding l_def v_def by blast
qed

section \<open>Recovery\<close>

text \<open>The log that a header block describes, and the writes that recovering from it makes.\<close>

definition log_of :: "log \<Rightarrow> uchar list \<Rightarrow> log" where
  "log_of l d = l\<lparr>lg_lh := \<lparr>lh_n = head_n d, lh_block = map (head_block d) [0..<LOGSIZE]\<rparr>\<rparr>"

definition recover_writes :: "log \<Rightarrow> uchar list list \<Rightarrow> writes" where
  "recover_writes l d = (let hd = d ! unat (head_blk l) in
     map (\<lambda>t. (head_block hd t, d ! unat (log_block l t))) [0..<nat (head_n hd)])"

definition cold :: "'a lkernel_scheme \<Rightarrow> bool" where
  "cold s \<longleftrightarrow> bio_quiet s \<and> held s = {} \<and> pinned s = {}"

lemma cold_view: "cold s \<Longrightarrow> view s b = k_disk s ! unat b"
  by (simp add: cold_def view_clean)

lemma log_of_area [simp]: "log_area (log_of l d) D \<Longrightarrow> length (lh_block (lg_lh l)) = LOGSIZE \<Longrightarrow> log_area l D"
  by (simp add: log_area_def log_of_def)

lemma disk_lh_home:
  assumes "disk_lh d h" and "head_n d \<le> int LOGSIZE" and "t < nat (head_n d)"
  shows "home (l\<lparr>lg_lh := h\<rparr>) t = head_block d t" "home (log_of l d) t = head_block d t"
  using assms by (auto simp: disk_lh_def home_def log_of_def)

lemma log_geo_disk_lh:
  assumes "log_geo (log_of l d) D" and "disk_lh d h"
  shows "log_geo (l\<lparr>lg_lh := h\<rparr>) D"
proof -
  have n: "head_n d \<le> int LOGSIZE" "log_n (log_of l d) = nat (head_n d)" "log_n (l\<lparr>lg_lh := h\<rparr>) = nat (head_n d)"
    using log_geo_bounds(2) [OF assms(1)] assms(2) by (auto simp: log_of_def log_n_def disk_lh_def)
  have "map (home (l\<lparr>lg_lh := h\<rparr>)) [0..<nat (head_n d)] = map (home (log_of l d)) [0..<nat (head_n d)]"
    using disk_lh_home [OF assms(2) n(1)] by simp
  moreover have "distinct (map (home (log_of l d)) [0..<nat (head_n d)])"
    using assms(1) n(2) by (simp add: log_geo_def)
  ultimately have dist: "distinct (map (home (l\<lparr>lg_lh := h\<rparr>)) [0..<nat (head_n d)])" by metis
  have "in_log (l\<lparr>lg_lh := h\<rparr>) = in_log l" "in_log (log_of l d) = in_log l"
    by (auto simp: in_log_def log_of_def fun_eq_iff)
  then have "\<forall>t < nat (head_n d). unat (home (l\<lparr>lg_lh := h\<rparr>) t) < D \<and> \<not> in_log (l\<lparr>lg_lh := h\<rparr>) (home (l\<lparr>lg_lh := h\<rparr>) t)"
    using assms(1) disk_lh_home [OF assms(2) n(1)] n(2) by (simp add: log_geo_def)
  moreover have "log_area (l\<lparr>lg_lh := h\<rparr>) D" "0 \<le> head_n d" "head_n d < lg_size l"
    using assms by (auto simp: log_geo_def log_area_def log_of_def disk_lh_def)
  ultimately show ?thesis
    using dist n(3) assms(2) by (simp add: log_geo_def disk_lh_def)
qed

lemma recover_ok:
  assumes "cold r" and "log_geo (log_of (k_log r) (k_disk r ! unat (head_blk (k_log r)))) (length (k_disk r))"
    and "length (lh_block (lg_lh (k_log r))) = LOGSIZE"
  shows "\<exists>r' x. recover_from_log r = Ok r' \<and> head_n x = 0 \<and>
    k_disk r' = apply_writes (recover_writes (k_log r) (k_disk r) @ [(head_blk (k_log r), x)]) (k_disk r) \<and>
    lh_n (lg_lh (k_log r')) = 0 \<and> bio_quiet r'"
proof -
  define l where "l = k_log r"
  define b where "b = head_blk l"
  define d where "d = k_disk r ! unat b"
  have c: "bio_quiet r" "held r = {}" "pinned r = {}" using assms(1) by (simp_all add: cold_def)
  have geo: "log_geo (log_of l d) (length (k_disk r))" using assms(2) by (simp add: l_def b_def d_def)
  have area: "log_area l (length (k_disk r))"
    using log_geo_bounds(1) [OF geo] assms(3) by (simp add: l_def)
  have n: "head_n d \<le> int LOGSIZE" "0 \<le> head_n d" using log_geo_bounds(2,4) [OF geo] by (simp_all add: log_of_def)
  have vb: "view r b = d" using cold_view [OF assms(1)] by (simp add: d_def)
  obtain r1 h where r1: "read_head r = Ok r1" "bio_quiet r1" "k_log r1 = l\<lparr>lg_lh := h\<rparr>" "disk_lh d h" "blk r1 = blk r"
    using read_head_ok [OF c(1,2)] area n vb c by (auto simp: l_def b_def d_def)
  note B1 = blk_eqD [OF r1(5), simplified]
  define l1 where "l1 = l\<lparr>lg_lh := h\<rparr>"
  have geo1: "log_geo l1 (length (k_disk r))" unfolding l1_def using geo r1(4) by (rule log_geo_disk_lh)
  have ln: "log_n l1 = nat (head_n d)" using r1(4) by (simp add: l1_def log_n_def disk_lh_def)
  have lb: "log_block l1 t = log_block l t" for t by (simp add: l1_def log_block_def)
  have hb: "head_blk l1 = b" by (simp add: l1_def b_def head_blk_def)
  let ?ts = "[0..<log_n l1]"
  obtain r2 where r2: "install_trans_loop ?ts r1 = Ok r2" "keeps r1 {} r2" "blk r2 = bcopies (install_pairs l1 ?ts) (blk r1)"
    using install_loop [OF r1(2), of ?ts] geo1 c cold_view [OF assms(1)] r1(3) by (auto simp: B1 l1_def)
  have log2: "k_log r2 = l1" using keeps_log [OF r2(2)] r1(3) by (simp add: l1_def)
  have inst: "install_trans r1 = Ok r2" using r2(1) by (simp add: install_trans_def r1(3) log_n_def l1_def)
  have pairs: "\<forall>(a, b) \<in> set (install_pairs l1 ?ts). a \<notin> snd ` set (install_pairs l1 ?ts)"
    using home_neq [OF geo1] by (force simp: install_pairs_def)
  have W: "copy_writes (install_pairs l1 ?ts) (view r) = recover_writes l (k_disk r)"
    using disk_lh_home(1) [OF r1(4) n(1), of _ l, folded l1_def] cold_view [OF assms(1)]
    by (simp add: copy_writes_def install_pairs_def recover_writes_def Let_def ln lb flip: b_def d_def)
  have B2: "k_disk r2 = apply_writes (recover_writes l (k_disk r)) (k_disk r)" "held r2 = {}" "pinned r2 = {}"
    using blk_eqD [OF r2(3)] bcopies_eq [OF pairs, of "blk r1"] c W by (simp_all add: B1)
  let ?r2 = "set_n 0 r2"
  have l2: "k_log ?r2 = l1\<lparr>lg_lh := (lg_lh l1)\<lparr>lh_n := 0\<rparr>\<rparr>" by (simp add: set_n_def log2)
  have same2: "bio_quiet ?r2" "held ?r2 = {}" "pinned ?r2 = {}" "k_disk ?r2 = k_disk r2" "blk ?r2 = blk r2" "view ?r2 = view r2"
    using keepsD(1) [OF r2(2)] B2 by (simp_all add: set_n_def set_lh_def)
  have area2: "log_area (k_log ?r2) (length (k_disk ?r2))"
    using log_geo_bounds(1) [OF geo1] B2 by (simp add: l2 same2 log_area_def)
  have hb2: "head_blk (k_log ?r2) = b" using hb by (simp add: l2 head_blk_def)
  let ?x = "head_bytes ((lg_lh l1)\<lparr>lh_n := 0\<rparr>) (view r2 b)"
  obtain r3 where r3: "write_head ?r2 = Ok r3" "keeps ?r2 {} r3" "blk r3 = put_block b ?x (blk r2)"
    using write_head_ok [OF same2(1,2) area2] same2 hb2 by (auto simp: l2)
  have "unat b < length (k_disk r2)" using head_blk_less [OF area] B2 by (simp add: b_def)
  moreover have "\<forall>y \<in> set (k_disk r2). length y = BSIZE"
    using bio_quietD(4) [OF keepsD(1) [OF r2(2)]] by (simp add: bc_ok_def)
  moreover have "view r2 b = k_disk r2 ! unat b"
    using view_clean [OF keepsD(1) [OF r2(2)]] B2 by simp
  ultimately have "head_n ?x = 0" by (subst head_bytes_n) simp_all
  moreover have "recover_from_log r = Ok r3" using r1(1) inst r3(1) by (simp add: recover_from_log_def)
  moreover have "lh_n (lg_lh (k_log r3)) = 0" using keeps_log [OF r3(2)] l2 by simp
  moreover have "k_disk r3 = (k_disk r2)[unat b := ?x]" using blk_eqD(2) [OF r3(3)] by (simp add: put_block_def)
  ultimately show ?thesis
    using keepsD(1) [OF r3(2)] B2 by (intro exI [of _ r3] exI [of _ ?x]) (simp add: l_def b_def)
qed

section \<open>Crashes\<close>

text \<open>
  A machine that starts again after the device performed the first \<open>k\<close> of the writes \<open>W\<close>: the cache
  is cold, the log's place on the disk is known (\<open>initlog\<close> reads it from the super block).
\<close>

definition crashed :: "'a lkernel_scheme \<Rightarrow> writes \<Rightarrow> nat \<Rightarrow> 'a lkernel_scheme \<Rightarrow> bool" where
  "crashed s W k r \<longleftrightarrow> cold r \<and> k_disk r = apply_writes (take k W) (k_disk s) \<and>
     lg_start (k_log r) = lg_start (k_log s) \<and> lg_size (k_log r) = lg_size (k_log s) \<and>
     lg_dev (k_log r) = lg_dev (k_log s) \<and> length (lh_block (lg_lh (k_log r))) = LOGSIZE"

lemma apply_writes_outside:
  assumes "\<not> in_log l b" and "\<forall>w \<in> set ws. in_log l (fst w)"
  shows "apply_writes ws d ! unat b = d ! unat b"
proof (rule apply_writes_other)
  have "b \<notin> fst ` set ws" using assms by auto
  then show "unat b \<notin> unat ` fst ` set ws" by (force simp: word_unat_eq_iff [symmetric])
qed

lemma log_writes_in_log: "log_geo l D \<Longrightarrow> \<forall>w \<in> set (log_writes l v). in_log l (fst w)"
  using log_geoD(3) by (auto simp: log_writes_def)

lemma same_place:
  assumes "crashed s W k r"
  shows "head_blk (k_log r) = head_blk (k_log s)" "log_block (k_log r) t = log_block (k_log s) t"
    "in_log (k_log r) b = in_log (k_log s) b" "log_area (k_log s) D \<Longrightarrow> log_area (k_log r) D"
  using assms by (simp_all add: crashed_def head_blk_def log_block_def in_log_def log_area_def)

lemma log_geo_none:
  assumes "log_area l D" and "head_n d = 0"
  shows "log_geo (log_of l d) D"
  using assms by (simp add: log_geo_def log_area_def log_of_def log_n_def)

text \<open>Recovery when the header on disk is empty: only the header is written.\<close>

lemma recover_empty:
  assumes "crashed s W k r" and "log_geo (k_log s) (length (k_disk s))"
    and "head_n (k_disk r ! unat (head_blk (k_log s))) = 0"
  shows "\<exists>r'. recover_from_log r = Ok r' \<and> lh_n (lg_lh (k_log r')) = 0 \<and>
    (\<forall>b. \<not> in_log (k_log s) b \<longrightarrow> k_disk r' ! unat b = k_disk r ! unat b)"
proof -
  note p = same_place [OF assms(1)]
  have r: "cold r" "length (k_disk r) = length (k_disk s)" "length (lh_block (lg_lh (k_log r))) = LOGSIZE"
    using assms(1) by (simp_all add: crashed_def)
  have area: "log_area (k_log s) (length (k_disk s))" using assms(2) by (rule log_geo_bounds)
  have "log_geo (log_of (k_log r) (k_disk r ! unat (head_blk (k_log r)))) (length (k_disk r))"
    using log_geo_none [OF p(4) [OF area]] assms(3) by (simp add: p r)
  then obtain r' x where r': "recover_from_log r = Ok r'" "lh_n (lg_lh (k_log r')) = 0"
      "k_disk r' = apply_writes (recover_writes (k_log r) (k_disk r) @ [(head_blk (k_log r), x)]) (k_disk r)"
    using recover_ok [OF r(1) _ r(3)] by blast
  have "recover_writes (k_log r) (k_disk r) = []" using assms(3) by (simp add: recover_writes_def p)
  then have "k_disk r' = apply_writes [(head_blk (k_log s), x)] (k_disk r)" using r'(3) by (simp add: p)
  then have "k_disk r' ! unat b = k_disk r ! unat b" if "\<not> in_log (k_log s) b" for b
    using apply_writes_outside [OF that, of "[(head_blk (k_log s), x)]"] head_blk_in_log [OF area] by simp
  then show ?thesis using r' by blast
qed

text \<open>Recovery when the header on disk is the committed one and the log blocks are intact.\<close>

lemma recover_committed:
  assumes "crashed s W k r" and "log_geo (k_log s) (length (k_disk s))"
    and "k_disk r ! unat (head_blk (k_log s)) = commit_head (k_log s) v" and "length (v (head_blk (k_log s))) = BSIZE"
    and "\<And>t. t < log_n (k_log s) \<Longrightarrow> k_disk r ! unat (log_block (k_log s) t) = v (home (k_log s) t)"
  shows "\<exists>r'. recover_from_log r = Ok r' \<and> lh_n (lg_lh (k_log r')) = 0 \<and>
    (\<forall>b. \<not> in_log (k_log s) b \<longrightarrow> k_disk r' ! unat b =
       apply_writes (home_writes (k_log s) v) (k_disk r) ! unat b)"
proof -
  let ?l = "k_log s" and ?d = "commit_head (k_log s) v"
  note p = same_place [OF assms(1)] and b = log_geo_bounds [OF assms(2)]
  have r: "cold r" "length (k_disk r) = length (k_disk s)" "length (lh_block (lg_lh (k_log r))) = LOGSIZE"
    using assms(1) by (simp_all add: crashed_def)
  have n: "head_n ?d = lh_n (lg_lh ?l)" using head_bytes_n [OF assms(4) b(4,2)] by (simp add: commit_head_def)
  have blk: "head_block ?d t = home ?l t" if "t < log_n ?l" for t
    using head_bytes_block [OF assms(4) b(2)] that by (simp add: commit_head_def home_def log_n_def)
  have "disk_lh ?d (lg_lh ?l)"
    using n blk b(1) by (simp add: disk_lh_def log_area_def home_def log_n_def)
  then have hm: "home (log_of (k_log r) ?d) t = home ?l t" if "t < log_n ?l" for t
    using disk_lh_home(2) [of ?d "lg_lh ?l" t] that n b(2) blk by (simp add: log_n_def)
  have "map (home (log_of (k_log r) ?d)) [0..<log_n ?l] = map (home ?l) [0..<log_n ?l]" using hm by simp
  then have dist: "distinct (map (home (log_of (k_log r) ?d)) [0..<log_n ?l])"
    using assms(2) by (simp only: log_geo_def)
  have "in_log (log_of (k_log r) ?d) x = in_log ?l x" for x
    using p(3) by (simp add: in_log_def log_of_def)
  moreover have "log_n (log_of (k_log r) ?d) = log_n ?l" using n by (simp add: log_n_def log_of_def)
  moreover have "log_area (log_of (k_log r) ?d) (length (k_disk s))"
    using p(4) [OF b(1)] by (simp add: log_area_def log_of_def)
  moreover have "lh_n (lg_lh (log_of (k_log r) ?d)) = lh_n (lg_lh ?l)" "lg_size (log_of (k_log r) ?d) = lg_size ?l"
    using n assms(1) by (simp_all add: log_of_def crashed_def)
  ultimately have "log_geo (log_of (k_log r) ?d) (length (k_disk s))"
    using assms(2) hm dist by (simp add: log_geo_def)
  then obtain r' x where r': "recover_from_log r = Ok r'" "lh_n (lg_lh (k_log r')) = 0"
      "k_disk r' = apply_writes (recover_writes (k_log r) (k_disk r) @ [(head_blk (k_log r), x)]) (k_disk r)"
    using recover_ok [OF r(1) _ r(3)] assms(3) by (auto simp: p r)
  have "recover_writes (k_log r) (k_disk r) = home_writes ?l v"
    using assms(3,5) blk n by (simp add: recover_writes_def home_writes_def p log_n_def)
  then have "k_disk r' = apply_writes [(head_blk ?l, x)] (apply_writes (home_writes ?l v) (k_disk r))"
    using r'(3) by (simp add: p)
  then have "k_disk r' ! unat c = apply_writes (home_writes ?l v) (k_disk r) ! unat c" if "\<not> in_log ?l c" for c
    using apply_writes_outside [OF that, of "[(head_blk ?l, x)]"] head_blk_in_log [OF b(1)] by simp
  then show ?thesis using r' by blast
qed

lemma home_writes_nth:
  assumes "log_geo l (length d)"
  shows "apply_writes (home_writes l v) d ! unat b = (if b \<in> home l ` {0..<log_n l} then v b else d ! unat b)"
proof (cases "b \<in> home l ` {0..<log_n l}")
  case True
  then obtain t where t: "t < log_n l" "b = home l t" by auto
  then have "(b, v b) \<in> set (home_writes l v)" by (auto simp: home_writes_def)
  then show ?thesis
    using True apply_writes_nth [OF distinct_home_writes [OF assms]] log_geoD(4) [OF assms t(1)] t(2) by simp
next
  case False
  then have "unat b \<notin> unat ` fst ` set (home_writes l v)"
    unfolding fst_home_writes by (force simp: word_unat_eq_iff [symmetric])
  then show ?thesis using False by (simp add: apply_writes_other)
qed

lemma ready_view:
  assumes "ready s"
  shows "view s b = (if b \<in> home (k_log s) ` {0..<log_n (k_log s)} then view s b else k_disk s ! unat b)"
  using assms view_clean [of s b] by (simp add: ready_def)

text \<open>The disk after the commit point: header, log blocks and the rest.\<close>

lemma after_commit_point:
  assumes "ready s" and "us = take j (home_writes (k_log s) (view s))"
  defines "d \<equiv> apply_writes (log_writes (k_log s) (view s) @
    [(head_blk (k_log s), commit_head (k_log s) (view s))] @ us) (k_disk s)"
  shows "d ! unat (head_blk (k_log s)) = commit_head (k_log s) (view s)"
    and "t < log_n (k_log s) \<Longrightarrow> d ! unat (log_block (k_log s) t) = view s (home (k_log s) t)"
    and "\<not> in_log (k_log s) b \<Longrightarrow> apply_writes (home_writes (k_log s) (view s)) d ! unat b = view s b"
proof -
  let ?l = "k_log s" and ?v = "view s" and ?h = "head_blk (k_log s)"
  have geo: "log_geo ?l (length (k_disk s))" using assms(1) by (simp add: ready_def)
  have area: "log_area ?l (length (k_disk s))" using geo by (rule log_geo_bounds)
  have us: "\<forall>w \<in> set us. \<not> in_log ?l (fst w)"
    using log_geoD(5) [OF geo] by (auto simp: assms(2) home_writes_def dest!: in_set_takeD)
  define d1 where "d1 = apply_writes (log_writes ?l ?v) (k_disk s)"
  have d: "d = apply_writes us (d1[unat ?h := commit_head ?l ?v])" by (simp add: d_def d1_def)
  have untouched: "d ! unat c = d1[unat ?h := commit_head ?l ?v] ! unat c" if "in_log ?l c" for c
  proof -
    have "c \<notin> fst ` set us" using us that by auto
    then show ?thesis unfolding d by (intro apply_writes_other) (force simp: word_unat_eq_iff [symmetric])
  qed
  show "d ! unat ?h = commit_head ?l ?v"
    using untouched [OF head_blk_in_log [OF area]] head_blk_less [OF area] by (simp add: d1_def)
  show "d ! unat (log_block ?l t) = ?v (home ?l t)" if t: "t < log_n ?l"
  proof -
    have "(log_block ?l t, ?v (home ?l t)) \<in> set (log_writes ?l ?v)" using t by (auto simp: log_writes_def)
    then have "d1 ! unat (log_block ?l t) = ?v (home ?l t)"
      unfolding d1_def using distinct_log_writes [OF geo] log_geoD(2) [OF geo t] by (intro apply_writes_nth)
    moreover have "unat ?h \<noteq> unat (log_block ?l t)" using head_neq(2) [OF geo t] by (simp flip: word_unat_eq_iff)
    ultimately show ?thesis using untouched [OF log_geoD(3) [OF geo t]] by simp
  qed
  show "apply_writes (home_writes ?l ?v) d ! unat b = ?v b" if b: "\<not> in_log ?l b"
  proof (cases "b \<in> home ?l ` {0..<log_n ?l}")
    case True
    then show ?thesis using home_writes_nth [of ?l d ?v b] geo by (simp add: d_def)
  next
    case False
    have "d ! unat b = k_disk s ! unat b"
    proof -
      have "fst ` set us \<subseteq> home ?l ` {0..<log_n ?l}"
        using fst_home_writes [of ?l ?v] set_take_subset [of j "home_writes ?l ?v"] unfolding assms(2) by blast
      then have "b \<notin> fst ` set (log_writes ?l ?v @ [(?h, commit_head ?l ?v)] @ us)"
        using False b log_geoD(3) [OF geo] head_blk_in_log [OF area]
        by (auto simp: log_writes_def)
      then show ?thesis unfolding d_def by (intro apply_writes_other) (force simp: word_unat_eq_iff [symmetric])
    qed
    then show ?thesis
      using home_writes_nth [of ?l d ?v b] geo False ready_view [OF assms(1), of b] by (simp add: d_def)
  qed
qed

lemma length_commit_parts [simp]:
  "length (log_writes l v) = log_n l" "length (home_writes l v) = log_n l"
  by (simp_all add: log_writes_def home_writes_def)

text \<open>The three stretches of a commit a crash can fall in.\<close>

lemma take_before:
  "k \<le> log_n l \<Longrightarrow> take k (commit_writes l v) = take k (log_writes l v)"
  by (simp add: commit_writes_def)

lemma take_between:
  "log_n l < k \<Longrightarrow> k \<le> 2 * log_n l + 1 \<Longrightarrow> take k (commit_writes l v) =
     log_writes l v @ [(head_blk l, commit_head l v)] @ take (k - log_n l - 1) (home_writes l v)"
  by (simp add: commit_writes_def take_Cons')

lemma take_after:
  "2 * log_n l + 1 < k \<Longrightarrow> take k (commit_writes l v) =
     (log_writes l v @ [(head_blk l, commit_head l v)] @ home_writes l v) @ [(head_blk l, clear_head l v)]"
  by (simp add: commit_writes_def take_Cons')

lemma head_notin:
  assumes "log_geo l D"
  shows "head_blk l \<notin> home l ` {0..<log_n l}" "head_blk l \<notin> log_block l ` {0..<log_n l}"
proof -
  show "head_blk l \<notin> home l ` {0..<log_n l}"
  proof
    assume "head_blk l \<in> home l ` {0..<log_n l}"
    then obtain t where "t < log_n l" "head_blk l = home l t" by auto
    then show False using head_neq(1) [OF assms] by blast
  qed
  show "head_blk l \<notin> log_block l ` {0..<log_n l}"
  proof
    assume "head_blk l \<in> log_block l ` {0..<log_n l}"
    then obtain t where "t < log_n l" "head_blk l = log_block l t" by auto
    then show False using head_neq(2) [OF assms] by blast
  qed
qed

lemma head_view_length:
  assumes "ready s"
  shows "length (view s (head_blk (k_log s))) = BSIZE"
proof -
  have geo: "log_geo (k_log s) (length (k_disk s))" and q: "bio_quiet s" "held s = {}"
    and pin: "pinned s = home (k_log s) ` {0..<log_n (k_log s)}"
    using assms by (simp_all add: ready_def)
  have "head_blk (k_log s) \<notin> pinned s" unfolding pin using geo by (rule head_notin)
  then have "view s (head_blk (k_log s)) = k_disk s ! unat (head_blk (k_log s))" using q view_clean by auto
  then show ?thesis
    using bio_quietD(4) [OF q(1)] head_blk_less [OF log_geo_bounds(1) [OF geo]] by (simp add: bc_ok_def)
qed

lemma crash_before:
  assumes "ready s" and "head_n (k_disk s ! unat (head_blk (k_log s))) = 0"
    and "crashed s (commit_writes (k_log s) (view s)) k r" and "k \<le> log_n (k_log s)"
  shows "\<exists>r'. recover_from_log r = Ok r' \<and> lh_n (lg_lh (k_log r')) = 0 \<and>
    (\<forall>b. \<not> in_log (k_log s) b \<longrightarrow> k_disk r' ! unat b = k_disk s ! unat b)"
proof -
  let ?l = "k_log s"
  have geo: "log_geo ?l (length (k_disk s))" using assms(1) by (simp add: ready_def)
  have r: "k_disk r = apply_writes (take k (log_writes ?l (view s))) (k_disk s)"
    using assms(3) by (simp add: crashed_def take_before [OF assms(4)])
  have "head_blk ?l \<notin> fst ` set (take k (log_writes ?l (view s)))"
    using head_notin(2) [OF geo] image_mono [OF set_take_subset [of k "log_writes ?l (view s)"], of fst]
    unfolding fst_log_writes by blast
  then have "k_disk r ! unat (head_blk ?l) = k_disk s ! unat (head_blk ?l)"
    unfolding r by (intro apply_writes_other) (force simp: word_unat_eq_iff [symmetric])
  moreover have "\<forall>w \<in> set (take k (log_writes ?l (view s))). in_log ?l (fst w)"
    using log_writes_in_log [OF geo] by (blast dest: in_set_takeD)
  then have "\<not> in_log ?l b \<Longrightarrow> k_disk r ! unat b = k_disk s ! unat b" for b
    unfolding r by (rule apply_writes_outside [rotated])
  ultimately show ?thesis using recover_empty [OF assms(3) geo] assms(2) by fastforce
qed

lemma crash_between:
  assumes "ready s" and "crashed s (commit_writes (k_log s) (view s)) k r"
    and "log_n (k_log s) < k" and "k \<le> 2 * log_n (k_log s) + 1"
  shows "\<exists>r'. recover_from_log r = Ok r' \<and> lh_n (lg_lh (k_log r')) = 0 \<and>
    (\<forall>b. \<not> in_log (k_log s) b \<longrightarrow> k_disk r' ! unat b = view s b)"
proof -
  let ?l = "k_log s"
  have geo: "log_geo ?l (length (k_disk s))" using assms(1) by (simp add: ready_def)
  have r: "k_disk r = apply_writes (log_writes ?l (view s) @ [(head_blk ?l, commit_head ?l (view s))] @
      take (k - log_n ?l - 1) (home_writes ?l (view s))) (k_disk s)"
    using assms(2) by (simp add: crashed_def take_between [OF assms(3,4)])
  note point = after_commit_point [where j = "k - log_n ?l - 1", OF assms(1) refl, folded r]
  show ?thesis
    using recover_committed [OF assms(2) geo point(1) head_view_length [OF assms(1)] point(2)] point(3) by fastforce
qed

lemma crash_after:
  assumes "ready s" and "crashed s (commit_writes (k_log s) (view s)) k r"
    and "2 * log_n (k_log s) + 1 < k"
  shows "\<exists>r'. recover_from_log r = Ok r' \<and> lh_n (lg_lh (k_log r')) = 0 \<and>
    (\<forall>b. \<not> in_log (k_log s) b \<longrightarrow> k_disk r' ! unat b = view s b)"
proof -
  let ?l = "k_log s" and ?v = "view s"
  let ?d = "apply_writes (log_writes ?l ?v @ [(head_blk ?l, commit_head ?l ?v)] @ take 0 (home_writes ?l ?v)) (k_disk s)"
  have geo: "log_geo ?l (length (k_disk s))" using assms(1) by (simp add: ready_def)
  note area = log_geo_bounds(1) [OF geo]
  have r: "k_disk r = (apply_writes (home_writes ?l ?v) ?d)[unat (head_blk ?l) := clear_head ?l ?v]"
    using assms(2) by (simp add: crashed_def take_after [OF assms(3)])
  have "head_n (clear_head ?l ?v) = 0"
    unfolding clear_head_def using head_view_length [OF assms(1)]
      log_geo_bounds(2) [OF geo]
    by (subst head_bytes_n) (simp_all add: commit_head_def length_head_bytes)
  then have "head_n (k_disk r ! unat (head_blk ?l)) = 0" using head_blk_less [OF area] by (simp add: r)
  moreover have "k_disk r ! unat b = ?v b" if "\<not> in_log ?l b" for b
  proof -
    have "unat (head_blk ?l) \<noteq> unat b" using head_blk_in_log [OF area] that by (auto simp flip: word_unat_eq_iff)
    then show ?thesis using after_commit_point(3) [OF assms(1) refl that, of 0] unfolding r by simp
  qed
  ultimately show ?thesis using recover_empty [OF assms(2) geo] by fastforce
qed

text \<open>C1: A transaction commits atomically across a crash at any point.  Starting from a state in
  which the transaction's blocks are the pinned ones and the header on disk is empty, \<open>commit\<close>
  succeeds with a sequence \<open>W\<close> of device writes; whatever number \<open>k\<close> of them has reached the disk when the machine stops, the
  recovery run by \<open>initlog\<close> on the next boot succeeds, leaves the log empty, and leaves every block
  outside the log with its contents before the transaction if the crash came before the header write, and
  with the contents the transaction gave it otherwise.\<close>

theorem commit_crash_atomic:
  assumes "ready s" and "head_n (k_disk s ! unat (head_blk (k_log s))) = 0"
  shows "\<exists>s' W. commit s = Ok s' \<and> k_dwrites s' = k_dwrites s @ W \<and>
    (\<forall>k r b. crashed s W k r \<and> \<not> in_log (k_log s) b \<longrightarrow>
       (\<exists>r'. recover_from_log r = Ok r' \<and> lh_n (lg_lh (k_log r')) = 0 \<and>
          k_disk r' ! unat b = (if k \<le> log_n (k_log s) then k_disk s ! unat b else view s b)))"
proof -
  let ?W = "commit_writes (k_log s) (view s)"
  obtain s' where s': "commit s = Ok s'" "bl_writes (blk s') = k_dwrites s @ ?W"
    using commit_ok [OF assms(1)] by fastforce
  have "\<exists>r'. recover_from_log r = Ok r' \<and> lh_n (lg_lh (k_log r')) = 0 \<and>
      k_disk r' ! unat b = (if k \<le> log_n (k_log s) then k_disk s ! unat b else view s b)"
    if r: "crashed s ?W k r" and b: "\<not> in_log (k_log s) b" for k r b
  proof (cases "k \<le> log_n (k_log s)")
    case True
    then show ?thesis using crash_before [OF assms r True] b by auto
  next
    case False
    then show ?thesis
      using crash_between [OF assms(1) r] crash_after [OF assms(1) r] b
      by (cases "k \<le> 2 * log_n (k_log s) + 1") auto
  qed
  then show ?thesis using s' by (intro exI [of _ s'] exI [of _ ?W]) (simp add: blk_def)
qed

section \<open>Transactions\<close>

lemma acquire_log_ok:
  "lg_lock (k_log s) = initlock \<Longrightarrow> acquire_log s =
     Ok (upd_log (\<lambda>l. l\<lparr>lg_lock := locked_by (k_cpu s)\<rparr>) (s\<lparr>k_cpu := pushcli (k_cpu s)\<rparr>))"
  by (simp add: acquire_log_def lock_simps)

lemma release_log_ok:
  "k_cpu s = pushcli c \<Longrightarrow> lg_lock (k_log s) = locked_by c \<Longrightarrow> cpu_settled c \<Longrightarrow>
     release_log s = Ok (upd_log (\<lambda>l. l\<lparr>lg_lock := initlock\<rparr>) (s\<lparr>k_cpu := c\<rparr>))"
  by (simp add: release_log_def lock_simps)

text \<open>A change \<open>f\<close> of the log made under its lock.\<close>

lemma locked_upd:
  assumes "lg_lock (k_log s) = initlock"
    and "\<And>x. f ((k_log s)\<lparr>lg_lock := x\<rparr>) = (f (k_log s))\<lparr>lg_lock := x\<rparr>" and "lg_lock (f (k_log s)) = initlock"
  shows "upd_log (\<lambda>l. l\<lparr>lg_lock := initlock\<rparr>) ((upd_log f (upd_log (\<lambda>l. l\<lparr>lg_lock := x\<rparr>)
      (s\<lparr>k_cpu := c'\<rparr>)))\<lparr>k_cpu := k_cpu s\<rparr>) = upd_log f s"
proof -
  have "(f (k_log s))\<lparr>lg_lock := initlock\<rparr> = f (k_log s)" using assms(3) by (cases "f (k_log s)") simp
  then show ?thesis by (simp add: upd_log_def assms(2))
qed

lemma begin_op_ok:
  assumes "cpu_settled (k_cpu s)" and "lg_lock (k_log s) = initlock" and "\<not> lg_committing (k_log s)"
    and "lh_n (lg_lh (k_log s)) + (lg_outstanding (k_log s) + 1) * int MAXOPBLOCKS \<le> int LOGSIZE"
  shows "begin_op s = Ok (upd_log (\<lambda>l. l\<lparr>lg_outstanding := lg_outstanding l + 1\<rparr>) s)"
  using assms locked_upd [of s "\<lambda>l. l\<lparr>lg_outstanding := lg_outstanding l + 1\<rparr>"]
  by (simp add: begin_op_def acquire_log_ok release_log_ok [where c = "k_cpu s"])

lemma absorb_loop_spec:
  "absorb_loop bs b i n \<le> i + n \<and> i \<le> absorb_loop bs b i n \<and>
   (absorb_loop bs b i n < i + n \<longrightarrow> bs ! absorb_loop bs b i n = b) \<and>
   (\<forall>j < absorb_loop bs b i n. i \<le> j \<longrightarrow> bs ! j \<noteq> b)"
proof (induction n arbitrary: i)
  case (Suc n)
  from Suc.IH [of "Suc i"] show ?case by (auto simp: Suc_le_eq order_le_less)
qed auto

text \<open>The header after \<open>log_write\<close>.\<close>

definition add_block :: "uint \<Rightarrow> logheader \<Rightarrow> logheader" where
  "add_block b h = (let i = absorb_loop (lh_block h) b 0 (nat (lh_n h));
       h = h\<lparr>lh_block := (lh_block h)[i := b]\<rparr>
     in if int i = lh_n h then h\<lparr>lh_n := lh_n h + 1\<rparr> else h)"

text \<open>The header keeps its blocks distinct: a block already there is absorbed, a new one is appended.\<close>

lemma add_block_cases:
  assumes "0 \<le> lh_n h" and "lh_n h < int (length (lh_block h))"
  shows "b \<in> (!) (lh_block h) ` {0..<nat (lh_n h)} \<Longrightarrow> add_block b h = h"
    and "b \<notin> (!) (lh_block h) ` {0..<nat (lh_n h)} \<Longrightarrow>
      add_block b h = h\<lparr>lh_block := (lh_block h)[nat (lh_n h) := b], lh_n := lh_n h + 1\<rparr>"
proof -
  let ?i = "absorb_loop (lh_block h) b 0 (nat (lh_n h))"
  note a = absorb_loop_spec [of "lh_block h" b 0 "nat (lh_n h)"]
  show "add_block b h = h" if "b \<in> (!) (lh_block h) ` {0..<nat (lh_n h)}"
  proof -
    from that obtain t where t: "t < nat (lh_n h)" "b = lh_block h ! t" by auto
    have "\<not> t < ?i" using a t(2) by blast
    then have "?i < nat (lh_n h)" using t(1) by simp
    moreover from this have "lh_block h ! ?i = b" using a by simp
    moreover have "(lh_block h)[?i := lh_block h ! ?i] = lh_block h" by (rule list_update_id)
    ultimately show ?thesis using assms by (simp add: add_block_def Let_def)
  qed
  show "add_block b h = h\<lparr>lh_block := (lh_block h)[nat (lh_n h) := b], lh_n := lh_n h + 1\<rparr>"
    if "b \<notin> (!) (lh_block h) ` {0..<nat (lh_n h)}"
  proof -
    have "\<not> ?i < nat (lh_n h)"
    proof
      assume "?i < nat (lh_n h)"
      then have "lh_block h ! ?i = b" "?i \<in> {0..<nat (lh_n h)}" using a by simp_all
      then show False using that imageI [of ?i "{0..<nat (lh_n h)}" "(!) (lh_block h)"] by simp
    qed
    then have "?i = nat (lh_n h)" using a by simp
    then show ?thesis using assms by (simp add: add_block_def Let_def)
  qed
qed

lemma add_block_geo:
  assumes "log_geo l D" and "lh_n (lg_lh l) < lg_size l - 1" and "unat b < D" and "\<not> in_log l b"
  defines "l' \<equiv> l\<lparr>lg_lh := add_block b (lg_lh l)\<rparr>"
  shows "log_geo l' D" and "home l' ` {0..<log_n l'} = insert b (home l ` {0..<log_n l})"
proof -
  let ?h = "lg_lh l"
  note g = assms(1) [unfolded log_geo_def log_area_def]
  have n: "0 \<le> lh_n ?h" "lh_n ?h < int (length (lh_block ?h))" using g assms(2) by auto
  have home: "home l = (!) (lh_block ?h)" by (rule ext) (simp add: home_def)
  have "log_geo l' D \<and> home l' ` {0..<log_n l'} = insert b (home l ` {0..<log_n l})"
  proof (cases "b \<in> home l ` {0..<log_n l}")
    case True
    then have "l' = l" using add_block_cases(1) [OF n] unfolding l'_def home log_n_def by simp
    then show ?thesis using assms(1) True by auto
  next
    case False
    then have l': "l' = l\<lparr>lg_lh := ?h\<lparr>lh_block := (lh_block ?h)[log_n l := b], lh_n := lh_n ?h + 1\<rparr>\<rparr>"
      using add_block_cases(2) [OF n] unfolding l'_def home log_n_def by simp
    have n': "log_n l' = Suc (log_n l)" using n by (simp add: l' log_n_def nat_add_distrib)
    have lt: "log_n l < length (lh_block ?h)" using n by (simp add: log_n_def)
    have old: "home l' t = home l t" if "t < log_n l" for t using that by (simp add: l' home_def)
    have new: "home l' (log_n l) = b" using lt by (simp add: l' home_def)
    have "map (home l') [0..<log_n l'] = map (home l) [0..<log_n l] @ [b]" using old new by (simp add: n')
    then have "distinct (map (home l') [0..<log_n l'])" using False g by simp
    moreover have "in_log l' = in_log l" by (rule ext) (simp add: in_log_def l')
    moreover have "home l' ` {0..<log_n l'} = insert b (home l ` {0..<log_n l})"
      using old new by (simp add: n' atLeast0_lessThan_Suc)
    moreover have "\<forall>t < log_n l'. unat (home l' t) < D \<and> \<not> in_log l (home l' t)"
      using g assms(3,4) old new by (simp add: n' less_Suc_eq)
    moreover have "log_area l' D" "0 \<le> lh_n (lg_lh l')" "lh_n (lg_lh l') < lg_size l'"
      using g n assms(2) by (simp_all add: log_area_def l')
    ultimately show ?thesis unfolding log_geo_def by simp
  qed
  then show "log_geo l' D" and "home l' ` {0..<log_n l'} = insert b (home l ` {0..<log_n l})" by simp_all
qed

text \<open>
  The state of the log between the operations of a transaction: the header lists exactly the pinned
  blocks, and no buffer is held.
\<close>

definition in_tx :: "'a lkernel_scheme \<Rightarrow> bool" where
  "in_tx s \<longleftrightarrow> bio_quiet s \<and> held s = {} \<and> log_geo (k_log s) (length (k_disk s)) \<and>
     pinned s = home (k_log s) ` {0..<log_n (k_log s)} \<and> lg_lock (k_log s) = initlock \<and>
     \<not> lg_committing (k_log s)"

lemma in_txD:
  assumes "in_tx s"
  shows "bio_quiet s" "held s = {}" "log_geo (k_log s) (length (k_disk s))"
    "pinned s = home (k_log s) ` {0..<log_n (k_log s)}" "lg_lock (k_log s) = initlock"
    "\<not> lg_committing (k_log s)" "cpu_settled (k_cpu s)" "pt_quiet s"
  using assms bio_quietD by (auto simp: in_tx_def)

lemma log_write_eq:
  "log_write b s =
     (if lh_n (lg_lh (k_log s)) \<ge> int LOGSIZE \<or> lh_n (lg_lh (k_log s)) \<ge> lg_size (k_log s) - 1
      then Panic ''too big a transaction''
      else if lg_outstanding (k_log s) < 1 then Panic ''log_write outside of trans''
      else andthen (acquire_log s) (\<lambda>s. release_log (set_dirty b
        (set_lh (add_block (b_blockno (k_bufs s ! b)) (lg_lh (k_log s))) s))))"
  by (simp add: log_write_def add_block_def Let_def)

lemma log_write_ok:
  assumes "bio_quiet s" and "holds s i b" and "lg_lock (k_log s) = initlock"
    and "1 \<le> lg_outstanding (k_log s)" and "lh_n (lg_lh (k_log s)) < int LOGSIZE"
    and "lh_n (lg_lh (k_log s)) < lg_size (k_log s) - 1"
  shows "log_write i s = Ok (set_dirty i (set_lh (add_block b (lg_lh (k_log s))) s))"
proof -
  note h = holdsD [OF assms(1,2)] and c = bio_quietD(1) [OF assms(1)]
  let ?h = "add_block b (lg_lh (k_log s))"
  have "k_log (set_dirty i t) = k_log t" "k_cpu (set_dirty i t) = k_cpu t" for t :: "'a lkernel_scheme"
    by (simp_all add: set_dirty_def upd_buf_def)
  moreover have "upd_log f (set_dirty i t) = set_dirty i (upd_log f t)"
    "(set_dirty i t)\<lparr>k_cpu := x\<rparr> = set_dirty i (t\<lparr>k_cpu := x\<rparr>)" for t :: "'a lkernel_scheme" and f x
    by (simp_all add: set_dirty_def upd_buf_def upd_log_def)
  ultimately show ?thesis
    using assms(3-6) c h(4) locked_upd [of s "\<lambda>l. l\<lparr>lg_lh := ?h\<rparr>"]
    by (simp add: log_write_eq acquire_log_ok release_log_ok [where c = "k_cpu s"] set_lh_def)
qed

text \<open>One write of a client: read the block, change it, log it, release it.\<close>

definition tx_write :: "uint \<times> uchar list \<Rightarrow> 'a lkernel_scheme \<Rightarrow> 'a lkernel_scheme outcome" where
  "tx_write w s = andthen (bread 1 (fst w) s) (\<lambda>(i, s).
     andthen (log_write i (set_data i (snd w) s)) (brelse i))"

definition same_log :: "log \<Rightarrow> log \<Rightarrow> bool" where
  "same_log l l' \<longleftrightarrow> l' = l\<lparr>lg_lh := lg_lh l'\<rparr>"

lemma tx_write_ok:
  assumes "in_tx s" and "1 \<le> lg_outstanding (k_log s)" and "lh_n (lg_lh (k_log s)) < lg_size (k_log s) - 1"
    and "unat b < length (k_disk s)" and "\<not> in_log (k_log s) b" and "length d = BSIZE"
  shows "\<exists>s'. tx_write (b, d) s = Ok s' \<and> in_tx s' \<and> same_log (k_log s) (k_log s') \<and>
    blk s' = (blk s)\<lparr>bl_view := (view s)(b := d), bl_pinned := insert b (pinned s)\<rparr>"
proof -
  note t = in_txD [OF assms(1)] and g = log_geo_bounds [OF t(3)]
  have "card (pinned s) \<le> log_n (k_log s)" using card_image_le [of "{0..<log_n (k_log s)}"] by (simp add: t(4))
  then have "card (held s \<union> pinned s) < NBUF" using g(3) t(2) by simp
  then obtain i s1 where s1: "bread 1 b s = Ok (i, s1)" "keeps s {} s1" "holds s1 i b"
      "blk s1 = (blk s)\<lparr>bl_held := insert b (held s)\<rparr>"
    using bread_contract [OF t(1) assms(4)] t(2) by auto
  let ?s2 = "set_data i d s1"
  note s2 = set_data_contract [OF keepsD(1) [OF s1(2)] s1(3) assms(6)]
  have L2: "k_log ?s2 = k_log s" using keeps_log [OF s1(2)] keeps_log [OF s2(1)] by simp
  let ?h = "add_block b (lg_lh (k_log s))"
  let ?s3 = "set_lh ?h ?s2"
  have "lh_n (lg_lh (k_log s)) < int LOGSIZE" using assms(3) g(1) by (simp add: log_area_def)
  then have run: "log_write i ?s2 = Ok (set_dirty i ?s3)"
    using log_write_ok [OF keepsD(1) [OF s2(1)] s2(2)] t(5) assms(2,3) by (simp add: L2)
  have s3: "bio_quiet ?s3" "holds ?s3 i b" using keepsD(1) [OF s2(1)] s2(2) by (simp_all add: set_lh_def)
  note s4 = set_dirty_contract [OF s3]
  have B4: "blk (set_dirty i ?s3) = (blk s)\<lparr>bl_view := (view s)(b := d), bl_held := {b},
      bl_pinned := insert b (pinned s)\<rparr>"
    using s4(3) s2(4) s1(4) t(2) by (simp add: set_lh_def blk_def)
  then have "b \<in> pinned (set_dirty i ?s3)" by (simp add: blk_def)
  then obtain s5 where s5: "brelse i (set_dirty i ?s3) = Ok s5" "keeps (set_dirty i ?s3) {b} s5"
      "blk s5 = (blk (set_dirty i ?s3))\<lparr>bl_held := held (set_dirty i ?s3) - {b}\<rparr>"
    using brelse_contract [OF keepsD(1) [OF s4(1)] s4(2)] by blast
  have B5: "blk s5 = (blk s)\<lparr>bl_view := (view s)(b := d), bl_pinned := insert b (pinned s)\<rparr>"
    using s5(3) B4 t(2) by (simp add: blk_def)
  have L5: "k_log s5 = (k_log s)\<lparr>lg_lh := ?h\<rparr>" using keeps_log [OF s5(2)] keeps_log [OF s4(1)] L2 by simp
  note geo = add_block_geo [OF t(3) assms(3-5)]
  have "in_tx s5" unfolding in_tx_def L5
    using keepsD(1) [OF s5(2)] B5 geo t by (simp add: blk_def)
  then show ?thesis using s1(1) run s5(1) B5 L5 by (simp add: tx_write_def same_log_def)
qed

lemma wakeup1_blk [simp]:
  "k_bufs (wakeup1 ch s) = k_bufs s" "k_disk (wakeup1 ch s) = k_disk s" "k_dwrites (wakeup1 ch s) = k_dwrites s"
  "bio_quiet (wakeup1 ch s) = bio_quiet s" "holds (wakeup1 ch s) = holds s" "held (wakeup1 ch s) = held s"
  "pinned (wakeup1 ch s) = pinned s" "view (wakeup1 ch s) = view s" "blk (wakeup1 ch s) = blk s"
  by (simp_all add: wakeup1_def bio_quiet_def pt_quiet_def bc_ok_def holds_def has_buf_def held_def pinned_def
      blk_def view_def buf_of_def fun_eq_iff split: option.split)

lemma wakeup1_log [simp]: "k_log (wakeup1 ch s) = k_log s"
  by (simp add: wakeup1_def)

text \<open>The end of \<open>end_op\<close>: a change of the log under its lock, and the wakeup of the waiters.\<close>

lemma wake_log:
  assumes "pt_quiet s" and "lg_lock (k_log s) = initlock"
    and "\<And>x. f ((k_log s)\<lparr>lg_lock := x\<rparr>) = (f (k_log s))\<lparr>lg_lock := x\<rparr>" and "lg_lock (f (k_log s)) = initlock"
  shows "andthen (acquire_log s) (\<lambda>s. andthen (wakeup LogChan (upd_log f s)) release_log) =
    Ok (wakeup1 LogChan (upd_log f s))"
proof -
  let ?t = "upd_log f (upd_log (\<lambda>l. l\<lparr>lg_lock := locked_by (k_cpu s)\<rparr>) (s\<lparr>k_cpu := pushcli (k_cpu s)\<rparr>))"
  have c: "cpu_settled (k_cpu s)" using assms(1) by (simp add: pt_quiet_def)
  have "pt_free ?t" by (rule pushcli_free [OF assms(1)]) simp_all
  then have "wakeup LogChan ?t = Ok (wakeup1 LogChan ?t)" by (rule wakeup_ok)
  moreover have "release_log (wakeup1 LogChan ?t) =
      Ok (upd_log (\<lambda>l. l\<lparr>lg_lock := initlock\<rparr>) ((wakeup1 LogChan ?t)\<lparr>k_cpu := k_cpu s\<rparr>))"
    by (rule release_log_ok) (simp_all add: assms(3) c)
  moreover have "upd_log (\<lambda>l. l\<lparr>lg_lock := initlock\<rparr>) ((wakeup1 LogChan ?t)\<lparr>k_cpu := k_cpu s\<rparr>) =
      wakeup1 LogChan (upd_log (\<lambda>l. l\<lparr>lg_lock := initlock\<rparr>) (?t\<lparr>k_cpu := k_cpu s\<rparr>))"
    by (simp add: wakeup1_def upd_log_def)
  ultimately show ?thesis
    using locked_upd [OF assms(2-4), of "locked_by (k_cpu s)" "pushcli (k_cpu s)"]
    by (simp add: acquire_log_ok assms(2))
qed

lemma commit_nothing: "lh_n (lg_lh (k_log s)) \<le> 0 \<Longrightarrow> commit s = Ok s"
  by (simp add: commit_def)

lemma view_writes_simps:
  "view_writes [] v = v" "view_writes ((b, x) # ws) v = view_writes ws (v(b := x))"
  "view_writes (ws @ us) v = view_writes us (view_writes ws v)"
  by (simp_all add: view_writes_def)

text \<open>What a commit leaves behind outside the log area.\<close>

lemma commit_home:
  assumes "ready s" and "\<not> in_log (k_log s) b"
  shows "apply_writes (commit_writes (k_log s) (view s)) (k_disk s) ! unat b = view s b"
    and "view_writes (commit_writes (k_log s) (view s)) (view s) b = view s b"
proof -
  let ?l = "k_log s" and ?v = "view s"
  have geo: "log_geo ?l (length (k_disk s))" using assms(1) by (simp add: ready_def)
  note area = log_geo_bounds(1) [OF geo]
  have ne: "unat (head_blk ?l) \<noteq> unat b" "b \<noteq> head_blk ?l" "b \<notin> log_block ?l ` {0..<log_n ?l}"
    using head_blk_in_log [OF area] log_geoD(3) [OF geo] assms(2) by (auto simp flip: word_unat_eq_iff)
  show "apply_writes (commit_writes ?l ?v) (k_disk s) ! unat b = ?v b"
    using after_commit_point(3) [OF assms(1) refl assms(2), of 0] ne(1) by (simp add: commit_writes_def)
  have "view_writes (home_writes ?l ?v) v' b = ?v b" if "v' b = ?v b" for v'
  proof (cases "b \<in> home ?l ` {0..<log_n ?l}")
    case True
    then have "(b, ?v b) \<in> set (home_writes ?l ?v)" by (auto simp: home_writes_def)
    then show ?thesis using view_writes_nth [OF distinct_home_writes [OF geo]] by blast
  next
    case False
    then show ?thesis using that by (simp add: view_writes_other)
  qed
  then show "view_writes (commit_writes ?l ?v) ?v b = ?v b"
    using ne(2,3) by (simp add: commit_writes_def view_writes_simps view_writes_other)
qed

text \<open>The last \<open>end_op\<close> of a transaction commits it.\<close>

definition closing :: "log \<Rightarrow> log" where
  "closing l = l\<lparr>lg_outstanding := 0, lg_committing := True\<rparr>"

lemma closing_fields [simp]:
  "lg_lh (closing l) = lg_lh l" "lg_size (closing l) = lg_size l" "lg_start (closing l) = lg_start l"
  "home (closing l) = home l" "log_n (closing l) = log_n l" "in_log (closing l) = in_log l"
  "log_geo (closing l) D = log_geo l D"
proof -
  show *: "home (closing l) = home l" "log_n (closing l) = log_n l" "in_log (closing l) = in_log l"
    by (simp_all add: closing_def fun_eq_iff home_def log_n_def in_log_def)
  show "log_geo (closing l) D = log_geo l D" unfolding log_geo_def * by (simp add: closing_def log_area_def)
qed (simp_all add: closing_def)

lemma closing_lock [simp]:
  "lg_lock (closing l) = lg_lock l" "closing (l\<lparr>lg_lock := x\<rparr>) = (closing l)\<lparr>lg_lock := x\<rparr>"
  by (simp_all add: closing_def)

lemma commit_stage:
  assumes "in_tx s"
  shows "\<exists>s2. commit (upd_log closing s) = Ok s2 \<and> bio_quiet s2 \<and> held s2 = {} \<and> pinned s2 = {} \<and>
    k_log s2 = (closing (k_log s))\<lparr>lg_lh := (lg_lh (k_log s))\<lparr>lh_n := 0\<rparr>\<rparr> \<and> length (k_disk s2) = length (k_disk s) \<and>
    (\<forall>b. \<not> in_log (k_log s) b \<longrightarrow> k_disk s2 ! unat b = view s b \<and> view s2 b = view s b)"
proof -
  note t = in_txD [OF assms] and g = log_geo_bounds [OF t(3)]
  let ?s1 = "upd_log closing s"
  show ?thesis
  proof (cases "log_n (k_log s)")
    case 0
    have z: "lh_n (lg_lh (k_log s)) = 0" using g(4) 0 by (simp add: log_n_def)
    moreover have "pinned s = {}" using t(4) 0 by simp
    moreover have "(lg_lh (k_log s))\<lparr>lh_n := 0\<rparr> = lg_lh (k_log s)" using z by (cases "lg_lh (k_log s)") simp
    moreover have "(closing (k_log s))\<lparr>lg_lh := lg_lh (k_log s)\<rparr> = closing (k_log s)"
      by (cases "k_log s") (simp add: closing_def)
    ultimately show ?thesis using t view_clean [OF t(1)] by (simp add: commit_nothing)
  next
    case (Suc n)
    then have ready: "ready ?s1" using t unfolding ready_def by simp
    obtain s2 where s2: "commit ?s1 = Ok s2" "bio_quiet s2"
        "k_log s2 = (k_log ?s1)\<lparr>lg_lh := (lg_lh (k_log ?s1))\<lparr>lh_n := 0\<rparr>\<rparr>"
        "blk s2 = (blk ?s1)\<lparr>bl_view := view_writes (commit_writes (k_log ?s1) (view ?s1)) (view ?s1),
           bl_disk := apply_writes (commit_writes (k_log ?s1) (view ?s1)) (k_disk ?s1), bl_pinned := {},
           bl_writes := k_dwrites ?s1 @ commit_writes (k_log ?s1) (view ?s1)\<rparr>"
      using commit_ok [OF ready] by blast
    have B2: "view s2 = view_writes (commit_writes (k_log ?s1) (view ?s1)) (view ?s1)"
        "k_disk s2 = apply_writes (commit_writes (k_log ?s1) (view ?s1)) (k_disk ?s1)"
        "pinned s2 = {}" "held s2 = {}"
      using s2(4) t(2) by (simp_all add: blk_def)
    show ?thesis
      using s2(1-3) B2(3,4) commit_home [OF ready] by (simp add: B2(1,2))
  qed
qed

lemma end_op_last:
  assumes "in_tx s" and "lg_outstanding (k_log s) = 1"
  shows "\<exists>s'. end_op s = Ok s' \<and> in_tx s' \<and> pinned s' = {} \<and> lg_outstanding (k_log s') = 0 \<and>
    lg_size (k_log s') = lg_size (k_log s) \<and> (\<forall>b. in_log (k_log s') b = in_log (k_log s) b) \<and>
    length (k_disk s') = length (k_disk s) \<and>
    (\<forall>b. \<not> in_log (k_log s) b \<longrightarrow> k_disk s' ! unat b = view s b \<and> view s' b = view s b)"
proof -
  note t = in_txD [OF assms(1)]
  let ?h = "\<lambda>l. l\<lparr>lg_committing := False\<rparr>"
  obtain s2 where s2: "commit (upd_log closing s) = Ok s2" "bio_quiet s2" "held s2 = {}" "pinned s2 = {}"
      "k_log s2 = (closing (k_log s))\<lparr>lg_lh := (lg_lh (k_log s))\<lparr>lh_n := 0\<rparr>\<rparr>" "length (k_disk s2) = length (k_disk s)"
      "\<forall>b. \<not> in_log (k_log s) b \<longrightarrow> k_disk s2 ! unat b = view s b \<and> view s2 b = view s b"
    using commit_stage [OF assms(1)] by blast
  let ?s' = "wakeup1 LogChan (upd_log ?h s2)"
  have two: "upd_log (\<lambda>l. l\<lparr>lg_committing := True\<rparr>) (upd_log (\<lambda>l. l\<lparr>lg_outstanding := lg_outstanding l - 1\<rparr>) u) =
      upd_log closing u" if "lg_outstanding (k_log u) = 1" for u :: "'a lkernel_scheme"
    using that by (simp add: upd_log_def closing_def)
  have "end_op s = andthen (acquire_log s2) (\<lambda>s. andthen (wakeup LogChan (upd_log ?h s)) release_log)"
    using assms(2) t(5-7) locked_upd [of s closing "locked_by (k_cpu s)" "pushcli (k_cpu s)"] s2(1)
    by (simp add: end_op_def acquire_log_ok two release_log_ok [where c = "k_cpu s"] Let_def)
  also have "\<dots> = Ok ?s'"
    using wake_log [of s2 ?h] bio_quietD(2) [OF s2(2)] t(5) by (simp add: s2(5) closing_def)
  finally have run: "end_op s = Ok ?s'" .
  have "log_geo (k_log ?s') (length (k_disk ?s'))"
    using t(3) by (simp add: s2(5,6) log_geo_def log_area_def log_n_def closing_def)
  then have "in_tx ?s'" using s2 t(5) by (simp add: in_tx_def log_n_def closing_def)
  then show ?thesis using run s2 by (simp add: in_log_def closing_def)
qed

primrec tx_writes :: "writes \<Rightarrow> 'a lkernel_scheme \<Rightarrow> 'a lkernel_scheme outcome" where
  "tx_writes [] s = Ok s"
| "tx_writes (w # ws) s = andthen (tx_write w s) (tx_writes ws)"

definition tx_fits :: "log \<Rightarrow> nat \<Rightarrow> writes \<Rightarrow> bool" where
  "tx_fits l D ws \<longleftrightarrow> (\<forall>(b, d) \<in> set ws. unat b < D \<and> \<not> in_log l b \<and> length d = BSIZE)"

text \<open>The header's count is the number of blocks the transaction has touched.\<close>

lemma in_tx_count:
  assumes "in_tx s"
  shows "lh_n (lg_lh (k_log s)) = int (card (pinned s))"
proof -
  note t = in_txD [OF assms]
  have "distinct (map (home (k_log s)) [0..<log_n (k_log s)])" using t(3) by (simp add: log_geo_def)
  then have "card (home (k_log s) ` {0..<log_n (k_log s)}) = log_n (k_log s)"
    by (simp add: distinct_map card_image)
  then show ?thesis using log_geo_bounds(4) [OF t(3)] by (simp add: t(4) log_n_def)
qed

lemma same_log_trans: "same_log l l' \<Longrightarrow> same_log l' l'' \<Longrightarrow> same_log l l''"
  by (cases l, cases l', cases l'') (simp add: same_log_def)

lemma same_log_fields:
  "same_log l l' \<Longrightarrow> lg_size l' = lg_size l" "same_log l l' \<Longrightarrow> lg_outstanding l' = lg_outstanding l"
  "same_log l l' \<Longrightarrow> in_log l' = in_log l" "same_log l l' \<Longrightarrow> head_blk l' = head_blk l"
  by (cases l, cases l', simp add: same_log_def in_log_def fun_eq_iff head_blk_def)+

lemma tx_writes_ok:
  assumes "in_tx s" and "1 \<le> lg_outstanding (k_log s)" and "tx_fits (k_log s) (length (k_disk s)) ws"
    and "int (card (pinned s) + length ws) < lg_size (k_log s)"
  shows "\<exists>s'. tx_writes ws s = Ok s' \<and> in_tx s' \<and> same_log (k_log s) (k_log s') \<and>
    blk s' = (blk s)\<lparr>bl_view := view_writes ws (view s), bl_pinned := fst ` set ws \<union> pinned s\<rparr>"
  using assms
proof (induction ws arbitrary: s)
  case Nil
  then show ?case by (simp add: same_log_def view_writes_def blk_def)
next
  case (Cons w ws)
  obtain b d where w: "w = (b, d)" by (cases w)
  have lt: "lh_n (lg_lh (k_log s)) < lg_size (k_log s) - 1"
    using in_tx_count [OF Cons.prems(1)] Cons.prems(4) by simp
  have fit: "unat b < length (k_disk s)" "\<not> in_log (k_log s) b" "length d = BSIZE"
    using Cons.prems(3) by (auto simp: tx_fits_def w)
  obtain s1 where s1: "tx_write (b, d) s = Ok s1" "in_tx s1" "same_log (k_log s) (k_log s1)"
      "blk s1 = (blk s)\<lparr>bl_view := (view s)(b := d), bl_pinned := insert b (pinned s)\<rparr>"
    using tx_write_ok [OF Cons.prems(1,2) lt fit] by blast
  have B1: "view s1 = (view s)(b := d)" "pinned s1 = insert b (pinned s)" "k_disk s1 = k_disk s"
    using s1(4) by (simp_all add: blk_def)
  have fin: "finite (pinned s)" using finite_held [of s] by simp
  have "card (pinned s1) \<le> Suc (card (pinned s))" using fin by (simp add: B1 card_insert_if)
  then have "1 \<le> lg_outstanding (k_log s1)" "tx_fits (k_log s1) (length (k_disk s1)) ws"
      "int (card (pinned s1) + length ws) < lg_size (k_log s1)"
    using Cons.prems(2-4) same_log_fields [OF s1(3)] by (simp_all add: B1(3) tx_fits_def)
  then obtain s' where s': "tx_writes ws s1 = Ok s'" "in_tx s'" "same_log (k_log s1) (k_log s')"
      "blk s' = (blk s1)\<lparr>bl_view := view_writes ws (view s1), bl_pinned := fst ` set ws \<union> pinned s1\<rparr>"
    using Cons.IH [OF s1(2)] by blast
  have "blk s' = (blk s)\<lparr>bl_view := view_writes (w # ws) (view s), bl_pinned := fst ` set (w # ws) \<union> pinned s\<rparr>"
    using s'(4) s1(4) by (simp add: B1 w view_writes_simps blk_def)
  then show ?case using s' s1(1) same_log_trans [OF s1(3) s'(3)] by (simp add: w)
qed

lemma view_eq_apply:
  "(\<forall>(b, d) \<in> set ws. unat b < length xs) \<Longrightarrow> v b = xs ! unat b \<Longrightarrow>
    view_writes ws v b = apply_writes ws xs ! unat b"
proof (induction ws arbitrary: v xs)
  case (Cons w ws)
  then show ?case
    by (cases w) (auto simp: view_writes_simps nth_list_update word_unat_eq_iff [symmetric])
qed (simp add: view_writes_simps)

text \<open>An idle log: no transaction is open and the cache holds nothing the disk does not.\<close>

definition log_idle :: "'a lkernel_scheme \<Rightarrow> bool" where
  "log_idle s \<longleftrightarrow> in_tx s \<and> lg_outstanding (k_log s) = 0 \<and> pinned s = {}"

lemma in_tx_outstanding [simp]:
  "in_tx (upd_log (\<lambda>l. l\<lparr>lg_outstanding := f l\<rparr>) s) = in_tx s"
  by (simp add: in_tx_def log_geo_def log_area_def log_n_def home_def [abs_def] in_log_def [abs_def])

lemma in_log_outstanding [simp]: "in_log (l\<lparr>lg_outstanding := x\<rparr>) = in_log l"
  by (simp add: fun_eq_iff in_log_def)

lemma begin_op_idle:
  assumes "log_idle s"
  shows "begin_op s = Ok (upd_log (\<lambda>l. l\<lparr>lg_outstanding := 1\<rparr>) s)"
proof -
  have t: "in_tx s" "lg_outstanding (k_log s) = 0" "pinned s = {}" using assms by (simp_all add: log_idle_def)
  then have "begin_op s = Ok (upd_log (\<lambda>l. l\<lparr>lg_outstanding := lg_outstanding l + 1\<rparr>) s)"
    using in_tx_count [OF t(1)] in_txD [OF t(1)] by (intro begin_op_ok) simp_all
  then show ?thesis using t(2) by (simp add: upd_log_def)
qed

text \<open>C2: A file system operation is all its writes at once.  Between \<open>begin_op\<close> and \<open>end_op\<close> an
  operation that changes fewer blocks than the log holds, each through \<open>bread\<close>, \<open>log_write\<close> and \<open>brelse\<close>,
  changes nothing on the disk; \<open>end_op\<close> puts exactly its writes there and leaves the log idle again.\<close>

theorem transaction_durable:
  assumes "log_idle s" and "tx_fits (k_log s) (length (k_disk s)) ws" and "int (length ws) < lg_size (k_log s)"
  shows "\<exists>s1 s2 s'. begin_op s = Ok s1 \<and> tx_writes ws s1 = Ok s2 \<and> k_disk s2 = k_disk s \<and>
    k_dwrites s2 = k_dwrites s \<and> end_op s2 = Ok s' \<and> log_idle s' \<and>
    (\<forall>b. \<not> in_log (k_log s) b \<longrightarrow> k_disk s' ! unat b = apply_writes ws (k_disk s) ! unat b)"
proof -
  have t: "in_tx s" "lg_outstanding (k_log s) = 0" "pinned s = {}" using assms(1) by (simp_all add: log_idle_def)
  let ?s1 = "upd_log (\<lambda>l. l\<lparr>lg_outstanding := 1\<rparr>) s"
  obtain s2 where s2: "tx_writes ws ?s1 = Ok s2" "in_tx s2" "same_log (k_log ?s1) (k_log s2)"
      "blk s2 = (blk ?s1)\<lparr>bl_view := view_writes ws (view ?s1), bl_pinned := fst ` set ws \<union> pinned ?s1\<rparr>"
    using tx_writes_ok [of ?s1 ws] t assms(2,3) by (auto simp: tx_fits_def)
  have B2: "view s2 = view_writes ws (view s)" "k_disk s2 = k_disk s" "k_dwrites s2 = k_dwrites s"
    using s2(4) by (simp_all add: blk_def)
  have l2: "lg_outstanding (k_log s2) = 1" "in_log (k_log s2) = in_log (k_log s)"
    using same_log_fields [OF s2(3)] by simp_all
  obtain s' where s': "end_op s2 = Ok s'" "in_tx s'" "pinned s' = {}" "lg_outstanding (k_log s') = 0"
      "\<forall>b. \<not> in_log (k_log s2) b \<longrightarrow> k_disk s' ! unat b = view s2 b \<and> view s' b = view s2 b"
    using end_op_last [OF s2(2) l2(1)] by blast
  have "view s2 b = apply_writes ws (k_disk s) ! unat b" for b
    unfolding B2(1) using assms(2) view_clean [OF in_txD(1) [OF t(1)], of b] t(3) in_txD(2) [OF t(1)]
    by (intro view_eq_apply) (auto simp: tx_fits_def)
  then show ?thesis
    using begin_op_idle [OF assms(1)] s2(1) B2 s' l2(2) by (simp add: log_idle_def)
qed

text \<open>
  A small disk for examples: forty zeroed blocks with the log in blocks 2 to 31, as \<^verbatim>\<open>mkfs.c\<close> lays it out.
\<close>

definition empty_log :: log where
  "empty_log = \<lparr>lg_lock = initlock, lg_start = 2, lg_size = int LOGSIZE, lg_outstanding = 0, lg_committing = False,
     lg_dev = 1, lg_lh = \<lparr>lh_n = 0, lh_block = replicate LOGSIZE 0\<rparr>\<rparr>"

definition boot_lkernel :: "nat \<Rightarrow> 'a \<Rightarrow> 'a lkernel_scheme" where
  "boot_lkernel D x = upd_log (\<lambda>_. empty_log) (boot_bkernel (replicate D (replicate BSIZE 0)) \<lparr>k_log = empty_log, \<dots> = x\<rparr>)"

lemma boot_lkernel_eq:
  "boot_lkernel D x = \<lparr>k_cpu = boot_cpu, k_proc = Some 0, k_ticks = 0, k_ptlock = initlock,
     k_procs = replicate NPROC idle_proc, k_initproc = None, k_nextpid = 1,
     k_trace = boot_trace\<lparr>tb_enabled := True\<rparr>, k_mem = (\<lambda>_. 0), k_end = KERNBASE + 0x200000,
     k_kmemlock = initlock, k_use_lock = True, k_freelist = 0, k_blk = initlock, k_bufs = boot_bufs,
     k_bprev = fst boot_links, k_bnext = snd boot_links, k_disk = replicate D (replicate BSIZE 0),
     k_dwrites = [], k_log = empty_log, \<dots> = x\<rparr>"
  by (simp add: boot_lkernel_def boot_bkernel_eq upd_log_def boot_mkernel_def boot_tkernel_def
      traceinit_def boot_kernel_def boot_trace_def)

lemma boot_lkernel_ok:
  assumes "2 + LOGSIZE \<le> D" and "D < 2 ^ 31"
  shows "log_idle (boot_lkernel D x)" "k_log (boot_lkernel D x) = empty_log"
    "k_disk (boot_lkernel D x) = replicate D (replicate BSIZE 0)"
proof -
  have d: "list_all (\<lambda>d. length d = BSIZE) (replicate D (replicate BSIZE (0 :: uchar)))"
    by (simp add: list_all_length)
  note ok = boot_bkernel_ok [OF d, of "\<lparr>k_log = empty_log, \<dots> = x\<rparr>"]
  have "log_geo empty_log D"
    using assms by (simp add: log_geo_def log_area_def empty_log_def log_n_def)
  then show "log_idle (boot_lkernel D x)"
    using ok by (simp add: log_idle_def in_tx_def boot_lkernel_def) (simp add: empty_log_def log_n_def)
  show "k_log (boot_lkernel D x) = empty_log" "k_disk (boot_lkernel D x) = replicate D (replicate BSIZE 0)"
    using ok by (simp_all add: boot_lkernel_def)
qed

lemma empty_log_fits: "tx_fits empty_log 40 [(35, replicate 512 9)]"
  by (simp add: tx_fits_def in_log_def empty_log_def)

theorem transaction_durable_witness:
  "\<exists>s1 s2 s'. begin_op (boot_lkernel 40 ()) = Ok s1 \<and> tx_writes [(35, replicate 512 9)] s1 = Ok s2 \<and>
    k_disk s2 ! 35 = replicate 512 0 \<and> end_op s2 = Ok s' \<and> k_disk s' ! 35 = replicate 512 9"
proof -
  note ok = boot_lkernel_ok [of 40 "()"]
  have "\<not> in_log empty_log 35" by (simp add: in_log_def empty_log_def)
  moreover have "int (length [(35 :: uint, replicate 512 (9 :: uchar))]) < lg_size empty_log"
    by (simp add: empty_log_def)
  ultimately show ?thesis
    using transaction_durable [of "boot_lkernel 40 ()" "[(35, replicate 512 9)]"] empty_log_fits ok by fastforce
qed

theorem commit_crash_atomic_witness:
  "\<exists>s1 s2 s' W. begin_op (boot_lkernel 40 ()) = Ok s1 \<and> tx_writes [(35, replicate 512 9)] s1 = Ok s2 \<and>
    commit s2 = Ok s' \<and> k_dwrites s' = k_dwrites s2 @ W \<and>
    (\<forall>k r. crashed s2 W k r \<longrightarrow> (\<exists>r'. recover_from_log r = Ok r' \<and>
       k_disk r' ! 35 = (if k \<le> 1 then replicate 512 0 else replicate 512 9)))"
proof -
  let ?s = "boot_lkernel 40 ()" and ?ws = "[(35, replicate 512 9)] :: writes"
  let ?s1 = "upd_log (\<lambda>l. l\<lparr>lg_outstanding := 1\<rparr>) ?s"
  note ok = boot_lkernel_ok [of 40 "()"]
  have t: "in_tx ?s" "pinned ?s = {}" using ok(1) by (simp_all add: log_idle_def)
  have pre: "in_tx ?s1" "1 \<le> lg_outstanding (k_log ?s1)" "tx_fits (k_log ?s1) (length (k_disk ?s1)) ?ws"
      "int (card (pinned ?s1) + length ?ws) < lg_size (k_log ?s1)"
    using t ok empty_log_fits by (simp_all add: tx_fits_def) (simp add: empty_log_def)
  obtain s2 where s2: "tx_writes ?ws ?s1 = Ok s2" "in_tx s2" "same_log (k_log ?s1) (k_log s2)"
      "blk s2 = (blk ?s1)\<lparr>bl_view := view_writes ?ws (view ?s1), bl_pinned := fst ` set ?ws \<union> pinned ?s1\<rparr>"
    using tx_writes_ok [OF pre] by blast
  have B2: "pinned s2 = {35}" "k_disk s2 = replicate 40 (replicate 512 0)" "view s2 35 = replicate 512 9"
    using s2(4) t(2) ok by (simp_all add: blk_def view_writes_simps)
  have n: "log_n (k_log s2) = 1" using in_tx_count [OF s2(2)] B2(1) by (simp add: log_n_def)
  have l2: "in_log (k_log s2) = in_log empty_log" "head_blk (k_log s2) = 2"
    using same_log_fields [OF s2(3)] ok(2) by (simp_all add: head_blk_def) (simp add: empty_log_def)
  have "ready s2" using in_txD [OF s2(2)] n by (simp add: ready_def)
  moreover have "head_n (k_disk s2 ! unat (head_blk (k_log s2))) = 0" by (simp add: l2 B2 head_n_def) code_simp
  ultimately obtain s' W where c: "commit s2 = Ok s'" "k_dwrites s' = k_dwrites s2 @ W"
      "\<forall>k r b. crashed s2 W k r \<and> \<not> in_log (k_log s2) b \<longrightarrow>
       (\<exists>r'. recover_from_log r = Ok r' \<and> lh_n (lg_lh (k_log r')) = 0 \<and>
          k_disk r' ! unat b = (if k \<le> log_n (k_log s2) then k_disk s2 ! unat b else view s2 b))"
    using commit_crash_atomic by blast
  have "\<not> in_log (k_log s2) 35" by (simp add: l2 in_log_def empty_log_def)
  then have "crashed s2 W k r \<Longrightarrow> \<exists>r'. recover_from_log r = Ok r' \<and>
      k_disk r' ! 35 = (if k \<le> 1 then replicate 512 0 else replicate 512 9)" for k r
    using c(3) [rule_format, of k r 35] by (auto simp: n B2)
  then show ?thesis using begin_op_idle [OF ok(1)] s2(1) c(1,2) by auto
qed

text \<open>C14: \<open>begin_op\<close> admits operations against \<open>LOGSIZE\<close> blocks, but the header takes one block of the log area, so
  \<open>log_write\<close> stops at one less.  On the log \<^verbatim>\<open>mkfs.c\<close> makes, three operations of ten blocks each are
  all admitted, and the thirtieth block one of them writes panics the kernel.
\<close>

theorem admitted_ops_panic:
  assumes "log_idle s" and "lg_size (k_log s) = int LOGSIZE"
    and "tx_fits (k_log s) (length (k_disk s)) ((b, d) # ws)"
    and "length ws = 3 * MAXOPBLOCKS - 1" and "distinct (map fst ((b, d) # ws))"
  shows "\<exists>s1 s2 s3 s4. begin_op s = Ok s1 \<and> begin_op s1 = Ok s2 \<and> begin_op s2 = Ok s3 \<and>
    tx_writes ws s3 = Ok s4 \<and> tx_write (b, d) s4 = Panic ''too big a transaction''"
proof -
  have t: "in_tx s" "lg_outstanding (k_log s) = 0" "pinned s = {}" using assms(1) by (simp_all add: log_idle_def)
  let ?out = "\<lambda>n s. upd_log (\<lambda>l. l\<lparr>lg_outstanding := n\<rparr>) s"
  have adm: "begin_op (?out n s) = Ok (?out (n + 1) s)" if "n \<in> {0, 1, 2}" for n
    using begin_op_ok [of "?out n s"] in_txD [OF t(1)] in_tx_count [OF t(1)] t(3) that by (auto simp: upd_log_def)
  have zero: "?out 0 s = s" using t(2) by (cases s, cases "k_log s") (simp add: upd_log_def)
  have pre: "in_tx (?out 3 s)" "1 \<le> lg_outstanding (k_log (?out 3 s))"
      "tx_fits (k_log (?out 3 s)) (length (k_disk (?out 3 s))) ws"
      "int (card (pinned (?out 3 s)) + length ws) < lg_size (k_log (?out 3 s))"
    using t assms(2-4) by (simp_all add: tx_fits_def)
  obtain s4 where s4: "tx_writes ws (?out 3 s) = Ok s4" "in_tx s4" "same_log (k_log (?out 3 s)) (k_log s4)"
      "blk s4 = (blk (?out 3 s))\<lparr>bl_view := view_writes ws (view (?out 3 s)),
         bl_pinned := fst ` set ws \<union> pinned (?out 3 s)\<rparr>"
    using tx_writes_ok [OF pre] by blast
  have B4: "pinned s4 = fst ` set ws" "k_disk s4 = k_disk s" using s4(4) t(3) by (simp_all add: blk_def)
  have "card (pinned s4) = 29" using assms(4,5) by (simp add: B4 distinct_card [of "map fst ws", simplified])
  note n = in_tx_count [OF s4(2), unfolded this]
  have "card (held s4 \<union> pinned s4) < NBUF" using in_txD(2) [OF s4(2)] \<open>card (pinned s4) = 29\<close> by simp
  then obtain i s5 where s5: "bread 1 b s4 = Ok (i, s5)" "keeps s4 {} s5"
    using bread_contract [OF in_txD(1) [OF s4(2)], of b] assms(3) in_txD(2) [OF s4(2)]
    by (auto simp: B4(2) tx_fits_def)
  have "k_log (set_data i d s5) = k_log s5" by (simp add: set_data_def upd_buf_def)
  then have "tx_write (b, d) s4 = Panic ''too big a transaction''"
    using n assms(2) same_log_fields(1) [OF s4(3)] keeps_log [OF s5(2)]
    by (simp add: tx_write_def s5(1) log_write_eq)
  then show ?thesis
    using adm [of 0] adm [of 1] adm [of 2] s4(1) by (auto simp: zero)
qed

theorem admitted_ops_panic_witness:
  "\<exists>s1 s2 s3 s4. begin_op (boot_lkernel 80 ()) = Ok s1 \<and> begin_op s1 = Ok s2 \<and> begin_op s2 = Ok s3 \<and>
    tx_writes (map (\<lambda>i. (of_nat i, replicate 512 0)) [40..<69]) s3 = Ok s4 \<and>
    tx_write (70, replicate 512 0) s4 = Panic ''too big a transaction''"
proof -
  note ok = boot_lkernel_ok [of 80 "()"]
  have "tx_fits empty_log 80 ((70, replicate 512 0) # map (\<lambda>i. (of_nat i, replicate 512 0)) [40..<69])"
    by (simp add: tx_fits_def in_log_def empty_log_def unat_of_nat)
  moreover have "distinct (map fst ((70 :: uint, replicate 512 (0 :: uchar)) #
      map (\<lambda>i. (of_nat i, replicate 512 0)) [40..<69]))"
    by code_simp
  ultimately show ?thesis
    using ok by (intro admitted_ops_panic) (simp_all add: empty_log_def)
qed

end
