(* ===== verification/Vm.thy ===== *)
theory Vm
  imports Log
begin

text \<open>
  \<^verbatim>\<open>vm.c\<close>: four-level page tables. The tables live in the byte memory, as they do in the machine;
  an entry is a 64-bit word of it. Loading segment descriptors and model-specific registers is left
  out; the page-table register is a field of the state.
\<close>

section \<open>Indices and entries\<close>

definition PMX :: "addr_t \<Rightarrow> addr_t" where
  "PMX va = drop_bit 39 va AND 0x1FF"

definition PDPX :: "addr_t \<Rightarrow> addr_t" where
  "PDPX va = drop_bit 30 va AND 0x1FF"

definition PDX :: "addr_t \<Rightarrow> addr_t" where
  "PDX va = drop_bit 21 va AND 0x1FF"

definition PTX :: "addr_t \<Rightarrow> addr_t" where
  "PTX va = drop_bit 12 va AND 0x1FF"

abbreviation (input) NPDENTRIES :: nat where "NPDENTRIES \<equiv> 512"
abbreviation (input) PTE_PWT :: addr_t where "PTE_PWT \<equiv> 0x008"
abbreviation (input) PTE_PCD :: addr_t where "PTE_PCD \<equiv> 0x010"
abbreviation (input) PTE_PS :: addr_t where "PTE_PS \<equiv> 0x080"

definition PTE_ADDR :: "addr_t \<Rightarrow> addr_t" where
  "PTE_ADDR pte = pte AND NOT 0xFFF"

definition PTE_FLAGS :: "addr_t \<Rightarrow> addr_t" where
  "PTE_FLAGS pte = pte AND 0xFFF"

text \<open>\<open>k_kpml4\<close> and \<open>k_kpdpt\<close> are the kernel's own tables, \<open>k_cr3\<close> the page-table register.\<close>

record vkernel = lkernel +
  k_kpml4 :: addr_t
  k_kpdpt :: addr_t
  k_cr3 :: addr_t

text \<open>The address of entry \<open>i\<close> of the table at \<open>t\<close>.\<close>

definition entry :: "addr_t \<Rightarrow> addr_t \<Rightarrow> addr_t" where
  "entry t i = t + 8 * i"

definition zero_page :: "addr_t \<Rightarrow> 'a mkernel_scheme \<Rightarrow> 'a mkernel_scheme" where
  "zero_page a s = s\<lparr>k_mem := memset a 0 PGSIZE (k_mem s)\<rparr>"

definition set_entry :: "addr_t \<Rightarrow> addr_t \<Rightarrow> 'a mkernel_scheme \<Rightarrow> 'a mkernel_scheme" where
  "set_entry e v s = s\<lparr>k_mem := store64 e v (k_mem s)\<rparr>"

section \<open>Kernel tables\<close>

definition setupkvm :: "'a vkernel_scheme \<Rightarrow> (addr_t \<times> 'a vkernel_scheme) outcome" where
  "setupkvm s =
     andthen (kalloc s) (\<lambda>(pml4, s).
     let s = zero_page pml4 s;
         s = set_entry (entry pml4 256) (V2P (k_kpdpt s) OR PTE_P OR PTE_W) s
     in Ok (pml4, s))"

definition switchkvm :: "'a vkernel_scheme \<Rightarrow> 'a vkernel_scheme" where
  "switchkvm s = s\<lparr>k_cr3 := V2P (k_kpml4 s)\<rparr>"

definition kvmalloc :: "'a vkernel_scheme \<Rightarrow> 'a vkernel_scheme outcome" where
  "kvmalloc s =
     andthen (kalloc s) (\<lambda>(pml4, s).
     let s = zero_page pml4 (s\<lparr>k_kpml4 := pml4\<rparr>) in
     andthen (kalloc s) (\<lambda>(pdpt, s).
     let s = zero_page pdpt (s\<lparr>k_kpdpt := pdpt\<rparr>);
         s = set_entry (entry pml4 (PMX KERNBASE)) (V2P pdpt OR PTE_P OR PTE_W) s;
         s = set_entry (entry pdpt 0) (0 OR PTE_PS OR PTE_P OR PTE_W) s;
         s = set_entry (entry pdpt 3) (0xC0000000 OR PTE_PS OR PTE_P OR PTE_W OR PTE_PWT OR PTE_PCD) s
     in Ok (switchkvm s)))"

text \<open>\<open>switchuvm\<close>: the stack pointer it stores in the task state segment is not part of the state.\<close>

definition switchuvm :: "proc \<Rightarrow> 'a vkernel_scheme \<Rightarrow> 'a vkernel_scheme outcome" where
  "switchuvm p s =
     (let s = s\<lparr>k_cpu := pushcli (k_cpu s)\<rparr> in
      if p_pgdir p = 0 then Panic ''switchuvm: no pgdir''
      else let s = s\<lparr>k_cr3 := V2P (p_pgdir p)\<rparr> in
        andthen (popcli (k_cpu s)) (\<lambda>c. Ok (s\<lparr>k_cpu := c\<rparr>)))"

section \<open>Walking a page table\<close>

text \<open>
  One level: the table that the entry at \<open>e\<close> points to, made new when \<open>alloc\<close> is set and the entry
  is not present. \<open>None\<close> is where \<open>walkpgdir\<close> returns a null pointer.
\<close>

definition walk_level ::
  "addr_t \<Rightarrow> bool \<Rightarrow> 'a mkernel_scheme \<Rightarrow> (addr_t option \<times> 'a mkernel_scheme) outcome" where
  "walk_level e alloc s =
     (if load64 (k_mem s) e AND PTE_P \<noteq> 0 then Ok (Some (P2V (PTE_ADDR (load64 (k_mem s) e))), s)
      else if \<not> alloc then Ok (None, s)
      else andthen (kalloc s) (\<lambda>(t, s).
        if t = 0 then Ok (None, s)
        else Ok (Some t, set_entry e (V2P t OR PTE_P OR PTE_W OR PTE_U) (zero_page t s))))"

definition walkpgdir ::
  "addr_t \<Rightarrow> addr_t \<Rightarrow> bool \<Rightarrow> 'a mkernel_scheme \<Rightarrow> (addr_t option \<times> 'a mkernel_scheme) outcome" where
  "walkpgdir pml4 va alloc s =
     andthen (walk_level (entry pml4 (PMX va)) alloc s) (\<lambda>(pdp, s).
     case pdp of None \<Rightarrow> Ok (None, s) | Some pdp \<Rightarrow>
     andthen (walk_level (entry pdp (PDPX va)) alloc s) (\<lambda>(pd, s).
     case pd of None \<Rightarrow> Ok (None, s) | Some pd \<Rightarrow>
     andthen (walk_level (entry pd (PDX va)) alloc s) (\<lambda>(pgtab, s).
     case pgtab of None \<Rightarrow> Ok (None, s) | Some pgtab \<Rightarrow>
     Ok (Some (entry pgtab (PTX va)), s))))"

text \<open>
  The loop of \<open>mappages\<close> runs from \<open>a\<close> to \<open>last\<close> in steps of a page, both page-aligned; \<open>n\<close> is the
  number of steps that are left, \<open>(last - a) / PGSIZE\<close>.
\<close>

primrec mappages_loop ::
  "addr_t \<Rightarrow> addr_t \<Rightarrow> nat \<Rightarrow> addr_t \<Rightarrow> addr_t \<Rightarrow> 'a mkernel_scheme \<Rightarrow> (cint \<times> 'a mkernel_scheme) outcome" where
  "mappages_loop pgdir a 0 pa perm s =
     andthen (walkpgdir pgdir a True s) (\<lambda>(pte, s).
     case pte of None \<Rightarrow> Ok (- 1, s) | Some pte \<Rightarrow>
     if load64 (k_mem s) pte AND PTE_P \<noteq> 0 then Panic ''remap''
     else Ok (0, set_entry pte (pa OR perm OR PTE_P) s))"
| "mappages_loop pgdir a (Suc n) pa perm s =
     andthen (walkpgdir pgdir a True s) (\<lambda>(pte, s).
     case pte of None \<Rightarrow> Ok (- 1, s) | Some pte \<Rightarrow>
     if load64 (k_mem s) pte AND PTE_P \<noteq> 0 then Panic ''remap''
     else mappages_loop pgdir (a + PGSIZE) n (pa + PGSIZE) perm (set_entry pte (pa OR perm OR PTE_P) s))"

definition mappages ::
  "addr_t \<Rightarrow> addr_t \<Rightarrow> addr_t \<Rightarrow> addr_t \<Rightarrow> addr_t \<Rightarrow> 'a mkernel_scheme \<Rightarrow> (cint \<times> 'a mkernel_scheme) outcome" where
  "mappages pgdir va sz pa perm s =
     (let a = PGROUNDDOWN va; last = PGROUNDDOWN (va + sz - 1)
      in mappages_loop pgdir a (unat (last - a) div 4096) pa perm s)"

text \<open>\<open>init\<close> is the array of \<open>sz\<close> bytes at the address \<open>init\<close>.\<close>

definition inituvm :: "addr_t \<Rightarrow> addr_t \<Rightarrow> uint \<Rightarrow> 'a mkernel_scheme \<Rightarrow> 'a mkernel_scheme outcome" where
  "inituvm pgdir init sz s =
     (if ucast sz \<ge> PGSIZE then Panic ''inituvm: more than a page''
      else andthen (kalloc s) (\<lambda>(m, s).
        andthen (mappages pgdir PGSIZE PGSIZE (V2P m) (PTE_W OR PTE_U) (zero_page m s)) (\<lambda>(_, s).
        Ok (s\<lparr>k_mem := memmove m init sz (k_mem s)\<rparr>))))"

section \<open>Growing, shrinking and freeing\<close>

text \<open>
  The loops over the pages of a range count \<open>a\<close> up by \<open>PGSIZE\<close>; \<open>n\<close> is the number of turns, which
  \<open>pages_upto\<close> computes from the loop's test \<open>a < limit\<close>. A limit in the last page of the address
  space, where the C loop would wrap around and start again, is beyond every caller's: the callers
  stay below \<open>KERNBASE\<close>.
\<close>

definition pages_upto :: "addr_t \<Rightarrow> addr_t \<Rightarrow> nat" where
  "pages_upto a limit = (unat limit - unat a + 4095) div 4096"

primrec deallocuvm_loop :: "addr_t \<Rightarrow> addr_t \<Rightarrow> nat \<Rightarrow> 'a mkernel_scheme \<Rightarrow> 'a mkernel_scheme outcome" where
  "deallocuvm_loop pgdir a 0 s = Ok s"
| "deallocuvm_loop pgdir a (Suc n) s =
     andthen (walkpgdir pgdir a False s) (\<lambda>(pte, s).
     andthen
       (case pte of None \<Rightarrow> Ok s | Some pte \<Rightarrow>
        if load64 (k_mem s) pte AND PTE_P \<noteq> 0
        then let pa = PTE_ADDR (load64 (k_mem s) pte) in
          if pa = 0 then Panic ''kfree''
          else andthen (kfree (P2V pa) s) (\<lambda>s. Ok (set_entry pte 0 s))
        else Ok s)
       (deallocuvm_loop pgdir (a + PGSIZE) n))"

definition deallocuvm :: "addr_t \<Rightarrow> uint64 \<Rightarrow> uint64 \<Rightarrow> 'a mkernel_scheme \<Rightarrow> (uint64 \<times> 'a mkernel_scheme) outcome" where
  "deallocuvm pgdir oldsz newsz s =
     (if newsz \<ge> oldsz then Ok (oldsz, s)
      else let a = PGROUNDUP newsz in
        andthen (deallocuvm_loop pgdir a (pages_upto a oldsz) s) (\<lambda>s. Ok (newsz, s)))"

primrec allocuvm_loop ::
  "addr_t \<Rightarrow> uint64 \<Rightarrow> uint64 \<Rightarrow> addr_t \<Rightarrow> nat \<Rightarrow> 'a mkernel_scheme \<Rightarrow> (uint64 \<times> 'a mkernel_scheme) outcome" where
  "allocuvm_loop pgdir oldsz newsz a 0 s = Ok (newsz, s)"
| "allocuvm_loop pgdir oldsz newsz a (Suc n) s =
     andthen (kalloc s) (\<lambda>(m, s).
     if m = 0 then andthen (deallocuvm pgdir newsz oldsz s) (\<lambda>(_, s). Ok (0, s))
     else andthen (mappages pgdir a PGSIZE (V2P m) (PTE_W OR PTE_U) (zero_page m s)) (\<lambda>(r, s).
       if sint r < 0
       then andthen (deallocuvm pgdir newsz oldsz s) (\<lambda>(_, s). andthen (kfree m s) (\<lambda>s. Ok (0, s)))
       else allocuvm_loop pgdir oldsz newsz (a + PGSIZE) n s))"

definition allocuvm :: "addr_t \<Rightarrow> uint64 \<Rightarrow> uint64 \<Rightarrow> 'a mkernel_scheme \<Rightarrow> (uint64 \<times> 'a mkernel_scheme) outcome" where
  "allocuvm pgdir oldsz newsz s =
     (if newsz \<ge> KERNBASE then Ok (0, s)
      else if newsz < oldsz then Ok (oldsz, s)
      else let a = PGROUNDUP oldsz in allocuvm_loop pgdir oldsz newsz a (pages_upto a newsz) s)"

text \<open>
  \<open>freevm\<close>: four nested loops. \<open>free_table d\<close> frees what the entries of a table with \<open>d\<close> levels of
  tables below it point to, and then the table itself; \<open>d = 0\<close> is a page table, whose entries are pages,
  \<open>d = 1\<close> a page directory and \<open>d = 2\<close> a page directory pointer table.
\<close>

primrec free_entries ::
  "(addr_t \<Rightarrow> 'a mkernel_scheme \<Rightarrow> 'a mkernel_scheme outcome) \<Rightarrow> addr_t \<Rightarrow> nat list \<Rightarrow> 'a mkernel_scheme \<Rightarrow>
     'a mkernel_scheme outcome" where
  "free_entries f t [] s = Ok s"
| "free_entries f t (i # is) s =
     (let e = load64 (k_mem s) (entry t (of_nat i)) in
      andthen (if e AND PTE_P \<noteq> 0 then f (P2V (PTE_ADDR e)) s else Ok s) (free_entries f t is))"

primrec free_table :: "nat \<Rightarrow> addr_t \<Rightarrow> 'a mkernel_scheme \<Rightarrow> 'a mkernel_scheme outcome" where
  "free_table 0 t s = andthen (free_entries kfree t [0..<NPDENTRIES] s) (kfree t)"
| "free_table (Suc d) t s = andthen (free_entries (free_table d) t [0..<NPDENTRIES] s) (kfree t)"

definition freevm :: "addr_t \<Rightarrow> 'a mkernel_scheme \<Rightarrow> 'a mkernel_scheme outcome" where
  "freevm pml4 s =
     (if pml4 = 0 then Panic ''freevm: no pgdir''
      else andthen (free_entries (free_table 2) pml4 [0..<NPDENTRIES div 2] s) (kfree pml4))"

definition clearpteu :: "addr_t \<Rightarrow> addr_t \<Rightarrow> 'a mkernel_scheme \<Rightarrow> 'a mkernel_scheme outcome" where
  "clearpteu pgdir uva s =
     andthen (walkpgdir pgdir uva False s) (\<lambda>(pte, s).
     case pte of None \<Rightarrow> Panic ''clearpteu''
     | Some pte \<Rightarrow> Ok (set_entry pte (load64 (k_mem s) pte AND NOT PTE_U) s))"

primrec copyuvm_loop ::
  "addr_t \<Rightarrow> addr_t \<Rightarrow> addr_t \<Rightarrow> nat \<Rightarrow> 'a mkernel_scheme \<Rightarrow> (addr_t \<times> 'a mkernel_scheme) outcome" where
  "copyuvm_loop pgdir d i 0 s = Ok (d, s)"
| "copyuvm_loop pgdir d i (Suc n) s =
     andthen (walkpgdir pgdir i False s) (\<lambda>(pte, s).
     case pte of None \<Rightarrow> Panic ''copyuvm: pte should exist''
     | Some pte \<Rightarrow> let e = load64 (k_mem s) pte in
       if e AND PTE_P = 0 then Panic ''copyuvm: page not present''
       else andthen (kalloc s) (\<lambda>(m, s).
         if m = 0 then andthen (freevm d s) (\<lambda>s. Ok (0, s))
         else let s = s\<lparr>k_mem := memmove m (P2V (PTE_ADDR e)) (ucast PGSIZE) (k_mem s)\<rparr> in
           andthen (mappages d i PGSIZE (V2P m) (PTE_FLAGS e) s) (\<lambda>(r, s).
           if sint r < 0 then andthen (freevm d s) (\<lambda>s. Ok (0, s))
           else copyuvm_loop pgdir d (i + PGSIZE) n s)))"

definition copyuvm :: "addr_t \<Rightarrow> uint \<Rightarrow> 'a vkernel_scheme \<Rightarrow> (addr_t \<times> 'a vkernel_scheme) outcome" where
  "copyuvm pgdir sz s =
     andthen (setupkvm s) (\<lambda>(d, s).
     if d = 0 then Ok (0, s) else copyuvm_loop pgdir d PGSIZE (pages_upto PGSIZE (ucast sz)) s)"

section \<open>Copying to user memory\<close>

text \<open>The walk does not allocate; a null entry is read all the same, which is a \<open>Fault\<close>.\<close>

definition uva2ka :: "addr_t \<Rightarrow> addr_t \<Rightarrow> 'a mkernel_scheme \<Rightarrow> (addr_t \<times> 'a mkernel_scheme) outcome" where
  "uva2ka pgdir uva s =
     andthen (walkpgdir pgdir uva False s) (\<lambda>(pte, s).
     case pte of None \<Rightarrow> Fault ''null pte''
     | Some pte \<Rightarrow> let e = load64 (k_mem s) pte in
       if e AND PTE_P = 0 then Ok (0, s)
       else if e AND PTE_U = 0 then Ok (0, s)
       else Ok (P2V (PTE_ADDR e), s))"

lemma page_offset_less: "unat (va - PGROUNDDOWN va) < 4096"
  using in_page_iff [of "PGROUNDDOWN va" va] by simp

text \<open>
  \<open>copyout\<close>. The bytes it copies are the kernel's own, given as a list. Every turn but the first starts at
  a page boundary.
\<close>

function copyout_loop :: "addr_t \<Rightarrow> addr_t \<Rightarrow> uchar list \<Rightarrow> 'a mkernel_scheme \<Rightarrow> (cint \<times> 'a mkernel_scheme) outcome" where
  "copyout_loop pgdir va buf s =
     (if length buf > 0 then
        let va0 = PGROUNDDOWN va in
        andthen (uva2ka pgdir va0 s) (\<lambda>(pa0, s).
        if pa0 = 0 then Ok (- 1, s)
        else let n = min (4096 - unat (va - va0)) (length buf);
                 s = s\<lparr>k_mem := write_bytes (pa0 + (va - va0)) (take n buf) (k_mem s)\<rparr>
          in copyout_loop pgdir (va0 + PGSIZE) (drop n buf) s)
      else Ok (0, s))"
  by pat_completeness auto

termination
  by (relation "measure (\<lambda>(pgdir, va, buf, s). length buf)") (auto simp: page_offset_less min_def)

declare copyout_loop.simps [simp del]

definition copyout :: "addr_t \<Rightarrow> addr_t \<Rightarrow> uchar list \<Rightarrow> 'a mkernel_scheme \<Rightarrow> (cint \<times> 'a mkernel_scheme) outcome" where
  "copyout pgdir va p s = copyout_loop pgdir va p s"

section \<open>The walk as a function of memory\<close>

definition next_table :: "mem \<Rightarrow> addr_t \<Rightarrow> addr_t option" where
  "next_table m e = (if load64 m e AND PTE_P \<noteq> 0 then Some (P2V (PTE_ADDR (load64 m e))) else None)"

text \<open>The page tables of a walk, from the top, and the entry it ends at.\<close>

fun walk_tables :: "mem \<Rightarrow> addr_t \<Rightarrow> addr_t list \<Rightarrow> addr_t list" where
  "walk_tables m t [] = [t]"
| "walk_tables m t (i # is) = t # (case next_table m (entry t i) of None \<Rightarrow> [] | Some t \<Rightarrow> walk_tables m t is)"

fun walk_entry :: "mem \<Rightarrow> addr_t \<Rightarrow> addr_t list \<Rightarrow> addr_t option" where
  "walk_entry m t [] = None"
| "walk_entry m t [i] = Some (entry t i)"
| "walk_entry m t (i # is) = (case next_table m (entry t i) of None \<Rightarrow> None | Some t \<Rightarrow> walk_entry m t is)"

definition indices :: "addr_t \<Rightarrow> addr_t list" where
  "indices va = [PMX va, PDPX va, PDX va, PTX va]"

definition user_page :: "mem \<Rightarrow> addr_t \<Rightarrow> addr_t \<Rightarrow> addr_t option" where
  "user_page m pml4 va = (case walk_entry m pml4 (indices va) of None \<Rightarrow> None
     | Some e \<Rightarrow> if load64 m e AND PTE_P = 0 \<or> load64 m e AND PTE_U = 0 then None
                  else Some (P2V (PTE_ADDR (load64 m e))))"

definition tables_of :: "mem \<Rightarrow> addr_t \<Rightarrow> addr_t \<Rightarrow> addr_t list" where
  "tables_of m pml4 va = walk_tables m pml4 [PMX va, PDPX va, PDX va]"

lemma walk_level_pure: "walk_level e False s = Ok (next_table (k_mem s) e, s)"
  by (simp add: walk_level_def next_table_def)

lemma walkpgdir_pure: "walkpgdir pml4 va False s = Ok (walk_entry (k_mem s) pml4 (indices va), s)"
  by (simp add: walkpgdir_def walk_level_pure indices_def split: option.split)

lemma uva2ka_user_page:
  "user_page (k_mem s) pgdir uva = Some p \<Longrightarrow> uva2ka pgdir uva s = Ok (p, s)"
  by (auto simp: user_page_def uva2ka_def walkpgdir_pure Let_def split: option.splits if_splits)

lemma index_less: "i \<in> set (indices va) \<Longrightarrow> unat i < 512"
proof -
  assume "i \<in> set (indices va)"
  then obtain k where "i = drop_bit k va AND 0x1FF" by (auto simp: indices_def PMX_def PDPX_def PDX_def PTX_def)
  then have "i \<le> 0x1FF" by (simp add: word_and_le1)
  then show ?thesis by (simp add: word_le_nat_alt)
qed

lemma PTE_ADDR_eq: "PTE_ADDR e = PGROUNDDOWN e"
  by (simp add: PTE_ADDR_def PGROUNDDOWN_def)

lemma aligned_P2V: "page_aligned a \<Longrightarrow> page_aligned (P2V a)"
proof -
  assume "page_aligned a"
  then obtain q where q: "unat a = 4096 * q" by (rule page_alignedE)
  have "4096 * q + 0xFFFF800000000000 = 4096 * (q + 0xFFFF800000000)" by simp
  then have "(4096 * q + 0xFFFF800000000000) mod 4096 = (0 :: nat)" by (simp only: mod_mult_self1_is_0)
  then show ?thesis
    by (simp add: page_aligned_unat P2V_def unat_word_ariths mod_mod_cancel q)
qed

lemma next_table_aligned: "next_table m e = Some t \<Longrightarrow> page_aligned t"
  by (auto simp: next_table_def PTE_ADDR_eq aligned_P2V split: if_splits)

lemma same_on_entry:
  assumes "same_on t 4096 m m'" and "unat i < 512"
  shows "load64 m (entry t i) = load64 m' (entry t i)"
proof -
  have "same_on (entry t i) 8 m m'"
  proof (unfold same_on_def, intro allI impI)
    fix x assume x: "unat (x - entry t i) < 8"
    define y where "y = x - entry t i"
    have eq: "x - t = 8 * i + y" by (simp add: y_def entry_def)
    have "unat (8 * i) = 8 * unat i" using assms(2) by (simp add: unat_word_ariths)
    moreover from this have "unat (8 * i + y) = unat (8 * i) + unat y"
      using x assms(2) by (intro unat_add_less) (simp add: y_def)
    ultimately have "unat (x - t) < 4096" using x assms(2) by (simp add: eq y_def [symmetric])
    then show "m x = m' x" using assms(1) by (simp add: same_on_def)
  qed
  then show ?thesis by (rule same_on_load64) simp
qed

lemma walk_same:
  assumes "\<forall>t \<in> set (walk_tables m t0 (butlast is)). same_on t 4096 m m'" and "\<forall>i \<in> set is. unat i < 512"
  shows "walk_entry m' t0 is = walk_entry m t0 is"
  using assms
proof (induction m t0 "is" rule: walk_entry.induct)
  case (3 m t i j js)
  have "load64 m (entry t i) = load64 m' (entry t i)" using "3.prems" by (intro same_on_entry) simp_all
  then have eq: "next_table m' (entry t i) = next_table m (entry t i)" by (simp add: next_table_def)
  show ?case
  proof (cases "next_table m (entry t i)")
    case (Some u)
    then show ?thesis using "3.IH" [OF Some] "3.prems" by (simp add: eq)
  qed (simp add: eq)
qed simp_all

text \<open>A change of memory outside the tables of a walk does not change where it leads.\<close>

lemma walk_last_table:
  "walk_entry m t0 is = Some e \<Longrightarrow> \<exists>t \<in> set (walk_tables m t0 (butlast is)). e = entry t (last is)"
proof (induction m t0 "is" rule: walk_entry.induct)
  case (3 m t i j js)
  obtain u where u: "next_table m (entry t i) = Some u" using "3.prems" by (cases "next_table m (entry t i)") simp_all
  then obtain v where "v \<in> set (walk_tables m u (butlast (j # js)))" "e = entry v (last (j # js))"
    using "3.IH" [OF u] "3.prems" by auto
  then show ?case using u by (intro bexI [of _ v]) simp_all
qed simp_all

lemma user_page_same:
  assumes "\<forall>t \<in> set (tables_of m pml4 va). same_on t 4096 m m'"
  shows "user_page m' pml4 va = user_page m pml4 va"
proof -
  have b: "butlast (indices va) = [PMX va, PDPX va, PDX va]" by (simp add: indices_def)
  have "walk_entry m' pml4 (indices va) = walk_entry m pml4 (indices va)"
    using assms index_less by (intro walk_same) (auto simp: b tables_of_def)
  moreover have "load64 m' e = load64 m e" if e: "walk_entry m pml4 (indices va) = Some e" for e
  proof -
    obtain t where t: "t \<in> set (tables_of m pml4 va)" "e = entry t (last (indices va))"
      using walk_last_table [OF e] by (auto simp: b tables_of_def)
    have "unat (last (indices va)) < 512" using index_less [of "last (indices va)" va] by (simp add: indices_def)
    then show ?thesis using same_on_entry [of t m m'] assms t by auto
  qed
  ultimately show ?thesis by (auto simp: user_page_def split: option.split)
qed

lemma user_page_aligned: "user_page m pml4 va = Some p \<Longrightarrow> page_aligned p"
  by (auto simp: user_page_def PTE_ADDR_eq aligned_P2V split: option.splits if_splits)

lemma tables_same:
  assumes "\<forall>t \<in> set (walk_tables m t0 is). same_on t 4096 m m'" and "\<forall>i \<in> set is. unat i < 512"
  shows "walk_tables m' t0 is = walk_tables m t0 is"
  using assms
proof (induction m t0 "is" rule: walk_tables.induct)
  case (2 m t i js)
  have "load64 m (entry t i) = load64 m' (entry t i)" using "2.prems" by (intro same_on_entry) simp_all
  then have eq: "next_table m' (entry t i) = next_table m (entry t i)" by (simp add: next_table_def)
  show ?case
  proof (cases "next_table m (entry t i)")
    case (Some u)
    then show ?thesis using "2.IH" [OF Some] "2.prems" by (simp add: eq)
  qed (simp add: eq)
qed simp

lemma tables_of_same:
  assumes "\<forall>t \<in> set (tables_of m pml4 va). same_on t 4096 m m'"
  shows "tables_of m' pml4 va = tables_of m pml4 va"
  using assms index_less [of _ va] unfolding tables_of_def by (intro tables_same) (auto simp: indices_def)

lemma tables_aligned:
  "page_aligned t0 \<Longrightarrow> t \<in> set (walk_tables m t0 is) \<Longrightarrow> page_aligned t"
proof (induction m t0 "is" rule: walk_tables.induct)
  case (2 m t0 i js)
  show ?case
  proof (cases "next_table m (entry t0 i)")
    case (Some u)
    then show ?thesis using "2.IH" [OF Some] "2.prems" next_table_aligned [OF Some] by auto
  qed (use "2.prems" in simp)
qed simp

section \<open>User memory\<close>

text \<open>The kernel address of a byte of user memory.\<close>

definition phys :: "mem \<Rightarrow> addr_t \<Rightarrow> addr_t \<Rightarrow> addr_t option" where
  "phys m pml4 a = (case user_page m pml4 (PGROUNDDOWN a) of None \<Rightarrow> None
     | Some p \<Rightarrow> Some (p + (a - PGROUNDDOWN a)))"

text \<open>
  A range of user memory the kernel can copy to: every page of it is mapped for the user, to pages
  that are different from each other and from the tables the walks go through.
\<close>

definition range_pages_of :: "addr_t \<Rightarrow> nat \<Rightarrow> addr_t set" where
  "range_pages_of va n = (\<lambda>i. PGROUNDDOWN (va + of_nat i)) ` {0..<n}"

definition user_range :: "mem \<Rightarrow> addr_t \<Rightarrow> addr_t \<Rightarrow> nat \<Rightarrow> bool" where
  "user_range m pml4 va n \<longleftrightarrow> unat va + n \<le> 2 ^ 64 \<and> page_aligned pml4 \<and>
     (\<forall>v \<in> range_pages_of va n. user_page m pml4 v \<noteq> None \<and> user_page m pml4 v \<noteq> Some 0) \<and>
     (\<forall>v \<in> range_pages_of va n. \<forall>w \<in> range_pages_of va n. the (user_page m pml4 v) \<notin> set (tables_of m pml4 w)) \<and>
     inj_on (user_page m pml4) (range_pages_of va n)"

lemma page_off_add:
  assumes "i < 4096 - unat (va - PGROUNDDOWN va)"
  shows "PGROUNDDOWN (va + of_nat i) = PGROUNDDOWN va"
    and "va + of_nat i - PGROUNDDOWN va = va - PGROUNDDOWN va + of_nat i"
    and "unat (va - PGROUNDDOWN va + of_nat i) = unat (va - PGROUNDDOWN va) + i"
proof -
  let ?o = "va - PGROUNDDOWN va"
  have i: "unat (of_nat i :: addr_t) = i" using assms by (intro unat_of_nat_small) simp
  show o: "unat (?o + of_nat i) = unat ?o + i"
    using assms i by (subst unat_add_less) simp_all
  show eq: "va + of_nat i - PGROUNDDOWN va = ?o + of_nat i" by simp
  have "unat ?o + i < 4096" using assms by simp
  then show "PGROUNDDOWN (va + of_nat i) = PGROUNDDOWN va"
    using in_page_iff [of "PGROUNDDOWN va" "va + of_nat i"] o eq by simp
qed

lemma page_of_phys:
  assumes "page_aligned p" and "unat d < 4096"
  shows "PGROUNDDOWN (p + d) = p"
  using in_page_iff [OF assms(1), of "p + d"] assms(2) by simp

lemma user_range_mono:
  assumes "user_range m pml4 va n" and "k + j \<le> n"
  shows "user_range m pml4 (va + of_nat k) j"
proof (cases "j = 0")
  case True
  then show ?thesis
    using assms(1) unat_less_pow64 [of "va + of_nat k"] by (simp add: user_range_def range_pages_of_def)
next
  case False
  then have k: "k < n" using assms(2) by simp
  have "n \<le> 2 ^ 64" using assms(1) by (simp add: user_range_def)
  then have "unat (of_nat k :: addr_t) = k" using k by (intro unat_of_nat_small) simp
  moreover from this have "unat (va + of_nat k) = unat va + k"
    using assms(1) k by (subst unat_add_less) (simp_all add: user_range_def)
  moreover have "range_pages_of (va + of_nat k) j \<subseteq> range_pages_of va n"
  proof
    fix v assume "v \<in> range_pages_of (va + of_nat k) j"
    then obtain i where i: "i < j" "v = PGROUNDDOWN (va + of_nat k + of_nat i)" by (auto simp: range_pages_of_def)
    then have "v = PGROUNDDOWN (va + of_nat (k + i))" by (simp add: algebra_simps)
    moreover have "k + i \<in> {0..<n}" using i(1) assms(2) by simp
    ultimately show "v \<in> range_pages_of va n" unfolding range_pages_of_def by (rule image_eqI)
  qed
  ultimately show ?thesis
    using assms unfolding user_range_def by (auto intro: inj_on_subset)
qed

text \<open>A change of memory inside the user pages of the range leaves the walks as they were.\<close>

definition data_pages :: "mem \<Rightarrow> addr_t \<Rightarrow> addr_t \<Rightarrow> nat \<Rightarrow> addr_t set" where
  "data_pages m pml4 va n = (\<lambda>v. the (user_page m pml4 v)) ` range_pages_of va n"

lemma user_range_write:
  assumes "user_range m pml4 va n" and "\<And>x. PGROUNDDOWN x \<notin> data_pages m pml4 va n \<Longrightarrow> m' x = m x"
  shows "w \<in> range_pages_of va n \<Longrightarrow> user_page m' pml4 w = user_page m pml4 w"
    and "user_range m' pml4 va n"
proof -
  have *: "\<forall>t \<in> set (tables_of m pml4 w). same_on t 4096 m m'" if w: "w \<in> range_pages_of va n" for w
  proof
    fix t assume t: "t \<in> set (tables_of m pml4 w)"
    have "page_aligned pml4" using assms(1) by (simp add: user_range_def)
    then have al: "page_aligned t" using t unfolding tables_of_def by (rule tables_aligned)
    have "t \<notin> data_pages m pml4 va n" using assms(1) w t by (auto simp: user_range_def data_pages_def)
    then show "same_on t 4096 m m'" using assms(2) al by (auto simp: same_on_def in_page_iff)
  qed
  show u: "w \<in> range_pages_of va n \<Longrightarrow> user_page m' pml4 w = user_page m pml4 w" for w
    by (rule user_page_same [OF *])
  have t: "w \<in> range_pages_of va n \<Longrightarrow> tables_of m' pml4 w = tables_of m pml4 w" for w
    by (rule tables_of_same [OF *])
  show "user_range m' pml4 va n"
    using assms(1) u t by (auto simp: user_range_def inj_on_def)
qed

text \<open>What a copy of \<open>bs\<close> to the user address \<open>va\<close> does to memory.\<close>

definition user_put :: "mem \<Rightarrow> addr_t \<Rightarrow> addr_t \<Rightarrow> uchar list \<Rightarrow> mem \<Rightarrow> bool" where
  "user_put m pml4 va bs m' \<longleftrightarrow>
     (\<forall>i < length bs. m' (the (phys m pml4 (va + of_nat i))) = bs ! i) \<and>
     (\<forall>x. (\<forall>i < length bs. x \<noteq> the (phys m pml4 (va + of_nat i))) \<longrightarrow> m' x = m x)"

lemma phys_same:
  assumes "\<And>w. w \<in> range_pages_of va n \<Longrightarrow> user_page m' pml4 w = user_page m pml4 w" and "i < n"
  shows "phys m' pml4 (va + of_nat i) = phys m pml4 (va + of_nat i)"
proof -
  have "PGROUNDDOWN (va + of_nat i) \<in> range_pages_of va n" using assms(2) by (auto simp: range_pages_of_def)
  then show ?thesis using assms(1) by (simp add: phys_def)
qed

lemma phys_page:
  assumes "user_range m pml4 va n" and "i < n"
  shows "PGROUNDDOWN (the (phys m pml4 (va + of_nat i))) = the (user_page m pml4 (PGROUNDDOWN (va + of_nat i)))"
proof -
  have "PGROUNDDOWN (va + of_nat i) \<in> range_pages_of va n" using assms(2) by (auto simp: range_pages_of_def)
  then obtain p where p: "user_page m pml4 (PGROUNDDOWN (va + of_nat i)) = Some p"
    using assms(1) by (auto simp: user_range_def)
  then show ?thesis
    using page_of_phys [OF user_page_aligned [OF p] page_offset_less] by (simp add: phys_def)
qed

text \<open>Bytes in different pages of the range are in different pages of memory.\<close>

lemma phys_differs:
  assumes "user_range m pml4 va n" and "i < n" and "j < n"
    and "PGROUNDDOWN (va + of_nat i) \<noteq> PGROUNDDOWN (va + of_nat j)"
  shows "the (phys m pml4 (va + of_nat i)) \<noteq> the (phys m pml4 (va + of_nat j))"
proof -
  let ?p = "\<lambda>i. PGROUNDDOWN (va + of_nat i)"
  have r: "?p i \<in> range_pages_of va n" "?p j \<in> range_pages_of va n"
    using assms(2,3) by (auto simp: range_pages_of_def)
  then have "user_page m pml4 (?p i) \<noteq> user_page m pml4 (?p j)"
    using assms(1,4) by (auto simp: user_range_def dest: inj_onD)
  moreover have "user_page m pml4 (?p i) \<noteq> None" "user_page m pml4 (?p j) \<noteq> None"
    using assms(1) r by (auto simp: user_range_def)
  ultimately have "the (user_page m pml4 (?p i)) \<noteq> the (user_page m pml4 (?p j))" by auto
  then show ?thesis using phys_page [OF assms(1,2)] phys_page [OF assms(1,3)] by auto
qed

lemma user_put_keeps:
  assumes "user_range m pml4 va n" and "user_put m pml4 va bs m'" and "length bs \<le> n"
  shows "user_range m' pml4 va n" and "w \<in> range_pages_of va n \<Longrightarrow> user_page m' pml4 w = user_page m pml4 w"
    and "i < n \<Longrightarrow> phys m' pml4 (va + of_nat i) = phys m pml4 (va + of_nat i)"
proof -
  have out: "m' x = m x" if x: "PGROUNDDOWN x \<notin> data_pages m pml4 va n" for x
  proof -
    have "x \<noteq> the (phys m pml4 (va + of_nat i))" if i: "i < length bs" for i
    proof
      assume "x = the (phys m pml4 (va + of_nat i))"
      then have "PGROUNDDOWN x = the (user_page m pml4 (PGROUNDDOWN (va + of_nat i)))"
        using phys_page [OF assms(1)] i assms(3) by simp
      moreover have "PGROUNDDOWN (va + of_nat i) \<in> range_pages_of va n"
        using i assms(3) by (auto simp: range_pages_of_def)
      ultimately show False using x by (auto simp: data_pages_def)
    qed
    then show ?thesis using assms(2) by (auto simp: user_put_def)
  qed
  note w = user_range_write [OF assms(1) out]
  show "user_range m' pml4 va n" by (rule w(2))
  show "w \<in> range_pages_of va n \<Longrightarrow> user_page m' pml4 w = user_page m pml4 w" by (rule w(1))
  show "i < n \<Longrightarrow> phys m' pml4 (va + of_nat i) = phys m pml4 (va + of_nat i)"
    using w(1) by (rule phys_same)
qed

text \<open>The part of a copy that falls in one page.\<close>

lemma chunk_put:
  assumes "user_page m pml4 (PGROUNDDOWN va) = Some p" and "k \<le> 4096 - unat (va - PGROUNDDOWN va)" and "length bs = k"
  shows "user_put m pml4 va bs (write_bytes (p + (va - PGROUNDDOWN va)) bs m)"
proof -
  let ?o = "va - PGROUNDDOWN va"
  let ?m' = "write_bytes (p + ?o) bs m"
  have ph: "phys m pml4 (va + of_nat i) = Some (p + (?o + of_nat i))" if "i < k" for i
    using page_off_add [of i va] that assms(1,2) by (simp add: phys_def)
  have at: "?m' (p + (?o + of_nat i)) = bs ! i" if "i < k" for i
  proof -
    have "unat (of_nat i :: addr_t) = i" using that assms(2) by (intro unat_of_nat_small) simp
    then show ?thesis using that assms(3) by (simp add: write_bytes_def)
  qed
  have rest: "?m' x = m x" if "\<And>i. i < k \<Longrightarrow> x \<noteq> p + (?o + of_nat i)" for x
  proof (rule ccontr)
    assume "?m' x \<noteq> m x"
    then have "unat (x - (p + ?o)) < k" unfolding write_bytes_def assms(3) by metis
    then show False using that [of "unat (x - (p + ?o))"] by simp
  qed
  show ?thesis unfolding user_put_def assms(3) using ph at rest by auto
qed

text \<open>Two parts of a copy, in pages of their own, make one.\<close>

lemma user_put_append:
  assumes "user_put m pml4 va xs m1" and "user_put m1 pml4 (va + of_nat (length xs)) ys m2"
    and "\<And>i. i < length xs + length ys \<Longrightarrow> phys m1 pml4 (va + of_nat i) = phys m pml4 (va + of_nat i)"
    and "\<And>i j. i < length xs \<Longrightarrow> j < length ys \<Longrightarrow>
      the (phys m pml4 (va + of_nat i)) \<noteq> the (phys m pml4 (va + of_nat (length xs + j)))"
  shows "user_put m pml4 va (xs @ ys) m2"
proof -
  define a where "a i = va + of_nat i" for i
  have shift: "va + of_nat (length xs) + of_nat j = a (length xs + j)" for j by (simp add: a_def algebra_simps)
  note u1 = assms(1) [unfolded user_put_def, folded a_def]
  note u2 = assms(2) [unfolded user_put_def shift] and same = assms(3) [folded a_def]
  have keep: "m2 x = m1 x" if "\<And>j. j < length ys \<Longrightarrow> x \<noteq> the (phys m pml4 (a (length xs + j)))" for x
    using that u2 same by simp
  have "m2 (the (phys m pml4 (a i))) = (xs @ ys) ! i" if i: "i < length (xs @ ys)" for i
  proof (cases "i < length xs")
    case True
    then have "m2 (the (phys m pml4 (a i))) = m1 (the (phys m pml4 (a i)))"
      using assms(4) [folded a_def] by (intro keep)
    then show ?thesis using True u1 by (simp add: nth_append)
  next
    case False
    then obtain j where j: "i = length xs + j" "j < length ys" using i by (auto simp: le_iff_add not_less)
    then have "m2 (the (phys m1 pml4 (a i))) = ys ! j" using u2 by simp
    then show ?thesis using j same [of i] by (simp add: nth_append)
  qed
  moreover have "m2 x = m x" if x: "\<forall>i < length (xs @ ys). x \<noteq> the (phys m pml4 (a i))" for x
  proof -
    have "m2 x = m1 x" using x by (intro keep) simp
    also have "m1 x = m x" using u1 x by simp
    finally show ?thesis .
  qed
  ultimately show ?thesis unfolding user_put_def a_def by blast
qed

lemma next_page:
  assumes "unat va + n \<le> 2 ^ 64" and "k = 4096 - unat (va - PGROUNDDOWN va)" and "k < n"
  shows "PGROUNDDOWN va + PGSIZE = va + of_nat k"
    and "k + j < n \<Longrightarrow> PGROUNDDOWN (va + of_nat (k + j)) \<noteq> PGROUNDDOWN va"
proof -
  let ?v = "PGROUNDDOWN va" and ?o = "va - PGROUNDDOWN va"
  have o: "unat ?o < 4096" by (rule page_offset_less)
  have "of_nat (unat ?o + k) = (PGSIZE :: addr_t)" using assms(2) o by simp
  then have "?o + of_nat k = PGSIZE" by simp
  then show "?v + PGSIZE = va + of_nat k" by (simp add: algebra_simps)
  assume j: "k + j < n"
  have "unat (of_nat (k + j) :: addr_t) = k + j" using j assms(1) by (intro unat_of_nat_small) simp
  moreover have "?v \<le> va" by (simp add: word_le_nat_alt unat_pgrounddown)
  then have uo: "unat ?o = unat va - unat ?v" "unat ?v \<le> unat va" by (simp_all add: unat_sub word_le_nat_alt)
  ultimately have "unat (?o + of_nat (k + j)) = unat ?o + (k + j)"
    using j assms(1) by (subst unat_add_less) simp_all
  then have "\<not> unat (va + of_nat (k + j) - ?v) < 4096" using assms(2) o by (simp add: algebra_simps)
  then show "PGROUNDDOWN (va + of_nat (k + j)) \<noteq> ?v" by (simp add: in_page_iff)
qed

lemma copyout_loop_ok:
  assumes "user_range (k_mem s) pml4 va (length bs)"
  shows "\<exists>m'. copyout_loop pml4 va bs s = Ok (0, s\<lparr>k_mem := m'\<rparr>) \<and> user_put (k_mem s) pml4 va bs m'"
  using assms
proof (induction pml4 va bs s rule: copyout_loop.induct)
  case (1 pml4 va bs s)
  let ?m = "k_mem s" and ?n = "length bs" and ?v = "PGROUNDDOWN va"
  show ?case
  proof (cases "0 < ?n")
    case False
    then show ?thesis by (intro exI [of _ ?m]) (simp add: user_put_def copyout_loop.simps)
  next
    case True
    have v: "?v \<in> range_pages_of va ?n" using True by (auto simp: range_pages_of_def intro!: image_eqI [of _ _ 0])
    then obtain p where p: "user_page ?m pml4 ?v = Some p" "p \<noteq> 0" using "1.prems" by (auto simp: user_range_def)
    define k where "k = min (4096 - unat (va - ?v)) ?n"
    define m1 where "m1 = write_bytes (p + (va - ?v)) (take k bs) ?m"
    have len: "length (take k bs) = k" by (simp add: k_def)
    have put: "user_put ?m pml4 va (take k bs) m1"
      unfolding m1_def by (rule chunk_put [OF p(1) _ len]) (simp add: k_def)
    have "k \<le> ?n" by (simp add: k_def)
    note keep = user_put_keeps [OF "1.prems" put, unfolded len, OF this]
    have run: "copyout_loop pml4 va bs s = copyout_loop pml4 (?v + PGSIZE) (drop k bs) (s\<lparr>k_mem := m1\<rparr>)"
      using True p by (subst copyout_loop.simps) (simp add: uva2ka_user_page k_def m1_def Let_def)
    show ?thesis
    proof (cases "k < ?n")
      case False
      then have "k = ?n" by (simp add: k_def)
      then show ?thesis using put run by (intro exI [of _ m1]) (simp add: copyout_loop.simps)
    next
      case lt: True
      then have k: "k = 4096 - unat (va - ?v)" by (simp add: k_def)
      have w: "unat va + ?n \<le> 2 ^ 64" using "1.prems" by (simp add: user_range_def)
      note np = next_page [OF w k lt]
      have "user_range (k_mem (s\<lparr>k_mem := m1\<rparr>)) pml4 (?v + PGSIZE) (length (drop k bs))"
        unfolding np(1) using lt user_range_mono [OF keep(1), of k "?n - k"] by simp
      then obtain m' where m': "copyout_loop pml4 (?v + PGSIZE) (drop k bs) (s\<lparr>k_mem := m1\<rparr>) = Ok (0, s\<lparr>k_mem := m'\<rparr>)"
          "user_put m1 pml4 (va + of_nat (length (take k bs))) (drop k bs) m'"
        using "1.IH" [OF True refl uva2ka_user_page [OF p(1)] refl p(2) k_def, of "s\<lparr>k_mem := m1\<rparr>"]
        unfolding len np(1) by (auto simp: m1_def)
      have "user_put ?m pml4 va (take k bs @ drop k bs) m'"
      proof (rule user_put_append [OF put m'(2)])
        fix i assume "i < length (take k bs) + length (drop k bs)"
        then show "phys m1 pml4 (va + of_nat i) = phys ?m pml4 (va + of_nat i)" using lt by (intro keep(3)) simp
      next
        fix i j assume i: "i < length (take k bs)" and j: "j < length (drop k bs)"
        have kj: "k + j < ?n" using j by simp
        have "PGROUNDDOWN (va + of_nat i) = ?v" using i k len page_off_add(1) [of i va] by simp
        then show "the (phys ?m pml4 (va + of_nat i)) \<noteq> the (phys ?m pml4 (va + of_nat (length (take k bs) + j)))"
          using i kj len np(2) [OF kj] by (intro phys_differs [OF "1.prems"]) (auto simp del: of_nat_add)
      qed
      then show ?thesis using run m'(1) by auto
    qed
  qed
qed

lemma copyout_ok:
  "user_range (k_mem s) pml4 va (length bs) \<Longrightarrow>
     \<exists>m'. copyout pml4 va bs s = Ok (0, s\<lparr>k_mem := m'\<rparr>) \<and> user_put (k_mem s) pml4 va bs m'"
  unfolding copyout_def by (rule copyout_loop_ok)

text \<open>C5: \<open>copyout\<close> delivers.  When every page of the target range is mapped for the user, to pages of its
  own, \<open>copyout\<close> returns 0, each byte of the user range reads back as the byte that was copied, however
  many pages the range spans, and no other byte of memory has changed.\<close>

theorem copyout_delivers:
  assumes "user_range (k_mem s) pgdir va (length bs)"
  shows "\<exists>m'. copyout pgdir va bs s = Ok (0, s\<lparr>k_mem := m'\<rparr>) \<and>
    (\<forall>i < length bs. \<exists>a. phys m' pgdir (va + of_nat i) = Some a \<and> m' a = bs ! i) \<and>
    (\<forall>x. (\<forall>i < length bs. phys (k_mem s) pgdir (va + of_nat i) \<noteq> Some x) \<longrightarrow> m' x = k_mem s x)"
proof -
  let ?m = "k_mem s"
  obtain m' where m': "copyout pgdir va bs s = Ok (0, s\<lparr>k_mem := m'\<rparr>)" "user_put ?m pgdir va bs m'"
    using copyout_ok [OF assms] by blast
  have ph: "phys ?m pgdir (va + of_nat i) = Some (the (phys ?m pgdir (va + of_nat i)))" if "i < length bs" for i
  proof -
    have "PGROUNDDOWN (va + of_nat i) \<in> range_pages_of va (length bs)" using that by (auto simp: range_pages_of_def)
    then show ?thesis using assms by (auto simp: user_range_def phys_def)
  qed
  have "\<exists>a. phys m' pgdir (va + of_nat i) = Some a \<and> m' a = bs ! i" if i: "i < length bs" for i
    using user_put_keeps(3) [OF assms m'(2) order_refl i] ph [OF i] m'(2) i by (auto simp: user_put_def)
  moreover have "m' x = ?m x" if "\<forall>i < length bs. phys ?m pgdir (va + of_nat i) \<noteq> Some x" for x
    using m'(2) that ph unfolding user_put_def by metis
  ultimately show ?thesis using m'(1) by auto
qed

text \<open>A page table with two adjacent user pages, for examples.\<close>

definition two_pages :: mem where
  "two_pages =
     store64 (KERNBASE + 0x1000) 0x2007 (store64 (KERNBASE + 0x2000) 0x3007 (store64 (KERNBASE + 0x3000) 0x4007
       (store64 (KERNBASE + 0x4008) 0x6007 (store64 (KERNBASE + 0x4010) 0x5007 (\<lambda>_. 0)))))"

lemma two_pages_loads:
  "load64 two_pages (KERNBASE + 0x1000) = 0x2007" "load64 two_pages (KERNBASE + 0x2000) = 0x3007"
  "load64 two_pages (KERNBASE + 0x3000) = 0x4007" "load64 two_pages (KERNBASE + 0x4008) = 0x6007"
  "load64 two_pages (KERNBASE + 0x4010) = 0x5007"
  by (simp_all add: two_pages_def load_store64 load_store64_other)

lemmas index_simps = PMX_def PDPX_def PDX_def PTX_def entry_def P2V_def PTE_ADDR_def

lemma two_pages_range: "user_range two_pages (KERNBASE + 0x1000) 0x1FFE 4"
proof -
  have "{0..<4 :: nat} = {0, 1, 2, 3}" by auto
  then have r: "range_pages_of 0x1FFE 4 = {0x1000, 0x2000}" by (simp add: range_pages_of_def PGROUNDDOWN_def)
  have u: "user_page two_pages (KERNBASE + 0x1000) 0x1000 = Some (KERNBASE + 0x6000)"
      "user_page two_pages (KERNBASE + 0x1000) 0x2000 = Some (KERNBASE + 0x5000)"
    by (simp_all add: user_page_def indices_def next_table_def two_pages_loads [simplified] index_simps)
  have t: "tables_of two_pages (KERNBASE + 0x1000) 0x1000 = map ((+) KERNBASE) [0x1000, 0x2000, 0x3000, 0x4000]"
      "tables_of two_pages (KERNBASE + 0x1000) 0x2000 = map ((+) KERNBASE) [0x1000, 0x2000, 0x3000, 0x4000]"
    by (simp_all add: tables_of_def next_table_def two_pages_loads [simplified] index_simps)
  show ?thesis unfolding user_range_def r by (simp add: u [simplified] t [simplified] page_aligned_def)
qed

theorem copyout_delivers_witness:
  "\<exists>m'. copyout (KERNBASE + 0x1000) 0x1FFE [1, 2, 3, 4] ((boot_mkernel ())\<lparr>k_mem := two_pages\<rparr>) =
     Ok (0, (boot_mkernel ())\<lparr>k_mem := m'\<rparr>) \<and>
    (\<exists>a. phys m' (KERNBASE + 0x1000) 0x2001 = Some a \<and> m' a = 4)"
proof -
  let ?s = "(boot_mkernel ())\<lparr>k_mem := two_pages\<rparr>"
  have "user_range (k_mem ?s) (KERNBASE + 0x1000) 0x1FFE (length [1, 2, 3, 4 :: uchar])"
    using two_pages_range by (simp add: numeral_eq_Suc)
  from copyout_delivers [OF this] obtain m' where
    m': "copyout (KERNBASE + 0x1000) 0x1FFE [1, 2, 3, 4] ?s = Ok (0, ?s\<lparr>k_mem := m'\<rparr>)"
      "\<forall>i < length [1, 2, 3, 4 :: uchar]. \<exists>a. phys m' (KERNBASE + 0x1000) (0x1FFE + of_nat i) = Some a \<and>
         m' a = [1, 2, 3, 4] ! i"
    by blast
  have "\<exists>a. phys m' (KERNBASE + 0x1000) 0x2001 = Some a \<and> m' a = 4" using m'(2) [rule_format, of 3] by simp
  then show ?thesis using m'(1) by auto
qed

section \<open>A machine that has just started\<close>

definition boot_vkernel :: "nat \<Rightarrow> 'a \<Rightarrow> 'a vkernel_scheme" where
  "boot_vkernel D x = boot_lkernel D \<lparr>k_kpml4 = 0, k_kpdpt = 0, k_cr3 = 0, \<dots> = x\<rparr>"

end
