(* ===== verification/Inode.thy ===== *)
theory Inode
  imports Vm
begin

text \<open>
  The lower half of \<^verbatim>\<open>fs.c\<close>: the block allocator and the inode layer, over the log and the buffer
  cache. An in-memory inode is an entry of the inode cache; a pointer to it is its index.
\<close>

section \<open>On-disk structures\<close>

abbreviation (input) ROOTINO :: uint where "ROOTINO \<equiv> 1"
abbreviation (input) IPB :: nat where "IPB \<equiv> 8"
abbreviation (input) BPB :: nat where "BPB \<equiv> 4096"
abbreviation (input) T_DIR :: ushort where "T_DIR \<equiv> 1"
abbreviation (input) T_FILE :: ushort where "T_FILE \<equiv> 2"
abbreviation (input) T_DEV :: ushort where "T_DEV \<equiv> 3"

definition IBLOCK :: "uint \<Rightarrow> superblock \<Rightarrow> uint" where
  "IBLOCK i sb = i div 8 + sb_inodestart sb"

definition BBLOCK :: "uint \<Rightarrow> superblock \<Rightarrow> uint" where
  "BBLOCK b sb = b div 4096 + sb_bmapstart sb"

record dinode =
  d_type :: ushort
  d_major :: ushort
  d_minor :: ushort
  d_nlink :: ushort
  d_size :: uint
  d_addrs :: "uint list"

text \<open>A \<open>struct dinode\<close> is 64 bytes; inode \<open>inum\<close> is number \<open>inum % IPB\<close> of its block.\<close>

definition dinode_off :: "uint \<Rightarrow> nat" where
  "dinode_off inum = 64 * (unat inum mod IPB)"

definition get_dinode :: "uchar list \<Rightarrow> nat \<Rightarrow> dinode" where
  "get_dinode d off = \<lparr>d_type = get16 d off, d_major = get16 d (off + 2), d_minor = get16 d (off + 4),
     d_nlink = get16 d (off + 6), d_size = get32 d (off + 8),
     d_addrs = map (\<lambda>i. get32 d (off + 12 + 4 * i)) [0..<NDIRECT + 1]\<rparr>"

primrec put_words :: "nat \<Rightarrow> uint list \<Rightarrow> uchar list \<Rightarrow> uchar list" where
  "put_words off [] d = d"
| "put_words off (w # ws) d = put_words (off + 4) ws (put32 off w d)"

definition put_dinode :: "nat \<Rightarrow> dinode \<Rightarrow> uchar list \<Rightarrow> uchar list" where
  "put_dinode off x d =
     put_words (off + 12) (d_addrs x) (put32 (off + 8) (d_size x) (put16 (off + 6) (d_nlink x)
       (put16 (off + 4) (d_minor x) (put16 (off + 2) (d_major x) (put16 off (d_type x) d)))))"

section \<open>State\<close>

record inode =
  i_dev :: uint
  i_inum :: uint
  i_ref :: cint
  i_lock :: sleeplock
  i_valid :: bool
  i_type :: ushort
  i_major :: ushort
  i_minor :: ushort
  i_nlink :: ushort
  i_size :: uint
  i_addrs :: "uint list"

record ikernel = vkernel +
  k_sb :: superblock
  k_iclock :: spinlock
  k_inodes :: "inode list"

definition upd_inode :: "nat \<Rightarrow> (inode \<Rightarrow> inode) \<Rightarrow> 'a ikernel_scheme \<Rightarrow> 'a ikernel_scheme" where
  "upd_inode ip f s = s\<lparr>k_inodes := (k_inodes s)[ip := f (k_inodes s ! ip)]\<rparr>"

definition acquire_ic :: "'a ikernel_scheme \<Rightarrow> 'a ikernel_scheme outcome" where
  "acquire_ic s = andthen (acquire (k_cpu s) (k_iclock s)) (\<lambda>(c, lk). Ok (s\<lparr>k_cpu := c, k_iclock := lk\<rparr>))"

definition release_ic :: "'a ikernel_scheme \<Rightarrow> 'a ikernel_scheme outcome" where
  "release_ic s = andthen (release (k_cpu s) (k_iclock s)) (\<lambda>(c, lk). Ok (s\<lparr>k_cpu := c, k_iclock := lk\<rparr>))"

text \<open>The bytes of a held buffer.\<close>

definition bdata :: "nat \<Rightarrow> 'a bkernel_scheme \<Rightarrow> uchar list" where
  "bdata bp s = b_data (k_bufs s ! bp)"

section \<open>Blocks\<close>

definition bzero :: "uint \<Rightarrow> uint \<Rightarrow> 'a lkernel_scheme \<Rightarrow> 'a lkernel_scheme outcome" where
  "bzero dev bno s =
     andthen (bread dev bno s) (\<lambda>(bp, s).
     let s = set_data bp (replicate BSIZE 0) s in
     andthen (log_write bp s) (brelse bp))"

text \<open>The inner loop of \<open>balloc\<close>: the first clear bit among the given ones.\<close>

primrec free_bit :: "uchar list \<Rightarrow> nat list \<Rightarrow> nat option" where
  "free_bit d [] = None"
| "free_bit d (bi # bis) =
     (if d ! (bi div 8) AND push_bit (bi mod 8) 1 = 0 then Some bi else free_bit d bis)"

definition set_bit_in :: "nat \<Rightarrow> uchar list \<Rightarrow> uchar list" where
  "set_bit_in bi d = d[bi div 8 := d ! (bi div 8) OR push_bit (bi mod 8) 1]"

definition clear_bit_in :: "nat \<Rightarrow> uchar list \<Rightarrow> uchar list" where
  "clear_bit_in bi d = d[bi div 8 := d ! (bi div 8) AND NOT (push_bit (bi mod 8) 1)]"

primrec balloc_loop :: "uint \<Rightarrow> nat list \<Rightarrow> 'a ikernel_scheme \<Rightarrow> (uint \<times> 'a ikernel_scheme) outcome" where
  "balloc_loop dev [] s = Panic ''balloc: out of blocks''"
| "balloc_loop dev (b # bs) s =
     andthen (bread dev (BBLOCK (of_nat b) (k_sb s)) s) (\<lambda>(bp, s).
     case free_bit (bdata bp s) [0..<min BPB (unat (sb_size (k_sb s)) - b)] of
       Some bi \<Rightarrow>
         let s = set_data bp (set_bit_in bi (bdata bp s)) s in
         andthen (log_write bp s) (\<lambda>s.
         andthen (brelse bp s) (\<lambda>s.
         andthen (bzero dev (of_nat (b + bi)) s) (\<lambda>s. Ok (of_nat (b + bi), s))))
     | None \<Rightarrow> andthen (brelse bp s) (balloc_loop dev bs))"

text \<open>\<open>b\<close> runs over the multiples of \<open>BPB\<close> below \<open>sb.size\<close>.\<close>

definition balloc :: "uint \<Rightarrow> 'a ikernel_scheme \<Rightarrow> (uint \<times> 'a ikernel_scheme) outcome" where
  "balloc dev s =
     balloc_loop dev (map (\<lambda>k. k * BPB) [0..<(unat (sb_size (k_sb s)) + (BPB - 1)) div BPB]) s"

definition bfree :: "uint \<Rightarrow> uint \<Rightarrow> 'a ikernel_scheme \<Rightarrow> 'a ikernel_scheme outcome" where
  "bfree dev b s =
     andthen (readsb dev s) (\<lambda>(sb, s).
     let s = s\<lparr>k_sb := sb\<rparr> in
     andthen (bread dev (BBLOCK b (k_sb s)) s) (\<lambda>(bp, s).
     let bi = unat b mod BPB in
     if bdata bp s ! (bi div 8) AND push_bit (bi mod 8) 1 = 0 then Panic ''freeing free block''
     else let s = set_data bp (clear_bit_in bi (bdata bp s)) s in
       andthen (log_write bp s) (brelse bp)))"

section \<open>Inodes\<close>

definition iinit :: "uint \<Rightarrow> 'a ikernel_scheme \<Rightarrow> 'a ikernel_scheme outcome" where
  "iinit dev s =
     (let s = s\<lparr>k_iclock := initlock, k_inodes := map (\<lambda>ip. ip\<lparr>i_lock := initsleeplock\<rparr>) (k_inodes s)\<rparr>
      in andthen (readsb dev s) (\<lambda>(sb, s). Ok (s\<lparr>k_sb := sb\<rparr>)))"

definition iget :: "uint \<Rightarrow> uint \<Rightarrow> 'a ikernel_scheme \<Rightarrow> (nat \<times> 'a ikernel_scheme) outcome" where
  "iget dev inum s =
     andthen (acquire_ic s) (\<lambda>s.
     let I = k_inodes s in
     case find (\<lambda>ip. sint (i_ref (I ! ip)) > 0 \<and> i_dev (I ! ip) = dev \<and> i_inum (I ! ip) = inum) [0..<NINODE] of
       Some ip \<Rightarrow>
         let s = upd_inode ip (\<lambda>x. x\<lparr>i_ref := i_ref x + 1\<rparr>) s in
         andthen (release_ic s) (\<lambda>s. Ok (ip, s))
     | None \<Rightarrow>
         (case find (\<lambda>ip. i_ref (I ! ip) = 0) [0..<NINODE] of
            None \<Rightarrow> Panic ''iget: no inodes''
          | Some ip \<Rightarrow>
              let s = upd_inode ip (\<lambda>x. x\<lparr>i_dev := dev, i_inum := inum, i_ref := 1, i_valid := False\<rparr>) s in
              andthen (release_ic s) (\<lambda>s. Ok (ip, s))))"

definition idup :: "nat \<Rightarrow> 'a ikernel_scheme \<Rightarrow> (nat \<times> 'a ikernel_scheme) outcome" where
  "idup ip s =
     andthen (acquire_ic s) (\<lambda>s.
     let s = upd_inode ip (\<lambda>x. x\<lparr>i_ref := i_ref x + 1\<rparr>) s in
     andthen (release_ic s) (\<lambda>s. Ok (ip, s)))"

text \<open>The loop of \<open>ialloc\<close> over the inode numbers from 1 on.\<close>

primrec ialloc_loop :: "uint \<Rightarrow> ushort \<Rightarrow> nat list \<Rightarrow> 'a ikernel_scheme \<Rightarrow> (nat \<times> 'a ikernel_scheme) outcome" where
  "ialloc_loop dev type [] s = Panic ''ialloc: no inodes''"
| "ialloc_loop dev type (i # is) s =
     (let inum = of_nat i; off = dinode_off inum in
      andthen (bread dev (IBLOCK inum (k_sb s)) s) (\<lambda>(bp, s).
      if d_type (get_dinode (bdata bp s) off) = 0 then
        let d = bdata bp s;
            s = set_data bp (put16 off type (take off d @ replicate 64 0 @ drop (off + 64) d)) s
        in andthen (log_write bp s) (\<lambda>s.
           andthen (brelse bp s) (iget dev inum))
      else andthen (brelse bp s) (ialloc_loop dev type is)))"

definition ialloc :: "uint \<Rightarrow> ushort \<Rightarrow> 'a ikernel_scheme \<Rightarrow> (nat \<times> 'a ikernel_scheme) outcome" where
  "ialloc dev type s = ialloc_loop dev type [1..<unat (sb_ninodes (k_sb s))] s"

definition to_dinode :: "inode \<Rightarrow> dinode" where
  "to_dinode x = \<lparr>d_type = i_type x, d_major = i_major x, d_minor = i_minor x, d_nlink = i_nlink x,
     d_size = i_size x, d_addrs = i_addrs x\<rparr>"

definition from_dinode :: "dinode \<Rightarrow> inode \<Rightarrow> inode" where
  "from_dinode d x = x\<lparr>i_type := d_type d, i_major := d_major d, i_minor := d_minor d,
     i_nlink := d_nlink d, i_size := d_size d, i_addrs := d_addrs d\<rparr>"

definition iupdate :: "nat \<Rightarrow> 'a ikernel_scheme \<Rightarrow> 'a ikernel_scheme outcome" where
  "iupdate ip s =
     (let x = k_inodes s ! ip in
      andthen (bread (i_dev x) (IBLOCK (i_inum x) (k_sb s)) s) (\<lambda>(bp, s).
      let s = set_data bp (put_dinode (dinode_off (i_inum x)) (to_dinode x) (bdata bp s)) s in
      andthen (log_write bp s) (brelse bp)))"

definition ilock :: "nat option \<Rightarrow> 'a ikernel_scheme \<Rightarrow> 'a ikernel_scheme outcome" where
  "ilock ip s =
     (case ip of None \<Rightarrow> Panic ''ilock'' | Some ip \<Rightarrow>
      if sint (i_ref (k_inodes s ! ip)) < 1 then Panic ''ilock''
      else andthen (acquiresleep (i_lock (k_inodes s ! ip)) s) (\<lambda>(lk, s).
        let s = upd_inode ip (\<lambda>x. x\<lparr>i_lock := lk\<rparr>) s; x = k_inodes s ! ip in
        if i_valid x then Ok s
        else andthen (bread (i_dev x) (IBLOCK (i_inum x) (k_sb s)) s) (\<lambda>(bp, s).
          let s = upd_inode ip (from_dinode (get_dinode (bdata bp s) (dinode_off (i_inum x)))) s in
          andthen (brelse bp s) (\<lambda>s.
          let s = upd_inode ip (\<lambda>x. x\<lparr>i_valid := True\<rparr>) s in
          if i_type (k_inodes s ! ip) = 0 then Panic ''ilock: no type'' else Ok s))))"

definition iunlock :: "nat option \<Rightarrow> 'a ikernel_scheme \<Rightarrow> 'a ikernel_scheme outcome" where
  "iunlock ip s =
     (case ip of None \<Rightarrow> Panic ''iunlock'' | Some ip \<Rightarrow>
      andthen (holdingsleep (i_lock (k_inodes s ! ip)) s) (\<lambda>(r, lk, s).
      let s = upd_inode ip (\<lambda>x. x\<lparr>i_lock := lk\<rparr>) s in
      if \<not> r \<or> sint (i_ref (k_inodes s ! ip)) < 1 then Panic ''iunlock''
      else andthen (releasesleep (InodeLockChan ip) (i_lock (k_inodes s ! ip)) s) (\<lambda>(lk, s).
        Ok (upd_inode ip (\<lambda>x. x\<lparr>i_lock := lk\<rparr>) s))))"

section \<open>Inode content\<close>

text \<open>
  \<open>bmap\<close>. In the indirect case the address \<open>a[bn]\<close> is written into the buffer after \<open>balloc\<close> has
  returned, with the indirect block held all along.
\<close>

definition bmap :: "nat \<Rightarrow> uint \<Rightarrow> 'a ikernel_scheme \<Rightarrow> (uint \<times> 'a ikernel_scheme) outcome" where
  "bmap ip bn s =
     (let x = k_inodes s ! ip in
      if bn < 12 then
        let addr = i_addrs x ! unat bn in
        if addr = 0 then
          andthen (balloc (i_dev x) s) (\<lambda>(addr, s).
          Ok (addr, upd_inode ip (\<lambda>x. x\<lparr>i_addrs := (i_addrs x)[unat bn := addr]\<rparr>) s))
        else Ok (addr, s)
      else let bn = bn - 12 in
        if bn < 128 then
          andthen
            (if i_addrs x ! NDIRECT = 0 then
               andthen (balloc (i_dev x) s) (\<lambda>(addr, s).
               Ok (addr, upd_inode ip (\<lambda>x. x\<lparr>i_addrs := (i_addrs x)[NDIRECT := addr]\<rparr>) s))
             else Ok (i_addrs x ! NDIRECT, s))
            (\<lambda>(addr, s).
             andthen (bread (i_dev x) addr s) (\<lambda>(bp, s).
             let addr = get32 (bdata bp s) (4 * unat bn) in
             andthen
               (if addr = 0 then
                  andthen (balloc (i_dev x) s) (\<lambda>(addr, s).
                  let s = set_data bp (put32 (4 * unat bn) addr (bdata bp s)) s in
                  andthen (log_write bp s) (\<lambda>s. Ok (addr, s)))
                else Ok (addr, s))
               (\<lambda>(addr, s). andthen (brelse bp s) (\<lambda>s. Ok (addr, s)))))
        else Panic ''bmap: out of range'')"

primrec itrunc_direct :: "nat \<Rightarrow> nat list \<Rightarrow> 'a ikernel_scheme \<Rightarrow> 'a ikernel_scheme outcome" where
  "itrunc_direct ip [] s = Ok s"
| "itrunc_direct ip (i # is) s =
     (let x = k_inodes s ! ip in
      andthen
        (if i_addrs x ! i \<noteq> 0 then
           andthen (bfree (i_dev x) (i_addrs x ! i) s) (\<lambda>s.
           Ok (upd_inode ip (\<lambda>x. x\<lparr>i_addrs := (i_addrs x)[i := 0]\<rparr>) s))
         else Ok s)
        (itrunc_direct ip is))"

primrec itrunc_indirect :: "uint \<Rightarrow> nat \<Rightarrow> nat list \<Rightarrow> 'a ikernel_scheme \<Rightarrow> 'a ikernel_scheme outcome" where
  "itrunc_indirect dev bp [] s = Ok s"
| "itrunc_indirect dev bp (j # js) s =
     (let a = get32 (bdata bp s) (4 * j) in
      andthen (if a \<noteq> 0 then bfree dev a s else Ok s) (itrunc_indirect dev bp js))"

definition itrunc :: "nat \<Rightarrow> 'a ikernel_scheme \<Rightarrow> 'a ikernel_scheme outcome" where
  "itrunc ip s =
     andthen (itrunc_direct ip [0..<NDIRECT] s) (\<lambda>s.
     let x = k_inodes s ! ip in
     andthen
       (if i_addrs x ! NDIRECT \<noteq> 0 then
          andthen (bread (i_dev x) (i_addrs x ! NDIRECT) s) (\<lambda>(bp, s).
          andthen (itrunc_indirect (i_dev x) bp [0..<NINDIRECT] s) (\<lambda>s.
          andthen (brelse bp s) (\<lambda>s.
          andthen (bfree (i_dev x) (i_addrs x ! NDIRECT) s) (\<lambda>s.
          Ok (upd_inode ip (\<lambda>x. x\<lparr>i_addrs := (i_addrs x)[NDIRECT := 0]\<rparr>) s)))))
        else Ok s)
       (\<lambda>s. iupdate ip (upd_inode ip (\<lambda>x. x\<lparr>i_size := 0\<rparr>) s)))"

definition iput :: "nat \<Rightarrow> 'a ikernel_scheme \<Rightarrow> 'a ikernel_scheme outcome" where
  "iput ip s =
     andthen (acquire_ic s) (\<lambda>s.
     let x = k_inodes s ! ip in
     andthen
       (if i_ref x = 1 \<and> i_valid x \<and> i_nlink x = 0 then
          andthen (release_ic s) (\<lambda>s.
          andthen (itrunc ip s) (\<lambda>s.
          andthen (iupdate ip (upd_inode ip (\<lambda>x. x\<lparr>i_type := 0\<rparr>) s)) (\<lambda>s.
          andthen (acquire_ic s) (\<lambda>s.
          Ok (upd_inode ip (\<lambda>x. x\<lparr>i_valid := False\<rparr>) s)))))
        else Ok s)
       (\<lambda>s. release_ic (upd_inode ip (\<lambda>x. x\<lparr>i_ref := i_ref x - 1\<rparr>) s)))"

definition iunlockput :: "nat \<Rightarrow> 'a ikernel_scheme \<Rightarrow> 'a ikernel_scheme outcome" where
  "iunlockput ip s = andthen (iunlock (Some ip) s) (iput ip)"

record stat =
  st_type :: ushort
  st_dev :: cint
  st_ino :: uint
  st_nlink :: ushort
  st_size :: uint

definition stati :: "nat \<Rightarrow> 'a ikernel_scheme \<Rightarrow> stat" where
  "stati ip s = (let x = k_inodes s ! ip in
     \<lparr>st_type = i_type x, st_dev = i_dev x, st_ino = i_inum x, st_nlink = i_nlink x, st_size = i_size x\<rparr>)"

section \<open>Locking an inode that is in the cache\<close>

text \<open>An inode whose content is loaded and whose lock a process holds, or nobody.\<close>

definition inode_at :: "bool \<Rightarrow> nat \<Rightarrow> 'a ikernel_scheme \<Rightarrow> bool" where
  "inode_at locked ip s \<longleftrightarrow> ip < length (k_inodes s) \<and>
     (let x = k_inodes s ! ip in sl_quiet (i_lock x) \<and> sl_locked (i_lock x) = locked \<and> 1 \<le> sint (i_ref x) \<and> i_valid x)"

definition set_ilock :: "nat \<Rightarrow> bool \<Rightarrow> cint \<Rightarrow> 'a ikernel_scheme \<Rightarrow> 'a ikernel_scheme" where
  "set_ilock ip b pid = upd_inode ip (\<lambda>x. x\<lparr>i_lock := (i_lock x)\<lparr>sl_locked := b, sl_pid := pid\<rparr>\<rparr>)"

lemma upd_inode_id: "f (k_inodes s ! ip) = k_inodes s ! ip \<Longrightarrow> upd_inode ip f s = s"
  by (simp add: upd_inode_def)

lemma iunlock_ok [lock_simps]:
  assumes "pt_quiet s" and "inode_at True ip s"
  shows "iunlock (Some ip) s = Ok (set_ilock ip False 0 (wakeup1 (InodeLockChan ip) s))"
proof -
  let ?x = "k_inodes s ! ip"
  have x: "sl_quiet (i_lock ?x)" "sl_locked (i_lock ?x)" "\<not> sint (i_ref ?x) < 1"
    using assms(2) by (simp_all add: inode_at_def Let_def)
  have id: "upd_inode ip (\<lambda>x. x\<lparr>i_lock := i_lock ?x\<rparr>) s = s" by (rule upd_inode_id) simp
  have "cpu_settled (k_cpu s)" using assms(1) by (simp add: pt_quiet_def)
  then show ?thesis
    using x assms(1) by (simp add: iunlock_def lock_simps id) (simp add: set_ilock_def upd_inode_def wakeup1_def)
qed

lemma ilock_ok [lock_simps]:
  assumes "cpu_settled (k_cpu s)" and "k_proc s = Some i" and "inode_at False ip s"
  shows "ilock (Some ip) s = Ok (set_ilock ip True (p_pid (k_procs s ! i)) s)"
proof -
  let ?x = "k_inodes s ! ip"
  have x: "sl_quiet (i_lock ?x)" "\<not> sl_locked (i_lock ?x)" "\<not> sint (i_ref ?x) < 1" "i_valid ?x" "ip < length (k_inodes s)"
    using assms(3) by (simp_all add: inode_at_def Let_def)
  then show ?thesis
    using assms(1,2) by (simp add: ilock_def lock_simps) (simp add: set_ilock_def upd_inode_def)
qed

lemma set_ilock_at:
  "inode_at b ip s \<Longrightarrow> inode_at c ip (set_ilock ip c pid s)"
  by (simp add: inode_at_def set_ilock_def upd_inode_def Let_def sl_quiet_def)

section \<open>A machine that has just started\<close>

definition boot_inode :: inode where
  "boot_inode = \<lparr>i_dev = 0, i_inum = 0, i_ref = 0, i_lock = initsleeplock, i_valid = False, i_type = 0,
     i_major = 0, i_minor = 0, i_nlink = 0, i_size = 0, i_addrs = replicate (NDIRECT + 1) 0\<rparr>"

definition boot_sb :: superblock where
  "boot_sb = \<lparr>sb_size = 0, sb_nblocks = 0, sb_ninodes = 0, sb_nlog = 0, sb_logstart = 0, sb_inodestart = 0,
     sb_bmapstart = 0\<rparr>"

definition boot_ikernel :: "nat \<Rightarrow> 'a \<Rightarrow> 'a ikernel_scheme" where
  "boot_ikernel D x = boot_vkernel D \<lparr>k_sb = boot_sb, k_iclock = initlock,
     k_inodes = replicate NINODE boot_inode, \<dots> = x\<rparr>"

end
