(* ===== verification/Print.thy ===== *)
theory Print
  imports Prelude
begin

text \<open>
  The number formats of the two formatted printers, \<open>cprintf\<close> (\<^verbatim>\<open>console.c\<close>) and \<open>printf\<close>
  (\<^verbatim>\<open>printf.c\<close>), which have the same text but for where a character goes.
\<close>

definition digits :: "uchar list" where
  "digits = cstr ''0123456789abcdef''"

text \<open>The characters of the three number formats; each loop prints them one by one.\<close>

primrec hex_loop :: "nat \<Rightarrow> 'a::len word \<Rightarrow> uchar list" where
  "hex_loop 0 x = []"
| "hex_loop (Suc n) x = digits ! unat (drop_bit (LENGTH('a) - 4) x) # hex_loop n (push_bit 4 x)"

definition print_x64 :: "addr_t \<Rightarrow> uchar list" where
  "print_x64 x = hex_loop 16 x"

definition print_x32 :: "uint \<Rightarrow> uchar list" where
  "print_x32 x = hex_loop 8 x"

text \<open>The digits of \<open>print_d\<close>, last one first, as it stores them in \<open>buf\<close>.\<close>

function dec_loop :: "nat \<Rightarrow> uchar list" where
  "dec_loop x = digits ! (x mod 10) # (if x div 10 \<noteq> 0 then dec_loop (x div 10) else [])"
  by pat_completeness auto

termination
  by (relation "measure id") (auto simp: div_eq_0_iff)

declare dec_loop.simps [simp del]

definition print_d :: "cint \<Rightarrow> uchar list" where
  "print_d v = rev (dec_loop (nat \<bar>sint v\<bar>) @ (if sint v < 0 then cstr ''-'' else []))"

section \<open>Facts\<close>

lemma digits_nth: "k < 10 \<Longrightarrow> digits ! k = of_nat (48 + k)"
proof -
  have "list_all (\<lambda>k. digits ! k = of_nat (48 + k)) [0..<10]" by code_simp
  then show "k < 10 \<Longrightarrow> digits ! k = of_nat (48 + k)" by (simp add: list_all_iff)
qed

lemma dec_loop_length: "x < 10 ^ Suc k \<Longrightarrow> length (dec_loop x) \<le> Suc k"
proof (induction k arbitrary: x)
  case (Suc k)
  then have "x div 10 < 10 ^ Suc k" by (simp add: div_less_iff_less_mult mult.commute)
  then show ?case using Suc.IH [of "x div 10"] by (simp add: dec_loop.simps [of x])
qed (simp add: dec_loop.simps)

lemma dec_loop_digits: "c \<in> set (dec_loop x) \<Longrightarrow> 0x30 \<le> c \<and> c \<le> 0x39"
proof (induction x rule: dec_loop.induct)
  case (1 x)
  have "0x30 \<le> digits ! (x mod 10) \<and> digits ! (x mod 10) \<le> 0x39"
    using digits_nth [of "x mod 10"] by (simp add: word_le_nat_alt unat_of_nat take_bit_nat_eq_self del: of_nat_add) 
  then show ?case using 1 by (subst (asm) dec_loop.simps) (auto split: if_splits)
qed

lemma abs_cint_bound: "nat \<bar>sint (v :: cint)\<bar> \<le> 2 ^ 31"
  using sint_greater_eq [of v] sint_less [of v] by simp

end
