(* ===== verification/Console.thy ===== *)
theory Console
  imports Inode Print
begin

text \<open>
  \<^verbatim>\<open>console.c\<close> and the sending half of \<^verbatim>\<open>uart.c\<close>: formatted output to the screen and the serial line,
  direct screen output for the dashboard, and the line editor behind \<open>read\<close> on the console. The
  listing of \<open>procdump\<close> (\<^verbatim>\<open>proc.c\<close>) is here too, since the editor calls it.
\<close>

section \<open>State\<close>

abbreviation (input) BACKSPACE :: cint where "BACKSPACE \<equiv> 0x100"
abbreviation (input) INPUT_BUF :: nat where "INPUT_BUF \<equiv> 128"
abbreviation (input) CONSOLE :: nat where "CONSOLE \<equiv> 1"

record input =
  in_lock :: spinlock
  in_buf :: "uchar list"
  in_r :: uint
  in_w :: uint
  in_e :: uint

text \<open>
  The entries of the device table are function pointers; the only functions ever stored there are the
  console's two.
\<close>

datatype devfun = Consoleread | Consolewrite

record devsw =
  dev_read :: "devfun option"
  dev_write :: "devfun option"

text \<open>
  \<open>k_crt\<close> is the video memory by cells and \<open>k_cursor\<close> the cursor register of the display controller,
  \<open>k_uart\<close> whether there is a serial line and \<open>k_serial\<close> what has been sent over it. \<open>k_idt\<close> is whether
  an interrupt table is loaded: without one the next interrupt resets the machine.
\<close>

record ckernel = ikernel +
  k_conslock :: spinlock
  k_locking :: bool
  k_panicked :: bool
  k_crt :: "nat \<Rightarrow> ushort"
  k_cursor :: nat
  k_uart :: bool
  k_serial :: "uchar list"
  k_input :: input
  k_devsw :: "devsw list"
  k_idt :: bool

definition upd_input :: "(input \<Rightarrow> input) \<Rightarrow> 'a ckernel_scheme \<Rightarrow> 'a ckernel_scheme" where
  "upd_input f s = s\<lparr>k_input := f (k_input s)\<rparr>"

definition acquire_cons :: "'a ckernel_scheme \<Rightarrow> 'a ckernel_scheme outcome" where
  "acquire_cons s = andthen (acquire (k_cpu s) (k_conslock s)) (\<lambda>(c, lk). Ok (s\<lparr>k_cpu := c, k_conslock := lk\<rparr>))"

definition release_cons :: "'a ckernel_scheme \<Rightarrow> 'a ckernel_scheme outcome" where
  "release_cons s = andthen (release (k_cpu s) (k_conslock s)) (\<lambda>(c, lk). Ok (s\<lparr>k_cpu := c, k_conslock := lk\<rparr>))"

definition acquire_input :: "'a ckernel_scheme \<Rightarrow> 'a ckernel_scheme outcome" where
  "acquire_input s = andthen (acquire (k_cpu s) (in_lock (k_input s)))
     (\<lambda>(c, lk). Ok (upd_input (\<lambda>x. x\<lparr>in_lock := lk\<rparr>) (s\<lparr>k_cpu := c\<rparr>)))"

definition release_input :: "'a ckernel_scheme \<Rightarrow> 'a ckernel_scheme outcome" where
  "release_input s = andthen (release (k_cpu s) (in_lock (k_input s)))
     (\<lambda>(c, lk). Ok (upd_input (\<lambda>x. x\<lparr>in_lock := lk\<rparr>) (s\<lparr>k_cpu := c\<rparr>)))"

section \<open>Characters\<close>

text \<open>The wait for the line to be ready is bounded; the byte is sent in any case.\<close>

definition uartputc :: "cint \<Rightarrow> 'a ckernel_scheme \<Rightarrow> 'a ckernel_scheme" where
  "uartputc c s = (if \<not> k_uart s then s else s\<lparr>k_serial := k_serial s @ [ucast c]\<rparr>)"

primrec uartputs :: "uchar list \<Rightarrow> 'a ckernel_scheme \<Rightarrow> 'a ckernel_scheme" where
  "uartputs [] s = s"
| "uartputs (c # cs) s = uartputs cs (uartputc (ucast c) s)"

text \<open>\<open>uartearlyinit\<close>, with the value of the status register after the line is configured.\<close>

definition uartearlyinit :: "uchar \<Rightarrow> 'a ckernel_scheme \<Rightarrow> 'a ckernel_scheme" where
  "uartearlyinit st s =
     (if st = 0xFF then s else uartputs (cstr (''xv6...'' @ [CHR 0x0A])) (s\<lparr>k_uart := True\<rparr>))"

text \<open>
  \<open>cgaputc\<close>. The cursor register has 16 bits. A cursor more than one line below the screen makes the
  size of the final \<open>memset\<close> negative.
\<close>

definition cga_scroll :: "nat \<Rightarrow> (nat \<Rightarrow> ushort) \<Rightarrow> nat \<Rightarrow> ushort" where
  "cga_scroll pos crt = (\<lambda>i.
     if pos \<le> i \<and> i < 24 * 80 then 0 else if i < 23 * 80 then crt (i + 80) else crt i)"

definition cgaputc :: "cint \<Rightarrow> 'a ckernel_scheme \<Rightarrow> 'a ckernel_scheme outcome" where
  "cgaputc c s =
     (let pos = k_cursor s;
          (pos, s) =
            (if c = 10 then (pos + (80 - pos mod 80), s)
             else if c = BACKSPACE then (pos - 1, s)
             else (pos + 1, s\<lparr>k_crt := (k_crt s)(pos := ucast (c AND 0xFF) OR 0x0700)\<rparr>))
      in andthen
        (if pos div 80 \<ge> 24 then
           let pos' = pos - 80 in
           if pos' > 24 * 80 then Fault ''cursor below the screen''
           else Ok (pos', s\<lparr>k_crt := cga_scroll pos' (k_crt s)\<rparr>)
         else Ok (pos, s))
        (\<lambda>(pos, s). Ok (s\<lparr>k_cursor := pos, k_crt := (k_crt s)(pos := 0x20 OR 0x0700)\<rparr>)))"

definition consputc :: "cint \<Rightarrow> 'a ckernel_scheme \<Rightarrow> 'a ckernel_scheme outcome" where
  "consputc c s =
     (if k_panicked s then Blocked ''panicked''
      else let s = (if c = BACKSPACE then uartputc 8 (uartputc 0x20 (uartputc 8 s)) else uartputc c s)
        in cgaputc c s)"

primrec consputs :: "cint list \<Rightarrow> 'a ckernel_scheme \<Rightarrow> 'a ckernel_scheme outcome" where
  "consputs [] s = Ok s"
| "consputs (c # cs) s = andthen (consputc c s) (consputs cs)"

section \<open>The dashboard's screen\<close>

primrec vidclear_loop :: "nat list \<Rightarrow> (nat \<Rightarrow> ushort) \<Rightarrow> nat \<Rightarrow> ushort" where
  "vidclear_loop [] crt = crt"
| "vidclear_loop (i # is) crt = vidclear_loop is (crt(i := 0x20 OR 0x0700))"

definition vidclear :: "'a ckernel_scheme \<Rightarrow> 'a ckernel_scheme" where
  "vidclear s = s\<lparr>k_crt := vidclear_loop [0..<80 * 25] (k_crt s)\<rparr>"

definition vidputc :: "cint \<Rightarrow> cint \<Rightarrow> cint \<Rightarrow> cint \<Rightarrow> 'a ckernel_scheme \<Rightarrow> 'a ckernel_scheme" where
  "vidputc row col ch color s =
     (if sint row < 0 \<or> sint row \<ge> 25 then s
      else if sint col < 0 \<or> sint col \<ge> 80 then s
      else s\<lparr>k_crt := (k_crt s)(nat (sint row * 80 + sint col) :=
        ucast ((ch AND 0xFF) OR push_bit 8 (color AND 0xFF)))\<rparr>)"

text \<open>The string is the bytes before its NUL; \<open>char\<close> is signed.\<close>

primrec vidputs_loop :: "cint \<Rightarrow> cint \<Rightarrow> nat \<Rightarrow> uchar list \<Rightarrow> cint \<Rightarrow> 'a ckernel_scheme \<Rightarrow> 'a ckernel_scheme outcome" where
  "vidputs_loop row col i [] color s = Fault ''unterminated string''"
| "vidputs_loop row col i (c # cs) color s =
     (if c \<noteq> 0 \<and> sint (col + of_nat i) < 80
      then vidputs_loop row col (Suc i) cs color (vidputc row (col + of_nat i) (scast c) color s)
      else Ok s)"

definition vidputs :: "cint \<Rightarrow> cint \<Rightarrow> uchar list \<Rightarrow> cint \<Rightarrow> 'a ckernel_scheme \<Rightarrow> 'a ckernel_scheme outcome" where
  "vidputs row col str color s = vidputs_loop row col 0 str color s"

section \<open>Formatted output\<close>

datatype fmtarg = Arg_d cint | Arg_x uint | Arg_p addr_t | Arg_s "uchar list option"

definition chars :: "uchar list \<Rightarrow> cint list" where
  "chars cs = map ucast cs"

text \<open>
  The loop of \<open>cprintf\<close> over the format, with the arguments that are left. A format that asks for an
  argument of another type, or for more than there are, is undefined.
\<close>

fun cprintf_loop :: "uchar list \<Rightarrow> fmtarg list \<Rightarrow> 'a ckernel_scheme \<Rightarrow> 'a ckernel_scheme outcome" where
  "cprintf_loop [] ap s = Fault ''unterminated format''"
| "cprintf_loop (c # fmt) ap s =
     (if c = 0 then Ok s
      else if c \<noteq> 0x25 then andthen (consputc (ucast c) s) (cprintf_loop fmt ap)
      else case fmt of
        [] \<Rightarrow> Fault ''unterminated format''
      | c # fmt \<Rightarrow>
          if c = 0 then Ok s
          else if c = of_char (CHR ''d'') then
            (case ap of Arg_d v # ap \<Rightarrow> andthen (consputs (chars (print_d v)) s) (cprintf_loop fmt ap)
             | _ \<Rightarrow> Fault ''bad argument'')
          else if c = of_char (CHR ''x'') then
            (case ap of Arg_x v # ap \<Rightarrow> andthen (consputs (chars (print_x32 v)) s) (cprintf_loop fmt ap)
             | _ \<Rightarrow> Fault ''bad argument'')
          else if c = of_char (CHR ''p'') then
            (case ap of Arg_p v # ap \<Rightarrow> andthen (consputs (chars (print_x64 v)) s) (cprintf_loop fmt ap)
             | _ \<Rightarrow> Fault ''bad argument'')
          else if c = of_char (CHR ''s'') then
            (case ap of Arg_s v # ap \<Rightarrow>
               let str = (case v of None \<Rightarrow> cstr ''(null)'' | Some t \<Rightarrow> str_of t) in
               andthen (consputs (map scast str) s) (cprintf_loop fmt ap)
             | _ \<Rightarrow> Fault ''bad argument'')
          else if c = 0x25 then andthen (consputc 0x25 s) (cprintf_loop fmt ap)
          else andthen (consputc 0x25 s) (\<lambda>s. andthen (consputc (ucast c) s) (cprintf_loop fmt ap)))"

definition cprintf :: "uchar list option \<Rightarrow> fmtarg list \<Rightarrow> 'a ckernel_scheme \<Rightarrow> 'a ckernel_scheme outcome" where
  "cprintf fmt ap s =
     (let locking = k_locking s in
      andthen (if locking then acquire_cons s else Ok s) (\<lambda>s.
      case fmt of
        None \<Rightarrow> Panic ''null fmt''
      | Some fmt \<Rightarrow>
          andthen (cprintf_loop fmt ap s) (\<lambda>s.
          if locking then release_cons s else Ok s)))"

text \<open>A literal of the source as an argument, with its NUL.\<close>

definition lit :: "string \<Rightarrow> uchar list" where
  "lit s = cstr s @ [0]"

abbreviation cputs :: "string \<Rightarrow> fmtarg list \<Rightarrow> 'a ckernel_scheme \<Rightarrow> 'a ckernel_scheme outcome" where
  "cputs s ap \<equiv> cprintf (Some (lit s)) ap"

section \<open>Call stacks\<close>

text \<open>\<open>getstackpcs\<close> follows the chain of saved frame pointers; the slots after its end are 0.\<close>

primrec getstackpcs :: "nat \<Rightarrow> addr_t \<Rightarrow> mem \<Rightarrow> addr_t list" where
  "getstackpcs 0 rbp m = []"
| "getstackpcs (Suc n) rbp m =
     (if rbp = 0 \<or> rbp < KERNBASE \<or> rbp = 0xFFFFFFFF then replicate (Suc n) 0
      else load64 m (rbp + 8) # getstackpcs n (load64 m rbp) m)"

primrec print_pcs :: "string \<Rightarrow> addr_t list \<Rightarrow> 'a ckernel_scheme \<Rightarrow> 'a ckernel_scheme outcome" where
  "print_pcs fmt [] s = Ok s"
| "print_pcs fmt (pc # pcs) s = andthen (cputs fmt [Arg_p pc] s) (print_pcs fmt pcs)"

text \<open>
  What \<open>panic\<close> does before it halts, with the frame pointer of its caller. The message is the format
  of the second \<open>cprintf\<close>, which has no arguments.
\<close>

definition panic :: "uchar list option \<Rightarrow> addr_t \<Rightarrow> 'a ckernel_scheme \<Rightarrow> 'a ckernel_scheme outcome" where
  "panic str rbp s =
     (let s = s\<lparr>k_cpu := (k_cpu s)\<lparr>cpu_if := False\<rparr>, k_locking := False\<rparr> in
      andthen (cputs ''cpu%d: panic: '' [Arg_d (of_nat (cpu_id (k_cpu s)))] s) (\<lambda>s.
      andthen (cprintf str [] s) (\<lambda>s.
      andthen (cputs [CHR 0x0A] [] s) (\<lambda>s.
      andthen (print_pcs ('' %p'' @ [CHR 0x0A]) (getstackpcs 10 rbp (k_mem s)) s) (\<lambda>s.
      Ok (s\<lparr>k_panicked := True\<rparr>))))))"

section \<open>Process listing\<close>

fun state_name :: "procstate \<Rightarrow> string" where
  "state_name UNUSED = ''unused''"
| "state_name EMBRYO = ''embryo''"
| "state_name SLEEPING = ''sleep ''"
| "state_name RUNNABLE = ''runble''"
| "state_name RUNNING = ''run   ''"
| "state_name ZOMBIE = ''zombie''"

primrec procdump_loop :: "nat list \<Rightarrow> 'a ckernel_scheme \<Rightarrow> 'a ckernel_scheme outcome" where
  "procdump_loop [] s = Ok s"
| "procdump_loop (i # is) s =
     (let p = k_procs s ! i in
      if p_state p = UNUSED then procdump_loop is s
      else
        andthen (cputs ''%d %s %s''
          [Arg_d (p_pid p), Arg_s (Some (lit (state_name (p_state p)))), Arg_s (Some (p_name p))] s) (\<lambda>s.
        andthen
          (if p_state p = SLEEPING then
             print_pcs '' %p'' (takeWhile (\<lambda>pc. pc \<noteq> 0)
               (getstackpcs 10 (c_rbp (p_context p) + 16) (k_mem s))) s
           else Ok s) (\<lambda>s.
        andthen (cputs [CHR 0x0A] [] s) (procdump_loop is))))"

definition procdump :: "'a ckernel_scheme \<Rightarrow> 'a ckernel_scheme outcome" where
  "procdump s = procdump_loop [0..<NPROC] s"

section \<open>What output changes\<close>

definition displays :: "'a ckernel_scheme \<Rightarrow> 'a ckernel_scheme \<Rightarrow> bool" where
  "displays s t \<longleftrightarrow> s = t\<lparr>k_crt := k_crt s, k_cursor := k_cursor s, k_serial := k_serial s\<rparr>"

lemma displays_refl [simp]: "displays s s"
  by (simp add: displays_def)

lemma displays_fields:
  assumes "displays s t"
  shows "k_input t = k_input s" "k_cpu t = k_cpu s" "k_procs t = k_procs s" "k_proc t = k_proc s"
    "k_ptlock t = k_ptlock s" "k_conslock t = k_conslock s" "k_locking t = k_locking s"
    "k_panicked t = k_panicked s" "k_uart t = k_uart s" "k_inodes t = k_inodes s"
  using arg_cong [OF assms [unfolded displays_def], of k_input]
    arg_cong [OF assms [unfolded displays_def], of k_cpu]
    arg_cong [OF assms [unfolded displays_def], of k_procs]
    arg_cong [OF assms [unfolded displays_def], of k_proc]
    arg_cong [OF assms [unfolded displays_def], of k_ptlock]
    arg_cong [OF assms [unfolded displays_def], of k_conslock]
    arg_cong [OF assms [unfolded displays_def], of k_locking]
    arg_cong [OF assms [unfolded displays_def], of k_panicked]
    arg_cong [OF assms [unfolded displays_def], of k_uart]
    arg_cong [OF assms [unfolded displays_def], of k_inodes]
  by simp_all

lemma displays_trans:
  assumes "displays s t" and "displays t u"
  shows "displays s u"
proof -
  have "s = u\<lparr>k_crt := k_crt t, k_cursor := k_cursor t, k_serial := k_serial t,
      k_crt := k_crt s, k_cursor := k_cursor s, k_serial := k_serial s\<rparr>"
    using assms unfolding displays_def by metis
  then show ?thesis by (simp add: displays_def)
qed

lemma displays_uartputc [simp]: "displays s (uartputc c s)"
  by (simp add: displays_def uartputc_def)

lemma displays_cgaputc: "cgaputc c s = Ok t \<Longrightarrow> displays s t"
  by (auto simp: cgaputc_def displays_def Let_def split: if_splits)

lemma displays_consputc:
  assumes "consputc c s = Ok t"
  shows "displays s t"
proof -
  define u where "u = (if c = BACKSPACE then uartputc 8 (uartputc 0x20 (uartputc 8 s)) else uartputc c s)"
  have "displays s u" by (simp add: u_def displays_def uartputc_def)
  moreover have "displays u t"
    using assms by (auto simp: consputc_def u_def Let_def split: if_splits dest: displays_cgaputc)
  ultimately show ?thesis by (rule displays_trans)
qed

section \<open>The line editor\<close>

abbreviation (input) ctl_D :: cint where "ctl_D \<equiv> 4"
abbreviation (input) ctl_H :: cint where "ctl_H \<equiv> 8"
abbreviation (input) ctl_P :: cint where "ctl_P \<equiv> 16"
abbreviation (input) ctl_U :: cint where "ctl_U \<equiv> 21"
abbreviation (input) ctl_Z :: cint where "ctl_Z \<equiv> 26"

definition rub_out :: "'a ckernel_scheme \<Rightarrow> 'a ckernel_scheme outcome" where
  "rub_out s = consputc BACKSPACE (upd_input (\<lambda>x. x\<lparr>in_e := in_e x - 1\<rparr>) s)"

lemma rub_out_input: "rub_out s = Ok t \<Longrightarrow> k_input t = (k_input s)\<lparr>in_e := in_e (k_input s) - 1\<rparr>"
  using displays_fields(1) [OF displays_consputc] unfolding rub_out_def by (fastforce simp: upd_input_def)

function killline :: "'a ckernel_scheme \<Rightarrow> 'a ckernel_scheme outcome" where
  "killline s =
     (let x = k_input s in
      if in_e x \<noteq> in_w x \<and> in_buf x ! (unat (in_e x - 1) mod INPUT_BUF) \<noteq> 10
      then andthen (rub_out s) killline else Ok s)"
  by pat_completeness auto

termination
proof (relation "measure (\<lambda>s. unat (in_e (k_input s) - in_w (k_input s)))")
  fix s t :: "'a ckernel_scheme" and x
  assume x: "x = k_input s" and c: "in_e x \<noteq> in_w x \<and> in_buf x ! (unat (in_e x - 1) mod INPUT_BUF) \<noteq> 10"
    and t: "rub_out s = Ok t"
  have nz: "in_e x - in_w x \<noteq> 0" using c by simp
  have eq: "in_e x - 1 - in_w x = in_e x - in_w x - 1" by simp
  have "0 < unat (in_e x - in_w x)" using nz by (simp only: unat_gt_0 not_False_eq_True)
  then have "unat (in_e x - 1 - in_w x) < unat (in_e x - in_w x)"
    unfolding eq using unat_minus_one [OF nz] by linarith
  then show "(t, s) \<in> measure (\<lambda>s. unat (in_e (k_input s) - in_w (k_input s)))"
    using rub_out_input [OF t] x by simp
qed simp

declare killline.simps [simp del]

definition consoleintr_char :: "cint \<Rightarrow> 'a ckernel_scheme \<Rightarrow> 'a ckernel_scheme outcome" where
  "consoleintr_char c s =
     (if c = ctl_Z then Ok (s\<lparr>k_idt := False\<rparr>)
      else if c = ctl_P then procdump s
      else if c = ctl_U then killline s
      else if c = ctl_H \<or> c = 0x7F then
        if in_e (k_input s) \<noteq> in_w (k_input s) then rub_out s else Ok s
      else if c \<noteq> 0 \<and> in_e (k_input s) - in_r (k_input s) < 128 then
        let c = (if c = 13 then 10 else c);
            s = upd_input (\<lambda>x. x\<lparr>in_buf := (in_buf x)[unat (in_e x) mod INPUT_BUF := ucast c],
                  in_e := in_e x + 1\<rparr>) s
        in andthen (consputc c s) (\<lambda>s.
          let x = k_input s in
          if c = 10 \<or> c = ctl_D \<or> in_e x = in_r x + 128 then
            wakeup InputChan (upd_input (\<lambda>x. x\<lparr>in_w := in_e x\<rparr>) s)
          else Ok s)
      else Ok s)"

text \<open>\<open>getc\<close> is given by the list of the characters it returns before its first negative result.\<close>

primrec consoleintr_loop :: "cint list \<Rightarrow> 'a ckernel_scheme \<Rightarrow> 'a ckernel_scheme outcome" where
  "consoleintr_loop [] s = Ok s"
| "consoleintr_loop (c # cs) s = andthen (consoleintr_char c s) (consoleintr_loop cs)"

definition consoleintr :: "cint list \<Rightarrow> 'a ckernel_scheme \<Rightarrow> 'a ckernel_scheme outcome" where
  "consoleintr cs s =
     andthen (acquire_input s) (\<lambda>s. andthen (consoleintr_loop cs s) release_input)"

text \<open>
  \<open>uartgetc\<close> over the values of the status and the data register at its successive calls, and the
  characters that an interrupt of the serial line hands to the editor.
\<close>

definition uartgetc :: "bool \<Rightarrow> uchar \<times> uchar \<Rightarrow> cint" where
  "uartgetc uart ports = (if \<not> uart then - 1 else if fst ports AND 1 = 0 then - 1 else ucast (snd ports))"

definition uartintr :: "(uchar \<times> uchar) list \<Rightarrow> 'a ckernel_scheme \<Rightarrow> 'a ckernel_scheme outcome" where
  "uartintr ports s = consoleintr (takeWhile (\<lambda>c. 0 \<le> sint c) (map (uartgetc (k_uart s)) ports)) s"

section \<open>Reading and writing the console\<close>

text \<open>
  The loop of \<open>consoleread\<close>, with the bytes stored so far. The result is the number of bytes still
  wanted, or \<open>None\<close> when the process is killed while it waits. Waiting with no input is the outcome
  \<open>Blocked\<close>.
\<close>

fun consoleread_loop ::
  "nat \<Rightarrow> nat \<Rightarrow> uchar list \<Rightarrow> 'a ckernel_scheme \<Rightarrow> (nat option \<times> uchar list \<times> 'a ckernel_scheme) outcome" where
  "consoleread_loop 0 target dst s = Ok (Some 0, dst, s)"
| "consoleread_loop (Suc n) target dst s =
     (let x = k_input s in
      if in_r x = in_w x then
        with_proc s (\<lambda>i p. if p_killed p then Ok (None, dst, s) else Blocked ''input'')
      else
        let c = in_buf x ! (unat (in_r x) mod INPUT_BUF);
            s = upd_input (\<lambda>x. x\<lparr>in_r := in_r x + 1\<rparr>) s
        in if c = 4 then
             Ok (Some (Suc n), dst, if Suc n < target then upd_input (\<lambda>x. x\<lparr>in_r := in_r x - 1\<rparr>) s else s)
           else if c = 10 then Ok (Some n, dst @ [c], s)
           else consoleread_loop n target (dst @ [c]) s)"

definition consoleread :: "nat \<Rightarrow> cint \<Rightarrow> 'a ckernel_scheme \<Rightarrow> (cint \<times> uchar list \<times> 'a ckernel_scheme) outcome" where
  "consoleread ip n s =
     andthen (iunlock (Some ip) s) (\<lambda>s.
     andthen (acquire_input s) (\<lambda>s.
     let m = nat (sint n) in
     andthen (consoleread_loop m m [] s) (\<lambda>(r, dst, s).
     andthen (release_input s) (\<lambda>s.
     andthen (ilock (Some ip) s) (\<lambda>s.
     case r of None \<Rightarrow> Ok (- 1, dst, s) | Some k \<Rightarrow> Ok (of_nat (m - k), dst, s))))))"

text \<open>
  Memory of the caller that an operation reads is given as a function from offsets to bytes; an offset
  the processor cannot read is a \<open>Fault\<close>.
\<close>

type_synonym source = "nat \<Rightarrow> uchar outcome"

primrec gather :: "source \<Rightarrow> nat \<Rightarrow> nat \<Rightarrow> uchar list outcome" where
  "gather src i 0 = Ok []"
| "gather src i (Suc n) = andthen (src i) (\<lambda>c. andthen (gather src (Suc i) n) (\<lambda>cs. Ok (c # cs)))"

definition consolewrite :: "nat \<Rightarrow> source \<Rightarrow> cint \<Rightarrow> 'a ckernel_scheme \<Rightarrow> (cint \<times> 'a ckernel_scheme) outcome" where
  "consolewrite ip src n s =
     andthen (iunlock (Some ip) s) (\<lambda>s.
     andthen (acquire_cons s) (\<lambda>s.
     andthen (gather src 0 (nat (sint n))) (\<lambda>buf.
     andthen (consputs (chars buf) s) (\<lambda>s.
     andthen (release_cons s) (\<lambda>s.
     andthen (ilock (Some ip) s) (\<lambda>s. Ok (n, s)))))))"

text \<open>\<open>consoleinit\<close>, apart from routing the keyboard interrupt.\<close>

definition consoleinit :: "'a ckernel_scheme \<Rightarrow> 'a ckernel_scheme" where
  "consoleinit s =
     (let s = upd_input (\<lambda>x. x\<lparr>in_lock := initlock\<rparr>) (s\<lparr>k_conslock := initlock\<rparr>) in
      s\<lparr>k_devsw := (k_devsw s)[CONSOLE := \<lparr>dev_read = Some Consoleread, dev_write = Some Consolewrite\<rparr>],
        k_locking := True\<rparr>)"

section \<open>A machine that has just started\<close>

definition boot_ckernel :: "nat \<Rightarrow> 'a \<Rightarrow> 'a ckernel_scheme" where
  "boot_ckernel D x = consoleinit (boot_ikernel D \<lparr>k_conslock = initlock, k_locking = False, k_panicked = False,
     k_crt = (\<lambda>_. 0), k_cursor = 0, k_uart = True, k_serial = [],
     k_input = \<lparr>in_lock = initlock, in_buf = replicate INPUT_BUF 0, in_r = 0, in_w = 0, in_e = 0\<rparr>,
     k_devsw = replicate NDEV \<lparr>dev_read = None, dev_write = None\<rparr>, k_idt = True, \<dots> = x\<rparr>)"

lemmas boot_defs = boot_lkernel_eq boot_vkernel_def boot_ikernel_def boot_ckernel_def consoleinit_def
  upd_input_def boot_cpu_def

end
