(* ===== verification/Fstx.thy ===== *)
theory Fstx
  imports Inode
begin

text \<open>
  What the operations on inodes and blocks do inside a transaction: contracts of \<open>bread\<close>, \<open>log_write\<close>
  and \<open>brelse\<close> for a caller that holds some blocks, and over them the block allocator and the inode
  cache of \<^verbatim>\<open>fs.c\<close>.
\<close>

section \<open>Inside a transaction\<close>

text \<open>
  \<open>tx H s\<close>: an operation is under way and holds the buffers of the blocks \<open>H\<close>. \<open>tx_frame\<close>: what it may
  change besides the contents of blocks.
\<close>

definition tx :: "uint set \<Rightarrow> 'a lkernel_scheme \<Rightarrow> bool" where
  "tx H s \<longleftrightarrow> bio_quiet s \<and> held s = H \<and> log_geo (k_log s) (length (k_disk s)) \<and>
     pinned s = home (k_log s) ` {0..<log_n (k_log s)} \<and> lg_lock (k_log s) = initlock \<and>
     \<not> lg_committing (k_log s) \<and> 1 \<le> lg_outstanding (k_log s)"

definition tx_frame :: "'a lkernel_scheme \<Rightarrow> 'a lkernel_scheme \<Rightarrow> bool" where
  "tx_frame s t \<longleftrightarrow> t = s\<lparr>k_procs := k_procs t, k_bufs := k_bufs t, k_bprev := k_bprev t, k_bnext := k_bnext t,
     k_log := k_log t\<rparr> \<and> map asleep (k_procs t) = map asleep (k_procs s) \<and> same_log (k_log s) (k_log t)"

lemma tx_empty: "tx {} s \<longleftrightarrow> in_tx s \<and> 1 \<le> lg_outstanding (k_log s)"
  by (auto simp: tx_def in_tx_def)

lemma txD:
  assumes "tx H s"
  shows "bio_quiet s" "held s = H" "log_geo (k_log s) (length (k_disk s))"
    "pinned s = home (k_log s) ` {0..<log_n (k_log s)}" "lg_lock (k_log s) = initlock"
    "\<not> lg_committing (k_log s)" "1 \<le> lg_outstanding (k_log s)" "cpu_settled (k_cpu s)" "pt_quiet s" "k_proc s \<noteq> None"
  using assms bio_quietD by (auto simp: tx_def)

lemma same_log_refl [simp]: "same_log l l"
  by (simp add: same_log_def)

lemma tx_frame_refl [simp]: "tx_frame s s"
  by (simp add: tx_frame_def)

lemma tx_frame_trans: "tx_frame s t \<Longrightarrow> tx_frame t u \<Longrightarrow> tx_frame s u"
  unfolding tx_frame_def using same_log_trans by (cases s, cases t, cases u) auto

lemma tx_frame_fields:
  assumes "tx_frame s t"
  shows "k_cpu t = k_cpu s" "k_proc t = k_proc s" "k_ptlock t = k_ptlock s" "k_disk t = k_disk s"
    "k_mem t = k_mem s" "k_dwrites t = k_dwrites s" "same_log (k_log s) (k_log t)"
    "length (k_procs t) = length (k_procs s)"
proof -
  have t: "t = s\<lparr>k_procs := k_procs t, k_bufs := k_bufs t, k_bprev := k_bprev t, k_bnext := k_bnext t,
     k_log := k_log t\<rparr>" using assms by (simp add: tx_frame_def)
  show "k_cpu t = k_cpu s" "k_proc t = k_proc s" "k_ptlock t = k_ptlock s" "k_disk t = k_disk s"
    "k_mem t = k_mem s" "k_dwrites t = k_dwrites s"
    by (subst t, simp)+
  show "same_log (k_log s) (k_log t)" using assms by (simp add: tx_frame_def)
  show "length (k_procs t) = length (k_procs s)" using assms map_eq_imp_length_eq by (auto simp: tx_frame_def)
qed

lemma tx_frame_inode:
  assumes "tx_frame s t"
  shows "k_inodes t = k_inodes s" "k_sb t = k_sb s" "k_iclock t = k_iclock s"
proof -
  have t: "t = s\<lparr>k_procs := k_procs t, k_bufs := k_bufs t, k_bprev := k_bprev t, k_bnext := k_bnext t,
     k_log := k_log t\<rparr>" using assms by (simp add: tx_frame_def)
  show "k_inodes t = k_inodes s" "k_sb t = k_sb s" "k_iclock t = k_iclock s" by (subst t, simp)+
qed

lemma bio_tx_frame:
  assumes "bio_frame s t" and "k_disk t = k_disk s" and "k_dwrites t = k_dwrites s"
  shows "tx_frame s t"
proof -
  have "t = s\<lparr>k_bufs := k_bufs t, k_bprev := k_bprev t, k_bnext := k_bnext t,
     k_disk := k_disk t, k_dwrites := k_dwrites t, k_procs := k_procs t\<rparr>" using assms(1) by (simp add: bio_frame_def)
  moreover have "k_log t = k_log s" by (rule bio_frame_log [OF assms(1)])
  ultimately show ?thesis
    using assms by (cases s, cases t) (simp add: tx_frame_def bio_frame_def)
qed

lemma tx_count: "tx H s \<Longrightarrow> lh_n (lg_lh (k_log s)) = int (card (pinned s))"
proof -
  assume s: "tx H s"
  note t = txD [OF s]
  have "distinct (map (home (k_log s)) [0..<log_n (k_log s)])" using t(3) by (simp add: log_geo_def)
  then have "card (home (k_log s) ` {0..<log_n (k_log s)}) = log_n (k_log s)"
    by (simp add: distinct_map card_image)
  then show ?thesis using log_geo_bounds(4) [OF t(3)] by (simp add: t(4) log_n_def)
qed

lemma tx_clean: "tx H s \<Longrightarrow> b \<notin> H \<Longrightarrow> b \<in> pinned s \<or> view s b = k_disk s ! unat b"
  using view_clean by (auto simp: tx_def)

lemma tx_keeps:
  assumes "tx H s" and "keeps s X t" and "blk t = (blk s)\<lparr>bl_held := H'\<rparr>"
  shows "tx H' t" "tx_frame s t" "view t = view s" "pinned t = pinned s"
proof -
  note B = blk_eqD [OF assms(3), simplified]
  have L: "k_log t = k_log s" by (rule keeps_log [OF assms(2)])
  show "tx H' t" using assms(1) keepsD(1) [OF assms(2)] by (simp add: tx_def B L)
  show "tx_frame s t" using bio_tx_frame [OF keepsD(2) [OF assms(2)]] B by simp
  show "view t = view s" "pinned t = pinned s" using B by simp_all
qed

lemma keeps_bdata:
  "keeps s X t \<Longrightarrow> holds s j m \<Longrightarrow> m \<notin> X \<Longrightarrow> holds t j m \<and> bdata j t = bdata j s"
  by (auto simp: keeps_def bdata_def)

text \<open>Reading a block that is not held.\<close>

lemma tx_read:
  assumes "tx H s" and "unat b < length (k_disk s)" and "b \<notin> H" and "card (H \<union> pinned s) < NBUF"
  shows "\<exists>i t. bread 1 b s = Ok (i, t) \<and> tx (insert b H) t \<and> holds t i b \<and> bdata i t = view s b \<and>
    view t = view s \<and> pinned t = pinned s \<and> tx_frame s t \<and>
    (\<forall>j m. holds s j m \<longrightarrow> holds t j m \<and> bdata j t = bdata j s)"
proof -
  note t = txD [OF assms(1)]
  obtain i t where r: "bread 1 b s = Ok (i, t)" "keeps s {} t" "holds t i b"
      "b_data (k_bufs t ! i) = view s b" "blk t = (blk s)\<lparr>bl_held := insert b H\<rparr>"
    using bread_contract [OF t(1) assms(2)] assms(3,4) t(2) by auto
  show ?thesis
    using r tx_keeps [OF assms(1) r(2,5)] keeps_bdata [OF r(2)]
    by (intro exI [of _ i] exI [of _ t]) (simp add: bdata_def)
qed

text \<open>Releasing a block, changed ones only when they are in the log.\<close>

lemma tx_release:
  assumes "tx H s" and "holds s i b" and "b \<in> pinned s \<or> view s b = k_disk s ! unat b"
  shows "\<exists>t. brelse i s = Ok t \<and> tx (H - {b}) t \<and> view t = view s \<and> pinned t = pinned s \<and> tx_frame s t \<and>
    (\<forall>j m. holds s j m \<longrightarrow> m \<noteq> b \<longrightarrow> holds t j m \<and> bdata j t = bdata j s)"
proof -
  note t = txD [OF assms(1)]
  obtain t where r: "brelse i s = Ok t" "keeps s {b} t" "blk t = (blk s)\<lparr>bl_held := H - {b}\<rparr>"
    using brelse_contract [OF t(1) assms(2,3)] t(2) by auto
  show ?thesis
    using r tx_keeps [OF assms(1) r(2,3)] keeps_bdata [OF r(2)] by (intro exI [of _ t]) simp
qed

text \<open>Changing the data of a held block and logging it.\<close>

lemma tx_logwrite:
  assumes "tx H s" and "holds s i b" and "length d = BSIZE" and "\<not> in_log (k_log s) b"
    and "int (Suc (card (pinned s))) < lg_size (k_log s)"
  shows "\<exists>t. log_write i (set_data i d s) = Ok t \<and> tx H t \<and> holds t i b \<and> bdata i t = d \<and>
    view t = (view s)(b := d) \<and> pinned t = insert b (pinned s) \<and> tx_frame s t \<and>
    (\<forall>j m. holds s j m \<longrightarrow> m \<noteq> b \<longrightarrow> holds t j m \<and> bdata j t = bdata j s)"
proof -
  note t = txD [OF assms(1)] and g = log_geo_bounds [OF txD(3) [OF assms(1)]]
  let ?s2 = "set_data i d s"
  note s2 = set_data_contract [OF t(1) assms(2,3)]
  have L2: "k_log ?s2 = k_log s" by (rule keeps_log [OF s2(1)])
  let ?h = "add_block b (lg_lh (k_log s))"
  let ?s3 = "set_lh ?h ?s2"
  have n: "lh_n (lg_lh (k_log s)) < lg_size (k_log s) - 1" using tx_count [OF assms(1)] assms(5) by simp
  have "lh_n (lg_lh (k_log s)) < int LOGSIZE" using n g(1) by (simp add: log_area_def)
  then have run: "log_write i ?s2 = Ok (set_dirty i ?s3)"
    using log_write_ok [OF keepsD(1) [OF s2(1)] s2(2)] t(5,7) n by (simp add: L2)
  have s3: "bio_quiet ?s3" "holds ?s3 i b" "blk ?s3 = blk ?s2"
    using keepsD(1) [OF s2(1)] s2(2) by (simp_all add: set_lh_def)
  note s4 = set_dirty_contract [OF s3(1,2)]
  let ?t = "set_dirty i ?s3"
  have B: "blk ?t = (blk s)\<lparr>bl_view := (view s)(b := d), bl_pinned := insert b (pinned s)\<rparr>"
    using s4(3) s3(3) s2(4) by (simp add: blk_def)
  note B' = blk_eqD [OF B, simplified]
  have L: "k_log ?t = (k_log s)\<lparr>lg_lh := ?h\<rparr>" using keeps_log [OF s4(1)] L2 by simp
  have D: "unat b < length (k_disk s)" by (rule holdsD(8) [OF t(1) assms(2)])
  note geo = add_block_geo [OF t(3) n D assms(4)]
  have "tx H ?t"
    unfolding tx_def L using keepsD(1) [OF s4(1)] B' geo t by simp
  moreover have "tx_frame s ?t"
    using L B' unfolding tx_frame_def
    by (simp add: set_dirty_def set_lh_def set_data_def upd_buf_def upd_log_def same_log_def)
  moreover have "bdata i ?t = d"
    using holdsD(9) [OF keepsD(1) [OF s4(1)] s4(2)] B'(1) by (simp add: bdata_def)
  moreover have "holds ?t j m \<and> bdata j ?t = bdata j s" if "holds s j m" "m \<noteq> b" for j m
  proof -
    have "holds ?s2 j m \<and> bdata j ?s2 = bdata j s" using keeps_bdata [OF s2(1) that(1)] that(2) by simp
    then have "holds ?s3 j m \<and> bdata j ?s3 = bdata j s" by (simp add: set_lh_def bdata_def)
    then show ?thesis using keeps_bdata [OF s4(1)] that(2) by auto
  qed
  ultimately show ?thesis using run s4(2) B' by (intro exI [of _ ?t]) simp
qed

text \<open>The two ways most of the code uses a block: looking at it, and changing it.\<close>

lemma tx_peek:
  assumes "tx H s" and "unat b < length (k_disk s)" and "b \<notin> H" and "card (H \<union> pinned s) < NBUF"
  shows "\<exists>i t u. bread 1 b s = Ok (i, t) \<and> bdata i t = view s b \<and> tx_frame s t \<and> brelse i t = Ok u \<and>
    tx H u \<and> view u = view s \<and> pinned u = pinned s \<and> tx_frame s u \<and>
    (\<forall>j m. holds s j m \<longrightarrow> holds u j m \<and> bdata j u = bdata j s)"
proof -
  obtain i t where t: "bread 1 b s = Ok (i, t)" "tx (insert b H) t" "holds t i b" "bdata i t = view s b"
      "view t = view s" "pinned t = pinned s" "tx_frame s t"
      "\<forall>j m. holds s j m \<longrightarrow> holds t j m \<and> bdata j t = bdata j s"
    using tx_read [OF assms] by blast
  have "b \<in> pinned t \<or> view t b = k_disk t ! unat b"
    using tx_clean [OF assms(1,3)] t(5,6) tx_frame_fields(4) [OF t(7)] by simp
  then obtain u where u: "brelse i t = Ok u" "tx (insert b H - {b}) u" "view u = view t" "pinned u = pinned t"
      "tx_frame t u" "\<forall>j m. holds t j m \<longrightarrow> m \<noteq> b \<longrightarrow> holds u j m \<and> bdata j u = bdata j t"
    using tx_release [OF t(2,3)] by blast
  have "holds u j m \<and> bdata j u = bdata j s" if "holds s j m" for j m
  proof -
    have "m \<in> H" using holds_iff_held [OF that] txD(2) [OF assms(1)] by simp
    then have "m \<noteq> b" using assms(3) by blast
    then show ?thesis using t(8) u(6) that by metis
  qed
  moreover have "insert b H - {b} = H" using assms(3) by auto
  ultimately show ?thesis
    using t u tx_frame_trans [OF t(7) u(5)] by (intro exI [of _ i] exI [of _ t] exI [of _ u]) simp
qed

definition update_block :: "uint \<Rightarrow> (uchar list \<Rightarrow> uchar list) \<Rightarrow> 'a lkernel_scheme \<Rightarrow> 'a lkernel_scheme outcome" where
  "update_block b f s = andthen (bread 1 b s) (\<lambda>(bp, s).
     andthen (log_write bp (set_data bp (f (bdata bp s)) s)) (brelse bp))"

lemma tx_update_run:
  assumes "tx H s" and "unat b < length (k_disk s)" and "b \<notin> H" and "card (H \<union> pinned s) < NBUF"
    and "\<not> in_log (k_log s) b" and "int (Suc (card (pinned s))) < lg_size (k_log s)"
    and "length (f (view s b)) = BSIZE"
  shows "\<exists>i r v t. bread 1 b s = Ok (i, r) \<and> bdata i r = view s b \<and> tx_frame s r \<and>
    log_write i (set_data i (f (view s b)) r) = Ok v \<and> brelse i v = Ok t \<and> tx_frame s v \<and>
    tx H t \<and> view t = (view s)(b := f (view s b)) \<and>
    pinned t = insert b (pinned s) \<and> tx_frame s t \<and>
    (\<forall>j m. holds s j m \<longrightarrow> holds t j m \<and> bdata j t = bdata j s)"
proof -
  obtain i r where r: "bread 1 b s = Ok (i, r)" "tx (insert b H) r" "holds r i b" "bdata i r = view s b"
      "view r = view s" "pinned r = pinned s" "tx_frame s r"
      "\<forall>j m. holds s j m \<longrightarrow> holds r j m \<and> bdata j r = bdata j s"
    using tx_read [OF assms(1-4)] by blast
  have l: "\<not> in_log (k_log r) b" "int (Suc (card (pinned r))) < lg_size (k_log r)"
    using assms(5,6) r(6) same_log_fields [OF tx_frame_fields(7) [OF r(7)]] by simp_all
  obtain v where v: "log_write i (set_data i (f (view s b)) r) = Ok v" "tx (insert b H) v" "holds v i b"
      "view v = (view r)(b := f (view s b))" "pinned v = insert b (pinned r)" "tx_frame r v"
      "\<forall>j m. holds r j m \<longrightarrow> m \<noteq> b \<longrightarrow> holds v j m \<and> bdata j v = bdata j r"
    using tx_logwrite [OF r(2,3) assms(7) l] by blast
  obtain t where t: "brelse i v = Ok t" "tx (insert b H - {b}) t" "view t = view v" "pinned t = pinned v"
      "tx_frame v t" "\<forall>j m. holds v j m \<longrightarrow> m \<noteq> b \<longrightarrow> holds t j m \<and> bdata j t = bdata j v"
    using tx_release [OF v(2,3)] v(5) by blast
  have "holds t j m \<and> bdata j t = bdata j s" if "holds s j m" for j m
  proof -
    have "m \<in> H" using holds_iff_held [OF that] txD(2) [OF assms(1)] by simp
    then have "m \<noteq> b" using assms(3) by blast
    then show ?thesis using r(8) v(7) t(6) that by metis
  qed
  moreover have "insert b H - {b} = H" using assms(3) by auto
  moreover have "tx_frame s v" "tx_frame s t" using tx_frame_trans r(7) v(6) t(5) by blast+
  ultimately show ?thesis
    using r v t by (intro exI [of _ i] exI [of _ r] exI [of _ v] exI [of _ t]) simp
qed

lemma tx_update:
  assumes "tx H s" and "unat b < length (k_disk s)" and "b \<notin> H" and "card (H \<union> pinned s) < NBUF"
    and "\<not> in_log (k_log s) b" and "int (Suc (card (pinned s))) < lg_size (k_log s)"
    and "length (f (view s b)) = BSIZE"
  shows "\<exists>t. update_block b f s = Ok t \<and> tx H t \<and> view t = (view s)(b := f (view s b)) \<and>
    pinned t = insert b (pinned s) \<and> tx_frame s t \<and>
    (\<forall>j m. holds s j m \<longrightarrow> holds t j m \<and> bdata j t = bdata j s)"
  using tx_update_run [of H s b f] assms by (fastforce simp: update_block_def)

lemma view_length:
  assumes "bio_quiet s" and "unat b < length (k_disk s)"
  shows "length (view s b) = BSIZE"
proof -
  note q = bio_quietD [OF assms(1)]
  have d: "length (k_disk s ! unat b) = BSIZE" using q(4) assms(2) by (simp add: bc_ok_def)
  show ?thesis
  proof (cases "buf_of s b")
    case (Some i)
    then have "has_buf s i b" using q(4) by (simp add: buf_of_Some)
    then have "buf_ok (k_disk s) (k_bufs s ! i)" using bc_ok_buf [OF q(4)] by (simp add: has_buf_def)
    then show ?thesis using Some d by (simp add: view_def buf_ok_def)
  qed (simp add: view_def d)
qed

section \<open>The block allocator\<close>

text \<open>Whether the free map says that block \<open>n\<close> is in use.\<close>

definition used :: "'a ikernel_scheme \<Rightarrow> nat \<Rightarrow> bool" where
  "used s n = bit (view s (BBLOCK (of_nat n) (k_sb s)) ! (n mod BPB div 8)) (n mod 8)"

text \<open>
  The free map is on the disk outside the log, it covers blocks of the disk, and what it says to be free
  is neither part of the log nor of the map itself.
\<close>

definition bitmap_ok :: "uint set \<Rightarrow> 'a ikernel_scheme \<Rightarrow> bool" where
  "bitmap_ok H s \<longleftrightarrow> unat (sb_size (k_sb s)) \<le> length (k_disk s) \<and>
     (\<forall>n < unat (sb_size (k_sb s)). let m = BBLOCK (of_nat n) (k_sb s) in
        unat m < length (k_disk s) \<and> \<not> in_log (k_log s) m \<and> m \<notin> H \<and>
        (\<not> used s n \<longrightarrow> \<not> in_log (k_log s) (of_nat n) \<and> of_nat n \<notin> H \<and>
           (\<forall>k < unat (sb_size (k_sb s)). of_nat n \<noteq> BBLOCK (of_nat k) (k_sb s))))"

lemma free_bit_find: "free_bit d bis = find (\<lambda>bi. \<not> bit (d ! (bi div 8)) (bi mod 8)) bis"
  by (induction bis) (simp_all add: bit_iff_and_push_bit_not_eq_0)

lemma unat_of_nat_div: "n < 2 ^ 32 \<Longrightarrow> unat (of_nat n div 4096 :: uint) = n div 4096"
  by (simp add: unat_div unat_of_nat take_bit_nat_eq_self)

lemma BBLOCK_same:
  assumes "b mod BPB = 0" and "bi < BPB" and "b + bi < 2 ^ 32"
  shows "BBLOCK (of_nat (b + bi)) sb = BBLOCK (of_nat b) sb"
proof -
  have "unat (of_nat (b + bi) div 4096 :: uint) = (b + bi) div 4096" "unat (of_nat b div 4096 :: uint) = b div 4096"
    using assms(3) unat_of_nat_div [of "b + bi"] unat_of_nat_div [of b] by auto
  moreover have "(b + bi) div 4096 = b div 4096" using assms by (simp add: div_add1_eq)
  ultimately have "(of_nat (b + bi) div 4096 :: uint) = of_nat b div 4096" by (simp add: word_unat_eq_iff del: of_nat_add)
  then show ?thesis by (simp add: BBLOCK_def del: of_nat_add)
qed

text \<open>The offsets of the blocks that turn \<open>b\<close> of the outer loop looks at, and what it finds among them.\<close>

lemma find_append: "find P (xs @ ys) = (case find P xs of None \<Rightarrow> find P ys | Some x \<Rightarrow> Some x)"
  by (induction xs) simp_all

lemma find_map_eq: "find P (map f xs) = map_option f (find (\<lambda>x. P (f x)) xs)"
  by (induction xs) simp_all

lemma find_cong_set: "(\<And>x. x \<in> set xs \<Longrightarrow> P x = Q x) \<Longrightarrow> find P xs = find Q xs"
  by (induction xs) auto

definition turn :: "nat \<Rightarrow> nat \<Rightarrow> nat list" where
  "turn sz b = map ((+) b) [0..<min BPB (sz - b)]"

lemma free_bit_used:
  assumes "b mod BPB = 0" and "unat (sb_size (k_sb s)) = sz"
  shows "map_option ((+) b) (free_bit (view s (BBLOCK (of_nat b) (k_sb s))) [0..<min BPB (sz - b)]) =
    find (\<lambda>n. \<not> used s n) (turn sz b)"
proof -
  have sz: "sz < 2 ^ 32" using assms(2) unat_less_pow32 by blast
  have "bit (view s (BBLOCK (of_nat b) (k_sb s)) ! (bi div 8)) (bi mod 8) = used s (b + bi)"
    if "bi \<in> set [0..<min BPB (sz - b)]" for bi
  proof -
    have bi: "bi < BPB" "b + bi < 2 ^ 32" using that sz by auto
    have "(b + bi) mod BPB = bi" using assms(1) bi(1) by (metis mod_add_left_eq add_0 mod_less)
    moreover have "(b + bi) mod 8 = bi mod 8"
    proof -
      obtain q where "b = BPB * q" using assms(1) by auto
      then have "b mod 8 = 0" by simp
      then show ?thesis by (metis mod_add_left_eq add_0)
    qed
    ultimately show ?thesis using BBLOCK_same [OF assms(1) bi] by (simp add: used_def del: of_nat_add)
  qed
  then show ?thesis
    unfolding free_bit_find turn_def find_map_eq
    by (intro arg_cong [where f = "map_option ((+) b)"] find_cong_set) simp
qed

definition room :: "uint set \<Rightarrow> nat \<Rightarrow> 'a lkernel_scheme \<Rightarrow> bool" where
  "room H k s \<longleftrightarrow> int (card (pinned s) + k) < lg_size (k_log s) \<and> card (H \<union> pinned s) + k \<le> NBUF"

lemma room_after:
  assumes "room H (Suc k) s" and "pinned t = insert b (pinned s)" and "tx_frame s t" and "tx H s"
  shows "room H k t"
proof -
  have fin: "finite (pinned s)" "finite (H \<union> pinned s)" using finite_held [of s] txD(2) [OF assms(4)] by simp_all
  have "card (pinned t) \<le> Suc (card (pinned s))" using fin by (simp add: assms(2) card_insert_if)
  moreover have "card (H \<union> pinned t) \<le> Suc (card (H \<union> pinned s))" using fin by (simp add: assms(2) card_insert_if)
  moreover have "lg_size (k_log t) = lg_size (k_log s)" using same_log_fields tx_frame_fields(7) [OF assms(3)] by blast
  ultimately show ?thesis using assms(1) by (auto simp: room_def)
qed

lemma room_same:
  assumes "room H k s" and "pinned t = pinned s" and "tx_frame s t"
  shows "room H k t"
proof -
  have "lg_size (k_log t) = lg_size (k_log s)" using same_log_fields tx_frame_fields(7) [OF assms(3)] by blast
  then show ?thesis using assms by (simp add: room_def)
qed

lemma bzero_update: "bzero 1 b = update_block b (\<lambda>_. replicate BSIZE 0)"
  by (rule ext) (simp add: bzero_def update_block_def Let_def)

lemma in_log_frame: "tx_frame s t \<Longrightarrow> in_log (k_log t) = in_log (k_log s)"
  using same_log_fields(3) tx_frame_fields(7) by blast

text \<open>What \<open>balloc\<close> does to the blocks when it hands out block \<open>n\<close>.\<close>

definition allocated :: "'a ikernel_scheme \<Rightarrow> nat \<Rightarrow> 'a ikernel_scheme \<Rightarrow> bool" where
  "allocated s n t \<longleftrightarrow>
     (let m = BBLOCK (of_nat n) (k_sb s) in
      view t = (view s)(m := set_bit_in (n mod BPB) (view s m), of_nat n := replicate BSIZE 0) \<and>
      pinned t = insert (of_nat n) (insert m (pinned s)) \<and> tx_frame s t \<and>
      (\<forall>j k. holds s j k \<longrightarrow> holds t j k \<and> bdata j t = bdata j s))"

lemma length_set_bit_in [simp]: "length (set_bit_in bi d) = length d"
  by (simp add: set_bit_in_def)

lemma tx_updateD:
  assumes "tx H s" and "room H (Suc k) s" and "unat b < length (k_disk s)" and "b \<notin> H" and "\<not> in_log (k_log s) b"
    and "length (f (view s b)) = BSIZE"
  shows "\<exists>i r v t. bread 1 b s = Ok (i, r) \<and> bdata i r = view s b \<and> tx_frame s r \<and>
    log_write i (set_data i (f (view s b)) r) = Ok v \<and> brelse i v = Ok t \<and> tx_frame s v \<and>
    tx H t \<and> view t = (view s)(b := f (view s b)) \<and>
    pinned t = insert b (pinned s) \<and> tx_frame s t \<and>
    (\<forall>j m. holds s j m \<longrightarrow> holds t j m \<and> bdata j t = bdata j s)"
  using assms by (intro tx_update_run) (auto simp: room_def)

lemma balloc_turn:
  assumes "tx H s" and "room H 2 s" and "bitmap_ok H s" and "b mod BPB = 0" and "b < unat (sb_size (k_sb s))"
    and "free_bit (view s (BBLOCK (of_nat b) (k_sb s))) [0..<min BPB (unat (sb_size (k_sb s)) - b)] = Some bi"
  shows "\<exists>t. balloc_loop 1 (b # bs) s = Ok (of_nat (b + bi), t) \<and> tx H t \<and> allocated s (b + bi) t"
proof -
  let ?m = "BBLOCK (of_nat b) (k_sb s)" and ?sz = "unat (sb_size (k_sb s))" and ?n = "b + bi"
  have bi: "bi < BPB" "?n < ?sz" using assms(6) by (auto simp: free_bit_find find_Some_iff)
  have n32: "?n < 2 ^ 32" using bi(2) unat_less_pow32 [of "sb_size (k_sb s)"] by simp
  have same: "BBLOCK (of_nat ?n) (k_sb s) = ?m" by (rule BBLOCK_same [OF assms(4) bi(1) n32])
  have nm: "?n mod BPB = bi" using assms(4) bi(1) by (metis mod_add_left_eq add_0 mod_less)
  have free: "\<not> used s ?n"
  proof -
    have "find (\<lambda>n. \<not> used s n) (turn ?sz b) = Some ?n" using free_bit_used [OF assms(4) refl, of s] assms(6) by simp
    then show ?thesis by (auto simp: find_Some_iff)
  qed
  have m: "unat ?m < length (k_disk s)" "\<not> in_log (k_log s) ?m" "?m \<notin> H"
    using assms(3,5) by (auto simp: bitmap_ok_def Let_def)
  have n: "\<not> in_log (k_log s) (of_nat ?n)" "of_nat ?n \<notin> H" "of_nat ?n \<noteq> ?m" "?sz \<le> length (k_disk s)"
    using assms(3,5) bi(2) free by (simp_all add: bitmap_ok_def Let_def del: of_nat_add)
  have un: "unat (of_nat ?n :: uint) = ?n" using n32 by (intro unat_of_nat_small) simp
  have r2: "room H (Suc 1) s" using assms(2) by (simp add: numeral_2_eq_2)
  have len: "length (set_bit_in bi (view s ?m)) = BSIZE"
    using view_length [OF txD(1) [OF assms(1)] m(1)] by simp
  obtain i r v u where u: "bread 1 ?m s = Ok (i, r)" "bdata i r = view s ?m" "tx_frame s r"
      "log_write i (set_data i (set_bit_in bi (view s ?m)) r) = Ok v" "brelse i v = Ok u" "tx_frame s v"
      "tx H u" "view u = (view s)(?m := set_bit_in bi (view s ?m))" "pinned u = insert ?m (pinned s)" "tx_frame s u"
      "\<forall>j m. holds s j m \<longrightarrow> holds u j m \<and> bdata j u = bdata j s"
    using tx_updateD [OF assms(1) r2 m(1,3,2), of "set_bit_in bi"] len by blast
  have r1: "room H (Suc 0) u" using room_after [OF r2 u(9,10) assms(1)] by simp
  have "unat (of_nat ?n :: uint) < length (k_disk u)" "\<not> in_log (k_log u) (of_nat ?n)"
    using n bi(2) un tx_frame_fields(4) [OF u(10)] in_log_frame [OF u(10)] by (simp_all del: of_nat_add)
  then obtain t where t: "update_block (of_nat ?n) (\<lambda>_. replicate BSIZE 0) u = Ok t" "tx H t"
      "view t = (view u)(of_nat ?n := replicate BSIZE 0)" "pinned t = insert (of_nat ?n) (pinned u)" "tx_frame u t"
      "\<forall>j m. holds u j m \<longrightarrow> holds t j m \<and> bdata j t = bdata j u"
    using tx_update [OF u(7) _ n(2), of "\<lambda>_. replicate BSIZE 0"] r1 by (auto simp: room_def simp del: of_nat_add)
  have "balloc_loop 1 (b # bs) s = Ok (of_nat ?n, t)"
    using u(1,2,4,5) tx_frame_inode(2) [OF u(3)] assms(6) t(1) by (simp add: bzero_update Let_def del: of_nat_add)
  moreover have "allocated s ?n t"
    unfolding allocated_def Let_def same nm
    using t u tx_frame_trans [OF u(10) t(5)] by metis
  ultimately show ?thesis using t(2) by blast
qed

definition log_room :: "uint set \<Rightarrow> 'a ikernel_scheme \<Rightarrow> bool" where
  "log_room H s \<longleftrightarrow> tx H s \<and> room H 2 s \<and> bitmap_ok H s"

lemma bitmap_ok_same:
  assumes "bitmap_ok H s" and "view t = view s" and "tx_frame s t"
  shows "bitmap_ok H t"
proof -
  have "bitmap_ok H t = bitmap_ok H s"
    unfolding bitmap_ok_def used_def
    by (simp only: assms(2) tx_frame_inode(2) [OF assms(3)] tx_frame_fields(4) [OF assms(3)] in_log_frame [OF assms(3)])
  then show ?thesis using assms(1) by simp
qed

lemma allocated_trans:
  assumes "view u = view s" "pinned u = pinned s" "tx_frame s u"
    and "\<forall>j m. holds s j m \<longrightarrow> holds u j m \<and> bdata j u = bdata j s" and "allocated u n t"
  shows "allocated s n t"
  using assms(5) tx_frame_trans [OF assms(3)] assms(4)
  unfolding allocated_def Let_def tx_frame_inode(2) [OF assms(3)] assms(1,2) by metis

lemma balloc_loop_ok:
  assumes "log_room H s" and "\<And>b. b \<in> set bs \<Longrightarrow> b mod BPB = 0 \<and> b < unat (sb_size (k_sb s))"
  shows "case find (\<lambda>n. \<not> used s n) (concat (map (turn (unat (sb_size (k_sb s)))) bs)) of
      None \<Rightarrow> balloc_loop 1 bs s = Panic ''balloc: out of blocks''
    | Some n \<Rightarrow> \<exists>t. balloc_loop 1 bs s = Ok (of_nat n, t) \<and> tx H t \<and> allocated s n t"
  using assms
proof (induction bs arbitrary: s)
  case (Cons b bs)
  let ?sz = "unat (sb_size (k_sb s))"
  let ?m = "BBLOCK (of_nat b) (k_sb s)"
  have s: "tx H s" "room H 2 s" "bitmap_ok H s" using Cons.prems(1) by (simp_all add: log_room_def)
  have b: "b mod BPB = 0" "b < ?sz" using Cons.prems(2) by simp_all
  note found = free_bit_used [OF b(1) refl, of s]
  show ?case
  proof (cases "free_bit (view s ?m) [0..<min BPB (?sz - b)]")
    case (Some bi)
    then have "find (\<lambda>n. \<not> used s n) (turn ?sz b) = Some (b + bi)" using found by simp
    then show ?thesis using balloc_turn [OF s b Some] by (simp add: find_append)
  next
    case None
    then have nf: "find (\<lambda>n. \<not> used s n) (turn ?sz b) = None" using found by simp
    have m: "unat ?m < length (k_disk s)" "?m \<notin> H" "card (H \<union> pinned s) < NBUF"
      using s(2,3) b(2) by (auto simp: bitmap_ok_def room_def Let_def)
    obtain i r u where u: "bread 1 ?m s = Ok (i, r)" "bdata i r = view s ?m" "tx_frame s r" "brelse i r = Ok u"
        "tx H u" "view u = view s" "pinned u = pinned s" "tx_frame s u"
        "\<forall>j m. holds s j m \<longrightarrow> holds u j m \<and> bdata j u = bdata j s"
      using tx_peek [OF s(1) m] by blast
    note f = tx_frame_inode(2) [OF u(8)] tx_frame_inode(2) [OF u(3)]
    have "log_room H u"
      using u(5) room_same [OF s(2) u(7,8)] bitmap_ok_same [OF s(3) u(6,8)] by (simp add: log_room_def)
    moreover have "used u = used s" by (rule ext) (simp add: used_def u(6) f)
    ultimately have IH: "case find (\<lambda>n. \<not> used s n) (concat (map (turn ?sz) bs)) of
        None \<Rightarrow> balloc_loop 1 bs u = Panic ''balloc: out of blocks''
      | Some n \<Rightarrow> \<exists>t. balloc_loop 1 bs u = Ok (of_nat n, t) \<and> tx H t \<and> allocated u n t"
      using Cons.IH [of u] Cons.prems(2) f by simp
    have "balloc_loop 1 (b # bs) s = balloc_loop 1 bs u" using u(1,2,4) f(2) None by simp
    then show ?thesis
      using IH nf allocated_trans [OF u(6,7,8,9)] by (auto simp: find_append split: option.splits)
  qed
qed simp

lemma map_plus_upt: "map ((+) b) [0..<m] = [b..<b + m]"
  by (rule nth_equalityI) simp_all

lemma upt_split: "i \<le> j \<Longrightarrow> j \<le> k \<Longrightarrow> [i..<k] = [i..<j] @ [j..<k]"
  by (metis le_add_diff_inverse upt_add_eq_append)

lemma turns: "concat (map (turn sz) (map (\<lambda>k. k * BPB) [0..<q])) = [0..<min (q * BPB) sz]"
proof (induction q)
  case (Suc q)
  have "[0..<min (Suc q * BPB) sz] = [0..<min (q * BPB) sz] @ [min (q * BPB) sz..<min (Suc q * BPB) sz]"
    by (intro upt_split) auto
  also have "[min (q * BPB) sz..<min (Suc q * BPB) sz] = turn sz (q * BPB)"
    unfolding turn_def map_plus_upt by (cases "q * BPB \<le> sz") (simp_all add: min_def add.commute)
  finally show ?case using Suc by simp
qed simp

text \<open>What handing out block \<open>n\<close> means for the free map and the contents of the blocks.\<close>

definition hands_out :: "'a ikernel_scheme \<Rightarrow> nat \<Rightarrow> 'a ikernel_scheme \<Rightarrow> bool" where
  "hands_out s n t \<longleftrightarrow> view t (of_nat n) = replicate BSIZE 0 \<and>
     (\<forall>k < unat (sb_size (k_sb s)). used t k \<longleftrightarrow> used s k \<or> k = n) \<and>
     (\<forall>b. b \<noteq> of_nat n \<and> b \<noteq> BBLOCK (of_nat n) (k_sb s) \<longrightarrow> view t b = view s b) \<and>
     pinned t = insert (of_nat n) (insert (BBLOCK (of_nat n) (k_sb s)) (pinned s)) \<and> tx_frame s t"

lemma bit_set_bit_in:
  assumes "length d = BSIZE" and "bi < BPB" and "k < BPB"
  shows "bit (set_bit_in bi d ! (k div 8)) (k mod 8) \<longleftrightarrow> bit (d ! (k div 8)) (k mod 8) \<or> k = bi"
proof -
  have k8: "k mod 8 < LENGTH(8)" by simp
  have "k = bi" if "k div 8 = bi div 8" "k mod 8 = bi mod 8"
    using that by (metis div_mult_mod_eq)
  moreover have "bi div 8 < length d" using assms(1,2) by simp
  moreover have "bit (2 ^ (bi mod 8) :: uchar) (k mod 8) \<longleftrightarrow> k mod 8 = bi mod 8"
    using k8 by (auto simp: bit_exp_iff)
  ultimately show ?thesis
    by (cases "k div 8 = bi div 8") (auto simp: set_bit_in_def bit_or_iff)
qed

lemma BBLOCK_div:
  assumes "BBLOCK (of_nat k) sb = BBLOCK (of_nat n) sb" and "k < 2 ^ 32" and "n < 2 ^ 32"
  shows "k div BPB = n div BPB"
proof -
  have "unat (of_nat k div 4096 :: uint) = unat (of_nat n div 4096 :: uint)" using assms(1) by (simp add: BBLOCK_def)
  then show ?thesis unfolding unat_of_nat_div [OF assms(2)] unat_of_nat_div [OF assms(3)] .
qed

lemma allocated_hands_out:
  assumes "log_room H s" and "\<not> used s n" and "n < unat (sb_size (k_sb s))" and "allocated s n t"
  shows "hands_out s n t"
proof -
  let ?m = "\<lambda>k. BBLOCK (of_nat k) (k_sb s)" and ?sz = "unat (sb_size (k_sb s))"
  have s: "tx H s" "bitmap_ok H s" using assms(1) by (simp_all add: log_room_def)
  have t: "view t = (view s)(?m n := set_bit_in (n mod BPB) (view s (?m n)), of_nat n := replicate BSIZE 0)"
      "pinned t = insert (of_nat n) (insert (?m n) (pinned s))" "tx_frame s t"
    using assms(4) by (simp_all add: allocated_def Let_def)
  have small: "k < 2 ^ 32" if "k < ?sz" for k using that unat_less_pow32 [of "sb_size (k_sb s)"] by simp
  have map: "unat (?m n) < length (k_disk s)" "\<And>k. k < ?sz \<Longrightarrow> of_nat n \<noteq> ?m k"
    using s(2) assms(2,3) by (simp_all add: bitmap_ok_def Let_def)
  note len = view_length [OF txD(1) [OF s(1)] map(1)]
  have "used t k \<longleftrightarrow> used s k \<or> k = n" if k: "k < ?sz" for k
  proof (cases "?m k = ?m n")
    case True
    have eq: "k mod BPB = n mod BPB \<longleftrightarrow> k = n"
      using BBLOCK_div [OF True small [OF k] small [OF assms(3)]] by (metis div_mult_mod_eq)
    have "k mod BPB mod 8 = k mod 8" by (simp add: mod_mod_cancel)
    then show ?thesis
      using bit_set_bit_in [OF len, of "n mod BPB" "k mod BPB"] eq True map(2) [OF k]
      by (simp add: used_def t(1) tx_frame_inode(2) [OF t(3)])
  next
    case False
    then have "k \<noteq> n" by auto
    then show ?thesis using False map(2) [OF k] by (simp add: used_def t(1) tx_frame_inode(2) [OF t(3)])
  qed
  then show ?thesis using t by (simp add: hands_out_def)
qed

text \<open>C22: Within a transaction with room for two more blocks in the log, \<open>balloc\<close> hands out the first block that the
  free map says to be free.  Afterwards the map says of this block, and of no other one that was free, that it is in
  use, the block is cleared, and no other block has changed; both changes go through the log.  When the map has no
  free block it panics.
\<close>

theorem balloc_first_free:
  assumes "log_room H s"
  shows "case find (\<lambda>n. \<not> used s n) [0..<unat (sb_size (k_sb s))] of
      None \<Rightarrow> balloc 1 s = Panic ''balloc: out of blocks''
    | Some n \<Rightarrow> \<exists>t. balloc 1 s = Ok (of_nat n, t) \<and> tx H t \<and> hands_out s n t"
proof -
  let ?sz = "unat (sb_size (k_sb s))"
  let ?q = "(?sz + (BPB - 1)) div BPB"
  have "min (?q * BPB) ?sz = ?sz" by simp
  then have "concat (map (turn ?sz) (map (\<lambda>k. k * BPB) [0..<?q])) = [0..<?sz]" unfolding turns by (simp only:)
  moreover have "b mod BPB = 0 \<and> b < ?sz" if "b \<in> set (map (\<lambda>k. k * BPB) [0..<?q])" for b
    using that by auto
  ultimately have "case find (\<lambda>n. \<not> used s n) [0..<?sz] of
      None \<Rightarrow> balloc 1 s = Panic ''balloc: out of blocks''
    | Some n \<Rightarrow> \<exists>t. balloc 1 s = Ok (of_nat n, t) \<and> tx H t \<and> allocated s n t"
    using balloc_loop_ok [OF assms, of "map (\<lambda>k. k * BPB) [0..<?q]"] unfolding balloc_def by metis
  moreover have "\<not> used s n \<and> n < ?sz" if "find (\<lambda>n. \<not> used s n) [0..<?sz] = Some n" for n
    using that by (auto simp: find_Some_iff)
  ultimately show ?thesis using allocated_hands_out [OF assms] by (auto split: option.splits)
qed

text \<open>A machine with a given disk in the middle of a file system operation.\<close>

definition disk_kernel :: "superblock \<Rightarrow> uchar list list \<Rightarrow> 'a \<Rightarrow> 'a ikernel_scheme" where
  "disk_kernel sb d x = upd_log (\<lambda>_. empty_log\<lparr>lg_outstanding := 1\<rparr>) (boot_bkernel d \<lparr>k_log = empty_log,
     k_kpml4 = 0, k_kpdpt = 0, k_cr3 = 0, k_sb = sb, k_iclock = initlock, k_inodes = replicate NINODE boot_inode,
     \<dots> = x\<rparr>)"

lemma disk_kernel_fields [simp]:
  "k_sb (disk_kernel sb d x) = sb" "k_inodes (disk_kernel sb d x) = replicate NINODE boot_inode"
  "k_log (disk_kernel sb d x) = empty_log\<lparr>lg_outstanding := 1\<rparr>" "k_iclock (disk_kernel sb d x) = initlock"
  by (simp_all add: disk_kernel_def boot_bkernel_eq upd_log_def boot_mkernel_def boot_tkernel_def
      traceinit_def boot_kernel_def)

lemma disk_kernel_ok:
  assumes "list_all (\<lambda>b. length b = BSIZE) d" and "2 + LOGSIZE \<le> length d" and "length d < 2 ^ 31"
  shows "tx {} (disk_kernel sb d x)" "pinned (disk_kernel sb d x) = {}" "view (disk_kernel sb d x) n = d ! unat n"
    "k_disk (disk_kernel sb d x) = d"
proof -
  let ?x = "\<lparr>k_log = empty_log, k_kpml4 = 0, k_kpdpt = 0, k_cr3 = 0, k_sb = sb, k_iclock = initlock,
     k_inodes = replicate NINODE boot_inode, \<dots> = x\<rparr>"
  note ok = boot_bkernel_ok [OF assms(1), of ?x]
  have "log_geo (empty_log\<lparr>lg_outstanding := 1\<rparr>) (length d)"
    using assms(2,3) by (simp add: log_geo_def log_area_def empty_log_def log_n_def)
  then show "tx {} (disk_kernel sb d x)"
    using ok by (simp add: tx_def disk_kernel_def) (simp add: empty_log_def log_n_def)
  show "pinned (disk_kernel sb d x) = {}" "view (disk_kernel sb d x) n = d ! unat n" "k_disk (disk_kernel sb d x) = d"
    using ok by (simp_all add: disk_kernel_def)
qed

text \<open>A disk of 50 blocks: the log at 2, the free map in block 33, blocks up to 33 and block 35 in use.\<close>

definition small_sb :: superblock where
  "small_sb = \<lparr>sb_size = 50, sb_nblocks = 15, sb_ninodes = 8, sb_nlog = 30, sb_logstart = 2, sb_inodestart = 32,
     sb_bmapstart = 33\<rparr>"

definition small_disk :: "uchar list list" where
  "small_disk = replicate 33 (replicate 512 0) @ [replicate 4 0xFF @ [0x0B] @ replicate 507 0] @ replicate 16 (replicate 512 7)"

lemma small_disk_ok: "list_all (\<lambda>b. length b = BSIZE) small_disk" "length small_disk = 50"
  by (simp_all add: small_disk_def list_all_length nth_append nth_Cons')

lemma small_map:
  assumes "n < 50"
  shows "used (disk_kernel small_sb small_disk x) n \<longleftrightarrow> n < 34 \<or> n = 35"
    "BBLOCK (of_nat n) small_sb = 33"
proof -
  have "unat (of_nat n div 4096 :: uint) = 0" using assms unat_of_nat_div [of n] by simp
  then show m: "BBLOCK (of_nat n) small_sb = 33" by (simp add: BBLOCK_def small_sb_def unat_eq_zero)
  have "list_all (\<lambda>n. bit (small_disk ! 33 ! (n div 8)) (n mod 8) \<longleftrightarrow> n < 34 \<or> n = 35) [0..<50]" by code_simp
  then have "bit (small_disk ! 33 ! (n div 8)) (n mod 8) \<longleftrightarrow> n < 34 \<or> n = 35"
    using assms by (simp add: list_all_iff)
  then show "used (disk_kernel small_sb small_disk x) n \<longleftrightarrow> n < 34 \<or> n = 35"
    using assms by (simp add: used_def m disk_kernel_ok small_disk_ok)
qed

lemma small_room: "log_room {} (disk_kernel small_sb small_disk x)"
proof -
  have sz: "unat (sb_size small_sb) = 50" by (simp add: small_sb_def)
  have u: "unat (of_nat n :: uint) = n" if "n < 50" for n using that by (intro unat_of_nat_small) simp
  have n33: "(of_nat n :: uint) \<noteq> 33" if "n < 50" "\<not> (n < 34 \<or> n = 35)" for n
    using u [OF that(1)] that by auto
  have "bitmap_ok {} (disk_kernel small_sb small_disk x)"
    unfolding bitmap_ok_def Let_def disk_kernel_fields sz
    using small_disk_ok n33 u by (simp add: small_map disk_kernel_ok in_log_def empty_log_def)
  then show ?thesis
    using disk_kernel_ok [OF small_disk_ok(1), of small_sb x] small_disk_ok(2)
    by (simp add: log_room_def room_def) (simp add: empty_log_def)
qed

theorem balloc_first_free_witness:
  "\<exists>t. balloc 1 (disk_kernel small_sb small_disk ()) = Ok (34, t) \<and> view t 34 = replicate 512 0"
proof -
  let ?s = "disk_kernel small_sb small_disk ()"
  have "find (\<lambda>n. \<not> used ?s n) [0..<50] = find (\<lambda>n. \<not> (n < 34 \<or> n = 35)) [0..<50]"
    by (rule find_cong_set) (simp add: small_map)
  also have "\<dots> = Some 34" by code_simp
  finally have "find (\<lambda>n. \<not> used ?s n) [0..<unat (sb_size (k_sb ?s))] = Some 34"
    by (simp add: small_sb_def del: upt_rec_numeral)
  then show ?thesis using balloc_first_free [OF small_room, of "()"] by (auto simp: hands_out_def)
qed

end
