(* ===== verification/Fs.thy ===== *)
theory Fs
  imports Console Fstx
begin

text \<open>
  The upper half of \<^verbatim>\<open>fs.c\<close>: reading and writing inodes, directories and path names, and \<open>loaduvm\<close>
  (\<^verbatim>\<open>vm.c\<close>), which reads a program from an inode. The bytes an operation delivers are part of its
  result; the caller stores them.
\<close>

section \<open>Inode data\<close>

text \<open>The loop of \<open>readi\<close>, with the number of bytes that are left (\<open>n - tot\<close>).\<close>

function readi_loop ::
  "nat \<Rightarrow> uint \<Rightarrow> nat \<Rightarrow> 'a ckernel_scheme \<Rightarrow> (uchar list \<times> 'a ckernel_scheme) outcome" where
  "readi_loop ip off left s =
     (if left = 0 then Ok ([], s)
      else
        andthen (bmap ip (off div 512) s) (\<lambda>(addr, s).
        andthen (bread (i_dev (k_inodes s ! ip)) addr s) (\<lambda>(bp, s).
        let m = min left (BSIZE - unat off mod BSIZE);
            xs = take m (drop (unat off mod BSIZE) (bdata bp s))
        in andthen (brelse bp s) (\<lambda>s.
           andthen (readi_loop ip (off + of_nat m) (left - m) s) (\<lambda>(ys, s). Ok (xs @ ys, s))))))"
  by pat_completeness auto

termination
  by (relation "measure (\<lambda>(ip, off, left, s). left)") (auto simp: min_def)

declare readi_loop.simps [simp del]

definition device :: "ushort \<Rightarrow> (devsw \<Rightarrow> devfun option) \<Rightarrow> 'a ckernel_scheme \<Rightarrow> devfun option" where
  "device major fn s =
     (if sint major < 0 \<or> sint major \<ge> int NDEV then None else fn (k_devsw s ! nat (sint major)))"

definition readi :: "nat \<Rightarrow> uint \<Rightarrow> uint \<Rightarrow> 'a ckernel_scheme \<Rightarrow> (cint \<times> uchar list \<times> 'a ckernel_scheme) outcome" where
  "readi ip off n s =
     (let x = k_inodes s ! ip in
      if i_type x = T_DEV then
        case device (i_major x) dev_read s of
          Some Consoleread \<Rightarrow> consoleread ip n s
        | Some Consolewrite \<Rightarrow> Fault ''not a read function''
        | None \<Rightarrow> Ok (- 1, [], s)
      else if off > i_size x \<or> off + n < off then Ok (- 1, [], s)
      else let n = (if off + n > i_size x then i_size x - off else n) in
        andthen (readi_loop ip off (unat n) s) (\<lambda>(xs, s). Ok (n, xs, s)))"

text \<open>The loop of \<open>writei\<close>; it ends with the offset behind the last byte.\<close>

function writei_loop ::
  "nat \<Rightarrow> source \<Rightarrow> nat \<Rightarrow> uint \<Rightarrow> nat \<Rightarrow> 'a ckernel_scheme \<Rightarrow> (uint \<times> 'a ckernel_scheme) outcome" where
  "writei_loop ip src tot off left s =
     (if left = 0 then Ok (off, s)
      else
        andthen (bmap ip (off div 512) s) (\<lambda>(addr, s).
        andthen (bread (i_dev (k_inodes s ! ip)) addr s) (\<lambda>(bp, s).
        let m = min left (BSIZE - unat off mod BSIZE); o0 = unat off mod BSIZE in
        andthen (gather src tot m) (\<lambda>xs.
        let d = bdata bp s; s = set_data bp (take o0 d @ xs @ drop (o0 + m) d) s in
        andthen (log_write bp s) (\<lambda>s.
        andthen (brelse bp s) (\<lambda>s.
        writei_loop ip src (tot + m) (off + of_nat m) (left - m) s))))))"
  by pat_completeness auto

termination
  by (relation "measure (\<lambda>(ip, src, tot, off, left, s). left)") (auto simp: min_def)

declare writei_loop.simps [simp del]

definition writei :: "nat \<Rightarrow> source \<Rightarrow> uint \<Rightarrow> uint \<Rightarrow> 'a ckernel_scheme \<Rightarrow> (cint \<times> 'a ckernel_scheme) outcome" where
  "writei ip src off n s =
     (let x = k_inodes s ! ip in
      if i_type x = T_DEV then
        case device (i_major x) dev_write s of
          Some Consolewrite \<Rightarrow> consolewrite ip src n s
        | Some Consoleread \<Rightarrow> Fault ''not a write function''
        | None \<Rightarrow> Ok (- 1, s)
      else if off > i_size x \<or> off + n < off then Ok (- 1, s)
      else if unat (off + n) > MAXFILE * BSIZE then Ok (- 1, s)
      else
        andthen (writei_loop ip src 0 off (unat n) s) (\<lambda>(off, s).
        if n > 0 \<and> off > i_size (k_inodes s ! ip) then
          andthen (iupdate ip (upd_inode ip (\<lambda>x. x\<lparr>i_size := off\<rparr>) s)) (\<lambda>s. Ok (n, s))
        else Ok (n, s)))"

text \<open>The bytes of a kernel object as the source of a write.\<close>

definition bytes_src :: "uchar list \<Rightarrow> source" where
  "bytes_src xs i = byte_at xs i"

section \<open>Directories\<close>

record dirent =
  de_inum :: ushort
  de_name :: "uchar list"

definition get_dirent :: "uchar list \<Rightarrow> dirent" where
  "get_dirent d = \<lparr>de_inum = get16 d 0, de_name = take DIRSIZ (drop 2 d)\<rparr>"

definition dirent_bytes :: "dirent \<Rightarrow> uchar list" where
  "dirent_bytes e = bytes_of 2 (de_inum e) @ de_name e"

definition namecmp :: "uchar list \<Rightarrow> uchar list \<Rightarrow> cint outcome" where
  "namecmp s t = strncmp s t 14"

text \<open>The offsets of the entries of a directory of the given size, from the given one on.\<close>

definition entry_offs :: "nat \<Rightarrow> uint \<Rightarrow> nat list" where
  "entry_offs i sz = map (\<lambda>k. 16 * k) [i..<(unat sz + 15) div 16]"

text \<open>
  Reading one entry, with the panic of the caller for a short read. A size that is not a multiple of
  16 makes the last entry such a read.
\<close>

definition read_dirent :: "string \<Rightarrow> nat \<Rightarrow> nat \<Rightarrow> 'a ckernel_scheme \<Rightarrow> (dirent \<times> 'a ckernel_scheme) outcome" where
  "read_dirent msg dp off s =
     andthen (readi dp (of_nat off) 16 s) (\<lambda>(r, xs, s).
     if r \<noteq> 16 then Panic msg else Ok (get_dirent xs, s))"

text \<open>The result is the inode and the offset of its entry.\<close>

primrec dirlookup_loop ::
  "nat \<Rightarrow> uchar list \<Rightarrow> nat list \<Rightarrow> 'a ckernel_scheme \<Rightarrow> ((nat \<times> uint) option \<times> 'a ckernel_scheme) outcome" where
  "dirlookup_loop dp name [] s = Ok (None, s)"
| "dirlookup_loop dp name (off # offs) s =
     andthen (read_dirent ''dirlookup read'' dp off s) (\<lambda>(de, s).
     if de_inum de = 0 then dirlookup_loop dp name offs s
     else andthen (namecmp name (de_name de)) (\<lambda>r.
       if r = 0 then
         andthen (iget (i_dev (k_inodes s ! dp)) (ucast (de_inum de)) s) (\<lambda>(ip, s).
         Ok (Some (ip, of_nat off), s))
       else dirlookup_loop dp name offs s))"

definition dirlookup ::
  "nat \<Rightarrow> uchar list \<Rightarrow> 'a ckernel_scheme \<Rightarrow> ((nat \<times> uint) option \<times> 'a ckernel_scheme) outcome" where
  "dirlookup dp name s =
     (let x = k_inodes s ! dp in
      if i_type x \<noteq> T_DIR then Panic ''dirlookup not DIR''
      else dirlookup_loop dp name (entry_offs 0 (i_size x)) s)"

text \<open>The first free entry, or the offset behind the last one.\<close>

primrec free_dirent ::
  "nat \<Rightarrow> nat list \<Rightarrow> 'a ckernel_scheme \<Rightarrow> (nat option \<times> 'a ckernel_scheme) outcome" where
  "free_dirent dp [] s = Ok (None, s)"
| "free_dirent dp (off # offs) s =
     andthen (read_dirent ''dirlink read'' dp off s) (\<lambda>(de, s).
     if de_inum de = 0 then Ok (Some off, s) else free_dirent dp offs s)"

definition dirlink :: "nat \<Rightarrow> uchar list \<Rightarrow> uint \<Rightarrow> 'a ckernel_scheme \<Rightarrow> (cint \<times> 'a ckernel_scheme) outcome" where
  "dirlink dp name inum s =
     andthen (dirlookup dp name s) (\<lambda>(r, s).
     case r of
       Some (ip, _) \<Rightarrow> andthen (iput ip s) (\<lambda>s. Ok (- 1, s))
     | None \<Rightarrow>
         let offs = entry_offs 0 (i_size (k_inodes s ! dp)) in
         andthen (free_dirent dp offs s) (\<lambda>(off, s).
         let off = (case off of Some off \<Rightarrow> off | None \<Rightarrow> 16 * length offs) in
         andthen (strncpy (replicate DIRSIZ 0) name 14) (\<lambda>nm.
         andthen (writei dp (bytes_src (dirent_bytes \<lparr>de_inum = ucast inum, de_name = nm\<rparr>)) (of_nat off) 16 s) (\<lambda>(r, s).
         if r \<noteq> 16 then Panic ''dirlink'' else Ok (0, s)))))"

section \<open>Paths\<close>

text \<open>A path is the bytes from its start on; running past the last of them is a \<open>Fault\<close>.\<close>

abbreviation (input) slash :: uchar where "slash \<equiv> 0x2F"

definition skipelem :: "uchar list \<Rightarrow> uchar list \<Rightarrow> (uchar list \<times> uchar list) option outcome" where
  "skipelem path name =
     (let path = dropWhile (\<lambda>c. c = slash) path in
      case path of
        [] \<Rightarrow> Fault ''unterminated path''
      | c # _ \<Rightarrow>
          if c = 0 then Ok None
          else
            let elem = takeWhile (\<lambda>c. c \<noteq> slash \<and> c \<noteq> 0) path; len = length elem;
                name = (if len \<ge> DIRSIZ then take DIRSIZ elem @ drop DIRSIZ name
                        else elem @ [0] @ drop (len + 1) name);
                rest = dropWhile (\<lambda>c. c = slash) (drop len path)
            in if drop len path = [] \<or> rest = [] then Fault ''unterminated path'' else Ok (Some (rest, name)))"

lemma skipelem_shorter:
  assumes "skipelem path name = Ok (Some (path', name'))"
  shows "length path' < length path"
proof -
  let ?p = "dropWhile (\<lambda>c. c = slash) path"
  let ?e = "takeWhile (\<lambda>c. c \<noteq> slash \<and> c \<noteq> 0) ?p"
  obtain c cs where p: "?p = c # cs" and c: "c \<noteq> 0"
    using assms by (auto simp: skipelem_def Let_def split: list.splits if_splits)
  have "c \<noteq> slash" using hd_dropWhile [of "\<lambda>c. c = slash" path] p by auto
  then have e: "0 < length ?e" using c p by simp
  have "path' = dropWhile (\<lambda>c. c = slash) (drop (length ?e) ?p)"
    using assms p by (auto simp: skipelem_def Let_def split: list.splits if_splits)
  then have "length path' \<le> length (drop (length ?e) ?p)" by (simp only: length_dropWhile_le)
  also have "\<dots> < length ?p" using e p by (cases "?e") auto
  also have "\<dots> \<le> length path" by (rule length_dropWhile_le)
  finally show ?thesis .
qed

text \<open>
  The loop of \<open>namex\<close>. The result is the inode, if any, and the array \<open>name\<close>.
\<close>

function namex_loop ::
  "uchar list \<Rightarrow> bool \<Rightarrow> uchar list \<Rightarrow> nat \<Rightarrow> 'a ckernel_scheme
    \<Rightarrow> (nat option \<times> uchar list \<times> 'a ckernel_scheme) outcome" where
  "namex_loop path nameiparent name ip s =
     andthen (skipelem path name) (\<lambda>r.
     case r of
       None \<Rightarrow>
         if nameiparent then andthen (iput ip s) (\<lambda>s. Ok (None, name, s)) else Ok (Some ip, name, s)
     | Some (path, name) \<Rightarrow>
         andthen (ilock (Some ip) s) (\<lambda>s.
         if i_type (k_inodes s ! ip) \<noteq> T_DIR then andthen (iunlockput ip s) (\<lambda>s. Ok (None, name, s))
         else if nameiparent \<and> hd path = 0 then andthen (iunlock (Some ip) s) (\<lambda>s. Ok (Some ip, name, s))
         else
           andthen (dirlookup ip name s) (\<lambda>(nxt, s).
           case nxt of
             None \<Rightarrow> andthen (iunlockput ip s) (\<lambda>s. Ok (None, name, s))
           | Some (nxt, _) \<Rightarrow> andthen (iunlockput ip s) (namex_loop path nameiparent name nxt))))"
  by pat_completeness auto

termination
  by (relation "measure (\<lambda>(path, np, name, ip, s). length path)") (auto dest: skipelem_shorter)

declare namex_loop.simps [simp del]

definition namex ::
  "uchar list \<Rightarrow> bool \<Rightarrow> uchar list \<Rightarrow> 'a ckernel_scheme \<Rightarrow> (nat option \<times> uchar list \<times> 'a ckernel_scheme) outcome" where
  "namex path nameiparent name s =
     andthen (byte_at path 0) (\<lambda>c.
     andthen
       (if c = slash then iget ROOTDEV ROOTINO s
        else with_proc s (\<lambda>i p. case p_cwd p of None \<Rightarrow> Fault ''null cwd'' | Some ip \<Rightarrow> idup ip s))
       (\<lambda>(ip, s). namex_loop path nameiparent name ip s))"

text \<open>The array \<open>name\<close> of the callers is not initialised; its bytes do not matter.\<close>

definition namei :: "uchar list \<Rightarrow> 'a ckernel_scheme \<Rightarrow> (nat option \<times> 'a ckernel_scheme) outcome" where
  "namei path s = andthen (namex path False (replicate DIRSIZ 0) s) (\<lambda>(ip, _, s). Ok (ip, s))"

definition nameiparent ::
  "uchar list \<Rightarrow> uchar list \<Rightarrow> 'a ckernel_scheme \<Rightarrow> (nat option \<times> uchar list \<times> 'a ckernel_scheme) outcome" where
  "nameiparent path name s = namex path True name s"

section \<open>Loading a program segment\<close>

primrec loaduvm_loop ::
  "addr_t \<Rightarrow> addr_t \<Rightarrow> nat \<Rightarrow> uint \<Rightarrow> uint \<Rightarrow> nat list \<Rightarrow> 'a ckernel_scheme \<Rightarrow> (cint \<times> 'a ckernel_scheme) outcome" where
  "loaduvm_loop pgdir addr ip offset sz [] s = Ok (0, s)"
| "loaduvm_loop pgdir addr ip offset sz (i # is) s =
     andthen (walkpgdir pgdir (addr + of_nat i) False s) (\<lambda>(pte, s).
     case pte of
       None \<Rightarrow> Panic ''loaduvm: address should exist''
     | Some pte \<Rightarrow>
         let pa = PTE_ADDR (load64 (k_mem s) pte); n = sz - of_nat i; n = (if n < 4096 then n else 4096) in
         andthen (readi ip (offset + of_nat i) n s) (\<lambda>(r, xs, s).
         let s = s\<lparr>k_mem := write_bytes (P2V pa) xs (k_mem s)\<rparr> in
         if r \<noteq> n then Ok (- 1, s) else loaduvm_loop pgdir addr ip offset sz is s))"

text \<open>\<open>i\<close> runs over the multiples of \<open>PGSIZE\<close> below \<open>sz\<close>.\<close>

definition loaduvm ::
  "addr_t \<Rightarrow> addr_t \<Rightarrow> nat \<Rightarrow> uint \<Rightarrow> uint \<Rightarrow> 'a ckernel_scheme \<Rightarrow> (cint \<times> 'a ckernel_scheme) outcome" where
  "loaduvm pgdir addr ip offset sz s =
     (if addr mod PGSIZE \<noteq> 0 then Panic ''loaduvm: addr must be page aligned''
      else loaduvm_loop pgdir addr ip offset sz (map (\<lambda>k. 4096 * k) [0..<(unat sz + 4095) div 4096]) s)"

end
