(* ===== verification/File.thy ===== *)
theory File
  imports Fs
begin

text \<open>
  \<^verbatim>\<open>file.c\<close> and \<^verbatim>\<open>pipe.c\<close>: the table of open files and pipes. A pointer to a file is its index in the
  table, a pointer to a pipe the address of the page it was allocated in.
\<close>

section \<open>State\<close>

abbreviation (input) PIPESIZE :: nat where "PIPESIZE \<equiv> 512"

datatype filetype = FD_NONE | FD_PIPE | FD_INODE

record ofile =
  f_type :: filetype
  f_ref :: cint
  f_readable :: bool
  f_writable :: bool
  f_pipe :: addr_t
  f_ip :: "nat option"
  f_off :: uint

record pipe =
  pi_lock :: spinlock
  pi_data :: "uchar list"
  pi_nread :: uint
  pi_nwrite :: uint
  pi_readopen :: bool
  pi_writeopen :: bool

record fkernel = ckernel +
  k_ftlock :: spinlock
  k_files :: "ofile list"
  k_pipes :: "addr_t \<Rightarrow> pipe"

definition upd_file :: "nat \<Rightarrow> (ofile \<Rightarrow> ofile) \<Rightarrow> 'a fkernel_scheme \<Rightarrow> 'a fkernel_scheme" where
  "upd_file f g s = s\<lparr>k_files := (k_files s)[f := g (k_files s ! f)]\<rparr>"

definition upd_pipe :: "addr_t \<Rightarrow> (pipe \<Rightarrow> pipe) \<Rightarrow> 'a fkernel_scheme \<Rightarrow> 'a fkernel_scheme" where
  "upd_pipe p g s = s\<lparr>k_pipes := (k_pipes s)(p := g (k_pipes s p))\<rparr>"

definition acquire_ft :: "'a fkernel_scheme \<Rightarrow> 'a fkernel_scheme outcome" where
  "acquire_ft s = andthen (acquire (k_cpu s) (k_ftlock s)) (\<lambda>(c, lk). Ok (s\<lparr>k_cpu := c, k_ftlock := lk\<rparr>))"

definition release_ft :: "'a fkernel_scheme \<Rightarrow> 'a fkernel_scheme outcome" where
  "release_ft s = andthen (release (k_cpu s) (k_ftlock s)) (\<lambda>(c, lk). Ok (s\<lparr>k_cpu := c, k_ftlock := lk\<rparr>))"

definition acquire_pipe :: "addr_t \<Rightarrow> 'a fkernel_scheme \<Rightarrow> 'a fkernel_scheme outcome" where
  "acquire_pipe p s = andthen (acquire (k_cpu s) (pi_lock (k_pipes s p)))
     (\<lambda>(c, lk). Ok (upd_pipe p (\<lambda>x. x\<lparr>pi_lock := lk\<rparr>) (s\<lparr>k_cpu := c\<rparr>)))"

definition release_pipe :: "addr_t \<Rightarrow> 'a fkernel_scheme \<Rightarrow> 'a fkernel_scheme outcome" where
  "release_pipe p s = andthen (release (k_cpu s) (pi_lock (k_pipes s p)))
     (\<lambda>(c, lk). Ok (upd_pipe p (\<lambda>x. x\<lparr>pi_lock := lk\<rparr>) (s\<lparr>k_cpu := c\<rparr>)))"

section \<open>Pipes\<close>

definition nread_chan :: "addr_t \<Rightarrow> chan" where
  "nread_chan p = PipeReadChan (unat p)"

definition nwrite_chan :: "addr_t \<Rightarrow> chan" where
  "nwrite_chan p = PipeWriteChan (unat p)"

definition pipeclose :: "addr_t \<Rightarrow> bool \<Rightarrow> 'a fkernel_scheme \<Rightarrow> 'a fkernel_scheme outcome" where
  "pipeclose p writable s =
     andthen (acquire_pipe p s) (\<lambda>s.
     andthen
       (if writable then wakeup (nread_chan p) (upd_pipe p (\<lambda>x. x\<lparr>pi_writeopen := False\<rparr>) s)
        else wakeup (nwrite_chan p) (upd_pipe p (\<lambda>x. x\<lparr>pi_readopen := False\<rparr>) s)) (\<lambda>s.
     if \<not> pi_readopen (k_pipes s p) \<and> \<not> pi_writeopen (k_pipes s p)
     then andthen (release_pipe p s) (kfree p)
     else release_pipe p s))"

text \<open>
  The loop of \<open>pipewrite\<close> up to the point where the pipe is full: the number of bytes written by then
  (all of them, unless it is full) and the pipe.
\<close>

definition pipe_put :: "uchar \<Rightarrow> pipe \<Rightarrow> pipe" where
  "pipe_put c x = x\<lparr>pi_data := (pi_data x)[unat (pi_nwrite x) mod PIPESIZE := c], pi_nwrite := pi_nwrite x + 1\<rparr>"

primrec pipe_fill :: "source \<Rightarrow> nat \<Rightarrow> nat \<Rightarrow> pipe \<Rightarrow> (nat \<times> pipe) outcome" where
  "pipe_fill src i 0 x = Ok (i, x)"
| "pipe_fill src i (Suc n) x =
     (if pi_nwrite x = pi_nread x + 512 then Ok (i, x)
      else andthen (src i) (\<lambda>c. pipe_fill src (Suc i) n (pipe_put c x)))"

text \<open>
  \<open>pipewrite\<close>. When the pipe is full and somebody may still read it, the writer wakes the readers and
  sleeps: the outcome \<open>Blocked\<close>.
\<close>

definition pipewrite :: "addr_t \<Rightarrow> source \<Rightarrow> cint \<Rightarrow> 'a fkernel_scheme \<Rightarrow> (cint \<times> 'a fkernel_scheme) outcome" where
  "pipewrite p src n s =
     andthen (acquire_pipe p s) (\<lambda>s.
     andthen (pipe_fill src 0 (nat (sint n)) (k_pipes s p)) (\<lambda>(i, x).
     let s = upd_pipe p (\<lambda>_. x) s in
     if i < nat (sint n) then
       with_proc s (\<lambda>_ q.
       if \<not> pi_readopen x \<or> p_killed q then andthen (release_pipe p s) (\<lambda>s. Ok (- 1, s))
       else andthen (wakeup (nread_chan p) s) (\<lambda>s. Blocked ''pipewrite''))
     else
       andthen (wakeup (nread_chan p) s) (\<lambda>s.
       andthen (release_pipe p s) (\<lambda>s. Ok (n, s)))))"

primrec pipe_drain :: "nat \<Rightarrow> pipe \<Rightarrow> uchar list \<times> pipe" where
  "pipe_drain 0 x = ([], x)"
| "pipe_drain (Suc n) x =
     (if pi_nread x = pi_nwrite x then ([], x)
      else let c = pi_data x ! (unat (pi_nread x) mod PIPESIZE);
               (cs, x) = pipe_drain n (x\<lparr>pi_nread := pi_nread x + 1\<rparr>)
        in (c # cs, x))"

definition piperead :: "addr_t \<Rightarrow> cint \<Rightarrow> 'a fkernel_scheme \<Rightarrow> (cint \<times> uchar list \<times> 'a fkernel_scheme) outcome" where
  "piperead p n s =
     andthen (acquire_pipe p s) (\<lambda>s.
     let x = k_pipes s p in
     if pi_nread x = pi_nwrite x \<and> pi_writeopen x then
       with_proc s (\<lambda>_ q.
       if p_killed q then andthen (release_pipe p s) (\<lambda>s. Ok (- 1, [], s)) else Blocked ''piperead'')
     else
       let (cs, x) = pipe_drain (nat (sint n)) x; s = upd_pipe p (\<lambda>_. x) s in
       andthen (wakeup (nwrite_chan p) s) (\<lambda>s.
       andthen (release_pipe p s) (\<lambda>s. Ok (of_nat (length cs), cs, s))))"

section \<open>Open files\<close>

definition fileinit :: "'a fkernel_scheme \<Rightarrow> 'a fkernel_scheme" where
  "fileinit s = s\<lparr>k_ftlock := initlock\<rparr>"

definition filealloc :: "'a fkernel_scheme \<Rightarrow> (nat option \<times> 'a fkernel_scheme) outcome" where
  "filealloc s =
     andthen (acquire_ft s) (\<lambda>s.
     case find (\<lambda>f. f_ref (k_files s ! f) = 0) [0..<NFILE] of
       Some f \<Rightarrow>
         let s = upd_file f (\<lambda>x. x\<lparr>f_ref := 1\<rparr>) s in
         andthen (release_ft s) (\<lambda>s. Ok (Some f, s))
     | None \<Rightarrow> andthen (release_ft s) (\<lambda>s. Ok (None, s)))"

definition filedup :: "nat \<Rightarrow> 'a fkernel_scheme \<Rightarrow> (nat \<times> 'a fkernel_scheme) outcome" where
  "filedup f s =
     andthen (acquire_ft s) (\<lambda>s.
     if sint (f_ref (k_files s ! f)) < 1 then Panic ''filedup''
     else let s = upd_file f (\<lambda>x. x\<lparr>f_ref := f_ref x + 1\<rparr>) s in
       andthen (release_ft s) (\<lambda>s. Ok (f, s)))"

definition fileclose :: "nat \<Rightarrow> 'a fkernel_scheme \<Rightarrow> 'a fkernel_scheme outcome" where
  "fileclose f s =
     andthen (acquire_ft s) (\<lambda>s.
     if sint (f_ref (k_files s ! f)) < 1 then Panic ''fileclose''
     else
       let s = upd_file f (\<lambda>x. x\<lparr>f_ref := f_ref x - 1\<rparr>) s in
       if sint (f_ref (k_files s ! f)) > 0 then release_ft s
       else
         let ff = k_files s ! f; s = upd_file f (\<lambda>x. x\<lparr>f_ref := 0, f_type := FD_NONE\<rparr>) s in
         andthen (release_ft s) (\<lambda>s.
         case f_type ff of
           FD_PIPE \<Rightarrow> pipeclose (f_pipe ff) (f_writable ff) s
         | FD_INODE \<Rightarrow>
             (case f_ip ff of
                None \<Rightarrow> Fault ''null inode''
              | Some ip \<Rightarrow> andthen (begin_op s) (\<lambda>s. andthen (iput ip s) end_op))
         | FD_NONE \<Rightarrow> Ok s))"

text \<open>
  \<open>pipealloc\<close>: the files and the pipe of the error exit are the ones allocated so far.
\<close>

definition pipe_bad ::
  "addr_t \<Rightarrow> nat option \<Rightarrow> nat option \<Rightarrow> 'a fkernel_scheme \<Rightarrow> ((nat \<times> nat) option \<times> 'a fkernel_scheme) outcome" where
  "pipe_bad p f0 f1 s =
     andthen (if p \<noteq> 0 then kfree p s else Ok s) (\<lambda>s.
     andthen (case f0 of Some f \<Rightarrow> fileclose f s | None \<Rightarrow> Ok s) (\<lambda>s.
     andthen (case f1 of Some f \<Rightarrow> fileclose f s | None \<Rightarrow> Ok s) (\<lambda>s. Ok (None, s))))"

definition pipealloc :: "'a fkernel_scheme \<Rightarrow> ((nat \<times> nat) option \<times> 'a fkernel_scheme) outcome" where
  "pipealloc s =
     andthen (filealloc s) (\<lambda>(f0, s).
     case f0 of None \<Rightarrow> pipe_bad 0 None None s | Some f0 \<Rightarrow>
     andthen (filealloc s) (\<lambda>(f1, s).
     case f1 of None \<Rightarrow> pipe_bad 0 (Some f0) None s | Some f1 \<Rightarrow>
     andthen (kalloc s) (\<lambda>(p, s).
     if p = 0 then pipe_bad 0 (Some f0) (Some f1) s
     else
       let s = upd_pipe p (\<lambda>x. x\<lparr>pi_readopen := True, pi_writeopen := True, pi_nwrite := 0, pi_nread := 0,
                 pi_lock := initlock\<rparr>) s;
           s = upd_file f0 (\<lambda>x. x\<lparr>f_type := FD_PIPE, f_readable := True, f_writable := False, f_pipe := p\<rparr>) s;
           s = upd_file f1 (\<lambda>x. x\<lparr>f_type := FD_PIPE, f_readable := False, f_writable := True, f_pipe := p\<rparr>) s
       in Ok (Some (f0, f1), s))))"

text \<open>The result of \<open>filestat\<close> is \<open>None\<close> where the code returns -1.\<close>

definition filestat :: "nat \<Rightarrow> 'a fkernel_scheme \<Rightarrow> (stat option \<times> 'a fkernel_scheme) outcome" where
  "filestat f s =
     (let x = k_files s ! f in
      if f_type x = FD_INODE then
        andthen (ilock (f_ip x) s) (\<lambda>s.
        let st = stati (the (f_ip x)) s in
        andthen (iunlock (f_ip x) s) (\<lambda>s. Ok (Some st, s)))
      else Ok (None, s))"

definition fileread :: "nat \<Rightarrow> cint \<Rightarrow> 'a fkernel_scheme \<Rightarrow> (cint \<times> uchar list \<times> 'a fkernel_scheme) outcome" where
  "fileread f n s =
     (let x = k_files s ! f in
      if \<not> f_readable x then Ok (- 1, [], s)
      else case f_type x of
        FD_PIPE \<Rightarrow> piperead (f_pipe x) n s
      | FD_INODE \<Rightarrow>
          andthen (ilock (f_ip x) s) (\<lambda>s.
          andthen (readi (the (f_ip x)) (f_off (k_files s ! f)) n s) (\<lambda>(r, xs, s).
          let s = (if sint r > 0 then upd_file f (\<lambda>x. x\<lparr>f_off := f_off x + r\<rparr>) s else s) in
          andthen (iunlock (f_ip x) s) (\<lambda>s. Ok (r, xs, s))))
      | FD_NONE \<Rightarrow> Panic ''fileread'')"

text \<open>The most bytes written in one transaction.\<close>

definition filewrite_max :: nat where
  "filewrite_max = ((LOGSIZE - 1 - 1 - 2) div 2) * 512"

text \<open>The loop of \<open>filewrite\<close>: it ends with the number of bytes written.\<close>

function filewrite_loop ::
  "nat \<Rightarrow> nat option \<Rightarrow> source \<Rightarrow> nat \<Rightarrow> nat \<Rightarrow> 'a fkernel_scheme \<Rightarrow> (nat \<times> 'a fkernel_scheme) outcome" where
  "filewrite_loop f ip src i n s =
     (if i < n then
        let n1 = min (n - i) filewrite_max in
        andthen (begin_op s) (\<lambda>s.
        andthen (ilock ip s) (\<lambda>s.
        andthen (writei (the ip) (\<lambda>j. src (i + j)) (f_off (k_files s ! f)) (of_nat n1) s) (\<lambda>(r, s).
        let s = (if sint r > 0 then upd_file f (\<lambda>x. x\<lparr>f_off := f_off x + r\<rparr>) s else s) in
        andthen (iunlock ip s) (\<lambda>s.
        andthen (end_op s) (\<lambda>s.
        if sint r < 0 then Ok (i, s)
        else if r \<noteq> of_nat n1 then Panic ''short filewrite''
        else filewrite_loop f ip src (i + n1) n s)))))
      else Ok (i, s))"
  by pat_completeness auto

termination
  by (relation "measure (\<lambda>(f, ip, src, i, n, s). n - i)") (auto simp: filewrite_max_def)

declare filewrite_loop.simps [simp del]

definition filewrite :: "nat \<Rightarrow> source \<Rightarrow> cint \<Rightarrow> 'a fkernel_scheme \<Rightarrow> (cint \<times> 'a fkernel_scheme) outcome" where
  "filewrite f src n s =
     (let x = k_files s ! f in
      if \<not> f_writable x then Ok (- 1, s)
      else case f_type x of
        FD_PIPE \<Rightarrow> pipewrite (f_pipe x) src n s
      | FD_INODE \<Rightarrow>
          if sint n < 0 then Ok (- 1, s)
          else
            andthen (filewrite_loop f (f_ip x) src 0 (nat (sint n)) s) (\<lambda>(i, s).
            Ok (if i = nat (sint n) then n else - 1, s))
      | FD_NONE \<Rightarrow> Panic ''filewrite'')"

section \<open>A pipe is a bounded queue\<close>

text \<open>
  A bounded queue of bytes: \<open>ok\<close> is its invariant, \<open>items\<close> what it holds, \<open>put\<close> and \<open>get\<close> its operations.
\<close>

locale bounded_queue =
  fixes ok :: "'q \<Rightarrow> bool" and items :: "'q \<Rightarrow> 'b list" and cap :: nat
    and put :: "'b \<Rightarrow> 'q \<Rightarrow> 'q" and get :: "'q \<Rightarrow> 'b \<times> 'q"
  assumes items_cap: "ok q \<Longrightarrow> length (items q) \<le> cap"
    and put_ok: "ok q \<Longrightarrow> length (items q) < cap \<Longrightarrow> ok (put b q)"
    and put_items: "ok q \<Longrightarrow> length (items q) < cap \<Longrightarrow> items (put b q) = items q @ [b]"
    and get_ok: "ok q \<Longrightarrow> items q \<noteq> [] \<Longrightarrow> ok (snd (get q))"
    and get_items: "ok q \<Longrightarrow> items q \<noteq> [] \<Longrightarrow> items q = fst (get q) # items (snd (get q))"
begin

lemma put_all:
  "ok q \<Longrightarrow> length (items q) + length bs \<le> cap \<Longrightarrow>
     ok (fold put bs q) \<and> items (fold put bs q) = items q @ bs"
  by (induction bs arbitrary: q) (simp_all add: put_ok put_items)

primrec get_n :: "nat \<Rightarrow> 'q \<Rightarrow> 'b list \<times> 'q" where
  "get_n 0 q = ([], q)"
| "get_n (Suc n) q = (if items q = [] then ([], q)
     else let (b, q) = get q; (bs, q) = get_n n q in (b # bs, q))"

lemma get_n_items:
  "ok q \<Longrightarrow> ok (snd (get_n n q)) \<and> fst (get_n n q) = take n (items q) \<and> items (snd (get_n n q)) = drop n (items q)"
proof (induction n arbitrary: q)
  case (Suc n)
  show ?case
  proof (cases "items q = []")
    case False
    then show ?thesis
      using Suc.IH [OF get_ok [OF Suc.prems False]] get_items [OF Suc.prems False]
      by (auto simp: split_beta)
  qed (simp add: Suc.prems)
qed simp

end

definition pipe_items :: "pipe \<Rightarrow> uchar list" where
  "pipe_items x = ring_items PIPESIZE (pi_data x) (pi_nread x) (pi_nwrite x)"

definition pipe_ok :: "pipe \<Rightarrow> bool" where
  "pipe_ok x \<longleftrightarrow> length (pi_data x) = PIPESIZE \<and> unat (pi_nwrite x - pi_nread x) \<le> PIPESIZE"

definition pipe_get :: "pipe \<Rightarrow> uchar \<times> pipe" where
  "pipe_get x = (pi_data x ! (unat (pi_nread x) mod PIPESIZE), x\<lparr>pi_nread := pi_nread x + 1\<rparr>)"

lemma length_pipe_items: "length (pipe_items x) = unat (pi_nwrite x - pi_nread x)"
  by (simp add: pipe_items_def)

lemma pipe_full_iff: "pi_nwrite x = pi_nread x + 512 \<longleftrightarrow> length (pipe_items x) = PIPESIZE"
proof -
  have "pi_nwrite x = pi_nread x + 512 \<longleftrightarrow> pi_nwrite x - pi_nread x = 512" by (auto simp: algebra_simps)
  also have "\<dots> \<longleftrightarrow> unat (pi_nwrite x - pi_nread x) = 512" by (simp add: word_unat_eq_iff)
  finally show ?thesis by (simp add: length_pipe_items)
qed

lemma pipe_empty_iff: "pi_nread x = pi_nwrite x \<longleftrightarrow> pipe_items x = []"
proof -
  have "pipe_items x = [] \<longleftrightarrow> unat (pi_nwrite x - pi_nread x) = 0" by (simp flip: length_pipe_items)
  also have "\<dots> \<longleftrightarrow> pi_nread x = pi_nwrite x" by (auto simp: unat_eq_zero)
  finally show ?thesis by simp
qed

interpretation pipeq: bounded_queue pipe_ok pipe_items 512 pipe_put pipe_get
proof
  fix x :: pipe and c
  assume ok: "pipe_ok x" and room: "length (pipe_items x) < 512"
  have "unat (pi_nwrite x + 1 - pi_nread x) = unat (pi_nwrite x - pi_nread x) + 1"
    using room by (intro unat_sub_add_one) (simp add: length_pipe_items)
  then show "pipe_ok (pipe_put c x)" using ok room by (simp add: pipe_ok_def pipe_put_def length_pipe_items)
  show "pipe_items (pipe_put c x) = pipe_items x @ [c]"
    using ok room ring512.push [of "pi_data x" "pi_nwrite x" "pi_nread x" c]
    by (simp add: pipe_items_def pipe_put_def ring_slot_def pipe_ok_def)
next
  fix x :: pipe
  assume ok: "pipe_ok x" and ne: "pipe_items x \<noteq> []"
  have neq: "pi_nread x \<noteq> pi_nwrite x" using ne by (simp add: pipe_empty_iff)
  show "pipe_ok (snd (pipe_get x))"
    using ok unat_sub_pos_step [OF neq] by (simp add: pipe_ok_def pipe_get_def)
  show "pipe_items x = fst (pipe_get x) # pipe_items (snd (pipe_get x))"
    using ring512.pop [OF neq, of "pi_data x"] by (simp add: pipe_items_def pipe_get_def ring_slot_def)
qed (simp add: pipe_ok_def length_pipe_items)

lemma pipe_drain_get_n: "pipe_drain n x = pipeq.get_n n x"
  by (induction n arbitrary: x) (simp_all add: pipe_empty_iff pipe_get_def split_beta)

text \<open>What \<open>pipewrite\<close> can put into the pipe before it is full.\<close>

lemma pipe_fill_ok:
  assumes "gather src i n = Ok bs" and "pipe_ok x"
  shows "\<exists>k. k = min n (PIPESIZE - length (pipe_items x)) \<and>
    pipe_fill src i n x = Ok (i + k, fold pipe_put (take k bs) x)"
  using assms
proof (induction n arbitrary: i bs x)
  case (Suc n)
  show ?case
  proof (cases "length (pipe_items x) = 512")
    case True
    then show ?thesis by (simp add: pipe_full_iff)
  next
    case False
    have len: "length (pipe_items x) < 512" using False pipeq.items_cap [OF Suc.prems(2)] by simp
    obtain c cs where c: "src i = Ok c" and cs: "gather src (Suc i) n = Ok cs" and bs: "bs = c # cs"
      using Suc.prems(1) by (auto simp: outcome_iff)
    have "length (pipe_items (pipe_put c x)) = Suc (length (pipe_items x))"
      using pipeq.put_items [OF Suc.prems(2) len] by simp
    moreover obtain k where "k = min n (512 - length (pipe_items (pipe_put c x)))"
      and "pipe_fill src (Suc i) n (pipe_put c x) = Ok (Suc i + k, fold pipe_put (take k cs) (pipe_put c x))"
      using Suc.IH [OF cs pipeq.put_ok [OF Suc.prems(2) len]] by blast
    ultimately show ?thesis
      using False len by (intro exI [of _ "Suc k"]) (auto simp: pipe_full_iff c bs)
  qed
qed simp

section \<open>A writer and a reader\<close>

text \<open>
  A writer with the bytes it still has to write and a reader with what it has got so far, on one pipe.
  Between two sleeps the writer moves what fits, and the reader what it finds, up to the size of its
  buffer; the order of their turns is up to the scheduler. \<open>pipe_run n\<close> is a run of \<open>n\<close> turns.
\<close>

type_synonym transfer = "uchar list \<times> pipe \<times> uchar list"

inductive pipe_step :: "transfer \<Rightarrow> transfer \<Rightarrow> bool" where
  write_turn: "pipe_fill (bytes_src rest) 0 (length rest) x = Ok (i, y) \<Longrightarrow> 0 < i \<Longrightarrow>
     pipe_step (rest, x, rcvd) (drop i rest, y, rcvd)"
| read_turn: "pipe_drain n x = (cs, y) \<Longrightarrow> cs \<noteq> [] \<Longrightarrow> pipe_step (rest, x, rcvd) (rest, y, rcvd @ cs)"

inductive_cases pipe_stepE: "pipe_step st st'"

inductive pipe_run :: "nat \<Rightarrow> transfer \<Rightarrow> transfer \<Rightarrow> bool" where
  run_none: "pipe_run 0 st st"
| run_more: "pipe_run n st st' \<Longrightarrow> pipe_step st' st'' \<Longrightarrow> pipe_run (Suc n) st st''"

lemma gather_bytes: "i + n \<le> length bs \<Longrightarrow> gather (bytes_src bs) i n = Ok (take n (drop i bs))"
proof (induction n arbitrary: i)
  case (Suc n)
  have "drop i bs = bs ! i # drop (Suc i) bs" using Suc.prems by (simp add: Cons_nth_drop_Suc)
  then show ?case using Suc by (simp add: bytes_src_def byte_at_def)
qed simp

lemma gather_all: "gather (bytes_src bs) 0 (length bs) = Ok bs"
  by (simp add: gather_bytes)

lemma pipe_fill_list:
  assumes "pipe_ok x"
  shows "pipe_fill (bytes_src bs) 0 (length bs) x =
    (let k = min (length bs) (PIPESIZE - length (pipe_items x)) in Ok (k, fold pipe_put (take k bs) x))"
  using pipe_fill_ok [OF gather_all assms, of bs] by (auto simp: Let_def)

lemma fold_put_ok:
  assumes "pipe_ok x" and "k = min (length bs) (PIPESIZE - length (pipe_items x))"
  shows "pipe_ok (fold pipe_put (take k bs) x)" "pipe_items (fold pipe_put (take k bs) x) = pipe_items x @ take k bs"
  using pipeq.put_all [OF assms(1), of "take k bs"] pipeq.items_cap [OF assms(1)] assms(2) by auto

text \<open>Nothing is lost, added or reordered by a turn, and every turn brings bytes closer to the reader.\<close>

definition moving :: "uchar list \<Rightarrow> transfer \<Rightarrow> bool" where
  "moving msg st \<longleftrightarrow> (case st of (rest, x, rcvd) \<Rightarrow> pipe_ok x \<and> rcvd @ pipe_items x @ rest = msg)"

fun distance :: "transfer \<Rightarrow> nat" where
  "distance (rest, x, rcvd) = 2 * length rest + length (pipe_items x)"

lemma write_turn_moves:
  assumes "moving msg (rest, x, rcvd)" and "pipe_fill (bytes_src rest) 0 (length rest) x = Ok (i, y)" and "0 < i"
  shows "moving msg (drop i rest, y, rcvd) \<and> distance (drop i rest, y, rcvd) < distance (rest, x, rcvd)"
proof -
  have ok: "pipe_ok x" and msg: "rcvd @ pipe_items x @ rest = msg" using assms(1) by (auto simp: moving_def)
  have i: "i = min (length rest) (512 - length (pipe_items x))" and y: "y = fold pipe_put (take i rest) x"
    using assms(2) by (auto simp: pipe_fill_list [OF ok] Let_def)
  have y_ok: "pipe_ok y" and items: "pipe_items y = pipe_items x @ take i rest"
    using fold_put_ok [OF ok i] y by simp_all
  have "moving msg (drop i rest, y, rcvd)" using y_ok items msg by (simp add: moving_def)
  moreover have "length (pipe_items y) = length (pipe_items x) + i" using items i by simp
  moreover have "i \<le> length rest" using i by simp
  ultimately show ?thesis using assms(3) by simp
qed

lemma read_turn_moves:
  assumes "moving msg (rest, x, rcvd)" and "pipe_drain n x = (cs, y)" and "cs \<noteq> []"
  shows "moving msg (rest, y, rcvd @ cs) \<and> distance (rest, y, rcvd @ cs) < distance (rest, x, rcvd)"
proof -
  have ok: "pipe_ok x" and msg: "rcvd @ pipe_items x @ rest = msg" using assms(1) by (auto simp: moving_def)
  have y: "pipe_ok y" "cs = take n (pipe_items x)" "pipe_items y = drop n (pipe_items x)"
    using pipeq.get_n_items [OF ok, of n] assms(2) by (simp_all add: pipe_drain_get_n)
  have "cs @ pipe_items y = pipe_items x" using y by simp
  then have "moving msg (rest, y, rcvd @ cs)" using y(1) msg by (auto simp: moving_def)
  moreover have "length (pipe_items y) < length (pipe_items x)"
    using assms(3) y by auto
  ultimately show ?thesis by simp
qed

lemma pipe_step_moves:
  "pipe_step st st' \<Longrightarrow> moving msg st \<Longrightarrow> moving msg st' \<and> distance st' < distance st"
  by (induction rule: pipe_step.induct) (rule write_turn_moves read_turn_moves; assumption)+

lemma pipe_run_moves:
  "pipe_run n st st' \<Longrightarrow> moving msg st \<Longrightarrow> moving msg st' \<and> n + distance st' \<le> distance st"
proof (induction rule: pipe_run.induct)
  case (run_more n st st' st'')
  then show ?case using pipe_step_moves [of st' st'' msg] by fastforce
qed simp

lemma pipe_step_possible:
  assumes "pipe_ok x" and "rest \<noteq> [] \<or> pipe_items x \<noteq> []"
  shows "\<exists>st. pipe_step (rest, x, rcvd) st"
proof (cases "pipe_items x = []")
  case True
  then have "rest \<noteq> []" using assms(2) by simp
  then have "0 < min (length rest) (512 - length (pipe_items x))" using True by simp
  then show ?thesis
    using write_turn [of rest x] pipe_fill_list [OF assms(1), of rest] unfolding Let_def by blast
next
  case False
  then have "fst (pipe_drain 1 x) \<noteq> []"
    using pipeq.get_n_items [OF assms(1), of 1] by (simp add: pipe_drain_get_n)
  then show ?thesis using read_turn [OF prod.collapse [symmetric], of 1 x] by blast
qed

text \<open>C20: A pipe delivers.  However a writer and a reader take turns on an empty pipe, what the reader has
  got, what the pipe holds and what is still to be written are at every time the message in its order, and
  the pipe never holds more than 512 bytes.  A run has at most twice as many turns as the message has bytes,
  and one that cannot go on has delivered all of it.\<close>

theorem pipe_delivers:
  assumes "pipe_ok x" and "pipe_items x = []" and "pipe_run n (msg, x, []) (rest, y, rcvd)"
  shows "rcvd @ pipe_items y @ rest = msg \<and> length (pipe_items y) \<le> PIPESIZE \<and> n \<le> 2 * length msg \<and>
    ((\<nexists>st. pipe_step (rest, y, rcvd) st) \<longrightarrow> rcvd = msg)"
proof -
  have "moving msg (msg, x, [])" using assms(1,2) by (simp add: moving_def)
  then have mv: "moving msg (rest, y, rcvd)" and n: "n + distance (rest, y, rcvd) \<le> 2 * length msg"
    using pipe_run_moves [OF assms(3)] assms(2) by auto
  have msg: "rcvd @ pipe_items y @ rest = msg" and ok: "pipe_ok y" using mv by (simp_all add: moving_def)
  have "rcvd = msg" if "\<nexists>st. pipe_step (rest, y, rcvd) st"
  proof -
    have "rest = [] \<and> pipe_items y = []" using that pipe_step_possible [OF ok, of rest rcvd] by blast
    then show ?thesis using msg by simp
  qed
  then show ?thesis using msg n pipeq.items_cap [OF ok] by simp
qed

text \<open>A pipe whose counters are about to wrap around.\<close>

definition new_pipe :: pipe where
  "new_pipe = \<lparr>pi_lock = initlock, pi_data = replicate 512 0, pi_nread = - 1, pi_nwrite = - 1,
     pi_readopen = True, pi_writeopen = True\<rparr>"

lemma new_pipe_ok: "pipe_ok new_pipe" "pipe_items new_pipe = []"
  by (simp_all add: new_pipe_def pipe_ok_def pipe_items_def)

theorem pipe_delivers_witness:
  "\<exists>z. pipe_run 2 ([7, 8], new_pipe, []) ([], z, [7, 8]) \<and> length (pipe_items z) \<le> 512"
proof -
  let ?y = "fold pipe_put [7, 8] new_pipe"
  have ok: "pipe_ok ?y" and items: "pipe_items ?y = [7, 8]"
    using pipeq.put_all [OF new_pipe_ok(1), of "[7, 8]"] by (simp_all add: new_pipe_ok del: fold_simps)
  have wr: "pipe_step ([7, 8], new_pipe, []) (drop 2 [7, 8], ?y, [])"
    using pipe_fill_list [OF new_pipe_ok(1), of "[7, 8]"]
    by (intro write_turn) (simp_all add: new_pipe_ok Let_def del: fold_simps)
  obtain cs z where drain: "pipe_drain 9 ?y = (cs, z)" by (cases "pipe_drain 9 ?y")
  have cs: "cs = [7, 8]"
    using pipeq.get_n_items [OF ok, of 9] items drain by (simp add: pipe_drain_get_n)
  have "pipe_step ([], ?y, []) ([], z, [] @ cs)" using drain cs by (intro read_turn) auto
  then have run: "pipe_run 2 ([7, 8], new_pipe, []) ([], z, [7, 8])"
    using run_more [OF run_more [OF run_none wr]] cs by (simp add: numeral_2_eq_2)
  show ?thesis using run pipe_delivers [OF new_pipe_ok run] by blast
qed

section \<open>The calls on a pipe\<close>

definition pipe_quiet :: "addr_t \<Rightarrow> 'a fkernel_scheme \<Rightarrow> bool" where
  "pipe_quiet p s \<longleftrightarrow> pt_quiet s \<and> pi_lock (k_pipes s p) = initlock \<and> pipe_ok (k_pipes s p)"

lemma upd_pipe_simps [simp]:
  "k_cpu (upd_pipe p g s) = k_cpu s" "k_ptlock (upd_pipe p g s) = k_ptlock s"
  "k_proc (upd_pipe p g s) = k_proc s" "k_procs (upd_pipe p g s) = k_procs s"
  "k_pipes (upd_pipe p g s) p = g (k_pipes s p)" "k_pipes (wakeup1 ch s) = k_pipes s"
  by (simp_all add: upd_pipe_def wakeup1_def)

text \<open>The state in which a call works: the processor has the pipe's lock, and the pipe is \<open>x\<close>.\<close>

definition in_pipe :: "addr_t \<Rightarrow> pipe \<Rightarrow> 'a fkernel_scheme \<Rightarrow> 'a fkernel_scheme" where
  "in_pipe p x s = s\<lparr>k_cpu := pushcli (k_cpu s), k_pipes := (k_pipes s)(p := x\<lparr>pi_lock := locked_by (k_cpu s)\<rparr>)\<rparr>"

lemma acquire_pipe_ok:
  "pipe_quiet p s \<Longrightarrow> acquire_pipe p s = Ok (in_pipe p (k_pipes s p) s)"
  by (simp add: acquire_pipe_def pipe_quiet_def lock_simps in_pipe_def upd_pipe_def)

lemma in_pipe_simps [simp]:
  "k_pipes (in_pipe p x s) p = x\<lparr>pi_lock := locked_by (k_cpu s)\<rparr>"
  "k_proc (in_pipe p x s) = k_proc s" "k_procs (in_pipe p x s) = k_procs s"
  "upd_pipe p (\<lambda>_. y\<lparr>pi_lock := locked_by (k_cpu s)\<rparr>) (in_pipe p x s) = in_pipe p y s"
  by (simp_all add: in_pipe_def upd_pipe_def)

definition with_pipe :: "addr_t \<Rightarrow> pipe \<Rightarrow> 'a fkernel_scheme \<Rightarrow> 'a fkernel_scheme" where
  "with_pipe p x s = s\<lparr>k_pipes := (k_pipes s)(p := x\<lparr>pi_lock := initlock\<rparr>)\<rparr>"

lemma release_pipe_ok:
  assumes "pipe_quiet p s"
  shows "release_pipe p (in_pipe p x s) = Ok (with_pipe p x s)"
  using assms by (simp add: release_pipe_def in_pipe_def with_pipe_def upd_pipe_def pipe_quiet_def pt_quiet_def lock_simps)

lemma wake_release_pipe:
  assumes "pipe_quiet p s"
  shows "andthen (wakeup ch (in_pipe p x s)) (\<lambda>t. andthen (release_pipe p t) f) = f (wakeup1 ch (with_pipe p x s))"
proof -
  have "pt_quiet s" using assms by (simp add: pipe_quiet_def)
  then have "pt_free (in_pipe p x s)"
    by (rule pushcli_free) (simp_all add: in_pipe_def)
  moreover have "wakeup1 ch (in_pipe p x s) = in_pipe p x (wakeup1 ch s)"
    and "with_pipe p x (wakeup1 ch s) = wakeup1 ch (with_pipe p x s)"
    by (simp_all add: wakeup1_def in_pipe_def with_pipe_def)
  moreover have "pipe_quiet p (wakeup1 ch s)" using assms by (simp add: pipe_quiet_def)
  ultimately show ?thesis by (simp add: wakeup_ok release_pipe_ok)
qed

lemma pipe_put_lock1: "pipe_put c (x\<lparr>pi_lock := l\<rparr>) = (pipe_put c x)\<lparr>pi_lock := l\<rparr>"
  by (cases x) (simp add: pipe_put_def)

lemma pipe_put_lock: "fold pipe_put bs (x\<lparr>pi_lock := l\<rparr>) = (fold pipe_put bs x)\<lparr>pi_lock := l\<rparr>"
  by (induction bs arbitrary: x) (simp_all add: pipe_put_lock1)

lemma pipe_lock_simps [simp]:
  "pipe_items (x\<lparr>pi_lock := l\<rparr>) = pipe_items x" "pipe_ok (x\<lparr>pi_lock := l\<rparr>) = pipe_ok x"
  by (simp_all add: pipe_items_def pipe_ok_def)

lemma put_fields: "pi_readopen (fold pipe_put bs x) = pi_readopen x" "pi_writeopen (fold pipe_put bs x) = pi_writeopen x"
  by (induction bs arbitrary: x) (simp_all add: pipe_put_def)

lemma length_gather: "gather src i n = Ok bs \<Longrightarrow> length bs = n"
  by (induction n arbitrary: i bs) (auto simp: outcome_iff)

lemma pipewrite_fits:
  assumes "pipe_quiet p s" and "gather src 0 (nat (sint n)) = Ok bs"
    and "length (pipe_items (k_pipes s p)) + length bs \<le> PIPESIZE"
  shows "pipewrite p src n s = Ok (n, wakeup1 (nread_chan p) (with_pipe p (fold pipe_put bs (k_pipes s p)) s))"
proof -
  let ?x = "(k_pipes s p)\<lparr>pi_lock := locked_by (k_cpu s)\<rparr>"
  have ok: "pipe_ok ?x" using assms(1) by (simp add: pipe_quiet_def)
  have len: "length bs = nat (sint n)" using assms(2) by (rule length_gather)
  then have "min (nat (sint n)) (512 - length (pipe_items ?x)) = nat (sint n)" using assms(3) by auto
  then have fill: "pipe_fill src 0 (nat (sint n)) ?x = Ok (nat (sint n), fold pipe_put bs ?x)"
    using pipe_fill_ok [OF assms(2) ok] len by auto
  show ?thesis
    unfolding pipewrite_def
    by (simp add: acquire_pipe_ok assms(1) fill Let_def pipe_put_lock wake_release_pipe)
qed

lemma pipewrite_no_reader:
  assumes "pipe_quiet p s" and "gather src 0 (nat (sint n)) = Ok bs"
    and "PIPESIZE < length (pipe_items (k_pipes s p)) + length bs"
    and "\<not> pi_readopen (k_pipes s p)" and "k_proc s = Some i"
  shows "\<exists>t. pipewrite p src n s = Ok (- 1, t)"
proof -
  let ?x = "(k_pipes s p)\<lparr>pi_lock := locked_by (k_cpu s)\<rparr>"
  define k where "k = min (nat (sint n)) (512 - length (pipe_items ?x))"
  have ok: "pipe_ok ?x" using assms(1) by (simp add: pipe_quiet_def)
  have "length bs = nat (sint n)" using assms(2) by (rule length_gather)
  then have k: "k < nat (sint n)"
    using assms(3) pipeq.items_cap [OF ok] unfolding k_def min_def by simp
  have fill: "pipe_fill src 0 (nat (sint n)) ?x = Ok (k, fold pipe_put (take k bs) ?x)"
    using pipe_fill_ok [OF assms(2) ok] by (auto simp: k_def)
  show ?thesis
    unfolding pipewrite_def
    by (simp add: acquire_pipe_ok assms(1,4,5) fill Let_def pipe_put_lock put_fields k with_proc_def
        release_pipe_ok)
qed

lemma pipe_nread_lock:
  "(x\<lparr>pi_lock := l\<rparr>)\<lparr>pi_nread := r\<rparr> = (x\<lparr>pi_nread := r\<rparr>)\<lparr>pi_lock := l\<rparr>" for x :: pipe
  by (cases x) simp

lemma pipe_drain_lock: "pipe_drain n (x\<lparr>pi_lock := l\<rparr>) = (fst (pipe_drain n x), (snd (pipe_drain n x))\<lparr>pi_lock := l\<rparr>)"
  by (induction n arbitrary: x) (simp_all add: split_beta Let_def pipe_nread_lock)

lemma piperead_some:
  assumes "pipe_quiet p s" and "pipe_items (k_pipes s p) \<noteq> [] \<or> \<not> pi_writeopen (k_pipes s p)"
  shows "piperead p n s =
    (let (cs, x) = pipe_drain (nat (sint n)) (k_pipes s p)
     in Ok (of_nat (length cs), cs, wakeup1 (nwrite_chan p) (with_pipe p x s)))"
proof -
  have "(pi_nread (k_pipes s p) = pi_nwrite (k_pipes s p) \<and> pi_writeopen (k_pipes s p)) = False"
    using assms(2) by (simp add: pipe_empty_iff)
  then show ?thesis
    unfolding piperead_def
    by (simp add: acquire_pipe_ok assms(1) Let_def pipe_drain_lock wake_release_pipe split_beta del: de_Morgan_conj)
qed

lemma pipe_quiet_after:
  "pipe_quiet p s \<Longrightarrow> pipe_ok x \<Longrightarrow> pipe_quiet p (wakeup1 ch (with_pipe p x s))"
  by (simp add: pipe_quiet_def pt_quiet_def with_pipe_def)

lemma k_pipes_with_pipe [simp]: "k_pipes (with_pipe p x s) p = x\<lparr>pi_lock := initlock\<rparr>"
  by (simp add: with_pipe_def)

section \<open>A machine with files\<close>

definition boot_fkernel :: "nat \<Rightarrow> 'a \<Rightarrow> 'a fkernel_scheme" where
  "boot_fkernel D x = boot_ckernel D \<lparr>k_ftlock = initlock,
     k_files = replicate NFILE \<lparr>f_type = FD_NONE, f_ref = 0, f_readable = False, f_writable = False, f_pipe = 0,
       f_ip = None, f_off = 0\<rparr>, k_pipes = (\<lambda>_. new_pipe), \<dots> = x\<rparr>"

lemma boot_fkernel_ok:
  "pipe_quiet p (boot_fkernel D x)" "pipe_items (k_pipes (boot_fkernel D x) p) = []"
  "k_proc (boot_fkernel D x) = Some 0"
  using new_pipe_ok
  by (simp_all add: boot_fkernel_def boot_defs pipe_quiet_def pt_quiet_def cpu_settled_def cpu_nested_def new_pipe_def)

text \<open>C21: The calls on a pipe.  \<open>pipewrite\<close> of bytes that fit returns their number, appends them and wakes
  the processes that wait to read; a following \<open>piperead\<close> returns the oldest bytes of the pipe, at most as
  many as it asks for, takes exactly those out and wakes the writers.  With the read end closed, a write
  that does not fit returns -1.\<close>

theorem pipe_calls:
  assumes "pipe_quiet p s" and "gather src 0 (nat (sint n)) = Ok bs" and "k_proc s = Some i"
    and "q = pipe_items (k_pipes s p) @ bs" and "m = nat (sint want)"
  shows "if length q \<le> PIPESIZE then
      \<exists>t. pipewrite p src n s = Ok (n, t) \<and> pipe_quiet p t \<and> pipe_items (k_pipes t p) = q \<and>
        k_procs t = k_procs (wakeup1 (nread_chan p) s) \<and>
        (q \<noteq> [] \<longrightarrow> (\<exists>u. piperead p want t = Ok (of_nat (length (take m q)), take m q, u) \<and>
           pipe_quiet p u \<and> pipe_items (k_pipes u p) = drop m q \<and>
           k_procs u = k_procs (wakeup1 (nwrite_chan p) t)))
    else pi_readopen (k_pipes s p) \<or> (\<exists>t. pipewrite p src n s = Ok (- 1, t))"
proof (cases "length q \<le> 512")
  case True
  let ?x = "fold pipe_put bs (k_pipes s p)"
  let ?t = "wakeup1 (nread_chan p) (with_pipe p ?x s)"
  let ?y = "snd (pipe_drain m (k_pipes ?t p))"
  let ?u = "wakeup1 (nwrite_chan p) (with_pipe p ?y ?t)"
  have x: "pipe_ok ?x" "pipe_items ?x = q"
    using pipeq.put_all [of "k_pipes s p" bs] assms(1,4) True by (simp_all add: pipe_quiet_def)
  have tq: "pipe_quiet p ?t" using pipe_quiet_after [OF assms(1) x(1)] .
  have y: "pipe_ok ?y" "fst (pipe_drain m (k_pipes ?t p)) = take m q" "pipe_items ?y = drop m q"
    using pipeq.get_n_items [of "k_pipes ?t p" m] x by (simp_all add: pipe_drain_get_n)
  have wr: "pipewrite p src n s = Ok (n, ?t)"
    using pipewrite_fits [OF assms(1,2)] assms(4) True by simp
  have rd: "piperead p want ?t = Ok (of_nat (length (take m q)), take m q, ?u)" if "q \<noteq> []"
    using piperead_some [OF tq, of want] that x y(2) assms(5) by (simp add: split_beta del: length_take)
  have "k_procs ?t = k_procs (wakeup1 (nread_chan p) s)" "k_procs ?u = k_procs (wakeup1 (nwrite_chan p) ?t)"
    by (simp_all add: wakeup1_def with_pipe_def)
  moreover have "pipe_quiet p ?u" by (rule pipe_quiet_after [OF tq y(1)])
  ultimately show ?thesis using True wr rd tq x(2) y(3) by auto
next
  case False
  then show ?thesis
    using pipewrite_no_reader [OF assms(1,2) _ _ assms(3)] assms(4) by auto
qed

theorem pipe_calls_witness:
  "\<exists>t u. pipewrite 0 (bytes_src [1, 2, 3]) 3 (boot_fkernel 40 ()) = Ok (3, t) \<and>
     piperead 0 2 t = Ok (2, [1, 2], u) \<and> pipe_items (k_pipes u 0) = [3]"
proof -
  have q: "pipe_quiet 0 (boot_fkernel 40 ())" and i: "pipe_items (k_pipes (boot_fkernel 40 ()) 0) = []"
    and pr: "k_proc (boot_fkernel 40 ()) = Some 0"
    by (simp_all add: boot_fkernel_ok)
  have g: "gather (bytes_src [1, 2, 3]) 0 (nat (sint (3 :: cint))) = Ok [1, 2, 3]"
    by (simp add: bytes_src_def byte_at_def numeral_eq_Suc)
  show ?thesis
    using pipe_calls [OF q g pr, of "[1, 2, 3]" 2 2] i by (auto simp: numeral_eq_Suc)
qed

end
