(* ===== verification/Proc.thy ===== *)
theory Proc
  imports File
begin

text \<open>
  The part of \<^verbatim>\<open>proc.c\<close> that creates and ends processes: \<open>allocproc\<close>, \<open>userinit\<close>, \<open>growproc\<close>, \<open>fork\<close>,
  \<open>exit\<close>, \<open>wait\<close> and \<open>forkret\<close>, over virtual memory, files and tracing.
\<close>

section \<open>Creating processes\<close>

text \<open>
  \<open>k_first\<close> is the flag \<open>first\<close> of \<open>forkret\<close>; \<open>k_forkret\<close> is the address of \<open>forkret\<close>, where a new
  process starts.
\<close>

record pkernel = fkernel +
  k_first :: bool
  k_forkret :: addr_t

definition zero_context :: kcontext where
  "zero_context = \<lparr>c_r15 = 0, c_r14 = 0, c_r13 = 0, c_r12 = 0, c_rbx = 0, c_rbp = 0, c_rip = 0\<rparr>"

definition zero_tf :: trapframe where
  "zero_tf = \<lparr>tf_rax = 0, tf_rbx = 0, tf_rcx = 0, tf_rdx = 0, tf_rbp = 0, tf_rsi = 0, tf_rdi = 0,
     tf_r8 = 0, tf_r9 = 0, tf_r10 = 0, tf_r11 = 0, tf_r12 = 0, tf_r13 = 0, tf_r14 = 0, tf_r15 = 0,
     tf_trapno = 0, tf_err = 0, tf_rip = 0, tf_cs = 0, tf_rflags = 0, tf_rsp = 0, tf_ss = 0\<rparr>"

text \<open>
  The trap frame and the context are at fixed places below the top of the kernel stack, so the
  pointers \<open>tf\<close> and \<open>context\<close> need no state of their own. The trap frame of a new process is what the
  page held before.
\<close>

definition allocproc :: "'a pkernel_scheme \<Rightarrow> (nat option \<times> 'a pkernel_scheme) outcome" where
  "allocproc s =
     andthen (acquire_pt s) (\<lambda>s.
     case find (\<lambda>i. p_state (k_procs s ! i) = UNUSED) [0..<NPROC] of
       None \<Rightarrow> andthen (release_pt s) (\<lambda>s. Ok (None, s))
     | Some i \<Rightarrow>
         let pid = k_nextpid s;
             s = (upd_proc i (\<lambda>p. p\<lparr>p_state := EMBRYO, p_pid := pid\<rparr>) s)\<lparr>k_nextpid := pid + 1\<rparr> in
         andthen (release_pt s) (\<lambda>s.
         andthen (kalloc s) (\<lambda>(kstack, s).
         let s = upd_proc i (\<lambda>p. p\<lparr>p_kstack := kstack\<rparr>) s in
         if kstack = 0 then Ok (None, upd_proc i (\<lambda>p. p\<lparr>p_state := UNUSED\<rparr>) s)
         else Ok (Some i, upd_proc i (\<lambda>p. p\<lparr>p_context := zero_context\<lparr>c_rip := k_forkret s\<rparr>\<rparr>) s))))"

text \<open>\<open>initcode\<close> and \<open>sz\<close> are the two symbols of the linked binary \<open>initcode\<close>.\<close>

definition userinit :: "addr_t \<Rightarrow> addr_t \<Rightarrow> 'a pkernel_scheme \<Rightarrow> 'a pkernel_scheme outcome" where
  "userinit initcode sz s =
     andthen (allocproc s) (\<lambda>(p, s).
     let s = s\<lparr>k_initproc := p\<rparr> in
     case p of
       None \<Rightarrow> Fault ''null proc''
     | Some i \<Rightarrow>
         andthen (setupkvm s) (\<lambda>(pgdir, s).
         let s = upd_proc i (\<lambda>p. p\<lparr>p_pgdir := pgdir\<rparr>) s in
         if pgdir = 0 then Panic ''userinit: out of memory?''
         else
           andthen (inituvm pgdir initcode (ucast sz) s) (\<lambda>s.
           let s = upd_proc i (\<lambda>p. p\<lparr>p_sz := PGSIZE * 2,
                 p_tf := zero_tf\<lparr>tf_r11 := FL_IF, tf_rsp := PGSIZE * 2, tf_rcx := PGSIZE\<rparr>\<rparr>) s in
           andthen (safestrcpy (p_name (k_procs s ! i)) (lit ''initcode'') 16) (\<lambda>name.
           let s = upd_proc i (\<lambda>p. p\<lparr>p_name := name\<rparr>) s in
           andthen (namei (lit ''/'') s) (\<lambda>(cwd, s).
           Ok (upd_proc i (\<lambda>p. p\<lparr>p_cwd := cwd, p_state := RUNNABLE\<rparr>) s))))))"

definition growproc :: "uint64 \<Rightarrow> 'a pkernel_scheme \<Rightarrow> (cint \<times> 'a pkernel_scheme) outcome" where
  "growproc n s =
     with_proc s (\<lambda>i p.
     let sz = p_sz p in
     andthen
       (if sint n > 0 then allocuvm (p_pgdir p) sz (sz + n) s
        else if sint n < 0 then deallocuvm (p_pgdir p) sz (sz + n) s
        else Ok (sz, s))
       (\<lambda>(sz, s).
     if sint n \<noteq> 0 \<and> sz = 0 then Ok (- 1, s)
     else
       let s = upd_proc i (\<lambda>p. p\<lparr>p_sz := sz\<rparr>) s in
       andthen (switchuvm (k_procs s ! i) s) (\<lambda>s. Ok (0, s))))"

text \<open>The loop of \<open>fork\<close> over the descriptors of the parent \<open>i\<close>.\<close>

primrec fork_files :: "nat \<Rightarrow> nat \<Rightarrow> nat list \<Rightarrow> 'a pkernel_scheme \<Rightarrow> 'a pkernel_scheme outcome" where
  "fork_files i np [] s = Ok s"
| "fork_files i np (fd # fds) s =
     (case p_ofile (k_procs s ! i) ! fd of
        None \<Rightarrow> fork_files i np fds s
      | Some f \<Rightarrow>
          andthen (filedup f s) (\<lambda>(f, s).
          fork_files i np fds (upd_proc np (\<lambda>p. p\<lparr>p_ofile := (p_ofile p)[fd := Some f]\<rparr>) s)))"

text \<open>\<open>copyuvm\<close> takes the size as a \<open>uint\<close>.\<close>

definition fork :: "'a pkernel_scheme \<Rightarrow> (cint \<times> 'a pkernel_scheme) outcome" where
  "fork s =
     andthen (allocproc s) (\<lambda>(np, s).
     case np of None \<Rightarrow> Ok (- 1, s) | Some np \<Rightarrow>
     with_proc s (\<lambda>i p.
     andthen (copyuvm (p_pgdir p) (ucast (p_sz p)) s) (\<lambda>(pgdir, s).
     let s = upd_proc np (\<lambda>q. q\<lparr>p_pgdir := pgdir\<rparr>) s in
     if pgdir = 0 then
       andthen (kfree (p_kstack (k_procs s ! np)) s) (\<lambda>s.
       Ok (- 1, upd_proc np (\<lambda>q. q\<lparr>p_kstack := 0, p_state := UNUSED\<rparr>) s))
     else
       let s = upd_proc np (\<lambda>q. q\<lparr>p_sz := p_sz p, p_parent := Some i, p_tf := (p_tf p)\<lparr>tf_rax := 0\<rparr>\<rparr>) s in
       andthen (fork_files i np [0..<NOFILE] s) (\<lambda>s.
       andthen (case p_cwd p of None \<Rightarrow> Fault ''null cwd'' | Some ip \<Rightarrow> idup ip s) (\<lambda>(cwd, s).
       let s = upd_proc np (\<lambda>q. q\<lparr>p_cwd := Some cwd\<rparr>) s in
       andthen (safestrcpy (p_name (k_procs s ! np)) (p_name p) 16) (\<lambda>name.
       let s = upd_proc np (\<lambda>q. q\<lparr>p_name := name\<rparr>) s;
           pid = p_pid (k_procs s ! np);
           s = upd_proc np (\<lambda>q. q\<lparr>p_state := RUNNABLE\<rparr>) s
       in andthen (traceevent TRACE_TYPE_PROC pid (p_pid p) 0 0 (Some (lit ''fork'')) s) (\<lambda>s.
          Ok (pid, s))))))))"

text \<open>\<open>forkret\<close>: what a new process does first, with \<open>ptable.lock\<close> held by the scheduler.\<close>

definition forkret :: "'a pkernel_scheme \<Rightarrow> 'a pkernel_scheme outcome" where
  "forkret s =
     andthen (release_pt s) (\<lambda>s.
     if k_first s then
       andthen (iinit ROOTDEV (s\<lparr>k_first := False\<rparr>)) (initlog ROOTDEV)
     else Ok s)"

section \<open>Ending processes\<close>

primrec exit_files :: "nat \<Rightarrow> nat list \<Rightarrow> 'a pkernel_scheme \<Rightarrow> 'a pkernel_scheme outcome" where
  "exit_files i [] s = Ok s"
| "exit_files i (fd # fds) s =
     (case p_ofile (k_procs s ! i) ! fd of
        None \<Rightarrow> exit_files i fds s
      | Some f \<Rightarrow>
          andthen (fileclose f s) (\<lambda>s.
          exit_files i fds (upd_proc i (\<lambda>p. p\<lparr>p_ofile := (p_ofile p)[fd := None]\<rparr>) s)))"

text \<open>
  \<open>wakeup1\<close> of a process pointer. No process sleeps on the null pointer: \<open>wakeup1(0)\<close> wakes nobody.
\<close>

definition wakeup1_proc :: "nat option \<Rightarrow> 'a kernel_scheme \<Rightarrow> 'a kernel_scheme" where
  "wakeup1_proc p s = (case p of None \<Rightarrow> s | Some i \<Rightarrow> wakeup1 (ProcChan i) s)"

primrec reparent :: "nat \<Rightarrow> nat list \<Rightarrow> 'a kernel_scheme \<Rightarrow> 'a kernel_scheme" where
  "reparent i [] s = s"
| "reparent i (j # js) s =
     reparent i js
       (if p_parent (k_procs s ! j) = Some i then
          let s = upd_proc j (\<lambda>p. p\<lparr>p_parent := k_initproc s\<rparr>) s in
          if p_state (k_procs s ! j) = ZOMBIE then wakeup1_proc (k_initproc s) s else s
        else s)"

text \<open>\<open>exit\<close> up to the switch to the scheduler, which does not come back.\<close>

definition exit :: "'a pkernel_scheme \<Rightarrow> 'a pkernel_scheme outcome" where
  "exit s =
     (if k_proc s = k_initproc s then Panic ''init exiting''
      else with_proc s (\<lambda>i p.
        andthen (traceevent TRACE_TYPE_PROC (p_pid p) 0 0 0 (Some (lit ''exit'')) s) (\<lambda>s.
        andthen (exit_files i [0..<NOFILE] s) (\<lambda>s.
        andthen (begin_op s) (\<lambda>s.
        andthen (case p_cwd (k_procs s ! i) of None \<Rightarrow> Fault ''null cwd'' | Some ip \<Rightarrow> iput ip s) (\<lambda>s.
        andthen (end_op s) (\<lambda>s.
        let s = upd_proc i (\<lambda>p. p\<lparr>p_cwd := None\<rparr>) s in
        andthen (acquire_pt s) (\<lambda>s.
        let s = wakeup1_proc (p_parent (k_procs s ! i)) s;
            s = reparent i [0..<NPROC] s
        in sched_out (upd_proc i (\<lambda>p. p\<lparr>p_state := ZOMBIE\<rparr>) s)))))))))"

text \<open>
  One scan of \<open>wait\<close> over the table: the pid of a reaped child, or whether there are children at all.
\<close>

primrec wait_scan ::
  "nat \<Rightarrow> nat list \<Rightarrow> bool \<Rightarrow> 'a pkernel_scheme \<Rightarrow> ((cint + bool) \<times> 'a pkernel_scheme) outcome" where
  "wait_scan i [] havekids s = Ok (Inr havekids, s)"
| "wait_scan i (j # js) havekids s =
     (let p = k_procs s ! j in
      if p_parent p \<noteq> Some i then wait_scan i js havekids s
      else if p_state p \<noteq> ZOMBIE then wait_scan i js True s
      else
        andthen (kfree (p_kstack p) s) (\<lambda>s.
        let s = upd_proc j (\<lambda>p. p\<lparr>p_kstack := 0\<rparr>) s in
        andthen (freevm (p_pgdir p) s) (\<lambda>s.
        let s = upd_proc j (\<lambda>p. p\<lparr>p_pid := 0, p_parent := None, p_name := (p_name p)[0 := 0],
              p_killed := False, p_state := UNUSED\<rparr>) s in
        andthen (release_pt s) (\<lambda>s. Ok (Inl (p_pid p), s)))))"

definition wait :: "'a pkernel_scheme \<Rightarrow> (cint \<times> 'a pkernel_scheme) outcome" where
  "wait s =
     andthen (acquire_pt s) (\<lambda>s.
     with_proc s (\<lambda>i p.
     andthen (wait_scan i [0..<NPROC] False s) (\<lambda>(r, s).
     case r of
       Inl pid \<Rightarrow> Ok (pid, s)
     | Inr havekids \<Rightarrow>
         if \<not> havekids \<or> p_killed p then andthen (release_pt s) (\<lambda>s. Ok (- 1, s))
         else andthen (sleep_enter (ProcChan i) None s) (\<lambda>_. Blocked ''wait''))))"

end
