(* ===== verification/Uaccess.thy ===== *)
theory Uaccess
  imports Proc
begin

text \<open>
  How the kernel reads and writes the memory of the process it works for, and the fetching of system
  call arguments (the first part of \<^verbatim>\<open>syscall.c\<close>).
\<close>

section \<open>The processor's address translation\<close>

text \<open>
  \<open>skernel\<close> adds the lock of the tick counter (\<^verbatim>\<open>trap.c\<close>) and is the whole state of the kernel.
\<close>

record skernel = pkernel +
  k_tickslock :: spinlock

text \<open>
  In kernel mode an access needs present entries only. The addresses from \<open>KERNBASE\<close> on are mapped
  directly for the first gigabyte (\<open>kvmalloc\<close>); the lower half of the address space goes through the
  tables of the process. Any other access is a page fault, and \<open>trap\<close> answers one that comes from the
  kernel with a panic.
\<close>

definition mmu :: "mem \<Rightarrow> addr_t \<Rightarrow> addr_t \<Rightarrow> addr_t option" where
  "mmu m pml4 va =
     (if KERNBASE \<le> va \<and> va - KERNBASE < 0x40000000 then Some va
      else if va < 0x800000000000 then
        (case walk_entry m pml4 (indices va) of
           None \<Rightarrow> None
         | Some e \<Rightarrow>
             if load64 m e AND PTE_P \<noteq> 0
             then Some (P2V (PTE_ADDR (load64 m e)) + (va - PGROUNDDOWN va)) else None)
      else None)"

definition load_user :: "addr_t \<Rightarrow> 'a vkernel_scheme \<Rightarrow> uchar outcome" where
  "load_user va s =
     (case mmu (k_mem s) (P2V (k_cr3 s)) va of None \<Rightarrow> Panic ''trap'' | Some a \<Rightarrow> Ok (k_mem s a))"

primrec store_user :: "addr_t \<Rightarrow> uchar list \<Rightarrow> 'a vkernel_scheme \<Rightarrow> 'a vkernel_scheme outcome" where
  "store_user va [] s = Ok s"
| "store_user va (c # cs) s =
     (case mmu (k_mem s) (P2V (k_cr3 s)) va of
        None \<Rightarrow> Panic ''trap''
      | Some a \<Rightarrow> store_user (va + 1) cs (s\<lparr>k_mem := (k_mem s)(a := c)\<rparr>))"

definition user_src :: "addr_t \<Rightarrow> 'a vkernel_scheme \<Rightarrow> source" where
  "user_src va s i = load_user (va + of_nat i) s"

section \<open>Fetching from the process\<close>

definition fetchint :: "addr_t \<Rightarrow> 'a vkernel_scheme \<Rightarrow> cint option outcome" where
  "fetchint addr s = with_proc s (\<lambda>i p.
     if addr < PGSIZE \<or> addr \<ge> p_sz p \<or> addr + 4 > p_sz p then Ok None
     else andthen (gather (user_src addr s) 0 4) (\<lambda>xs. Ok (Some (word_of_bytes xs))))"

definition fetchaddr :: "addr_t \<Rightarrow> 'a vkernel_scheme \<Rightarrow> addr_t option outcome" where
  "fetchaddr addr s = with_proc s (\<lambda>i p.
     if addr < PGSIZE \<or> addr \<ge> p_sz p \<or> addr + 8 > p_sz p then Ok None
     else andthen (gather (user_src addr s) 0 8) (\<lambda>xs. Ok (Some (word_of_bytes xs))))"

text \<open>
  \<open>fetchstr\<close> gives the bytes of the string with its NUL, instead of a pointer to them: there is no
  shared memory, so they do not change while the kernel uses them.
\<close>

primrec fetchstr_loop :: "nat \<Rightarrow> addr_t \<Rightarrow> 'a vkernel_scheme \<Rightarrow> uchar list option outcome" where
  "fetchstr_loop 0 a s = Ok None"
| "fetchstr_loop (Suc n) a s =
     andthen (load_user a s) (\<lambda>c.
     if c = 0 then Ok (Some [0])
     else andthen (fetchstr_loop n (a + 1) s) (\<lambda>r. Ok (map_option (\<lambda>cs. c # cs) r)))"

definition fetchstr :: "addr_t \<Rightarrow> 'a vkernel_scheme \<Rightarrow> uchar list option outcome" where
  "fetchstr addr s = with_proc s (\<lambda>i p.
     if addr < PGSIZE \<or> addr \<ge> p_sz p then Ok None
     else fetchstr_loop (unat (p_sz p) - unat addr) addr s)"

section \<open>Arguments\<close>

definition fetcharg :: "nat \<Rightarrow> 'a kernel_scheme \<Rightarrow> addr_t outcome" where
  "fetcharg n s = with_proc s (\<lambda>i p.
     let tf = p_tf p in
     if n = 0 then Ok (tf_rdi tf) else if n = 1 then Ok (tf_rsi tf) else if n = 2 then Ok (tf_rdx tf)
     else if n = 3 then Ok (tf_r10 tf) else if n = 4 then Ok (tf_r8 tf) else if n = 5 then Ok (tf_r9 tf)
     else Panic ''failed fetch'')"

definition argint :: "nat \<Rightarrow> 'a kernel_scheme \<Rightarrow> cint outcome" where
  "argint n s = andthen (fetcharg n s) (\<lambda>a. Ok (ucast a))"

definition argaddr :: "nat \<Rightarrow> 'a kernel_scheme \<Rightarrow> addr_t outcome" where
  "argaddr n s = fetcharg n s"

text \<open>
  \<open>argptr\<close>, \<open>None\<close> for its -1. The comparisons are of the low 32 bits of the address, in 32-bit
  arithmetic; the pointer it gives out is the whole address.
\<close>

definition argptr :: "nat \<Rightarrow> cint \<Rightarrow> 'a kernel_scheme \<Rightarrow> addr_t option outcome" where
  "argptr n sz s =
     andthen (argaddr n s) (\<lambda>i.
     with_proc s (\<lambda>_ p.
     let lo = (ucast i :: uint) in
     if sint sz < 0 \<or> ucast lo \<ge> p_sz p \<or> ucast (lo + sz) > p_sz p then Ok None else Ok (Some i)))"

text \<open>\<open>argstr\<close> keeps the address in an \<open>int\<close>, which is sign-extended again.\<close>

definition argstr :: "nat \<Rightarrow> 'a vkernel_scheme \<Rightarrow> uchar list option outcome" where
  "argstr n s = andthen (argint n s) (\<lambda>addr. fetchstr (scast addr) s)"

end
