(* ===== verification/Exec.thy ===== *)
theory Exec
  imports Uaccess
begin

text \<open>\<^verbatim>\<open>exec.c\<close>: replacing the program of the current process by one from the file system.\<close>

section \<open>ELF headers\<close>

abbreviation (input) ELF_MAGIC :: uint where "ELF_MAGIC \<equiv> 0x464C457F"
abbreviation (input) ELF_PROG_LOAD :: uint where "ELF_PROG_LOAD \<equiv> 1"

definition get64 :: "uchar list \<Rightarrow> nat \<Rightarrow> uint64" where
  "get64 bs off = word_of_bytes (take 8 (drop off bs))"

text \<open>The fields of the 64-byte file header and the 56-byte program header that \<open>exec\<close> looks at.\<close>

record elfhdr =
  e_magic :: uint
  e_entry :: addr_t
  e_phoff :: addr_t
  e_phnum :: ushort

record proghdr =
  ph_type :: uint
  ph_off :: uint64
  ph_vaddr :: uint64
  ph_filesz :: uint64
  ph_memsz :: uint64

definition get_elfhdr :: "uchar list \<Rightarrow> elfhdr" where
  "get_elfhdr d = \<lparr>e_magic = get32 d 0, e_entry = get64 d 24, e_phoff = get64 d 32, e_phnum = get16 d 56\<rparr>"

definition get_proghdr :: "uchar list \<Rightarrow> proghdr" where
  "get_proghdr d = \<lparr>ph_type = get32 d 0, ph_off = get64 d 8, ph_vaddr = get64 d 16, ph_filesz = get64 d 32,
     ph_memsz = get64 d 40\<rparr>"

section \<open>The new image\<close>

text \<open>
  The loop over the program headers, from the header at \<open>off\<close> on. \<open>None\<close> is the jump to \<open>bad\<close>.
\<close>

primrec exec_load ::
  "addr_t \<Rightarrow> nat \<Rightarrow> nat \<Rightarrow> uint \<Rightarrow> addr_t \<Rightarrow> 'a skernel_scheme \<Rightarrow> (addr_t option \<times> 'a skernel_scheme) outcome" where
  "exec_load pgdir ip 0 off sz s = Ok (Some sz, s)"
| "exec_load pgdir ip (Suc n) off sz s =
     andthen (readi ip off 56 s) (\<lambda>(r, xs, s).
     if r \<noteq> 56 then Ok (None, s)
     else
       let ph = get_proghdr xs in
       if ph_type ph \<noteq> ELF_PROG_LOAD then exec_load pgdir ip n (off + 56) sz s
       else if ph_memsz ph < ph_filesz ph then Ok (None, s)
       else if ph_vaddr ph + ph_memsz ph < ph_vaddr ph then Ok (None, s)
       else
         andthen (allocuvm pgdir sz (ph_vaddr ph + ph_memsz ph) s) (\<lambda>(sz, s).
         if sz = 0 then Ok (None, s)
         else if ph_vaddr ph mod PGSIZE \<noteq> 0 then Ok (None, s)
         else
           andthen (loaduvm pgdir (ph_vaddr ph) ip (ucast (ph_off ph)) (ucast (ph_filesz ph)) s) (\<lambda>(r, s).
           if sint r < 0 then Ok (None, s) else exec_load pgdir ip n (off + 56) sz s)))"

text \<open>
  The loop that pushes the argument strings; an argument is its bytes with the NUL. It ends with the
  stack pointer and the addresses of the strings.
\<close>

primrec exec_push ::
  "addr_t \<Rightarrow> nat \<Rightarrow> uchar list list \<Rightarrow> addr_t \<Rightarrow> addr_t list \<Rightarrow> 'a skernel_scheme
    \<Rightarrow> ((addr_t \<times> addr_t list) option \<times> 'a skernel_scheme) outcome" where
  "exec_push pgdir argc [] sp ustack s = Ok (Some (sp, ustack), s)"
| "exec_push pgdir argc (arg # args) sp ustack s =
     (if argc \<ge> MAXARG then Ok (None, s)
      else
        andthen (strlen arg) (\<lambda>len.
        let sp = (sp - (scast len + 1)) AND NOT 7 in
        andthen (copyout pgdir sp (take (unat len + 1) arg) s) (\<lambda>(r, s).
        if sint r < 0 then Ok (None, s)
        else exec_push pgdir (Suc argc) args sp (ustack @ [sp]) s)))"

text \<open>The part of a path behind its last slash.\<close>

primrec last_elem :: "uchar list \<Rightarrow> uchar list \<Rightarrow> uchar list" where
  "last_elem [] elem = elem"
| "last_elem (c # cs) elem = (if c = 0 then elem else last_elem cs (if c = slash then cs else elem))"

definition exec_bad ::
  "addr_t \<Rightarrow> nat option \<Rightarrow> 'a skernel_scheme \<Rightarrow> (cint \<times> 'a skernel_scheme) outcome" where
  "exec_bad pgdir ip s =
     andthen (if pgdir \<noteq> 0 then freevm pgdir s else Ok s) (\<lambda>s.
     case ip of
       None \<Rightarrow> Ok (- 1, s)
     | Some ip \<Rightarrow> andthen (iunlockput ip s) (\<lambda>s. andthen (end_op s) (\<lambda>s. Ok (- 1, s))))"

text \<open>The second half of \<open>exec\<close>, from the user stack on; \<open>p\<close> is the process before the call.\<close>

definition exec_stack ::
  "nat \<Rightarrow> proc \<Rightarrow> uchar list \<Rightarrow> uchar list list \<Rightarrow> elfhdr \<Rightarrow> addr_t \<Rightarrow> addr_t \<Rightarrow> 'a skernel_scheme
    \<Rightarrow> (cint \<times> 'a skernel_scheme) outcome" where
  "exec_stack i p path argv elf pgdir sz s =
     (let sz = PGROUNDUP sz in
      andthen (allocuvm pgdir sz (sz + 2 * PGSIZE) s) (\<lambda>(sz, s).
      if sz = 0 then exec_bad pgdir None s
      else
        andthen (clearpteu pgdir (sz - 2 * PGSIZE) s) (\<lambda>s.
        andthen (exec_push pgdir 0 argv sz [] s) (\<lambda>(r, s).
        case r of None \<Rightarrow> exec_bad pgdir None s | Some (sp, args) \<Rightarrow>
        let argc = (of_nat (length args) :: addr_t);
            ustack = [0xFFFFFFFFFFFFFFFF] @ args @ [0];
            s = upd_proc i (\<lambda>p. p\<lparr>p_tf := (p_tf p)\<lparr>tf_rdi := argc, tf_rsi := sp - (argc + 1) * 8\<rparr>\<rparr>) s;
            sp = sp - (1 + argc + 1) * 8
        in andthen (copyout pgdir sp (concat (map (bytes_of 8) ustack)) s) (\<lambda>(r, s).
        if sint r < 0 then exec_bad pgdir None s
        else
          andthen (safestrcpy (p_name p) (last_elem path path) 16) (\<lambda>name.
          let s = upd_proc i (\<lambda>p. p\<lparr>p_name := name, p_pgdir := pgdir, p_sz := sz,
                p_tf := (p_tf p)\<lparr>tf_rip := e_entry elf, tf_rcx := e_entry elf, tf_rsp := sp\<rparr>\<rparr>) s
          in andthen (switchuvm (k_procs s ! i) s) (\<lambda>s.
             andthen (freevm (p_pgdir p) s) (\<lambda>s. Ok (0, s)))))))))"

definition exec :: "uchar list \<Rightarrow> uchar list list \<Rightarrow> 'a skernel_scheme \<Rightarrow> (cint \<times> 'a skernel_scheme) outcome" where
  "exec path argv s =
     with_proc s (\<lambda>i p.
     andthen (begin_op s) (\<lambda>s.
     andthen (namei path s) (\<lambda>(ip, s).
     case ip of None \<Rightarrow> andthen (end_op s) (\<lambda>s. Ok (- 1, s)) | Some ip \<Rightarrow>
     andthen (ilock (Some ip) s) (\<lambda>s.
     andthen (readi ip 0 64 s) (\<lambda>(r, xs, s).
     if r \<noteq> 64 then exec_bad 0 (Some ip) s
     else
       let elf = get_elfhdr xs in
       if e_magic elf \<noteq> ELF_MAGIC then exec_bad 0 (Some ip) s
       else
         andthen (setupkvm s) (\<lambda>(pgdir, s).
         if pgdir = 0 then exec_bad 0 (Some ip) s
         else
           andthen (exec_load pgdir ip (unat (e_phnum elf)) (ucast (e_phoff elf)) PGSIZE s) (\<lambda>(sz, s).
           case sz of None \<Rightarrow> exec_bad pgdir (Some ip) s | Some sz \<Rightarrow>
           andthen (iunlockput ip s) (\<lambda>s.
           andthen (end_op s) (exec_stack i p path argv elf pgdir sz)))))))))"

end
