(* ===== verification/Sysfile.thy ===== *)
theory Sysfile
  imports Exec
begin

text \<open>
  \<^verbatim>\<open>sysfile.c\<close>: the system calls on files. A call gives back the \<open>int\<close> that the code returns.
\<close>

abbreviation (input) O_RDONLY :: cint where "O_RDONLY \<equiv> 0"
abbreviation (input) O_WRONLY :: cint where "O_WRONLY \<equiv> 1"
abbreviation (input) O_RDWR :: cint where "O_RDWR \<equiv> 2"
abbreviation (input) O_CREATE :: cint where "O_CREATE \<equiv> 0x200"

type_synonym 'a syscall_result = "(cint \<times> 'a skernel_scheme) outcome"

text \<open>Ending the transaction and returning.\<close>

definition end_ret :: "cint \<Rightarrow> 'a skernel_scheme \<Rightarrow> 'a syscall_result" where
  "end_ret r s = andthen (end_op s) (\<lambda>s. Ok (r, s))"

section \<open>Descriptors\<close>

definition argfd :: "nat \<Rightarrow> 'a kernel_scheme \<Rightarrow> (nat \<times> nat) option outcome" where
  "argfd n s =
     andthen (argint n s) (\<lambda>fd.
     with_proc s (\<lambda>_ p.
     if sint fd < 0 \<or> sint fd \<ge> int NOFILE then Ok None
     else case p_ofile p ! nat (sint fd) of None \<Rightarrow> Ok None | Some f \<Rightarrow> Ok (Some (nat (sint fd), f))))"

definition fdalloc :: "nat \<Rightarrow> 'a kernel_scheme \<Rightarrow> (nat option \<times> 'a kernel_scheme) outcome" where
  "fdalloc f s =
     with_proc s (\<lambda>i p.
     case find (\<lambda>fd. p_ofile p ! fd = None) [0..<NOFILE] of
       None \<Rightarrow> Ok (None, s)
     | Some fd \<Rightarrow> Ok (Some fd, upd_proc i (\<lambda>p. p\<lparr>p_ofile := (p_ofile p)[fd := Some f]\<rparr>) s))"

definition set_fd :: "nat \<Rightarrow> nat option \<Rightarrow> 'a kernel_scheme \<Rightarrow> 'a kernel_scheme outcome" where
  "set_fd fd f s = with_proc s (\<lambda>i _. Ok (upd_proc i (\<lambda>p. p\<lparr>p_ofile := (p_ofile p)[fd := f]\<rparr>) s))"

definition sys_dup :: "'a skernel_scheme \<Rightarrow> 'a syscall_result" where
  "sys_dup s =
     andthen (argfd 0 s) (\<lambda>r.
     case r of None \<Rightarrow> Ok (- 1, s) | Some (_, f) \<Rightarrow>
     andthen (fdalloc f s) (\<lambda>(fd, s).
     case fd of None \<Rightarrow> Ok (- 1, s) | Some fd \<Rightarrow>
     andthen (filedup f s) (\<lambda>(_, s). Ok (of_nat fd, s))))"

text \<open>The checks that \<open>sys_read\<close> and \<open>sys_write\<close> share: the file, the count and the buffer.\<close>

definition rw_args :: "'a skernel_scheme \<Rightarrow> (nat \<times> cint \<times> addr_t) option outcome" where
  "rw_args s =
     andthen (argfd 0 s) (\<lambda>r.
     case r of None \<Rightarrow> Ok None | Some (_, f) \<Rightarrow>
     andthen (argint 2 s) (\<lambda>n.
     andthen (argptr 1 n s) (\<lambda>p.
     case p of None \<Rightarrow> Ok None | Some p \<Rightarrow> Ok (Some (f, n, p)))))"

definition sys_read :: "'a skernel_scheme \<Rightarrow> 'a syscall_result" where
  "sys_read s =
     andthen (rw_args s) (\<lambda>r.
     case r of None \<Rightarrow> Ok (- 1, s) | Some (f, n, p) \<Rightarrow>
     andthen (fileread f n s) (\<lambda>(r, xs, s).
     andthen (store_user p xs s) (\<lambda>s. Ok (r, s))))"

definition sys_write :: "'a skernel_scheme \<Rightarrow> 'a syscall_result" where
  "sys_write s =
     andthen (rw_args s) (\<lambda>r.
     case r of None \<Rightarrow> Ok (- 1, s) | Some (f, n, p) \<Rightarrow> filewrite f (user_src p s) n s)"

definition sys_close :: "'a skernel_scheme \<Rightarrow> 'a syscall_result" where
  "sys_close s =
     andthen (argfd 0 s) (\<lambda>r.
     case r of None \<Rightarrow> Ok (- 1, s) | Some (fd, f) \<Rightarrow>
     andthen (set_fd fd None s) (\<lambda>s.
     andthen (fileclose f s) (\<lambda>s. Ok (0, s))))"

text \<open>The fields of \<open>struct stat\<close> as they lie in memory; the padding is not written.\<close>

definition store_stat :: "addr_t \<Rightarrow> stat \<Rightarrow> 'a skernel_scheme \<Rightarrow> 'a skernel_scheme outcome" where
  "store_stat st x s =
     andthen (store_user st (bytes_of 2 (st_type x)) s) (\<lambda>s.
     andthen (store_user (st + 4) (bytes_of 4 (st_dev x)) s) (\<lambda>s.
     andthen (store_user (st + 8) (bytes_of 4 (st_ino x)) s) (\<lambda>s.
     andthen (store_user (st + 12) (bytes_of 2 (st_nlink x)) s) (\<lambda>s.
     store_user (st + 16) (bytes_of 4 (st_size x)) s))))"

definition sys_fstat :: "'a skernel_scheme \<Rightarrow> 'a syscall_result" where
  "sys_fstat s =
     andthen (argfd 0 s) (\<lambda>r.
     case r of None \<Rightarrow> Ok (- 1, s) | Some (_, f) \<Rightarrow>
     andthen (argptr 1 20 s) (\<lambda>st.
     case st of None \<Rightarrow> Ok (- 1, s) | Some st \<Rightarrow>
     andthen (filestat f s) (\<lambda>(x, s).
     case x of None \<Rightarrow> Ok (- 1, s) | Some x \<Rightarrow>
     andthen (store_stat st x s) (\<lambda>s. Ok (0, s)))))"

section \<open>Names\<close>

primrec isdirempty_loop :: "nat \<Rightarrow> nat list \<Rightarrow> 'a skernel_scheme \<Rightarrow> (bool \<times> 'a skernel_scheme) outcome" where
  "isdirempty_loop dp [] s = Ok (True, s)"
| "isdirempty_loop dp (off # offs) s =
     andthen (read_dirent ''isdirempty: readi'' dp off s) (\<lambda>(de, s).
     if de_inum de \<noteq> 0 then Ok (False, s) else isdirempty_loop dp offs s)"

definition isdirempty :: "nat \<Rightarrow> 'a skernel_scheme \<Rightarrow> (bool \<times> 'a skernel_scheme) outcome" where
  "isdirempty dp s = isdirempty_loop dp (entry_offs 2 (i_size (k_inodes s ! dp))) s"

definition add_nlink :: "nat \<Rightarrow> ushort \<Rightarrow> 'a skernel_scheme \<Rightarrow> 'a skernel_scheme outcome" where
  "add_nlink ip d s = iupdate ip (upd_inode ip (\<lambda>x. x\<lparr>i_nlink := i_nlink x + d\<rparr>) s)"

definition link_bad :: "nat \<Rightarrow> 'a skernel_scheme \<Rightarrow> 'a syscall_result" where
  "link_bad ip s =
     andthen (ilock (Some ip) s) (\<lambda>s.
     andthen (add_nlink ip (- 1) s) (\<lambda>s.
     andthen (iunlockput ip s) (end_ret (- 1))))"

definition sys_link :: "'a skernel_scheme \<Rightarrow> 'a syscall_result" where
  "sys_link s =
     andthen (argstr 0 s) (\<lambda>old.
     case old of None \<Rightarrow> Ok (- 1, s) | Some old \<Rightarrow>
     andthen (argstr 1 s) (\<lambda>new.
     case new of None \<Rightarrow> Ok (- 1, s) | Some new \<Rightarrow>
     andthen (begin_op s) (\<lambda>s.
     andthen (namei old s) (\<lambda>(ip, s).
     case ip of None \<Rightarrow> end_ret (- 1) s | Some ip \<Rightarrow>
     andthen (ilock (Some ip) s) (\<lambda>s.
     if i_type (k_inodes s ! ip) = T_DIR then andthen (iunlockput ip s) (end_ret (- 1))
     else
       andthen (add_nlink ip 1 s) (\<lambda>s.
       andthen (iunlock (Some ip) s) (\<lambda>s.
       andthen (nameiparent new (replicate DIRSIZ 0) s) (\<lambda>(dp, name, s).
       case dp of None \<Rightarrow> link_bad ip s | Some dp \<Rightarrow>
       andthen (ilock (Some dp) s) (\<lambda>s.
       andthen
         (if i_dev (k_inodes s ! dp) \<noteq> i_dev (k_inodes s ! ip) then Ok (- 1, s)
          else dirlink dp name (i_inum (k_inodes s ! ip)) s) (\<lambda>(r, s).
       if sint r < 0 then andthen (iunlockput dp s) (link_bad ip)
       else
         andthen (iunlockput dp s) (\<lambda>s.
         andthen (iput ip s) (end_ret 0))))))))))))"

definition unlink_bad :: "nat \<Rightarrow> 'a skernel_scheme \<Rightarrow> 'a syscall_result" where
  "unlink_bad dp s = andthen (iunlockput dp s) (end_ret (- 1))"

text \<open>\<open>sys_unlink\<close> once the entry is found and its inode \<open>ip\<close> is locked.\<close>

definition unlink_entry :: "nat \<Rightarrow> nat \<Rightarrow> uint \<Rightarrow> 'a skernel_scheme \<Rightarrow> 'a syscall_result" where
  "unlink_entry dp ip off s =
     (if sint (i_nlink (k_inodes s ! ip)) < 1 then Panic ''unlink: nlink < 1''
      else
        andthen (if i_type (k_inodes s ! ip) = T_DIR then isdirempty ip s else Ok (True, s)) (\<lambda>(empty, s).
        if \<not> empty then andthen (iunlockput ip s) (unlink_bad dp)
        else
          andthen (writei dp (bytes_src (replicate 16 0)) off 16 s) (\<lambda>(r, s).
          if r \<noteq> 16 then Panic ''unlink: writei''
          else
            andthen (if i_type (k_inodes s ! ip) = T_DIR then add_nlink dp (- 1) s else Ok s) (\<lambda>s.
            andthen (iunlockput dp s) (\<lambda>s.
            andthen (add_nlink ip (- 1) s) (\<lambda>s.
            andthen (iunlockput ip s) (end_ret 0)))))))"

definition sys_unlink :: "'a skernel_scheme \<Rightarrow> 'a syscall_result" where
  "sys_unlink s =
     andthen (argstr 0 s) (\<lambda>path.
     case path of None \<Rightarrow> Ok (- 1, s) | Some path \<Rightarrow>
     andthen (begin_op s) (\<lambda>s.
     andthen (nameiparent path (replicate DIRSIZ 0) s) (\<lambda>(dp, name, s).
     case dp of None \<Rightarrow> end_ret (- 1) s | Some dp \<Rightarrow>
     andthen (ilock (Some dp) s) (\<lambda>s.
     andthen (namecmp name (lit ''.'')) (\<lambda>r1.
     andthen (if r1 = 0 then Ok 0 else namecmp name (lit ''..'')) (\<lambda>r2.
     if r1 = 0 \<or> r2 = 0 then unlink_bad dp s
     else
       andthen (dirlookup dp name s) (\<lambda>(r, s).
       case r of None \<Rightarrow> unlink_bad dp s | Some (ip, off) \<Rightarrow>
       andthen (ilock (Some ip) s) (unlink_entry dp ip off))))))))"

text \<open>The entries \<open>.\<close> and \<open>..\<close> of a new directory.\<close>

definition create_dots :: "nat \<Rightarrow> nat \<Rightarrow> 'a skernel_scheme \<Rightarrow> 'a skernel_scheme outcome" where
  "create_dots dp ip s =
     andthen (add_nlink dp 1 s) (\<lambda>s.
     andthen (dirlink ip (lit ''.'') (i_inum (k_inodes s ! ip)) s) (\<lambda>(r, s).
     if sint r < 0 then Panic ''create dots''
     else
       andthen (dirlink ip (lit ''..'') (i_inum (k_inodes s ! dp)) s) (\<lambda>(r, s).
       if sint r < 0 then Panic ''create dots'' else Ok s)))"

definition create ::
  "uchar list \<Rightarrow> ushort \<Rightarrow> ushort \<Rightarrow> ushort \<Rightarrow> 'a skernel_scheme \<Rightarrow> (nat option \<times> 'a skernel_scheme) outcome" where
  "create path type major minor s =
     andthen (nameiparent path (replicate DIRSIZ 0) s) (\<lambda>(dp, name, s).
     case dp of None \<Rightarrow> Ok (None, s) | Some dp \<Rightarrow>
     andthen (ilock (Some dp) s) (\<lambda>s.
     andthen (dirlookup dp name s) (\<lambda>(r, s).
     case r of
       Some (ip, _) \<Rightarrow>
         andthen (iunlockput dp s) (\<lambda>s.
         andthen (ilock (Some ip) s) (\<lambda>s.
         if type = T_FILE \<and> i_type (k_inodes s ! ip) = T_FILE then Ok (Some ip, s)
         else andthen (iunlockput ip s) (\<lambda>s. Ok (None, s))))
     | None \<Rightarrow>
         andthen (ialloc (i_dev (k_inodes s ! dp)) type s) (\<lambda>(ip, s).
         andthen (ilock (Some ip) s) (\<lambda>s.
         andthen (iupdate ip (upd_inode ip (\<lambda>x. x\<lparr>i_major := major, i_minor := minor, i_nlink := 1\<rparr>) s)) (\<lambda>s.
         andthen (if type = T_DIR then create_dots dp ip s else Ok s) (\<lambda>s.
         andthen (dirlink dp name (i_inum (k_inodes s ! ip)) s) (\<lambda>(r, s).
         if sint r < 0 then Panic ''create: dirlink''
         else andthen (iunlockput dp s) (\<lambda>s. Ok (Some ip, s))))))))))"

text \<open>\<open>sys_open\<close> once the inode \<open>ip\<close> is found and locked.\<close>

definition open_file :: "nat \<Rightarrow> cint \<Rightarrow> 'a skernel_scheme \<Rightarrow> 'a syscall_result" where
  "open_file ip omode s =
     andthen (filealloc s) (\<lambda>(f, s).
     case f of None \<Rightarrow> andthen (iunlockput ip s) (end_ret (- 1)) | Some f \<Rightarrow>
     andthen (fdalloc f s) (\<lambda>(fd, s).
     case fd of
       None \<Rightarrow> andthen (fileclose f s) (\<lambda>s. andthen (iunlockput ip s) (end_ret (- 1)))
     | Some fd \<Rightarrow>
         andthen (iunlock (Some ip) s) (\<lambda>s.
         andthen (end_op s) (\<lambda>s.
         Ok (of_nat fd, upd_file f (\<lambda>x. x\<lparr>f_type := FD_INODE, f_ip := Some ip, f_off := 0,
           f_readable := (omode AND O_WRONLY = 0),
           f_writable := (omode AND O_WRONLY \<noteq> 0 \<or> omode AND O_RDWR \<noteq> 0)\<rparr>) s)))))"

definition sys_open :: "'a skernel_scheme \<Rightarrow> 'a syscall_result" where
  "sys_open s =
     andthen (argstr 0 s) (\<lambda>path.
     case path of None \<Rightarrow> Ok (- 1, s) | Some path \<Rightarrow>
     andthen (argint 1 s) (\<lambda>omode.
     andthen (begin_op s) (\<lambda>s.
     if omode AND O_CREATE \<noteq> 0 then
       andthen (create path T_FILE 0 0 s) (\<lambda>(ip, s).
       case ip of None \<Rightarrow> end_ret (- 1) s | Some ip \<Rightarrow> open_file ip omode s)
     else
       andthen (namei path s) (\<lambda>(ip, s).
       case ip of None \<Rightarrow> end_ret (- 1) s | Some ip \<Rightarrow>
       andthen (ilock (Some ip) s) (\<lambda>s.
       if i_type (k_inodes s ! ip) = T_DIR \<and> omode \<noteq> O_RDONLY
       then andthen (iunlockput ip s) (end_ret (- 1))
       else open_file ip omode s)))))"

definition create_ret :: "uchar list \<Rightarrow> ushort \<Rightarrow> ushort \<Rightarrow> ushort \<Rightarrow> 'a skernel_scheme \<Rightarrow> 'a syscall_result" where
  "create_ret path type major minor s =
     andthen (create path type major minor s) (\<lambda>(ip, s).
     case ip of None \<Rightarrow> end_ret (- 1) s | Some ip \<Rightarrow> andthen (iunlockput ip s) (end_ret 0))"

definition sys_mkdir :: "'a skernel_scheme \<Rightarrow> 'a syscall_result" where
  "sys_mkdir s =
     andthen (begin_op s) (\<lambda>s.
     andthen (argstr 0 s) (\<lambda>path.
     case path of None \<Rightarrow> end_ret (- 1) s | Some path \<Rightarrow> create_ret path T_DIR 0 0 s))"

definition sys_mknod :: "'a skernel_scheme \<Rightarrow> 'a syscall_result" where
  "sys_mknod s =
     andthen (begin_op s) (\<lambda>s.
     andthen (argstr 0 s) (\<lambda>path.
     case path of None \<Rightarrow> end_ret (- 1) s | Some path \<Rightarrow>
     andthen (argint 1 s) (\<lambda>major.
     andthen (argint 2 s) (\<lambda>minor.
     create_ret path T_DEV (ucast major) (ucast minor) s))))"

definition sys_chdir :: "'a skernel_scheme \<Rightarrow> 'a syscall_result" where
  "sys_chdir s =
     andthen (begin_op s) (\<lambda>s.
     andthen (argstr 0 s) (\<lambda>path.
     case path of None \<Rightarrow> end_ret (- 1) s | Some path \<Rightarrow>
     andthen (namei path s) (\<lambda>(ip, s).
     case ip of None \<Rightarrow> end_ret (- 1) s | Some ip \<Rightarrow>
     andthen (ilock (Some ip) s) (\<lambda>s.
     if i_type (k_inodes s ! ip) \<noteq> T_DIR then andthen (iunlockput ip s) (end_ret (- 1))
     else
       andthen (iunlock (Some ip) s) (\<lambda>s.
       with_proc s (\<lambda>i p.
       andthen (case p_cwd p of None \<Rightarrow> Fault ''null cwd'' | Some cwd \<Rightarrow> iput cwd s) (\<lambda>s.
       andthen (end_op s) (\<lambda>s.
       Ok (0, upd_proc i (\<lambda>p. p\<lparr>p_cwd := Some ip\<rparr>) s)))))))))"

text \<open>The loop of \<open>sys_exec\<close> over the user's argument vector; \<open>n\<close> is the room left in \<open>argv\<close>.\<close>

primrec exec_args :: "nat \<Rightarrow> addr_t \<Rightarrow> 'a skernel_scheme \<Rightarrow> uchar list list option outcome" where
  "exec_args 0 uargv s = Ok None"
| "exec_args (Suc n) uargv s =
     andthen (fetchaddr uargv s) (\<lambda>uarg.
     case uarg of None \<Rightarrow> Ok None | Some uarg \<Rightarrow>
     if uarg = 0 then Ok (Some [])
     else
       andthen (fetchstr uarg s) (\<lambda>arg.
       case arg of None \<Rightarrow> Ok None | Some arg \<Rightarrow>
       andthen (exec_args n (uargv + 8) s) (\<lambda>args. Ok (map_option (\<lambda>as. arg # as) args))))"

definition sys_exec :: "'a skernel_scheme \<Rightarrow> 'a syscall_result" where
  "sys_exec s =
     andthen (argstr 0 s) (\<lambda>path.
     case path of None \<Rightarrow> Ok (- 1, s) | Some path \<Rightarrow>
     andthen (argaddr 1 s) (\<lambda>uargv.
     andthen (exec_args MAXARG uargv s) (\<lambda>argv.
     case argv of None \<Rightarrow> Ok (- 1, s) | Some argv \<Rightarrow> exec path argv s)))"

definition sys_pipe :: "'a skernel_scheme \<Rightarrow> 'a syscall_result" where
  "sys_pipe s =
     andthen (argptr 0 8 s) (\<lambda>fd.
     case fd of None \<Rightarrow> Ok (- 1, s) | Some fd \<Rightarrow>
     andthen (pipealloc s) (\<lambda>(r, s).
     case r of None \<Rightarrow> Ok (- 1, s) | Some (rf, wfl) \<Rightarrow>
     andthen (fdalloc rf s) (\<lambda>(fd0, s).
     case fd0 of
       None \<Rightarrow> andthen (fileclose rf s) (\<lambda>s. andthen (fileclose wfl s) (\<lambda>s. Ok (- 1, s)))
     | Some fd0 \<Rightarrow>
         andthen (fdalloc wfl s) (\<lambda>(fd1, s).
         case fd1 of
           None \<Rightarrow>
             andthen (set_fd fd0 None s) (\<lambda>s.
             andthen (fileclose rf s) (\<lambda>s. andthen (fileclose wfl s) (\<lambda>s. Ok (- 1, s))))
         | Some fd1 \<Rightarrow>
             andthen (store_user fd (bytes_of 4 (of_nat fd0 :: cint)) s) (\<lambda>s.
             andthen (store_user (fd + 4) (bytes_of 4 (of_nat fd1 :: cint)) s) (\<lambda>s. Ok (0, s)))))))"

end
