(* ===== verification/Traceread.thy ===== *)
theory Traceread
  imports Vm
begin

text \<open>
  The reading side of \<^verbatim>\<open>ktrace.c\<close>: \<open>traceread\<close> copies unread events, oldest first, to the memory of
  the calling process. Together with \<open>traceevent\<close> of \<open>Ktrace\<close> it is the queue between the kernel and
  the dashboard.
\<close>

section \<open>traceread\<close>

text \<open>The 64 bytes of a \<open>struct trace_event\<close>.\<close>

definition event_bytes :: "trace_event \<Rightarrow> uchar list" where
  "event_bytes e = bytes_of 4 (te_seq e) @ bytes_of 4 (te_ticks e) @ bytes_of 4 (te_type e) @
     bytes_of 4 (te_pid e) @ bytes_of 4 (te_arg0 e) @ bytes_of 4 (te_arg1 e) @ bytes_of 4 (te_arg2 e) @
     te_comm e @ te_event e @ bytes_of 4 (te_overwritten e)"

text \<open>\<open>n\<close> is \<open>max_events - count\<close>.\<close>

primrec traceread_loop ::
  "addr_t \<Rightarrow> addr_t \<Rightarrow> nat \<Rightarrow> nat \<Rightarrow> 'a mkernel_scheme \<Rightarrow> (cint \<times> 'a mkernel_scheme) outcome" where
  "traceread_loop pgdir dst count 0 s = Ok (of_nat count, s)"
| "traceread_loop pgdir dst count (Suc n) s =
     (let tb = k_trace s in
      if tb_readseq tb = tb_seq tb then Ok (of_nat count, s)
      else
        let event = tb_events tb ! ring_slot TRACE_BUF_SIZE (tb_readseq tb);
            s = s\<lparr>k_trace := tb\<lparr>tb_readseq := tb_readseq tb + 1\<rparr>\<rparr>
        in andthen (copyout pgdir (dst + 64 * of_nat count) (event_bytes event) s) (\<lambda>(r, s).
          if sint r < 0 then Ok (if count > 0 then of_nat count else - 1, s)
          else traceread_loop pgdir dst (Suc count) n s))"

definition traceread :: "addr_t \<Rightarrow> cint \<Rightarrow> 'a mkernel_scheme \<Rightarrow> (cint \<times> 'a mkernel_scheme) outcome" where
  "traceread dst max_events s =
     (if sint max_events \<le> 0 then Ok (0, s)
      else andthen (acquire (k_cpu s) (tb_lock (k_trace s))) (\<lambda>(c, lk).
        let s = s\<lparr>k_cpu := c, k_trace := (k_trace s)\<lparr>tb_lock := lk\<rparr>\<rparr> in
        with_proc s (\<lambda>_ p.
        andthen (traceread_loop (p_pgdir p) dst 0 (nat (sint max_events)) s) (\<lambda>(r, s).
        andthen (release (k_cpu s) (tb_lock (k_trace s))) (\<lambda>(c, lk).
          Ok (r, s\<lparr>k_cpu := c, k_trace := (k_trace s)\<lparr>tb_lock := lk\<rparr>\<rparr>))))))"

section \<open>Draining the buffer\<close>

definition event_sized :: "trace_event \<Rightarrow> bool" where
  "event_sized e \<longleftrightarrow> length (te_comm e) = 16 \<and> length (te_event e) = 16"

lemma length_event_bytes: "event_sized e \<Longrightarrow> length (event_bytes e) = 64"
  by (simp add: event_sized_def event_bytes_def)

lemma unread_Cons:
  assumes "tb_readseq tb \<noteq> tb_seq tb"
  shows "unread tb = tb_events tb ! ring_slot TRACE_BUF_SIZE (tb_readseq tb) #
    unread (tb\<lparr>tb_readseq := tb_readseq tb + 1\<rparr>)"
  using ring128.pop [OF assms] by (simp add: unread_def)

lemma unread_Nil: "tb_readseq tb = tb_seq tb \<Longrightarrow> unread tb = []"
  by (simp add: unread_def)

text \<open>Different addresses of a user range are different bytes of memory.\<close>

lemma phys_inj:
  assumes "user_range m pml4 va n" and "i < n" and "j < n" and "i \<noteq> j"
  shows "the (phys m pml4 (va + of_nat i)) \<noteq> the (phys m pml4 (va + of_nat j))"
proof (cases "PGROUNDDOWN (va + of_nat i) = PGROUNDDOWN (va + of_nat j)")
  case False
  then show ?thesis by (rule phys_differs [OF assms(1-3)])
next
  case True
  have "n \<le> 2 ^ 64" using assms(1) by (simp add: user_range_def)
  then have "unat (of_nat i :: addr_t) = i" "unat (of_nat j :: addr_t) = j"
    using assms(2,3) by (simp_all add: unat_of_nat_small)
  then have "(of_nat i :: addr_t) \<noteq> of_nat j" using assms(4) by metis
  moreover have "PGROUNDDOWN (va + of_nat i) \<in> range_pages_of va n" using assms(2) by (auto simp: range_pages_of_def)
  then have "user_page m pml4 (PGROUNDDOWN (va + of_nat i)) \<noteq> None" using assms(1) by (auto simp: user_range_def)
  ultimately show ?thesis using True by (auto simp: phys_def)
qed

text \<open>Two copies that follow each other in a user range make one.\<close>

lemma user_put_seq:
  assumes "user_range m pml4 va n" and "length xs + length ys \<le> n"
    and "user_put m pml4 va xs m1" and "user_put m1 pml4 (va + of_nat (length xs)) ys m2"
  shows "user_put m pml4 va (xs @ ys) m2"
proof (rule user_put_append [OF assms(3,4)])
  fix i assume "i < length xs + length ys"
  then show "phys m1 pml4 (va + of_nat i) = phys m pml4 (va + of_nat i)"
    using assms(2) by (intro user_put_keeps(3) [OF assms(1,3)]) simp_all
next
  fix i j assume "i < length xs" "j < length ys"
  then show "the (phys m pml4 (va + of_nat i)) \<noteq> the (phys m pml4 (va + of_nat (length xs + j)))"
    using assms(2) by (intro phys_inj [OF assms(1)]) simp_all
qed

text \<open>The events of a list, as they lie in the caller's array.\<close>

definition events_bytes :: "trace_event list \<Rightarrow> uchar list" where
  "events_bytes es = concat (map event_bytes es)"

lemma length_events_bytes: "list_all event_sized es \<Longrightarrow> length (events_bytes es) = 64 * length es"
  unfolding events_bytes_def by (induction es) (simp_all add: length_event_bytes)

lemma traceread_loop_ok:
  assumes "list_all event_sized (unread (k_trace s))"
    and "user_range (k_mem s) pgdir (dst + 64 * of_nat count) (64 * min n (length (unread (k_trace s))))"
  shows "\<exists>m' tb. traceread_loop pgdir dst count n s =
      Ok (of_nat (count + min n (length (unread (k_trace s)))), s\<lparr>k_trace := tb, k_mem := m'\<rparr>) \<and>
    tb = (k_trace s)\<lparr>tb_readseq := tb_readseq (k_trace s) + of_nat (min n (length (unread (k_trace s))))\<rparr> \<and>
    unread tb = drop n (unread (k_trace s)) \<and>
    user_put (k_mem s) pgdir (dst + 64 * of_nat count) (events_bytes (take n (unread (k_trace s)))) m'"
  using assms
proof (induction n arbitrary: s count)
  case 0
  then show ?case by (intro exI [of _ "k_mem s"] exI [of _ "k_trace s"]) (simp add: events_bytes_def user_put_def)
next
  case (Suc n)
  let ?tb = "k_trace s" and ?a = "dst + 64 * of_nat count"
  show ?case
  proof (cases "tb_readseq ?tb = tb_seq ?tb")
    case True
    then show ?thesis
      by (intro exI [of _ "k_mem s"] exI [of _ ?tb]) (simp add: unread_Nil events_bytes_def user_put_def)
  next
    case False
    define e where "e = tb_events ?tb ! ring_slot TRACE_BUF_SIZE (tb_readseq ?tb)"
    define tb1 where "tb1 = ?tb\<lparr>tb_readseq := tb_readseq ?tb + 1\<rparr>"
    have un: "unread ?tb = e # unread tb1" unfolding e_def tb1_def by (rule unread_Cons [OF False])
    have sz: "event_sized e" "list_all event_sized (unread tb1)" using Suc.prems(1) by (simp_all add: un)
    note len = length_event_bytes [OF sz(1)]
    define k where "k = min n (length (unread tb1))"
    have ur: "user_range (k_mem s) pgdir ?a (64 + 64 * k)" using Suc.prems(2) by (simp add: un k_def min_Suc_Suc)
    have "user_range (k_mem (s\<lparr>k_trace := tb1\<rparr>)) pgdir ?a (length (event_bytes e))"
      using user_range_mono [OF ur, of 0 64] by (simp add: len)
    from copyout_ok [OF this] obtain m1 where m1: "copyout pgdir ?a (event_bytes e) (s\<lparr>k_trace := tb1\<rparr>) = Ok (0, s\<lparr>k_trace := tb1, k_mem := m1\<rparr>)"
        "user_put (k_mem s) pgdir ?a (event_bytes e) m1"
      by auto
    let ?s1 = "s\<lparr>k_trace := tb1, k_mem := m1\<rparr>"
    have next_addr: "dst + 64 * of_nat (Suc count) = ?a + of_nat 64" by (simp add: algebra_simps)
    have "user_range m1 pgdir ?a (64 + 64 * k)" using user_put_keeps(1) [OF ur m1(2)] by (simp add: len)
    then have "user_range (k_mem ?s1) pgdir (dst + 64 * of_nat (Suc count)) (64 * min n (length (unread (k_trace ?s1))))"
      unfolding next_addr using user_range_mono [of m1 pgdir ?a "64 + 64 * k" 64 "64 * k"] by (simp add: k_def)
    then obtain m' tb where IH: "traceread_loop pgdir dst (Suc count) n ?s1 =
        Ok (of_nat (Suc count + k), s\<lparr>k_trace := tb, k_mem := m'\<rparr>)"
        "tb = tb1\<lparr>tb_readseq := tb_readseq tb1 + of_nat k\<rparr>" "unread tb = drop n (unread tb1)"
        "user_put m1 pgdir (?a + of_nat 64) (events_bytes (take n (unread tb1))) m'"
      using Suc.IH [of ?s1 "Suc count"] sz(2) unfolding next_addr by (auto simp: k_def)
    have "list_all event_sized (take n (unread tb1))" using sz(2) by (auto simp: list_all_iff dest: in_set_takeD)
    from length_events_bytes [OF this] have "length (events_bytes (take n (unread tb1))) = 64 * k"
      by (simp add: k_def min.commute)
    then have "user_put (k_mem s) pgdir ?a (event_bytes e @ events_bytes (take n (unread tb1))) m'"
      using user_put_seq [OF ur _ m1(2)] IH(4) by (simp add: len)
    moreover have "traceread_loop pgdir dst count (Suc n) s = traceread_loop pgdir dst (Suc count) n ?s1"
      using False m1(1) by (simp add: Let_def e_def [symmetric] tb1_def [symmetric])
    moreover have "min (Suc n) (length (unread ?tb)) = Suc k" by (simp add: un k_def)
    moreover have "tb = ?tb\<lparr>tb_readseq := tb_readseq ?tb + of_nat (Suc k)\<rparr>" by (simp add: IH(2) tb1_def add.assoc)
    moreover have "events_bytes (take (Suc n) (unread ?tb)) = event_bytes e @ events_bytes (take n (unread tb1))"
      by (simp add: un events_bytes_def)
    moreover have "unread tb = drop (Suc n) (unread ?tb)" by (simp add: IH(3) un)
    moreover have "Suc count + k = count + Suc k" by simp
    ultimately show ?thesis
      using IH(1) by (intro exI [of _ m'] exI [of _ tb]) (simp only: simp_thms)
  qed
qed

lemma trace_ok_read:
  assumes "trace_ok tb" and "k \<le> length (unread tb)"
  shows "trace_ok (tb\<lparr>tb_readseq := tb_readseq tb + of_nat k\<rparr>)"
  using assms
proof (induction k arbitrary: tb)
  case (Suc k)
  have ne: "tb_readseq tb \<noteq> tb_seq tb" using Suc.prems(2) by (auto simp: unread_Nil)
  let ?t = "tb\<lparr>tb_readseq := tb_readseq tb + 1\<rparr>"
  note un = unread_Cons [OF ne]
  have n: "unat (tb_seq tb - tb_readseq tb) = Suc (unat (tb_seq ?t - tb_readseq ?t))"
    using unat_sub_pos_step [OF ne] by simp
  have "map te_seq (unread ?t) = tl (map te_seq (unread tb))" by (simp add: un)
  also have "\<dots> = tl (map (\<lambda>i. tb_readseq tb + of_nat i) [0..<Suc (length (unread ?t))])"
    using Suc.prems(1) by (simp add: trace_ok_def un)
  also have "\<dots> = map (\<lambda>i. tb_readseq ?t + of_nat i) [0..<length (unread ?t)]"
    by (simp add: upt_conv_Cons map_Suc_upt [symmetric] add.assoc del: upt_Suc)
  finally have "trace_ok ?t" using Suc.prems(1) n by (simp add: trace_ok_def)
  then have "trace_ok (?t\<lparr>tb_readseq := tb_readseq ?t + of_nat k\<rparr>)"
    using Suc.prems(2) by (intro Suc.IH) (simp_all add: un)
  then show ?case by (simp add: add.assoc)
qed simp

text \<open>C4: The queue delivers.  With room for the events in the caller's mapped memory, \<open>traceread\<close>
  returns the number it delivered, the smaller of \<open>max_events\<close> and the number of unread events; the
  caller's array holds exactly those events, oldest first, as \<open>struct trace_event\<close>s; exactly they are no
  longer unread; and the buffer's lock, its other contents and the rest of memory are as before.\<close>

theorem traceread_delivers:
  assumes "trace_quiet s" and "k_proc s = Some i" and "0 < sint max_events"
    and "list_all event_sized (unread (k_trace s))"
    and "n = min (nat (sint max_events)) (length (unread (k_trace s)))"
    and "user_range (k_mem s) (p_pgdir (k_procs s ! i)) dst (64 * n)"
  shows "\<exists>m' tb. traceread dst max_events s = Ok (of_nat n, s\<lparr>k_trace := tb, k_mem := m'\<rparr>) \<and>
    trace_quiet (s\<lparr>k_trace := tb, k_mem := m'\<rparr>) \<and>
    trace_abs tb = (drop n (unread (k_trace s)), tb_overwritten (k_trace s)) \<and>
    user_put (k_mem s) (p_pgdir (k_procs s ! i)) dst (events_bytes (take n (unread (k_trace s)))) m'"
proof -
  let ?max = "nat (sint max_events)" and ?tb = "k_trace s" and ?pg = "p_pgdir (k_procs s ! i)"
  have c: "cpu_settled (k_cpu s)" and lk: "tb_lock ?tb = initlock" using assms(1) by (simp_all add: trace_quiet_def)
  let ?s1 = "s\<lparr>k_cpu := pushcli (k_cpu s), k_trace := ?tb\<lparr>tb_lock := locked_by (k_cpu s)\<rparr>\<rparr>"
  obtain m' where loop: "traceread_loop ?pg dst 0 ?max ?s1 = Ok (of_nat n, ?s1\<lparr>k_trace := (k_trace ?s1)
        \<lparr>tb_readseq := tb_readseq ?tb + of_nat n\<rparr>, k_mem := m'\<rparr>)"
      and un: "unread ((k_trace ?s1)\<lparr>tb_readseq := tb_readseq ?tb + of_nat n\<rparr>) = drop ?max (unread ?tb)"
      and put: "user_put (k_mem s) ?pg dst (events_bytes (take ?max (unread ?tb))) m'"
    using traceread_loop_ok [of ?s1 ?pg dst 0 ?max] assms(4-6) by auto
  let ?tb' = "?tb\<lparr>tb_readseq := tb_readseq ?tb + of_nat n\<rparr>"
  have "?tb'\<lparr>tb_lock := initlock\<rparr> = ?tb'" using lk by (cases ?tb) simp
  then have run: "traceread dst max_events s = Ok (of_nat n, s\<lparr>k_trace := ?tb', k_mem := m'\<rparr>)"
    using assms(2,3) c lk loop
    by (simp add: traceread_def acquire_free with_proc_def release_locked_by)
  have "trace_ok ?tb'" using assms(1,5) by (intro trace_ok_read) (simp_all add: trace_quiet_def)
  then have "trace_quiet (s\<lparr>k_trace := ?tb', k_mem := m'\<rparr>)" using assms(1) by (simp add: trace_quiet_def)
  moreover have "drop ?max (unread ?tb) = drop n (unread ?tb)" "take ?max (unread ?tb) = take n (unread ?tb)"
    by (simp_all add: assms(5) min_def)
  moreover have "unread ?tb' = drop ?max (unread ?tb)" using un by (simp add: unread_def)
  ultimately show ?thesis using run put by (intro exI [of _ m'] exI [of _ ?tb']) (simp add: trace_abs_def)
qed

text \<open>A process with one page of user memory and one event to read, for examples.\<close>

definition reader :: "unit mkernel_scheme" where
  "reader = (boot_mkernel ())\<lparr>k_proc := Some 0, k_procs := [idle_proc\<lparr>p_pgdir := KERNBASE + 0x1000\<rparr>],
     k_trace := put_event zero_event (k_trace (boot_mkernel ())), k_mem := two_pages\<rparr>"

lemma reader_ok:
  "trace_quiet reader" "k_proc reader = Some 0" "unread (k_trace reader) = [zero_event]"
  "k_mem reader = two_pages" "p_pgdir (k_procs reader ! 0) = KERNBASE + 0x1000"
proof -
  have t: "trace_ok (k_trace (boot_mkernel ()))" "unread (k_trace (boot_mkernel ())) = []"
    by (simp_all add: boot_mkernel_def boot_tkernel_quiet boot_tkernel_quiet(1) [unfolded trace_quiet_def])
  have t0: "tb_seq (k_trace (boot_mkernel ())) = 0"
    by (simp add: boot_mkernel_def boot_tkernel_def traceinit_def boot_kernel_def)
  have "trace_ok (put_event zero_event (k_trace (boot_mkernel ())))"
    by (rule put_event_ok) (simp_all add: t t0 zero_event_def)
  then show "trace_quiet reader"
    by (simp add: reader_def trace_quiet_def put_event_def Let_def idle_proc_def)
      (simp add: boot_mkernel_def boot_tkernel_def traceinit_def boot_kernel_def boot_cpu_def cpu_settled_def cpu_nested_def)
  show "unread (k_trace reader) = [zero_event]"
    using put_event_abs [of "k_trace (boot_mkernel ())" zero_event] t by (simp add: reader_def trace_abs_def)
qed (simp_all add: reader_def)

lemma reader_range: "user_range two_pages (KERNBASE + 0x1000) 0x1000 64"
proof -
  have "PGROUNDDOWN (0x1000 + of_nat i) = 0x1000" if "i < 64" for i
    using page_off_add(1) [of i "0x1000"] that by (simp add: PGROUNDDOWN_def)
  then have r: "range_pages_of 0x1000 64 = {0x1000}" by (auto simp: range_pages_of_def intro!: image_eqI [of _ _ 0])
  have "0x1000 \<in> range_pages_of 0x1FFE 4" by (auto simp: range_pages_of_def PGROUNDDOWN_def intro!: image_eqI [of _ _ 0])
  then show ?thesis using two_pages_range unfolding user_range_def r by auto
qed

theorem traceread_delivers_witness:
  "\<exists>m' tb. traceread 0x1000 5 reader = Ok (1, reader\<lparr>k_trace := tb, k_mem := m'\<rparr>) \<and> unread tb = []"
proof -
  have "event_sized zero_event" by (simp add: event_sized_def zero_event_def)
  then show ?thesis
    using traceread_delivers [of reader 0 5 1 "0x1000"] reader_range by (auto simp: reader_ok trace_abs_def)
qed

text \<open>C6: An event is lost when it cannot be copied.  \<open>traceread\<close> advances the read counter before
  \<open>copyout\<close>, so a call whose buffer is not mapped for the user returns -1 and yet removes the oldest
  event from the queue; \<open>overwritten\<close> does not count it.\<close>

theorem traceread_loses_event:
  assumes "trace_quiet s" and "k_proc s = Some i" and "0 < sint max_events"
    and "unread (k_trace s) = e # es" and "event_sized e"
    and "walk_entry (k_mem s) (p_pgdir (k_procs s ! i)) (indices (PGROUNDDOWN dst)) \<noteq> None"
    and "user_page (k_mem s) (p_pgdir (k_procs s ! i)) (PGROUNDDOWN dst) = None"
  shows "\<exists>tb. traceread dst max_events s = Ok (- 1, s\<lparr>k_trace := tb\<rparr>) \<and>
    unread tb = es \<and> tb_overwritten tb = tb_overwritten (k_trace s)"
proof -
  let ?tb = "k_trace s" and ?pg = "p_pgdir (k_procs s ! i)"
  have c: "cpu_settled (k_cpu s)" and lk: "tb_lock ?tb = initlock" using assms(1) by (simp_all add: trace_quiet_def)
  have ne: "tb_readseq ?tb \<noteq> tb_seq ?tb" using assms(4) by (auto simp: unread_Nil)
  have e: "e = tb_events ?tb ! ring_slot TRACE_BUF_SIZE (tb_readseq ?tb)"
    and es: "unread (?tb\<lparr>tb_readseq := tb_readseq ?tb + 1\<rparr>) = es"
    using unread_Cons [OF ne] assms(4) by simp_all
  obtain n where n: "nat (sint max_events) = Suc n" using assms(3) by (cases "nat (sint max_events)") simp_all
  have fail: "copyout ?pg dst (event_bytes e) t = Ok (- 1, t)" if "k_mem t = k_mem s"
    for t :: "'a mkernel_scheme"
    using assms(5-7) length_event_bytes [OF assms(5)] that
    by (subst copyout_def, subst copyout_loop.simps)
      (auto simp: uva2ka_def walkpgdir_pure user_page_def Let_def split: option.splits if_splits)
  let ?tb' = "?tb\<lparr>tb_readseq := tb_readseq ?tb + 1\<rparr>"
  have "?tb'\<lparr>tb_lock := initlock\<rparr> = ?tb'" using lk by (cases ?tb) simp
  then have "traceread dst max_events s = Ok (- 1, s\<lparr>k_trace := ?tb'\<rparr>)"
    using assms(2,3) c lk ne fail
    by (simp add: traceread_def acquire_free with_proc_def n Let_def e [symmetric] release_locked_by)
  then show ?thesis using es by auto
qed

theorem traceread_loses_event_witness:
  "\<exists>tb. traceread 0x3000 5 reader = Ok (- 1, reader\<lparr>k_trace := tb\<rparr>) \<and> unread tb = []"
proof -
  have "walk_entry two_pages (KERNBASE + 0x1000) (indices (PGROUNDDOWN 0x3000)) = Some (KERNBASE + 0x4018)"
    by (simp add: indices_def next_table_def two_pages_loads [simplified] index_simps PGROUNDDOWN_def)
  moreover have "load64 two_pages (KERNBASE + 0x4018) = 0"
    by (simp add: two_pages_def load_store64_other load64_zero)
  ultimately show ?thesis
    using traceread_loses_event [of reader 0 5 zero_event "[]" "0x3000"]
    by (auto simp: reader_ok user_page_def event_sized_def zero_event_def)
qed

end
