(* ===== verification/Kbd.thy ===== *)
theory Kbd
  imports Console
begin

text \<open>\<^verbatim>\<open>kbd.c\<close> and \<^verbatim>\<open>kbd.h\<close>: from scan codes of the keyboard to characters.\<close>

section \<open>Key maps\<close>

abbreviation (input) SHIFT :: uint where "SHIFT \<equiv> 1"
abbreviation (input) CTL :: uint where "CTL \<equiv> 2"
abbreviation (input) ALT :: uint where "ALT \<equiv> 4"
abbreviation (input) CAPSLOCK :: uint where "CAPSLOCK \<equiv> 8"
abbreviation (input) NUMLOCK :: uint where "NUMLOCK \<equiv> 16"
abbreviation (input) SCROLLLOCK :: uint where "SCROLLLOCK \<equiv> 32"
abbreviation (input) E0ESC :: uint where "E0ESC \<equiv> 64"

text \<open>An array of 256 bytes from its first elements and its designated ones.\<close>

definition key_array :: "uchar list \<Rightarrow> (nat \<times> uchar) list \<Rightarrow> uchar list" where
  "key_array xs des = fold (\<lambda>(i, c) m. m[i := c]) des (xs @ replicate (256 - length xs) 0)"

definition shiftcode :: "uchar list" where
  "shiftcode = key_array [] [(0x1D, 2), (0x2A, 1), (0x36, 1), (0x38, 4), (0x9D, 2), (0xB8, 4)]"

definition togglecode :: "uchar list" where
  "togglecode = key_array [] [(0x3A, 8), (0x45, 16), (0x46, 32)]"

definition keypad :: "uchar \<Rightarrow> uchar \<Rightarrow> (nat \<times> uchar) list" where
  "keypad enter slash = [(0x9C, enter), (0xB5, slash), (0xC8, 0xE2), (0xD0, 0xE3), (0xC9, 0xE6), (0xD1, 0xE7),
     (0xCB, 0xE4), (0xCD, 0xE5), (0x97, 0xE0), (0xCF, 0xE1), (0xD2, 0xE8), (0xD3, 0xE9)]"

definition normalmap :: "uchar list" where
  "normalmap = key_array
     ([0, 0x1B] @ cstr ''1234567890-='' @ [8, 9] @
      cstr ''qwertyuiop[]'' @ [10, 0] @ cstr ''as'' @
      cstr ''dfghjkl;'' @
      [0x27, 0x60, 0, 0x5C] @ cstr ''zxcv'' @
      cstr ''bnm,./'' @ [0] @ cstr ''*'' @
      [0] @ cstr '' '' @ [0, 0, 0, 0, 0, 0] @
      [0, 0, 0, 0, 0, 0, 0] @ cstr ''7'' @
      cstr ''89-456+1'' @
      cstr ''230.'' @ [0, 0, 0, 0])
     (keypad 10 0x2F)"

definition shiftmap :: "uchar list" where
  "shiftmap = key_array
     ([0, 0x1B] @ cstr ''!@#$%^&*()_+'' @ [8, 9] @
      cstr ''QWERTYUIOP{}'' @ [10, 0] @ cstr ''AS'' @
      cstr ''DFGHJKL:'' @
      [0x22, 0x7E, 0, 0x7C] @ cstr ''ZXCV'' @
      cstr ''BNM<>?'' @ [0] @ cstr ''*'' @
      [0] @ cstr '' '' @ [0, 0, 0, 0, 0, 0] @
      [0, 0, 0, 0, 0, 0, 0] @ cstr ''7'' @
      cstr ''89-456+1'' @
      cstr ''230.'' @ [0, 0, 0, 0])
     (keypad 10 0x2F)"

text \<open>The macro \<open>C(x)\<close> of a character.\<close>

definition ctl :: "string \<Rightarrow> uchar list" where
  "ctl s = map (\<lambda>c. c - 0x40) (cstr s)"

definition ctlmap :: "uchar list" where
  "ctlmap = key_array
     (replicate 16 0 @
      ctl ''QWERTYUI'' @
      ctl ''OP'' @ [0, 0, 13, 0] @ ctl ''AS'' @
      ctl ''DFGHJKL'' @ [0] @
      [0, 0, 0, 0x5C - 0x40] @ ctl ''ZXCV'' @
      ctl ''BNM'' @ [0, 0] @ ctl ''/'' @ [0, 0])
     (keypad 13 (0x2F - 0x40))"

section \<open>kbdgetc\<close>

text \<open>
  One call with the values of the two ports and the flags \<open>shift\<close>: the character, or -1 when there is
  none, and the new flags. A character is a byte from the maps, or changed by the caps lock in 32-bit
  arithmetic.
\<close>

definition kbdgetc :: "uchar \<times> uchar \<Rightarrow> uint \<Rightarrow> cint \<times> uint" where
  "kbdgetc ports shift =
     (if fst ports AND 1 = 0 then (- 1, shift)
      else let data = (ucast (snd ports) :: uint) in
        if data = 0xE0 then (0, shift OR E0ESC)
        else if data AND 0x80 \<noteq> 0 then
          let data = (if shift AND E0ESC \<noteq> 0 then data else data AND 0x7F)
          in (0, shift AND NOT (ucast (shiftcode ! unat data) OR E0ESC))
        else
          let (data, shift) = (if shift AND E0ESC \<noteq> 0 then (data OR 0x80, shift AND NOT E0ESC) else (data, shift));
              shift = shift OR ucast (shiftcode ! unat data);
              shift = shift XOR ucast (togglecode ! unat data);
              c = (ucast ([normalmap, shiftmap, ctlmap, ctlmap] ! unat (shift AND (CTL OR SHIFT)) ! unat data) :: uint);
              c = (if shift AND CAPSLOCK \<noteq> 0 then
                     if 0x61 \<le> c \<and> c \<le> 0x7A then c + (0x41 - 0x61)
                     else if 0x41 \<le> c \<and> c \<le> 0x5A then c + (0x61 - 0x41) else c
                   else c)
          in (c, shift))"

text \<open>
  The characters that an interrupt hands to the editor: those of the calls before the first that finds
  no data.
\<close>

primrec kbd_chars :: "(uchar \<times> uchar) list \<Rightarrow> uint \<Rightarrow> cint list \<times> uint" where
  "kbd_chars [] shift = ([], shift)"
| "kbd_chars (ports # rest) shift =
     (let (c, shift) = kbdgetc ports shift in
      if sint c < 0 then ([], shift) else let (cs, shift) = kbd_chars rest shift in (c # cs, shift))"

definition kbdintr :: "(uchar \<times> uchar) list \<Rightarrow> uint \<Rightarrow> 'a ckernel_scheme \<Rightarrow> (uint \<times> 'a ckernel_scheme) outcome" where
  "kbdintr ports shift s =
     (let (cs, shift) = kbd_chars ports shift in andthen (consoleintr cs s) (\<lambda>s. Ok (shift, s)))"

end
