(* ===== verification/Syscall.thy ===== *)
theory Syscall
  imports Sysfile Traceread Kbd
begin

text \<open>
  \<^verbatim>\<open>sysproc.c\<close>, the dispatcher of \<^verbatim>\<open>syscall.c\<close> and the trap handler of \<^verbatim>\<open>trap.c\<close>.
\<close>

section \<open>Numbers\<close>

abbreviation (input) SYS_fork :: uint64 where "SYS_fork \<equiv> 1"
abbreviation (input) SYS_exit :: uint64 where "SYS_exit \<equiv> 2"
abbreviation (input) SYS_wait :: uint64 where "SYS_wait \<equiv> 3"
abbreviation (input) SYS_pipe :: uint64 where "SYS_pipe \<equiv> 4"
abbreviation (input) SYS_read :: uint64 where "SYS_read \<equiv> 5"
abbreviation (input) SYS_kill :: uint64 where "SYS_kill \<equiv> 6"
abbreviation (input) SYS_exec :: uint64 where "SYS_exec \<equiv> 7"
abbreviation (input) SYS_fstat :: uint64 where "SYS_fstat \<equiv> 8"
abbreviation (input) SYS_chdir :: uint64 where "SYS_chdir \<equiv> 9"
abbreviation (input) SYS_dup :: uint64 where "SYS_dup \<equiv> 10"
abbreviation (input) SYS_getpid :: uint64 where "SYS_getpid \<equiv> 11"
abbreviation (input) SYS_sbrk :: uint64 where "SYS_sbrk \<equiv> 12"
abbreviation (input) SYS_sleep :: uint64 where "SYS_sleep \<equiv> 13"
abbreviation (input) SYS_uptime :: uint64 where "SYS_uptime \<equiv> 14"
abbreviation (input) SYS_open :: uint64 where "SYS_open \<equiv> 15"
abbreviation (input) SYS_write :: uint64 where "SYS_write \<equiv> 16"
abbreviation (input) SYS_mknod :: uint64 where "SYS_mknod \<equiv> 17"
abbreviation (input) SYS_unlink :: uint64 where "SYS_unlink \<equiv> 18"
abbreviation (input) SYS_link :: uint64 where "SYS_link \<equiv> 19"
abbreviation (input) SYS_mkdir :: uint64 where "SYS_mkdir \<equiv> 20"
abbreviation (input) SYS_close :: uint64 where "SYS_close \<equiv> 21"
abbreviation (input) SYS_traceread :: uint64 where "SYS_traceread \<equiv> 22"
abbreviation (input) SYS_vidclear :: uint64 where "SYS_vidclear \<equiv> 23"
abbreviation (input) SYS_vidputc :: uint64 where "SYS_vidputc \<equiv> 24"
abbreviation (input) SYS_vidputs :: uint64 where "SYS_vidputs \<equiv> 25"

abbreviation (input) T_ILLOP :: uint64 where "T_ILLOP \<equiv> 6"
abbreviation (input) T_PGFLT :: uint64 where "T_PGFLT \<equiv> 14"
abbreviation (input) T_IRQ0 :: uint64 where "T_IRQ0 \<equiv> 32"
abbreviation (input) IRQ_TIMER :: uint64 where "IRQ_TIMER \<equiv> 0"
abbreviation (input) IRQ_KBD :: uint64 where "IRQ_KBD \<equiv> 1"
abbreviation (input) IRQ_COM1 :: uint64 where "IRQ_COM1 \<equiv> 4"
abbreviation (input) IRQ_IDE :: uint64 where "IRQ_IDE \<equiv> 14"
abbreviation (input) IRQ_SPURIOUS :: uint64 where "IRQ_SPURIOUS \<equiv> 31"

section \<open>System calls on processes\<close>

definition sys_fork :: "'a skernel_scheme \<Rightarrow> 'a syscall_result" where
  "sys_fork s = fork s"

definition sys_wait :: "'a skernel_scheme \<Rightarrow> 'a syscall_result" where
  "sys_wait s = wait s"

definition sys_kill :: "'a skernel_scheme \<Rightarrow> 'a syscall_result" where
  "sys_kill s = andthen (argint 0 s) (\<lambda>pid. kill pid s)"

definition sys_getpid :: "'a skernel_scheme \<Rightarrow> 'a syscall_result" where
  "sys_getpid s = with_proc s (\<lambda>_ p. Ok (p_pid p, s))"

text \<open>\<open>sys_sbrk\<close> returns an address.\<close>

definition sys_sbrk :: "'a skernel_scheme \<Rightarrow> (addr_t \<times> 'a skernel_scheme) outcome" where
  "sys_sbrk s =
     andthen (argaddr 0 s) (\<lambda>n.
     with_proc s (\<lambda>_ p.
     andthen (growproc n s) (\<lambda>(r, s).
     if sint r < 0 then Ok (- 1, s) else Ok (p_sz p, s))))"

definition acquire_ticks :: "'a skernel_scheme \<Rightarrow> 'a skernel_scheme outcome" where
  "acquire_ticks s = andthen (acquire (k_cpu s) (k_tickslock s)) (\<lambda>(c, lk). Ok (s\<lparr>k_cpu := c, k_tickslock := lk\<rparr>))"

definition release_ticks :: "'a skernel_scheme \<Rightarrow> 'a skernel_scheme outcome" where
  "release_ticks s = andthen (release (k_cpu s) (k_tickslock s)) (\<lambda>(c, lk). Ok (s\<lparr>k_cpu := c, k_tickslock := lk\<rparr>))"

text \<open>
  One turn of the loop of \<open>sys_sleep\<close>, at a time when the process has \<open>tickslock\<close>: the value it returns
  with, or \<open>None\<close> when it goes to sleep. The comparison is unsigned.
\<close>

definition sleep_turn :: "uint \<Rightarrow> cint \<Rightarrow> 'a skernel_scheme \<Rightarrow> (cint option \<times> 'a skernel_scheme) outcome" where
  "sleep_turn ticks0 n s =
     (if k_ticks s - ticks0 < n then
        with_proc s (\<lambda>_ p.
        if p_killed p then andthen (release_ticks s) (\<lambda>s. Ok (Some (- 1), s))
        else
          andthen (sleep_enter TicksChan (Some (k_tickslock s)) s) (\<lambda>(lk, s).
          Ok (None, s\<lparr>k_tickslock := the lk\<rparr>)))
      else andthen (release_ticks s) (\<lambda>s. Ok (Some 0, s)))"

definition sys_sleep :: "'a skernel_scheme \<Rightarrow> 'a syscall_result" where
  "sys_sleep s =
     andthen (argint 0 s) (\<lambda>n.
     andthen (acquire_ticks s) (\<lambda>s.
     andthen (sleep_turn (k_ticks s) n s) (\<lambda>(r, s).
     case r of None \<Rightarrow> Blocked ''ticks'' | Some r \<Rightarrow> Ok (r, s))))"

definition sys_uptime :: "'a skernel_scheme \<Rightarrow> 'a syscall_result" where
  "sys_uptime s =
     andthen (acquire_ticks s) (\<lambda>s.
     let xticks = k_ticks s in
     andthen (release_ticks s) (\<lambda>s. Ok (xticks, s)))"

text \<open>\<open>sys_traceread\<close>: the size passed to \<open>argptr\<close> is truncated to an \<open>int\<close>.\<close>

definition sys_traceread :: "'a skernel_scheme \<Rightarrow> 'a syscall_result" where
  "sys_traceread s =
     andthen (argint 1 s) (\<lambda>max_events.
     if sint max_events \<le> 0 then Ok (0, s)
     else
       andthen (argptr 0 (ucast ((scast max_events :: uint64) * 64)) s) (\<lambda>event.
       case event of None \<Rightarrow> Ok (- 1, s) | Some event \<Rightarrow> traceread event max_events s))"

definition sys_vidclear :: "'a skernel_scheme \<Rightarrow> 'a syscall_result" where
  "sys_vidclear s = Ok (0, vidclear s)"

definition sys_vidputc :: "'a skernel_scheme \<Rightarrow> 'a syscall_result" where
  "sys_vidputc s =
     andthen (argint 0 s) (\<lambda>row. andthen (argint 1 s) (\<lambda>col. andthen (argint 2 s) (\<lambda>ch.
     andthen (argint 3 s) (\<lambda>color. Ok (0, vidputc row col ch color s)))))"

definition sys_vidputs :: "'a skernel_scheme \<Rightarrow> 'a syscall_result" where
  "sys_vidputs s =
     andthen (argint 0 s) (\<lambda>row. andthen (argint 1 s) (\<lambda>col.
     andthen (argstr 2 s) (\<lambda>str.
     case str of None \<Rightarrow> Ok (- 1, s) | Some str \<Rightarrow>
     andthen (argint 3 s) (\<lambda>color.
     andthen (vidputs row col str color s) (\<lambda>s. Ok (0, s))))))"

section \<open>Dispatch\<close>

text \<open>
  The result of a call as the register sees it: an \<open>int\<close> in the low half, with the high half cleared
  as the processor does it for 32-bit results. \<open>None\<close> is a call that does not return.
\<close>

definition ret :: "'a syscall_result \<Rightarrow> (uint64 option \<times> 'a skernel_scheme) outcome" where
  "ret r = andthen r (\<lambda>(v, s). Ok (Some (ucast v), s))"

definition sys_exit :: "'a skernel_scheme \<Rightarrow> (uint64 option \<times> 'a skernel_scheme) outcome" where
  "sys_exit s = andthen (exit s) (\<lambda>s. Ok (None, s))"

definition syscalls :: "nat \<Rightarrow> ('a skernel_scheme \<Rightarrow> (uint64 option \<times> 'a skernel_scheme) outcome) option" where
  "syscalls num =
     (if num = 0 \<or> num > 25 then None
      else Some ([
        \<lambda>s. ret (sys_fork s), sys_exit, \<lambda>s. ret (sys_wait s), \<lambda>s. ret (sys_pipe s), \<lambda>s. ret (sys_read s),
        \<lambda>s. ret (sys_kill s), \<lambda>s. ret (sys_exec s), \<lambda>s. ret (sys_fstat s), \<lambda>s. ret (sys_chdir s),
        \<lambda>s. ret (sys_dup s), \<lambda>s. ret (sys_getpid s),
        \<lambda>s. andthen (sys_sbrk s) (\<lambda>(v, s). Ok (Some v, s)),
        \<lambda>s. ret (sys_sleep s), \<lambda>s. ret (sys_uptime s), \<lambda>s. ret (sys_open s), \<lambda>s. ret (sys_write s),
        \<lambda>s. ret (sys_mknod s), \<lambda>s. ret (sys_unlink s), \<lambda>s. ret (sys_link s), \<lambda>s. ret (sys_mkdir s),
        \<lambda>s. ret (sys_close s), \<lambda>s. ret (sys_traceread s), \<lambda>s. ret (sys_vidclear s),
        \<lambda>s. ret (sys_vidputc s), \<lambda>s. ret (sys_vidputs s)] ! (num - 1)))"

definition syscallnames :: "string list" where
  "syscallnames = [''fork'', ''exit'', ''wait'', ''pipe'', ''read'', ''kill'', ''exec'', ''fstat'', ''chdir'',
     ''dup'', ''getpid'', ''sbrk'', ''sleep'', ''uptime'', ''open'', ''write'', ''mknod'', ''unlink'', ''link'',
     ''mkdir'', ''close'', ''traceread'', ''vidclear'', ''vidputc'', ''vidputs'']"

text \<open>The calls that are not traced: those of the dashboard itself and the three that only ask the time.\<close>

definition untraced :: "uint64 \<Rightarrow> bool" where
  "untraced num \<longleftrightarrow> num = SYS_traceread \<or> num = SYS_vidclear \<or> num = SYS_vidputc \<or>
     num = SYS_vidputs \<or> num = SYS_sleep \<or> num = SYS_getpid \<or> num = SYS_uptime"

definition set_rax :: "uint64 \<Rightarrow> nat \<Rightarrow> 'a kernel_scheme \<Rightarrow> 'a kernel_scheme" where
  "set_rax v i s = upd_proc i (\<lambda>p. p\<lparr>p_tf := (p_tf p)\<lparr>tf_rax := v\<rparr>\<rparr>) s"

text \<open>
  \<open>syscall\<close>, with the trap frame of the current process. \<open>True\<close> is a return to user space, \<open>False\<close> a
  process that has exited.
\<close>

definition killed_check :: "'a skernel_scheme \<Rightarrow> (bool \<times> 'a skernel_scheme) outcome" where
  "killed_check s =
     with_proc s (\<lambda>_ p. if p_killed p then andthen (exit s) (\<lambda>s. Ok (False, s)) else Ok (True, s))"

definition syscall :: "trapframe \<Rightarrow> 'a skernel_scheme \<Rightarrow> (bool \<times> 'a skernel_scheme) outcome" where
  "syscall tf s =
     with_proc s (\<lambda>i p.
     let s = upd_proc i (\<lambda>p. p\<lparr>p_tf := tf\<rparr>) s; num = tf_rax tf in
     case (if num > 0 \<and> num < 26 then syscalls (unat num) else None) of
       Some f \<Rightarrow>
         let start_ticks = k_ticks s in
         andthen (f s) (\<lambda>(r, s).
         case r of
           None \<Rightarrow> Ok (False, s)
         | Some v \<Rightarrow>
             let s = set_rax v i s; latency = k_ticks s - start_ticks in
             andthen
               (if untraced num then Ok s
                else traceevent TRACE_TYPE_SYSCALL (p_pid p) (ucast num) (ucast v) latency
                  (Some (lit (syscallnames ! (unat num - 1)))) s)
               killed_check)
     | None \<Rightarrow>
         andthen (cputs (''%d %s: unknown sys call %d'' @ [CHR 0x0A])
           [Arg_d (p_pid p), Arg_s (Some (p_name p)), Arg_d (ucast num)] s) (\<lambda>s.
         killed_check (set_rax (- 1) i s)))"

section \<open>Traps\<close>

text \<open>
  The devices of an interrupt: what the keyboard and the serial line have to read, with the shift state
  of the keyboard driver.
\<close>

record devices =
  dv_kbd :: "(uchar \<times> uchar) list"
  dv_shift :: uint
  dv_uart :: "(uchar \<times> uchar) list"

datatype after = Return | Exited | Yielded

text \<open>The timer interrupt counts on the first processor only.\<close>

definition timer :: "'a skernel_scheme \<Rightarrow> 'a skernel_scheme outcome" where
  "timer s =
     (if cpu_id (k_cpu s) = 0 then
        andthen (acquire_ticks s) (\<lambda>s.
        andthen (wakeup TicksChan (s\<lparr>k_ticks := k_ticks s + 1\<rparr>)) release_ticks)
      else Ok s)"

text \<open>
  The switch of \<open>trap\<close>. Acknowledging the interrupt controller and the disk's interrupt, which the
  memory disk does not use, have no effect on the state. The arguments of the message about a misbehaving
  process are 64-bit where the format reads 32 bits; what it prints for them is the low half.
\<close>

definition trap_switch :: "trapframe \<Rightarrow> addr_t \<Rightarrow> devices \<Rightarrow> 'a skernel_scheme \<Rightarrow> (devices \<times> 'a skernel_scheme) outcome" where
  "trap_switch tf cr2 dv s =
     (let no = tf_trapno tf in
      if no = T_IRQ0 + IRQ_TIMER then andthen (timer s) (\<lambda>s. Ok (dv, s))
      else if no = T_IRQ0 + IRQ_IDE \<or> no = T_IRQ0 + IRQ_IDE + 1 then Ok (dv, s)
      else if no = T_IRQ0 + IRQ_KBD then
        andthen (kbdintr (dv_kbd dv) (dv_shift dv) s) (\<lambda>(sh, s). Ok (dv\<lparr>dv_kbd := [], dv_shift := sh\<rparr>, s))
      else if no = T_IRQ0 + IRQ_COM1 then andthen (uartintr (dv_uart dv) s) (\<lambda>s. Ok (dv\<lparr>dv_uart := []\<rparr>, s))
      else if no = T_IRQ0 + 7 \<or> no = T_IRQ0 + IRQ_SPURIOUS then
        andthen (cputs (''cpu%d: spurious interrupt at %p:%p'' @ [CHR 0x0A])
          [Arg_d (of_nat (cpu_id (k_cpu s))), Arg_p (tf_cs tf), Arg_p (tf_rip tf)] s) (\<lambda>s. Ok (dv, s))
      else if k_proc s = None \<or> tf_cs tf AND 3 = 0 then Panic ''trap''
      else
        with_proc s (\<lambda>i p.
        andthen (cputs (''pid %d %s: trap %d err %d on cpu %d rip 0x%p addr 0x%p--kill proc'' @ [CHR 0x0A])
          [Arg_d (p_pid p), Arg_s (Some (p_name p)), Arg_d (ucast no), Arg_d (ucast (tf_err tf)),
           Arg_d (of_nat (cpu_id (k_cpu s))), Arg_p (tf_rip tf), Arg_p cr2] s) (\<lambda>s.
        andthen (traceevent TRACE_TYPE_TRAP (p_pid p) (ucast no) (ucast (tf_err tf)) 0
          (Some (lit (if no = T_PGFLT then ''pagefault'' else if no = T_ILLOP then ''illegalop'' else ''usertrap''))) s) (\<lambda>s.
        Ok (dv, upd_proc i (\<lambda>p. p\<lparr>p_killed := True\<rparr>) s)))))"

definition killed_user :: "trapframe \<Rightarrow> 'a kernel_scheme \<Rightarrow> bool" where
  "killed_user tf s \<longleftrightarrow>
     (case k_proc s of None \<Rightarrow> False | Some i \<Rightarrow> p_killed (k_procs s ! i)) \<and> tf_cs tf AND 3 = 3"

text \<open>
  \<open>trap\<close> up to its end or up to the point where the process gives up the processor; after \<open>yield\<close>
  returns, the process is tested for having been killed once more (\<open>trap_resume\<close>).
\<close>

definition trap_resume :: "trapframe \<Rightarrow> 'a skernel_scheme \<Rightarrow> (after \<times> 'a skernel_scheme) outcome" where
  "trap_resume tf s = (if killed_user tf s then andthen (exit s) (\<lambda>s. Ok (Exited, s)) else Ok (Return, s))"

definition trap :: "trapframe \<Rightarrow> addr_t \<Rightarrow> devices \<Rightarrow> 'a skernel_scheme \<Rightarrow> (after \<times> devices \<times> 'a skernel_scheme) outcome" where
  "trap tf cr2 dv s =
     andthen (trap_switch tf cr2 dv s) (\<lambda>(dv, s).
     if killed_user tf s then andthen (exit s) (\<lambda>s. Ok (Exited, dv, s))
     else if (case k_proc s of None \<Rightarrow> False | Some i \<Rightarrow> p_state (k_procs s ! i) = RUNNING) \<and> tf_trapno tf = T_IRQ0 + IRQ_TIMER
     then andthen (yield_out s) (\<lambda>s. Ok (Yielded, dv, s))
     else andthen (trap_resume tf s) (\<lambda>(a, s). Ok (a, dv, s)))"

end
