(* ===== verification/Scheduler.thy ===== *)
theory Scheduler
  imports Vm
begin

text \<open>
  The loop of \<open>scheduler\<close> in \<^verbatim>\<open>proc.c\<close>, one round of the process table at a time.
\<close>

section \<open>scheduler\<close>

text \<open>
  What a process does between the two switches is not the scheduler's code: it is the argument \<open>run\<close>,
  which gets the state with \<open>ptable.lock\<close> held and the process running, and gives it back in the same
  way. \<open>skipped\<close> counts, as an \<open>int\<close>, the slots passed over since the last process ran; after a round it
  decides about the \<open>hlt\<close> (the second component of the result).
\<close>

type_synonym 'a running = "nat \<Rightarrow> 'a vkernel_scheme \<Rightarrow> 'a vkernel_scheme outcome"

primrec scheduler_loop ::
  "'a running \<Rightarrow> nat list \<Rightarrow> cint \<Rightarrow> 'a vkernel_scheme \<Rightarrow> (cint \<times> 'a vkernel_scheme) outcome" where
  "scheduler_loop run [] skipped s = Ok (skipped, s)"
| "scheduler_loop run (i # is) skipped s =
     (if p_state (k_procs s ! i) \<noteq> RUNNABLE then scheduler_loop run is (skipped + 1) s
      else andthen (switchuvm (k_procs s ! i) (s\<lparr>k_proc := Some i\<rparr>)) (\<lambda>s.
        andthen (run i (upd_proc i (\<lambda>p. p\<lparr>p_state := RUNNING\<rparr>) s)) (\<lambda>s.
        scheduler_loop run is 0 ((switchkvm s)\<lparr>k_proc := None\<rparr>))))"

definition scheduler_round ::
  "'a running \<Rightarrow> cint \<Rightarrow> 'a vkernel_scheme \<Rightarrow> (cint \<times> bool \<times> 'a vkernel_scheme) outcome" where
  "scheduler_round run skipped s =
     andthen (acquire_pt (s\<lparr>k_cpu := (k_cpu s)\<lparr>cpu_if := True\<rparr>\<rparr>)) (\<lambda>s.
     andthen (scheduler_loop run [0..<NPROC] skipped s) (\<lambda>(skipped, s).
     andthen (release_pt s) (\<lambda>s.
       if sint skipped > int NPROC then Ok (0, True, s) else Ok (skipped, False, s))))"

section \<open>What a round does\<close>

text \<open>
  The table as the scheduler needs it: its lock is held by this processor, as the tests of \<open>sched\<close> ask
  for, and a ready process has a page table.
\<close>

definition table_held :: "'a kernel_scheme \<Rightarrow> bool" where
  "table_held t \<longleftrightarrow>
     holding (k_cpu t) (k_ptlock t) \<and> cpu_ncli (k_cpu t) = 1 \<and> \<not> cpu_if (k_cpu t) \<and>
     length (k_procs t) = NPROC \<and> (\<forall>p \<in> set (k_procs t). p_state p = RUNNABLE \<longrightarrow> p_pgdir p \<noteq> 0)"

text \<open>The state in which process \<open>i\<close> gets the processor, and the one the scheduler makes of what it leaves.\<close>

definition ready :: "nat \<Rightarrow> 'a kernel_scheme \<Rightarrow> bool" where
  "ready i t \<longleftrightarrow> p_state (k_procs t ! i) = RUNNABLE"

definition dispatched :: "nat \<Rightarrow> 'a vkernel_scheme \<Rightarrow> 'a vkernel_scheme" where
  "dispatched i t = t\<lparr>k_proc := Some i, k_procs := (k_procs t)[i := (k_procs t ! i)\<lparr>p_state := RUNNING\<rparr>],
     k_cr3 := V2P (p_pgdir (k_procs t ! i))\<rparr>"

definition undispatched :: "'a vkernel_scheme \<Rightarrow> 'a vkernel_scheme" where
  "undispatched u = u\<lparr>k_proc := None, k_cr3 := V2P (k_kpml4 u)\<rparr>"

text \<open>
  What the scheduler relies on of a process that was switched to in its own address space: it gives
  back the table's lock as \<open>sched\<close> demands. \<open>lg\<close> reads off any state the processes that ran so far.
\<close>

definition good_run :: "'a running \<Rightarrow> ('a \<Rightarrow> nat list) \<Rightarrow> bool" where
  "good_run run lg \<longleftrightarrow>
     (\<forall>i t. i < NPROC \<and> table_held t \<and> k_proc t = Some i \<and> p_state (k_procs t ! i) = RUNNING \<and>
        p_pgdir (k_procs t ! i) \<noteq> 0 \<and> k_cr3 t = V2P (p_pgdir (k_procs t ! i)) \<longrightarrow>
        (\<exists>u. run i t = Ok u \<and> table_held u \<and> lg (vkernel.more u) = lg (vkernel.more t) @ [i]))"

lemma good_runD:
  "good_run run lg \<Longrightarrow> i < NPROC \<Longrightarrow> table_held t \<Longrightarrow> k_proc t = Some i \<Longrightarrow>
   p_state (k_procs t ! i) = RUNNING \<Longrightarrow> p_pgdir (k_procs t ! i) \<noteq> 0 \<Longrightarrow> k_cr3 t = V2P (p_pgdir (k_procs t ! i)) \<Longrightarrow>
   \<exists>u. run i t = Ok u \<and> table_held u \<and> lg (vkernel.more u) = lg (vkernel.more t) @ [i]"
  unfolding good_run_def by blast

text \<open>The turn of slot \<open>i\<close>: a ready process runs, any other slot is passed over.\<close>

definition turn :: "'a running \<Rightarrow> nat \<Rightarrow> 'a vkernel_scheme \<Rightarrow> 'a vkernel_scheme \<Rightarrow> bool" where
  "turn run i t t' \<longleftrightarrow>
     (if ready i t then \<exists>u. run i (dispatched i t) = Ok u \<and> t' = undispatched u else t' = t)"

lemma table_held_dispatched:
  assumes "table_held t" and "i < NPROC"
  shows "table_held (dispatched i t)"
  using assms unfolding table_held_def dispatched_def
  by (auto dest!: set_update_subset_insert [THEN subsetD])

lemma dispatched_fields [simp]:
  "k_proc (dispatched i t) = Some i" "vkernel.more (dispatched i t) = vkernel.more t"
  "k_cr3 (dispatched i t) = V2P (p_pgdir (k_procs t ! i))"
  "i < length (k_procs t) \<Longrightarrow> k_procs (dispatched i t) ! i = (k_procs t ! i)\<lparr>p_state := RUNNING\<rparr>"
  by (simp_all add: dispatched_def)

lemma undispatched_fields [simp]:
  "table_held (undispatched u) = table_held u" "vkernel.more (undispatched u) = vkernel.more u"
  by (simp_all add: table_held_def undispatched_def)

lemma switchuvm_held:
  assumes "table_held t" and "p_pgdir p \<noteq> 0"
  shows "switchuvm p t = Ok (t\<lparr>k_cr3 := V2P (p_pgdir p)\<rparr>)"
proof -
  have "cpu_nested (k_cpu t)" using assms(1) by (simp add: table_held_def cpu_nested_def)
  then show ?thesis using assms(2) by (simp add: switchuvm_def popcli_pushcli Let_def)
qed

lemma held_ready: "table_held t \<Longrightarrow> i < NPROC \<Longrightarrow> ready i t \<Longrightarrow> p_pgdir (k_procs t ! i) \<noteq> 0"
  by (auto simp: table_held_def ready_def)

text \<open>One slot.\<close>

lemma run_ready:
  assumes "good_run run lg" and "table_held t" and "i < NPROC" and "ready i t"
  obtains u where "run i (dispatched i t) = Ok u" "table_held u"
    "lg (vkernel.more u) = lg (vkernel.more t) @ [i]"
    "scheduler_loop run (i # is) sk t = scheduler_loop run is 0 (undispatched u)"
proof -
  have len: "length (k_procs t) = NPROC" using assms(2) by (simp add: table_held_def)
  have "\<exists>u. run i (dispatched i t) = Ok u \<and> table_held u \<and>
      lg (vkernel.more u) = lg (vkernel.more (dispatched i t)) @ [i]"
    using table_held_dispatched [OF assms(2,3)] held_ready [OF assms(2-4)] assms(3) len
    by (intro good_runD [OF assms(1)]) simp_all
  then obtain u where u: "run i (dispatched i t) = Ok u" "table_held u"
    "lg (vkernel.more u) = lg (vkernel.more t) @ [i]" by auto
  have "table_held (t\<lparr>k_proc := Some i\<rparr>)" using assms(2) by (simp add: table_held_def)
  then have "switchuvm (k_procs t ! i) (t\<lparr>k_proc := Some i\<rparr>) =
      Ok (t\<lparr>k_proc := Some i, k_cr3 := V2P (p_pgdir (k_procs t ! i))\<rparr>)"
    using switchuvm_held held_ready [OF assms(2-4)] by blast
  moreover have "upd_proc i (\<lambda>p. p\<lparr>p_state := RUNNING\<rparr>)
      (t\<lparr>k_proc := Some i, k_cr3 := V2P (p_pgdir (k_procs t ! i))\<rparr>) = dispatched i t"
    by (simp add: upd_proc_def dispatched_def)
  moreover have "(switchkvm u)\<lparr>k_proc := None\<rparr> = undispatched u"
    by (simp add: switchkvm_def undispatched_def)
  ultimately have "scheduler_loop run (i # is) sk t = scheduler_loop run is 0 (undispatched u)"
    using assms(4) u(1) by (simp add: ready_def)
  then show thesis using that u by blast
qed

text \<open>The slots that are ready at their turn, by the states \<open>ts\<close> of the table at each turn.\<close>

definition ran_slots :: "(nat \<Rightarrow> 'a vkernel_scheme) \<Rightarrow> nat \<Rightarrow> nat \<Rightarrow> nat list" where
  "ran_slots ts a b = filter (\<lambda>i. ready i (ts i)) [a..<b]"

text \<open>The count of slots passed over, after the turns up to \<open>b\<close>.\<close>

definition skips :: "nat list \<Rightarrow> cint \<Rightarrow> nat \<Rightarrow> nat \<Rightarrow> int" where
  "skips rs sk a b = (if rs = [] then sint sk + int (b - a) else int (b - 1 - last rs))"

lemma scheduler_loop_turns:
  assumes "good_run run lg" and "table_held t" and "a \<le> b" and "b \<le> NPROC"
    and "0 \<le> sint sk" and "sint sk + int (b - a) < 2 ^ 31"
  shows "\<exists>ts sk'. ts a = t \<and> scheduler_loop run [a..<b] sk t = Ok (sk', ts b) \<and>
    (\<forall>i \<in> {a..<b}. turn run i (ts i) (ts (Suc i))) \<and> table_held (ts b) \<and>
    lg (vkernel.more (ts b)) = lg (vkernel.more t) @ ran_slots ts a b \<and>
    sint sk' = skips (ran_slots ts a b) sk a b"
  using assms(3,2,5,6)
proof (induction arbitrary: t sk rule: inc_induct)
  case base
  then show ?case by (intro exI [of _ "\<lambda>_. t"]) (simp add: ran_slots_def skips_def)
next
  case (step a)
  have upt: "[a..<b] = a # [Suc a..<b]" using step.hyps by (simp add: upt_conv_Cons)
  show ?case
  proof (cases "ready a t")
    case True
    have "a < NPROC" using step.hyps assms(4) by simp
    from run_ready [OF assms(1) step.prems(1) this True, of "[Suc a..<b]" sk]
    obtain u where u: "run a (dispatched a t) = Ok u" "table_held u"
      "lg (vkernel.more u) = lg (vkernel.more t) @ [a]"
      "scheduler_loop run [a..<b] sk t = scheduler_loop run [Suc a..<b] 0 (undispatched u)"
      unfolding upt by blast
    have IH: "table_held (undispatched u)" "0 \<le> sint (0 :: cint)" "sint (0 :: cint) + int (b - Suc a) < 2 ^ 31"
      using assms(4) u(2) by simp_all
    from step.IH [OF IH] obtain ts sk' where ts: "ts (Suc a) = undispatched u"
      "scheduler_loop run [Suc a..<b] 0 (undispatched u) = Ok (sk', ts b)"
      "\<forall>i \<in> {Suc a..<b}. turn run i (ts i) (ts (Suc i))" "table_held (ts b)"
      "lg (vkernel.more (ts b)) = lg (vkernel.more u) @ ran_slots ts (Suc a) b"
      "sint sk' = skips (ran_slots ts (Suc a) b) 0 (Suc a) b"
      by auto
    define us where "us = ts(a := t)"
    have us: "us a = t" "us b = ts b" using step.hyps by (simp_all add: us_def)
    have "turn run i (us i) (us (Suc i))" if "i \<in> {a..<b}" for i
      using that ts(1,3) u(1) True by (cases "i = a") (auto simp: turn_def us_def)
    moreover have r: "ran_slots us a b = a # ran_slots ts (Suc a) b"
      using True by (auto simp: ran_slots_def upt us_def intro!: filter_cong)
    moreover have "skips (a # ran_slots ts (Suc a) b) sk a b = skips (ran_slots ts (Suc a) b) 0 (Suc a) b"
      by (simp add: skips_def)
    ultimately show ?thesis
      using ts u(3,4) us by (intro exI [of _ us] exI [of _ sk']) simp
  next
    case False
    have sk: "sint (sk + 1) = sint sk + 1" using step.prems(3) step.hyps by (intro sint_inc) simp
    then have IH: "0 \<le> sint (sk + 1)" "sint (sk + 1) + int (b - Suc a) < 2 ^ 31"
      using step.prems step.hyps by simp_all
    from step.IH [OF step.prems(1) IH] obtain ts sk' where ts: "ts (Suc a) = t"
      "scheduler_loop run [Suc a..<b] (sk + 1) t = Ok (sk', ts b)"
      "\<forall>i \<in> {Suc a..<b}. turn run i (ts i) (ts (Suc i))" "table_held (ts b)"
      "lg (vkernel.more (ts b)) = lg (vkernel.more t) @ ran_slots ts (Suc a) b"
      "sint sk' = skips (ran_slots ts (Suc a) b) (sk + 1) (Suc a) b"
      by auto
    define us where "us = ts(a := t)"
    have us: "us a = t" "us b = ts b" using step.hyps by (simp_all add: us_def)
    have "turn run i (us i) (us (Suc i))" if "i \<in> {a..<b}" for i
      using that ts(1,3) False by (cases "i = a") (auto simp: turn_def us_def)
    moreover have r: "ran_slots us a b = ran_slots ts (Suc a) b"
      using False by (auto simp: ran_slots_def upt us_def intro!: filter_cong)
    moreover have "skips (ran_slots ts (Suc a) b) sk a b = skips (ran_slots ts (Suc a) b) (sk + 1) (Suc a) b"
      using step.hyps sk by (simp add: skips_def)
    moreover have "scheduler_loop run [a..<b] sk t = Ok (sk', ts b)"
      using ts(2) False by (simp add: upt ready_def)
    ultimately show ?thesis
      using ts us by (intro exI [of _ us] exI [of _ sk']) simp
  qed
qed

text \<open>A process that is ready at the start and not at its turn lost that while another one ran.\<close>

lemma ready_lost:
  assumes "\<forall>j < i. turn run j (ts j) (ts (Suc j))" and "ready i (ts 0)" and "\<not> ready i (ts i)"
  shows "\<exists>j < i. ready j (ts j) \<and> ready i (ts j) \<and> \<not> ready i (ts (Suc j))"
proof -
  have "\<exists>j < i. ready i (ts j) \<and> \<not> ready i (ts (Suc j))"
  proof (rule ccontr)
    assume "\<not> ?thesis"
    then have "j \<le> i \<Longrightarrow> ready i (ts j)" for j using assms(2) by (induction j) auto
    then show False using assms(3) by blast
  qed
  then show ?thesis using assms(1) unfolding turn_def by metis
qed

lemma release_held:
  assumes "table_held t"
  shows "release_pt t = Ok (t\<lparr>k_cpu := (k_cpu t)\<lparr>cpu_ncli := 0, cpu_if := cpu_intena (k_cpu t)\<rparr>, k_ptlock := initlock\<rparr>)"
proof -
  let ?c = "(k_cpu t)\<lparr>cpu_ncli := 0, cpu_if := cpu_intena (k_cpu t)\<rparr>"
  have "cpu_nested ?c" by (simp add: cpu_nested_def)
  moreover have "k_cpu t = pushcli ?c"
    using assms by (intro cpu.equality) (simp_all add: table_held_def pushcli_def Let_def)
  moreover have "k_ptlock t = locked_by ?c"
    using assms by (intro spinlock.equality) (simp_all add: table_held_def holding_def locked_by_def)
  ultimately show ?thesis by (rule release_pt_ok)
qed

section \<open>Properties\<close>

text \<open>C9: A round of the scheduler gives every slot of the table its turn, in table order, and the processes
  that run are exactly those that are ready when their turn comes: such a process gets the processor in
  the state \<open>RUNNING\<close>, in its own address space and with the table's lock held, any other slot is passed
  over without a change of the state (\<open>ts i\<close> is the state at the turn of slot \<open>i\<close>). Hence a process that
  is ready at the start runs in this round, unless it stopped being ready while an earlier one ran. The
  round then drops the table's lock and the nesting. The 32-bit count of slots passed over stays between
  0 and the size of the table, and the processor halts exactly when nothing ran and the count was not 0
  before.\<close>

theorem scheduler_round_exact:
  assumes "good_run run lg" and "length (k_procs s) = NPROC"
    and "\<forall>p \<in> set (k_procs s). p_state p = RUNNABLE \<longrightarrow> p_pgdir p \<noteq> 0"
    and "k_ptlock s = initlock" and "cpu_ncli (k_cpu s) = 0" and "0 \<le> sint sk" and "sint sk \<le> int NPROC"
  shows "\<exists>ts sk' halt s'. scheduler_round run sk s = Ok (sk', halt, s') \<and>
    k_procs (ts 0) = k_procs s \<and> vkernel.more (ts 0) = vkernel.more s \<and>
    (\<forall>i < NPROC. turn run i (ts i) (ts (Suc i))) \<and>
    lg (vkernel.more s') = lg (vkernel.more s) @ ran_slots ts 0 NPROC \<and>
    (\<forall>i < NPROC. ready i s \<longrightarrow> i \<in> set (ran_slots ts 0 NPROC) \<or>
      (\<exists>j \<in> set (ran_slots ts 0 NPROC). j < i \<and> ready i (ts j) \<and> \<not> ready i (ts (Suc j)))) \<and>
    k_procs s' = k_procs (ts NPROC) \<and> k_cr3 s' = k_cr3 (ts NPROC) \<and>
    k_ptlock s' = initlock \<and> cpu_ncli (k_cpu s') = 0 \<and>
    (halt \<longleftrightarrow> ran_slots ts 0 NPROC = [] \<and> sk \<noteq> 0) \<and> 0 \<le> sint sk' \<and> sint sk' \<le> int NPROC"
proof -
  define c where "c = (k_cpu s)\<lparr>cpu_if := True, cpu_intena := True\<rparr>"
  define t where "t = s\<lparr>k_cpu := pushcli c, k_ptlock := locked_by c\<rparr>"
  have "pushcli ((k_cpu s)\<lparr>cpu_if := True\<rparr>) = pushcli c"
    using assms(5) by (simp add: c_def pushcli_def)
  then have acq: "acquire_pt (s\<lparr>k_cpu := (k_cpu s)\<lparr>cpu_if := True\<rparr>\<rparr>) = Ok t"
    using assms(4) by (simp add: acquire_pt_def acquire_free t_def) (simp add: c_def locked_by_def)
  have held: "table_held t"
    using assms(2,3,5)
    by (simp add: table_held_def t_def c_def holding_def locked_by_def pushcli_ncli pushcli_if_off)
  have "sint sk + int (NPROC - 0) < 2 ^ 31" using assms(7) by simp
  then obtain ts sk' where ts: "ts 0 = t" "scheduler_loop run [0..<NPROC] sk t = Ok (sk', ts NPROC)"
    "\<forall>i \<in> {0..<NPROC}. turn run i (ts i) (ts (Suc i))" "table_held (ts NPROC)"
    "lg (vkernel.more (ts NPROC)) = lg (vkernel.more t) @ ran_slots ts 0 NPROC"
    "sint sk' = skips (ran_slots ts 0 NPROC) sk 0 NPROC"
    using scheduler_loop_turns [OF assms(1) held _ _ assms(6)] by blast
  have turns: "\<forall>i < NPROC. turn run i (ts i) (ts (Suc i))" using ts(3) by simp
  have fair: "i \<in> set (ran_slots ts 0 NPROC) \<or>
      (\<exists>j \<in> set (ran_slots ts 0 NPROC). j < i \<and> ready i (ts j) \<and> \<not> ready i (ts (Suc j)))"
    if "i < NPROC" "ready i s" for i
  proof -
    have "ready i (ts 0)" using that(2) by (simp add: ts(1) t_def ready_def)
    then show ?thesis using ready_lost [of i run ts] turns that(1) by (fastforce simp: ran_slots_def)
  qed
  have "sint sk' \<le> int NPROC - 1" "0 \<le> sint sk'" if "ran_slots ts 0 NPROC \<noteq> []"
    using that ts(6) by (auto simp: skips_def)
  moreover have "sint sk' = sint sk + int NPROC" if "ran_slots ts 0 NPROC = []"
    using that ts(6) by (simp add: skips_def)
  moreover have "sint sk = 0 \<longleftrightarrow> sk = 0" by (metis signed_0 word_eq_iff_signed)
  ultimately have halt: "sint sk' > int NPROC \<longleftrightarrow> ran_slots ts 0 NPROC = [] \<and> sk \<noteq> 0" "0 \<le> sint sk'"
    using assms(6) by (cases "ran_slots ts 0 NPROC = []"; fastforce)+
  show ?thesis
    using acq ts(2,5) release_held [OF ts(4)] turns fair halt
    by (intro exI [of _ ts] exI [of _ "if sint sk' > int NPROC then 0 else sk'"] exI [of _ "sint sk' > int NPROC"])
      (auto simp: scheduler_round_def ts(1) t_def)
qed

text \<open>Processes that give the processor back at once.\<close>

definition run_once :: "nat list running" where
  "run_once i t = Ok (upd_proc i (\<lambda>p. p\<lparr>p_state := RUNNABLE\<rparr>) (vkernel.more_update (\<lambda>l. l @ [i]) t))"

lemma good_run_once: "good_run run_once (\<lambda>l. l)"
proof -
  have "\<exists>u. run_once i t = Ok u \<and> table_held u \<and> vkernel.more u = vkernel.more t @ [i]"
    if "i < NPROC" "table_held t" "p_pgdir (k_procs t ! i) \<noteq> 0" for i and t :: "nat list vkernel_scheme"
    using that unfolding table_held_def run_once_def
    by (auto simp: upd_proc_def dest!: set_update_subset_insert [THEN subsetD])
  then show ?thesis by (auto simp: good_run_def)
qed

lemma run_once_turn:
  assumes "turn run_once j t t'" and "j < length (k_procs t)"
  shows "length (k_procs t') = length (k_procs t) \<and> (\<forall>i < length (k_procs t). ready i t' = ready i t)"
  using assms by (cases "ready j t")
    (auto simp: turn_def run_once_def undispatched_def dispatched_def upd_proc_def ready_def nth_list_update)

lemma run_once_turns:
  assumes "\<forall>j < NPROC. turn run_once j (ts j) (ts (Suc j))" and "length (k_procs (ts 0)) = NPROC" and "j \<le> NPROC"
  shows "length (k_procs (ts j)) = NPROC \<and> (\<forall>i < NPROC. ready i (ts j) = ready i (ts 0))"
  using assms(3)
proof (induction j)
  case (Suc j)
  then show ?case using assms(1) run_once_turn [of j "ts j" "ts (Suc j)"] by auto
qed (use assms(2) in simp)

theorem scheduler_round_exact_witness:
  "\<exists>sk s'. scheduler_round run_once 7
      (upd_proc 5 (\<lambda>p. p\<lparr>p_state := RUNNABLE, p_pgdir := KERNBASE + 0x1000\<rparr>) (boot_vkernel 0 [])) = Ok (sk, False, s') \<and>
    vkernel.more s' = [5] \<and> p_state (k_procs s' ! 5) = RUNNABLE"
proof -
  let ?s = "upd_proc 5 (\<lambda>p. p\<lparr>p_state := RUNNABLE, p_pgdir := KERNBASE + 0x1000\<rparr>) (boot_vkernel 0 ([] :: nat list))"
  have procs: "k_procs ?s = (replicate NPROC idle_proc)[5 := idle_proc\<lparr>p_state := RUNNABLE, p_pgdir := KERNBASE + 0x1000\<rparr>]"
    by (simp add: upd_proc_def boot_vkernel_def boot_lkernel_eq)
  have more: "vkernel.more ?s = []" by (simp add: upd_proc_def boot_vkernel_def boot_lkernel_eq)
  have hyps: "length (k_procs ?s) = NPROC" "\<forall>p \<in> set (k_procs ?s). p_state p = RUNNABLE \<longrightarrow> p_pgdir p \<noteq> 0"
    "k_ptlock ?s = initlock" "cpu_ncli (k_cpu ?s) = 0" "0 \<le> sint (7 :: cint)" "sint (7 :: cint) \<le> int NPROC"
    unfolding procs by (auto simp: boot_vkernel_def boot_lkernel_eq boot_cpu_def idle_proc_def
      dest!: set_update_subset_insert [THEN subsetD])
  obtain ts sk halt s' where r: "scheduler_round run_once 7 ?s = Ok (sk, halt, s')"
    "k_procs (ts 0) = k_procs ?s" "\<forall>i < NPROC. turn run_once i (ts i) (ts (Suc i))"
    "vkernel.more s' = vkernel.more ?s @ ran_slots ts 0 NPROC" "k_procs s' = k_procs (ts NPROC)"
    "halt \<longleftrightarrow> ran_slots ts 0 NPROC = [] \<and> (7 :: cint) \<noteq> 0"
    using scheduler_round_exact [OF good_run_once hyps] by (elim exE conjE) (rule that)
  have ready: "ready i (ts j) \<longleftrightarrow> i = 5" if "i < NPROC" "j \<le> NPROC" for i j
    using run_once_turns [of ts j] r(2,3) hyps(1) procs that
    by (auto simp: ready_def nth_list_update idle_proc_def)
  have "ran_slots ts 0 NPROC = filter (\<lambda>i. i = 5) [0..<NPROC]"
    using ready by (auto simp: ran_slots_def intro!: filter_cong)
  also have "\<dots> = [5]" by (simp add: upt_rec)
  finally show ?thesis
    using r more ready [of 5 NPROC] by (simp add: ready_def)
qed

end
