(* ===== verification/Fsdata.thy ===== *)
theory Fsdata
  imports File
begin

text \<open>
  What \<open>readi\<close> and \<open>writei\<close> of \<^verbatim>\<open>fs.c\<close> do to the contents of a file, as bytes over its direct and
  indirect blocks, within a transaction.
\<close>

section \<open>The contents of a file\<close>

text \<open>The disk block behind block \<open>k\<close> of a file, and whether there is one.\<close>

definition file_block :: "nat \<Rightarrow> 'a ikernel_scheme \<Rightarrow> nat \<Rightarrow> uint" where
  "file_block ip s k =
     (let a = i_addrs (k_inodes s ! ip) in
      if k < NDIRECT then a ! k else get32 (view s (a ! NDIRECT)) (4 * (k - NDIRECT)))"

definition has_block :: "nat \<Rightarrow> 'a ikernel_scheme \<Rightarrow> nat \<Rightarrow> bool" where
  "has_block ip s k \<longleftrightarrow> k < MAXFILE \<and> file_block ip s k \<noteq> 0 \<and> unat (file_block ip s k) < length (k_disk s) \<and>
     (NDIRECT \<le> k \<longrightarrow> i_addrs (k_inodes s ! ip) ! NDIRECT \<noteq> 0 \<and>
        unat (i_addrs (k_inodes s ! ip) ! NDIRECT) < length (k_disk s))"

definition file_byte :: "nat \<Rightarrow> 'a ikernel_scheme \<Rightarrow> nat \<Rightarrow> uchar" where
  "file_byte ip s i = view s (file_block ip s (i div BSIZE)) ! (i mod BSIZE)"

definition file_bytes :: "nat \<Rightarrow> 'a ikernel_scheme \<Rightarrow> nat \<Rightarrow> nat \<Rightarrow> uchar list" where
  "file_bytes ip s off n = map (file_byte ip s) [off..<off + n]"

text \<open>Blocks for a range of bytes.\<close>

definition has_range :: "nat \<Rightarrow> 'a ikernel_scheme \<Rightarrow> nat \<Rightarrow> nat \<Rightarrow> bool" where
  "has_range ip s off n \<longleftrightarrow> (\<forall>i \<in> {off..<off + n}. has_block ip s (i div BSIZE))"

text \<open>A step that only moves buffers.\<close>

definition same_blocks :: "'a ikernel_scheme \<Rightarrow> 'a ikernel_scheme \<Rightarrow> bool" where
  "same_blocks s t \<longleftrightarrow> tx {} t \<and> view t = view s \<and> pinned t = pinned s \<and> tx_frame s t"

lemma same_blocks_refl: "tx {} s \<Longrightarrow> same_blocks s s"
  by (simp add: same_blocks_def)

lemma same_blocks_trans: "same_blocks s t \<Longrightarrow> same_blocks t u \<Longrightarrow> same_blocks s u"
  using tx_frame_trans by (auto simp: same_blocks_def)

lemma same_blocksD:
  assumes "same_blocks s t"
  shows "tx {} t" "view t = view s" "pinned t = pinned s" "tx_frame s t" "k_disk t = k_disk s" "k_inodes t = k_inodes s"
  using assms tx_frame_fields(4) tx_frame_inode(1) by (auto simp: same_blocks_def)

lemma same_file:
  assumes "tx_frame s t" and "view t = view s"
  shows "file_block ip t = file_block ip s" "has_block ip t = has_block ip s" "file_byte ip t = file_byte ip s"
    "has_range ip t = has_range ip s" "file_bytes ip t = file_bytes ip s"
proof -
  show b: "file_block ip t = file_block ip s"
    by (rule ext) (simp add: file_block_def Let_def tx_frame_inode(1) [OF assms(1)] assms(2))
  show h: "has_block ip t = has_block ip s"
    by (rule ext) (simp add: has_block_def b tx_frame_inode(1) [OF assms(1)] tx_frame_fields(4) [OF assms(1)])
  show y: "file_byte ip t = file_byte ip s" by (rule ext) (simp add: file_byte_def b assms(2))
  show "has_range ip t = has_range ip s" by (intro ext) (simp add: has_range_def h)
  show "file_bytes ip t = file_bytes ip s" by (intro ext) (simp add: file_bytes_def y)
qed

lemma bmap_found:
  assumes "tx {} s" and "i_dev (k_inodes s ! ip) = 1" and "has_block ip s (unat bn)" and "card (pinned s) < NBUF"
  shows "\<exists>t. bmap ip bn s = Ok (file_block ip s (unat bn), t) \<and> same_blocks s t"
proof (cases "unat bn < NDIRECT")
  case True
  then have "bn < 12" by (simp add: word_less_nat_alt)
  then show ?thesis
    using assms(1,3) True by (simp add: bmap_def Let_def file_block_def has_block_def same_blocks_refl)
next
  case False
  let ?a = "i_addrs (k_inodes s ! ip) ! NDIRECT"
  have h: "?a \<noteq> 0" "unat ?a < length (k_disk s)" "unat bn < MAXFILE" "file_block ip s (unat bn) \<noteq> 0"
    using assms(3) False by (simp_all add: has_block_def)
  have bn: "\<not> bn < 12" using False by (simp add: word_less_nat_alt)
  then have k: "unat (bn - 12) = unat bn - 12" by (simp add: unat_sub word_le_nat_alt word_less_nat_alt)
  then have small: "bn - 12 < 128" using h(3) False by (simp add: word_less_nat_alt)
  obtain i r u where r: "bread 1 ?a s = Ok (i, r)" "bdata i r = view s ?a" "brelse i r = Ok u" "tx {} u"
      "view u = view s" "pinned u = pinned s" "tx_frame s u"
    using tx_peek [OF assms(1) h(2)] assms(4) by auto
  have "file_block ip s (unat bn) = get32 (bdata i r) (4 * unat (bn - 12))"
    using False k r(2) by (simp add: file_block_def Let_def)
  then have "bmap ip bn s = Ok (file_block ip s (unat bn), u)"
    using bn small h(1,4) assms(2) r(1,3) by (simp add: bmap_def Let_def)
  then show ?thesis using r by (auto simp: same_blocks_def)
qed

lemma within_block:
  assumes "off mod BSIZE + j < BSIZE"
  shows "(off + j) div BSIZE = off div BSIZE" "(off + j) mod BSIZE = off mod BSIZE + j"
proof -
  have "off + j = BSIZE * (off div BSIZE) + (off mod BSIZE + j)" by simp
  then show "(off + j) div BSIZE = off div BSIZE" "(off + j) mod BSIZE = off mod BSIZE + j"
    using assms by (metis add.right_neutral div_less div_mult_self4 zero_neq_numeral, metis mod_less mod_mult_self4)
qed

lemma file_bytes_block:
  assumes "o0 = off mod BSIZE" and "o0 + m \<le> BSIZE" and "length (view s (file_block ip s (off div BSIZE))) = BSIZE"
  shows "file_bytes ip s off m = take m (drop o0 (view s (file_block ip s (off div BSIZE))))"
proof (rule nth_equalityI)
  fix i assume "i < length (file_bytes ip s off m)"
  then have i: "i < m" by (simp add: file_bytes_def)
  have "off mod BSIZE + i < BSIZE" using i assms(1,2) by simp
  from within_block [OF this]
  show "file_bytes ip s off m ! i = take m (drop o0 (view s (file_block ip s (off div BSIZE)))) ! i"
    using i assms by (simp add: file_bytes_def file_byte_def)
qed (use assms in \<open>simp add: file_bytes_def\<close>)

lemma file_bytes_append: "file_bytes ip s off (m + n) = file_bytes ip s off m @ file_bytes ip s (off + m) n"
  using upt_add_eq_append [of off "off + m" n] by (simp add: file_bytes_def add.assoc)

lemma readi_loop_ok:
  assumes "tx {} s" and "i_dev (k_inodes s ! ip) = 1" and "has_range ip s (unat off) left" and "card (pinned s) < NBUF"
    and "unat off + left < 2 ^ 32"
  shows "\<exists>t. readi_loop ip off left s = Ok (file_bytes ip s (unat off) left, t) \<and> same_blocks s t"
  using assms
proof (induction left arbitrary: off s rule: less_induct)
  case (less left)
  show ?case
  proof (cases "left = 0")
    case True
    then show ?thesis using same_blocks_refl [OF less.prems(1)] by (subst readi_loop.simps) (simp add: file_bytes_def)
  next
    case False
    define o0 m where "o0 = unat off mod BSIZE" and "m = min left (BSIZE - o0)"
    have m: "0 < m" "m \<le> left" "o0 + m \<le> BSIZE" using False by (auto simp: m_def o0_def min_def)
    have k: "unat (off div 512) = unat off div BSIZE" by (simp add: unat_div)
    have hb: "has_block ip s (unat (off div 512))" using less.prems(3) False unfolding k by (simp add: has_range_def)
    let ?b = "file_block ip s (unat (off div 512))"
    obtain r where r: "bmap ip (off div 512) s = Ok (?b, r)" "same_blocks s r"
      using bmap_found [OF less.prems(1,2) hb less.prems(4)] by blast
    note fr = same_blocksD [OF r(2)]
    have disk: "unat ?b < length (k_disk r)" using hb fr(5) by (simp add: has_block_def)
    obtain i u v where u: "bread 1 ?b r = Ok (i, u)" "bdata i u = view r ?b" "brelse i u = Ok v" "tx {} v"
        "view v = view r" "pinned v = pinned r" "tx_frame r v"
      using tx_peek [OF fr(1) disk] less.prems(4) fr(3) by auto
    have sv: "same_blocks s v" using r(2) u by (intro same_blocks_trans [OF r(2)]) (simp add: same_blocks_def)
    note svd = same_blocksD [OF sv]
    note sf = same_file [OF svd(4,2), of ip]
    have off: "unat (off + of_nat m) = unat off + m"
      using less.prems(5) m(2) by (simp add: unat_add_less unat_of_nat_small)
    have "has_range ip v (unat off + m) (left - m)"
      using less.prems(3) m(2) unfolding sf(4) by (auto simp: has_range_def)
    then obtain t where t: "readi_loop ip (off + of_nat m) (left - m) v = Ok (file_bytes ip v (unat off + m) (left - m), t)"
        "same_blocks v t"
      using less.IH [of "left - m" v "off + of_nat m"] m svd(1,3,6) less.prems(2,4,5) unfolding off by auto
    have len: "length (view s ?b) = BSIZE"
      using view_length [OF txD(1) [OF less.prems(1)]] hb by (simp add: has_block_def)
    have "file_bytes ip s (unat off) left = file_bytes ip s (unat off) m @ file_bytes ip s (unat off + m) (left - m)"
      using file_bytes_append [of ip s "unat off" m "left - m"] m(2) by simp
    also have "file_bytes ip s (unat off) m = take m (drop o0 (bdata i u))"
      using file_bytes_block [OF o0_def m(3), of s ip] len u(2) fr(2) k by simp
    finally have bytes: "file_bytes ip s (unat off) left = take m (drop o0 (bdata i u)) @ file_bytes ip v (unat off + m) (left - m)"
      unfolding sf(5) .
    have "readi_loop ip off left s = Ok (file_bytes ip s (unat off) left, t)"
      unfolding bytes using False r(1) u(1,3) t(1) fr(6) less.prems(2)
      by (subst readi_loop.simps) (simp add: Let_def flip: m_def o0_def)
    then show ?thesis using same_blocks_trans [OF sv t(2)] by blast
  qed
qed

section \<open>Writing\<close>

text \<open>
  The blocks of a file are apart from each other, from its indirect block and from the log. The number
  of blocks that a range of bytes touches.
\<close>

definition blocks_apart :: "nat \<Rightarrow> 'a ikernel_scheme \<Rightarrow> bool" where
  "blocks_apart ip s \<longleftrightarrow> (\<forall>k < MAXFILE. has_block ip s k \<longrightarrow>
     file_block ip s k \<noteq> i_addrs (k_inodes s ! ip) ! NDIRECT \<and> \<not> in_log (k_log s) (file_block ip s k) \<and>
     (\<forall>j < MAXFILE. has_block ip s j \<longrightarrow> j \<noteq> k \<longrightarrow> file_block ip s j \<noteq> file_block ip s k))"

definition nblocks :: "nat \<Rightarrow> nat \<Rightarrow> nat" where
  "nblocks off n = (if n = 0 then 0 else Suc ((off + n - 1) div BSIZE - off div BSIZE))"

lemma nblocks_step:
  assumes "0 < left" and "m = min left (BSIZE - off mod BSIZE)"
  shows "nblocks off left = Suc (nblocks (off + m) (left - m))"
proof (cases "left \<le> BSIZE - off mod BSIZE")
  case True
  then have "(off + left - 1) div BSIZE = off div BSIZE"
    using within_block(1) [of off "left - 1"] assms(1) by simp
  then show ?thesis using True assms by (simp add: nblocks_def)
next
  case False
  then have m: "m = BSIZE - off mod BSIZE" "m < left" using assms(2) by auto
  have "off = BSIZE * (off div BSIZE) + off mod BSIZE" "off mod BSIZE < BSIZE" by simp_all
  then have "off + m = BSIZE * Suc (off div BSIZE)" unfolding m(1) mult_Suc_right by linarith
  then have d: "(off + m) div BSIZE = Suc (off div BSIZE)" by simp
  have "(off + m) div BSIZE \<le> (off + left - 1) div BSIZE" using m(2) by (intro div_le_mono) simp
  then show ?thesis using m(2) d assms(1) by (simp add: nblocks_def Suc_diff_Suc less_eq_Suc_le)
qed

text \<open>A write to block \<open>k\<close> of the file.\<close>

definition patched :: "nat \<Rightarrow> uchar list \<Rightarrow> uchar list \<Rightarrow> uchar list" where
  "patched o0 xs d = take o0 d @ xs @ drop (o0 + length xs) d"

lemma patched_nth:
  assumes "o0 + length xs \<le> length d" and "i < length d"
  shows "patched o0 xs d ! i = (if o0 \<le> i \<and> i < o0 + length xs then xs ! (i - o0) else d ! i)"
  using assms by (auto simp: patched_def nth_append)

lemma length_patched [simp]: "o0 + length xs \<le> length d \<Longrightarrow> length (patched o0 xs d) = length d"
  by (simp add: patched_def)

definition wrote :: "nat \<Rightarrow> 'a ikernel_scheme \<Rightarrow> nat \<Rightarrow> uchar list \<Rightarrow> 'a ikernel_scheme \<Rightarrow> bool" where
  "wrote ip s off ws t \<longleftrightarrow> tx {} t \<and> tx_frame s t \<and> file_block ip t = file_block ip s \<and>
     (\<forall>i. has_block ip s (i div BSIZE) \<longrightarrow> file_byte ip t i =
        (if off \<le> i \<and> i < off + length ws then ws ! (i - off) else file_byte ip s i)) \<and>
     (\<forall>b. b \<notin> file_block ip s ` {k. k < MAXFILE \<and> has_block ip s k} \<longrightarrow> view t b = view s b)"

lemma wrote_file:
  assumes "wrote ip s off ws t"
  shows "has_block ip t = has_block ip s" "has_range ip t = has_range ip s" "blocks_apart ip t = blocks_apart ip s"
proof -
  have w: "tx_frame s t" "file_block ip t = file_block ip s" using assms by (simp_all add: wrote_def)
  show h: "has_block ip t = has_block ip s"
    by (rule ext) (simp add: has_block_def w(2) tx_frame_inode(1) [OF w(1)] tx_frame_fields(4) [OF w(1)])
  show "has_range ip t = has_range ip s" by (intro ext) (simp add: has_range_def h)
  show "blocks_apart ip t = blocks_apart ip s"
    by (simp add: blocks_apart_def h w(2) tx_frame_inode(1) [OF w(1)] in_log_frame [OF w(1)])
qed

lemma wrote_trans:
  assumes "wrote ip s off xs t" and "wrote ip t (off + length xs) ys u"
  shows "wrote ip s off (xs @ ys) u"
proof -
  note h = wrote_file(1) [OF assms(1)]
  have b: "file_block ip t = file_block ip s" using assms(1) by (simp add: wrote_def)
  have "file_byte ip u i = (if off \<le> i \<and> i < off + length (xs @ ys) then (xs @ ys) ! (i - off) else file_byte ip s i)"
    if "has_block ip s (i div BSIZE)" for i
  proof -
    have "file_byte ip t i = (if off \<le> i \<and> i < off + length xs then xs ! (i - off) else file_byte ip s i)"
      using assms(1) that by (simp add: wrote_def)
    moreover have "file_byte ip u i = (if off + length xs \<le> i \<and> i < off + length xs + length ys
        then ys ! (i - (off + length xs)) else file_byte ip t i)"
      using assms(2) that h by (simp add: wrote_def)
    ultimately show ?thesis by (auto simp: nth_append diff_diff_left)
  qed
  moreover have "tx_frame s u" using tx_frame_trans assms by (auto simp: wrote_def)
  ultimately show ?thesis using assms b h by (simp add: wrote_def)
qed

lemma wrote_block:
  assumes "tx {} s" and "blocks_apart ip s" and hb: "has_block ip s (off div BSIZE)"
    and o0: "o0 = off mod BSIZE" "o0 + length xs \<le> BSIZE"
    and b: "b = file_block ip s (off div BSIZE)" and t: "tx {} t" "tx_frame s t" "view t = (view s)(b := patched o0 xs (view s b))"
  shows "wrote ip s off xs t"
proof -
  have k: "off div BSIZE < MAXFILE" "unat b < length (k_disk s)" using hb b by (simp_all add: has_block_def)
  have len: "length (view s b) = BSIZE" by (rule view_length [OF txD(1) [OF assms(1)] k(2)])
  have "b \<noteq> i_addrs (k_inodes s ! ip) ! NDIRECT" using assms(2) hb k(1) unfolding b blocks_apart_def by blast
  then have blk: "file_block ip t = file_block ip s"
    by (intro ext) (simp add: file_block_def Let_def tx_frame_inode(1) [OF t(2)] t(3))
  have "file_byte ip t i = (if off \<le> i \<and> i < off + length xs then xs ! (i - off) else file_byte ip s i)"
    if h: "has_block ip s (i div BSIZE)" for i
  proof (cases "i div BSIZE = off div BSIZE")
    case True
    have "i = BSIZE * (i div BSIZE) + i mod BSIZE" "off = BSIZE * (off div BSIZE) + o0" by (simp_all add: o0(1))
    with True have "o0 \<le> i mod BSIZE \<and> i mod BSIZE < o0 + length xs \<longleftrightarrow> off \<le> i \<and> i < off + length xs"
      "i mod BSIZE - o0 = i - off" by linarith+
    then show ?thesis
      using True len o0(2) by (simp add: file_byte_def blk t(3) b [symmetric] patched_nth)
  next
    case False
    then have "file_block ip s (i div BSIZE) \<noteq> b"
      using assms(2) hb h k(1) unfolding b blocks_apart_def by (auto simp: has_block_def)
    moreover have "\<not> (off \<le> i \<and> i < off + length xs)"
    proof
      assume i: "off \<le> i \<and> i < off + length xs"
      have "i div BSIZE = off div BSIZE"
        using within_block(1) [of off "i - off"] i o0 by (simp add: less_diff_conv2)
      then show False using False by simp
    qed
    ultimately show ?thesis by (auto simp: file_byte_def blk t(3))
  qed
  then show ?thesis using t blk hb k(1) b by (auto simp: wrote_def)
qed

lemma writei_turn:
  assumes tx: "tx {} s" and dev: "i_dev (k_inodes s ! ip) = 1" and hb: "has_block ip s (unat off div BSIZE)"
    and ap: "blocks_apart ip s" and room: "room {} (Suc e) s"
    and o0: "o0 = unat off mod BSIZE" "o0 + length xs \<le> BSIZE"
  shows "\<exists>b r i u v t. bmap ip (off div 512) s = Ok (b, r) \<and> k_inodes r = k_inodes s \<and> bread 1 b r = Ok (i, u) \<and>
    log_write i (set_data i (patched o0 xs (bdata i u)) u) = Ok v \<and> brelse i v = Ok t \<and>
    wrote ip s (unat off) xs t \<and> room {} e t"
proof -
  have k: "unat (off div 512) = unat off div BSIZE" by (simp add: unat_div)
  let ?b = "file_block ip s (unat off div BSIZE)"
  have "card (pinned s) < NBUF" using room by (simp add: room_def)
  then obtain r where r: "bmap ip (off div 512) s = Ok (?b, r)" "same_blocks s r"
    using bmap_found [OF tx dev, of "off div 512"] hb unfolding k by blast
  note fr = same_blocksD [OF r(2)]
  have disk: "unat ?b < length (k_disk r)" and nlog: "\<not> in_log (k_log r) ?b"
    using hb fr(5) ap in_log_frame [OF fr(4)] by (auto simp: has_block_def blocks_apart_def)
  have len: "length (view r ?b) = BSIZE" by (rule view_length [OF txD(1) [OF fr(1)] disk])
  have rm: "room {} (Suc e) r" by (rule room_same [OF room fr(3,4)])
  have pl: "length (patched o0 xs (view r ?b)) = BSIZE" using o0(2) len by simp
  obtain i u v t where t: "bread 1 ?b r = Ok (i, u)" "bdata i u = view r ?b"
      "log_write i (set_data i (patched o0 xs (view r ?b)) u) = Ok v" "brelse i v = Ok t"
      "tx {} t" "view t = (view r)(?b := patched o0 xs (view r ?b))" "pinned t = insert ?b (pinned r)" "tx_frame r t"
    using tx_updateD [where f = "patched o0 xs", OF fr(1) rm disk _ nlog pl] by auto
  have "wrote ip s (unat off) xs t"
    using wrote_block [OF tx ap hb o0 refl t(5) tx_frame_trans [OF fr(4) t(8)]] t(6) fr(2) by simp
  moreover have "room {} e t" by (rule room_after [OF rm t(7,8) fr(1)])
  ultimately show ?thesis using r(1) fr(6) t(1-4) by metis
qed

lemma writei_loop_ok:
  assumes "tx {} s" and "i_dev (k_inodes s ! ip) = 1" and "has_range ip s (unat off) (length ws - tot)"
    and "blocks_apart ip s" and "room {} (nblocks (unat off) (length ws - tot) + e) s" and "tot \<le> length ws"
    and "unat off + (length ws - tot) < 2 ^ 32"
  shows "\<exists>t. writei_loop ip (bytes_src ws) tot off (length ws - tot) s = Ok (off + of_nat (length ws - tot), t) \<and>
    wrote ip s (unat off) (drop tot ws) t \<and> room {} e t"
  using assms
proof (induction "length ws - tot" arbitrary: tot off s rule: less_induct)
  case less
  let ?left = "length ws - tot"
  show ?case
  proof (cases "?left = 0")
    case True
    then have "drop tot ws = []" by simp
    then have "wrote ip s (unat off) (drop tot ws) s" using less.prems(1) by (auto simp: wrote_def)
    then show ?thesis using True less.prems(5) by (subst writei_loop.simps) (simp add: nblocks_def)
  next
    case False
    define o0 m where "o0 = unat off mod BSIZE" and "m = min ?left (BSIZE - o0)"
    define xs where "xs = take m (drop tot ws)"
    have m: "0 < m" "m \<le> ?left" "o0 + length xs \<le> BSIZE" "length xs = m"
      using False by (auto simp: m_def o0_def min_def xs_def)
    have rm: "room {} (Suc (nblocks (unat off + m) (?left - m) + e)) s"
      using nblocks_step [of ?left m "unat off"] False less.prems(5) by (simp add: m_def o0_def)
    have hb: "has_block ip s (unat off div BSIZE)" using less.prems(3) False by (simp add: has_range_def)
    obtain b r i u v t where t: "bmap ip (off div 512) s = Ok (b, r)" "k_inodes r = k_inodes s" "bread 1 b r = Ok (i, u)"
        "log_write i (set_data i (patched o0 xs (bdata i u)) u) = Ok v" "brelse i v = Ok t"
        and w: "wrote ip s (unat off) xs t" and rt: "room {} (nblocks (unat off + m) (?left - m) + e) t"
      using writei_turn [OF less.prems(1,2) hb less.prems(4) rm o0_def m(3)] by metis
    have off: "unat (off + of_nat m) = unat off + m"
      using less.prems(7) m(2) by (simp add: unat_add_less unat_of_nat_small)
    have left: "length ws - (tot + m) = ?left - m" "?left - m < ?left" "tot + m \<le> length ws"
      "unat off + m + (?left - m) < 2 ^ 32" using m(1,2) less.prems(6,7) by simp_all
    have "has_range ip t (unat off + m) (?left - m)"
      using less.prems(3) m(2) unfolding wrote_file(2) [OF w] by (auto simp: has_range_def)
    moreover have "i_dev (k_inodes t ! ip) = 1" "blocks_apart ip t" "tx {} t"
      using less.prems(2,4) wrote_file(3) [OF w] w tx_frame_inode(1) [of s t] by (simp_all add: wrote_def)
    ultimately obtain z where z: "writei_loop ip (bytes_src ws) (tot + m) (off + of_nat m) (?left - m) t =
          Ok (off + of_nat m + of_nat (?left - m), z)" "wrote ip t (unat off + m) (drop (tot + m) ws) z" "room {} e z"
      using less.hyps [of "tot + m" t "off + of_nat m"] rt left(2-4) unfolding off left(1) by blast
    have g: "gather (bytes_src ws) tot m = Ok xs" using gather_bytes [of tot m ws] m(2) less.prems(6) by (simp add: xs_def)
    have "writei_loop ip (bytes_src ws) tot off ?left s = writei_loop ip (bytes_src ws) (tot + m) (off + of_nat m) (?left - m) t"
      using False t less.prems(2) g m(4)
      by (subst writei_loop.simps) (simp add: Let_def patched_def flip: m_def o0_def)
    moreover have "off + of_nat m + of_nat (?left - m) = off + of_nat ?left"
      using m(2) by (metis add.assoc le_add_diff_inverse of_nat_add)
    moreover have "drop tot ws = xs @ drop (tot + m) ws"
      unfolding xs_def by (metis append_take_drop_id drop_drop add.commute)
    then have "wrote ip s (unat off) (drop tot ws) z" using wrote_trans [OF w, of "drop (tot + m) ws" z] z(2) m(4) by simp
    ultimately show ?thesis using z(1,3) by auto
  qed
qed

section \<open>The size of a file\<close>

lemma tx_upd_inode [simp]:
  "tx H (upd_inode ip f s) = tx H s" "view (upd_inode ip f s) = view s" "pinned (upd_inode ip f s) = pinned s"
  "room H k (upd_inode ip f s) = room H k s" "k_disk (upd_inode ip f s) = k_disk s" "k_log (upd_inode ip f s) = k_log s"
  "k_sb (upd_inode ip f s) = k_sb s"
  by (simp_all add: upd_inode_def tx_def room_def view_def pinned_def buf_of_def has_buf_def bio_quiet_def pt_quiet_def
    bc_ok_def held_def fun_eq_iff split: option.split)

lemma length_put_words: "off + 4 * length ws \<le> length d \<Longrightarrow> length (put_words off ws d) = length d"
  by (induction ws arbitrary: off d) auto

lemma length_put_dinode:
  "off + 64 \<le> length d \<Longrightarrow> length (d_addrs x) = NDIRECT + 1 \<Longrightarrow> length (put_dinode off x d) = length d"
  by (simp add: put_dinode_def length_put_words)

text \<open>An inode whose block is on the disk, apart from the log and from the file's own blocks.\<close>

definition inode_block_ok :: "nat \<Rightarrow> 'a ikernel_scheme \<Rightarrow> bool" where
  "inode_block_ok ip s \<longleftrightarrow> ip < length (k_inodes s) \<and>
     (let x = k_inodes s ! ip; b = IBLOCK (i_inum x) (k_sb s) in
      i_dev x = 1 \<and> length (i_addrs x) = NDIRECT + 1 \<and> unat b < length (k_disk s) \<and> \<not> in_log (k_log s) b \<and>
      b \<noteq> i_addrs x ! NDIRECT \<and> (\<forall>k. has_block ip s k \<longrightarrow> b \<noteq> file_block ip s k))"

lemma iupdate_ok:
  assumes "tx {} s" and "inode_block_ok ip s" and "room {} (Suc e) s"
  shows "\<exists>t. iupdate ip s = Ok t \<and> tx {} t \<and> room {} e t \<and> tx_frame s t \<and>
    (\<forall>b. b \<noteq> IBLOCK (i_inum (k_inodes s ! ip)) (k_sb s) \<longrightarrow> view t b = view s b)"
proof -
  let ?x = "k_inodes s ! ip"
  let ?b = "IBLOCK (i_inum ?x) (k_sb s)" and ?f = "put_dinode (dinode_off (i_inum ?x)) (to_dinode ?x)"
  have ok: "i_dev ?x = 1" "length (i_addrs ?x) = NDIRECT + 1" "unat ?b < length (k_disk s)" "\<not> in_log (k_log s) ?b"
    using assms(2) by (simp_all add: inode_block_ok_def Let_def)
  have "length (view s ?b) = BSIZE" by (rule view_length [OF txD(1) [OF assms(1)] ok(3)])
  then have "length (?f (view s ?b)) = BSIZE"
    using ok(2) by (simp add: length_put_dinode dinode_off_def to_dinode_def)
  from tx_updateD [where f = ?f, OF assms(1,3) ok(3) _ ok(4) this]
  obtain i r v t where t: "bread 1 ?b s = Ok (i, r)" "bdata i r = view s ?b"
      "log_write i (set_data i (?f (view s ?b)) r) = Ok v" "brelse i v = Ok t"
      "tx {} t" "view t = (view s)(?b := ?f (view s ?b))" "pinned t = insert ?b (pinned s)" "tx_frame s t"
    by auto
  then have "iupdate ip s = Ok t" using ok(1) by (simp add: iupdate_def Let_def)
  moreover have "room {} e t" by (rule room_after [OF assms(3) t(7,8) assms(1)])
  ultimately show ?thesis using t by auto
qed

lemma upd_size_file:
  assumes "ip < length (k_inodes s)" and t_def: "t = upd_inode ip (\<lambda>x. x\<lparr>i_size := n\<rparr>) s"
  shows "k_inodes t ! ip = (k_inodes s ! ip)\<lparr>i_size := n\<rparr>" "file_block ip t = file_block ip s"
    "has_block ip t = has_block ip s" "inode_block_ok ip t = inode_block_ok ip s"
proof -
  show x: "k_inodes t ! ip = (k_inodes s ! ip)\<lparr>i_size := n\<rparr>" using assms(1) by (simp add: t_def upd_inode_def)
  have l: "length (k_inodes t) = length (k_inodes s)" by (simp add: t_def upd_inode_def)
  have k: "view t = view s" "k_disk t = k_disk s" "k_log t = k_log s" "k_sb t = k_sb s" by (simp_all add: t_def)
  show b: "file_block ip t = file_block ip s" by (rule ext) (simp add: file_block_def x k Let_def)
  show h: "has_block ip t = has_block ip s" by (rule ext) (simp add: has_block_def x b k)
  show "inode_block_ok ip t = inode_block_ok ip s" by (simp add: inode_block_ok_def Let_def x k l b h)
qed

text \<open>A file that a write of \<open>n\<close> bytes at \<open>off\<close> only has to fill: its blocks are there and the log has room.\<close>

definition fillable :: "nat \<Rightarrow> uint \<Rightarrow> nat \<Rightarrow> 'a ikernel_scheme \<Rightarrow> bool" where
  "fillable ip off n s \<longleftrightarrow> tx {} s \<and> inode_block_ok ip s \<and> blocks_apart ip s \<and> has_range ip s (unat off) n \<and>
     i_type (k_inodes s ! ip) \<noteq> T_DEV \<and> off \<le> i_size (k_inodes s ! ip) \<and> unat off + n \<le> MAXFILE * BSIZE \<and>
     room {} (nblocks (unat off) n + 2) s"

text \<open>What the write leaves: the new bytes, the other bytes of the file, the other blocks.\<close>

definition filled :: "nat \<Rightarrow> 'a ikernel_scheme \<Rightarrow> nat \<Rightarrow> uchar list \<Rightarrow> 'a ikernel_scheme \<Rightarrow> bool" where
  "filled ip s off ws t \<longleftrightarrow>
     (\<forall>i. has_block ip s (i div BSIZE) \<longrightarrow> file_byte ip t i =
        (if off \<le> i \<and> i < off + length ws then ws ! (i - off) else file_byte ip s i)) \<and>
     (\<forall>b. b \<noteq> IBLOCK (i_inum (k_inodes s ! ip)) (k_sb s) \<longrightarrow>
        b \<notin> file_block ip s ` {k. k < MAXFILE \<and> has_block ip s k} \<longrightarrow> view t b = view s b)"

lemma filled_wrote:
  assumes w: "wrote ip s off ws t" and ok: "inode_block_ok ip s"
    and v: "file_block ip t = file_block ip s" "i_addrs (k_inodes v ! ip) = i_addrs (k_inodes s ! ip)" "k_disk v = k_disk s"
      "\<forall>b. b \<noteq> IBLOCK (i_inum (k_inodes s ! ip)) (k_sb s) \<longrightarrow> view v b = view t b"
  shows "filled ip s off ws v" "has_range ip v = has_range ip s"
proof -
  have fr: "tx_frame s t" using w by (simp add: wrote_def)
  let ?b = "IBLOCK (i_inum (k_inodes s ! ip)) (k_sb s)"
  have b: "?b \<noteq> i_addrs (k_inodes s ! ip) ! NDIRECT" "\<And>k. has_block ip s k \<Longrightarrow> ?b \<noteq> file_block ip s k"
    using ok by (simp_all add: inode_block_ok_def Let_def)
  have "file_block ip v = file_block ip t"
    using b(1) v(4) by (intro ext) (simp add: file_block_def Let_def v(2) tx_frame_inode(1) [OF fr])
  then have fb: "file_block ip v = file_block ip s" using v(1) by simp
  have "has_block ip v = has_block ip s" by (rule ext) (simp add: has_block_def fb v(2,3))
  then show "has_range ip v = has_range ip s" by (intro ext) (simp add: has_range_def)
  have "file_byte ip v i = file_byte ip t i" if "has_block ip s (i div BSIZE)" for i
    using b(2) [OF that] v(1,4) by (auto simp: file_byte_def fb)
  then show "filled ip s off ws v" using w v(4) by (simp add: filled_def wrote_def)
qed

lemma writei_fills:
  assumes ok: "fillable ip off (length ws) s"
  shows "\<exists>t. writei ip (bytes_src ws) off (of_nat (length ws)) s = Ok (of_nat (length ws), t) \<and>
    filled ip s (unat off) ws t \<and> tx {} t \<and> room {} 1 t \<and> has_range ip t (unat off) (length ws) \<and>
    k_inodes t ! ip = (k_inodes s ! ip)\<lparr>i_size := max (i_size (k_inodes s ! ip)) (off + of_nat (length ws))\<rparr>"
proof -
  let ?x = "k_inodes s ! ip" and ?n = "of_nat (length ws) :: uint"
  let ?b = "IBLOCK (i_inum ?x) (k_sb s)"
  have f: "tx {} s" "inode_block_ok ip s" "blocks_apart ip s" "has_range ip s (unat off) (length ws)"
    "i_type ?x \<noteq> T_DEV" "off \<le> i_size ?x" "unat off + length ws \<le> MAXFILE * BSIZE"
    "room {} (nblocks (unat off) (length ws) + 2) s"
    using ok by (simp_all add: fillable_def)
  have ip: "ip < length (k_inodes s)" "i_dev ?x = 1" using f(2) by (simp_all add: inode_block_ok_def Let_def)
  have n: "unat ?n = length ws" "unat (off + ?n) = unat off + length ws"
    using f(7) by (simp_all add: unat_of_nat_small unat_add_less)
  obtain t where t: "writei_loop ip (bytes_src ws) 0 off (length ws) s = Ok (off + ?n, t)"
      "wrote ip s (unat off) ws t" "room {} 2 t"
    using writei_loop_ok [of s ip off ws 0 2] f ip(2) by auto
  note w = t(2) [unfolded wrote_def] and wf = wrote_file [OF t(2)]
  have fr: "tx_frame s t" "tx {} t" "file_block ip t = file_block ip s" using w by auto
  note ft = tx_frame_inode [OF fr(1)]
  have no: "\<not> off > i_size ?x" "\<not> off + ?n < off" "\<not> unat (off + ?n) > MAXFILE * BSIZE"
    using f(6,7) n by (auto simp: word_less_nat_alt word_le_nat_alt)
  show ?thesis
  proof (cases "?n > 0 \<and> off + ?n > i_size ?x")
    case True
    let ?u = "upd_inode ip (\<lambda>x. x\<lparr>i_size := off + ?n\<rparr>) t"
    have ipt: "ip < length (k_inodes t)" using ip ft by simp
    note us = upd_size_file [OF ipt refl, of "off + ?n"]
    have "inode_block_ok ip t"
      using f(2) ft fr wf(1) in_log_frame [OF fr(1)] tx_frame_fields(4) [OF fr(1)] by (simp add: inode_block_ok_def)
    then have "inode_block_ok ip ?u" "tx {} ?u" "room {} (Suc 1) ?u" using us(4) fr(2) t(3) by (simp_all add: numeral_2_eq_2)
    then obtain v where v: "iupdate ip ?u = Ok v" "tx {} v" "room {} 1 v" "tx_frame ?u v"
        "\<forall>b. b \<noteq> ?b \<longrightarrow> view v b = view t b"
      using iupdate_ok [of ?u ip 1] us(1) ft by auto
    have vi: "k_inodes v ! ip = ?x\<lparr>i_size := off + ?n\<rparr>" "k_disk v = k_disk s"
      using tx_frame_inode(1) [OF v(4)] tx_frame_fields(4) [OF v(4)] us(1) ft(1) tx_frame_fields(4) [OF fr(1)] by simp_all
    have "writei ip (bytes_src ws) off ?n s = Ok (?n, v)"
      using t(1) f(5) no True n(1) ft v(1) by (simp add: writei_def Let_def)
    moreover have "max (i_size ?x) (off + ?n) = off + ?n" using True by simp
    ultimately show ?thesis
      using filled_wrote [OF t(2) f(2) fr(3) _ vi(2) v(5)] vi(1) v(2,3) f(4) by simp
  next
    case False
    have "max (i_size ?x) (off + ?n) = i_size ?x"
      using False f(6) by (cases "?n = 0") (auto simp: max_def word_gt_0 not_less)
    moreover have "writei ip (bytes_src ws) off ?n s = Ok (?n, t)"
      using t(1) f(5) no False n(1) ft by (auto simp: writei_def Let_def)
    moreover have "room {} 1 t" using t(3) by (simp add: room_def)
    ultimately show ?thesis
      using filled_wrote [OF t(2) f(2) fr(3), of t] ft(1) tx_frame_fields(4) [OF fr(1)] fr(2) f(4) by simp
  qed
qed

text \<open>C36: Writing and reading back. Inside a transaction, a write to blocks that the file has, direct or
  indirect, returns the number of bytes, and a read of the same range then returns exactly these bytes.
  The size grows to cover them and nothing else of the inode changes; every other byte of the file is as
  before, and no block of the disk changes but those of the file and the one of its inode. The range may
  start and end anywhere in a block and cross into the indirect blocks.\<close>

theorem writei_readi_roundtrip:
  assumes "fillable ip off (length ws) s"
  shows "\<exists>t u. writei ip (bytes_src ws) off (of_nat (length ws)) s = Ok (of_nat (length ws), t) \<and>
    readi ip off (of_nat (length ws)) t = Ok (of_nat (length ws), ws, u) \<and> view u = view t \<and>
    filled ip s (unat off) ws t \<and>
    k_inodes t ! ip = (k_inodes s ! ip)\<lparr>i_size := max (i_size (k_inodes s ! ip)) (off + of_nat (length ws))\<rparr>"
proof -
  let ?x = "k_inodes s ! ip" and ?n = "of_nat (length ws) :: uint"
  obtain t where t: "writei ip (bytes_src ws) off ?n s = Ok (?n, t)" "filled ip s (unat off) ws t" "tx {} t" "room {} 1 t"
      "has_range ip t (unat off) (length ws)" "k_inodes t ! ip = ?x\<lparr>i_size := max (i_size ?x) (off + ?n)\<rparr>"
    using writei_fills [OF assms] by blast
  have f: "has_range ip s (unat off) (length ws)" "i_type ?x \<noteq> T_DEV" "off \<le> i_size ?x" "i_dev ?x = 1"
    "unat off + length ws \<le> MAXFILE * BSIZE"
    using assms by (simp_all add: fillable_def inode_block_ok_def Let_def)
  have n: "unat ?n = length ws" "unat (off + ?n) = unat off + length ws"
    using f(5) by (simp_all add: unat_of_nat_small unat_add_less)
  obtain u where u: "readi_loop ip off (length ws) t = Ok (file_bytes ip t (unat off) (length ws), u)" "same_blocks t u"
    using readi_loop_ok [OF t(3) _ t(5)] t(4,6) f(4,5) by (auto simp: room_def)
  have "file_bytes ip t (unat off) (length ws) = ws"
    using t(2) f(1) by (intro nth_equalityI) (auto simp: file_bytes_def filled_def has_range_def)
  then have "readi_loop ip off (length ws) t = Ok (ws, u)" using u(1) by simp
  moreover have "i_size (k_inodes t ! ip) = max (i_size ?x) (off + ?n)" using t(6) by simp
  then have "\<not> off > i_size (k_inodes t ! ip)" "\<not> off + ?n > i_size (k_inodes t ! ip)"
    using f(3) by (simp_all add: not_less max.coboundedI1)
  moreover have "\<not> off + ?n < off" using n(2) by (simp add: word_less_nat_alt)
  ultimately have "readi ip off ?n t = Ok (?n, ws, u)"
    using f(2) t(6) n(1) by (simp add: readi_def Let_def)
  then show ?thesis using t(1,2,6) same_blocksD(2) [OF u(2)] by blast
qed

text \<open>A file of two blocks, 40 and 41, on the small disk.\<close>

definition one_file :: "unit ckernel_scheme" where
  "one_file = upd_inode 0 (\<lambda>x. x\<lparr>i_dev := 1, i_inum := 1, i_ref := 1, i_valid := True, i_type := T_FILE, i_nlink := 1,
     i_size := 512, i_addrs := [40, 41] @ replicate 11 0\<rparr>) (disk_kernel small_sb small_disk \<lparr>k_conslock = initlock,
     k_locking = True, k_panicked = False, k_crt = (\<lambda>_. 0), k_cursor = 0, k_uart = True, k_serial = [],
     k_input = \<lparr>in_lock = initlock, in_buf = replicate INPUT_BUF 0, in_r = 0, in_w = 0, in_e = 0\<rparr>,
     k_devsw = [], k_idt = True\<rparr>)"

lemma one_file_inode:
  "k_inodes one_file ! 0 = boot_inode\<lparr>i_dev := 1, i_inum := 1, i_ref := 1, i_valid := True, i_type := T_FILE, i_nlink := 1,
     i_size := 512, i_addrs := [40, 41] @ replicate 11 0\<rparr>" "length (k_inodes one_file) = NINODE"
  by (simp_all add: one_file_def upd_inode_def)

lemma one_file_disk:
  "tx {} one_file" "pinned one_file = {}" "k_disk one_file = small_disk" "k_sb one_file = small_sb"
  "k_log one_file = empty_log\<lparr>lg_outstanding := 1\<rparr>"
  using small_disk_ok by (simp_all add: one_file_def disk_kernel_ok)

lemma one_file_blocks:
  "has_block 0 one_file k \<longleftrightarrow> k < 2" "file_block 0 one_file 0 = 40" "file_block 0 one_file 1 = 41"
proof -
  have a: "i_addrs (k_inodes one_file ! 0) = [40, 41] @ replicate 11 0" by (simp add: one_file_inode)
  have late: "([40, 41] @ replicate 11 (0 :: uint)) ! k = 0" if "2 \<le> k" "k < 13"
    using that by (simp add: nth_append)
  show "file_block 0 one_file 0 = 40" "file_block 0 one_file 1 = 41" by (simp_all add: file_block_def a)
  then show "has_block 0 one_file k \<longleftrightarrow> k < 2"
    using late unfolding has_block_def a one_file_disk(3) small_disk_ok(2)
    by (cases "k = 0"; cases "k = 1") (auto simp: file_block_def a less_2_cases_iff)
qed

lemma one_file_fillable: "fillable 0 511 3 one_file"
proof -
  have "inode_block_ok 0 one_file"
    unfolding inode_block_ok_def Let_def one_file_blocks(1) one_file_disk one_file_inode
    using one_file_blocks(2,3) small_disk_ok(2)
    by (auto simp: IBLOCK_def small_sb_def in_log_def empty_log_def less_2_cases_iff)
  moreover have "blocks_apart 0 one_file"
    unfolding blocks_apart_def one_file_blocks(1) one_file_disk one_file_inode
    using one_file_blocks(2,3) by (auto simp: in_log_def empty_log_def less_2_cases_iff)
  moreover have "has_range 0 one_file 511 3" by (auto simp: has_range_def one_file_blocks div_less_iff_less_mult)
  moreover have "room {} (nblocks 511 3 + 2) one_file"
    by (simp add: room_def one_file_disk nblocks_def) (simp add: empty_log_def)
  ultimately show ?thesis by (simp add: fillable_def one_file_disk one_file_inode)
qed

theorem writei_readi_roundtrip_witness:
  "fillable 0 511 (length [1, 2, 3 :: uchar]) one_file \<and>
   (\<exists>t u. writei 0 (bytes_src [1, 2, 3]) 511 3 one_file = Ok (3, t) \<and> readi 0 511 3 t = Ok (3, [1, 2, 3], u) \<and>
     i_size (k_inodes t ! 0) = 514)"
proof -
  have f: "fillable 0 511 (length [1, 2, 3 :: uchar]) one_file" using one_file_fillable by (simp add: numeral_3_eq_3)
  show ?thesis
    using writei_readi_roundtrip [OF f] f by (auto simp: one_file_inode)
qed

end
