(* ===== verification/Terminal.thy ===== *)
theory Terminal
  imports Kbd
begin

text \<open>
  What the definitions of \<open>Console\<close> and \<open>Kbd\<close> give together: output stays on the screen and ends,
  whatever is printed; the line editor behind the keyboard and the serial line is a pair of lists, the
  bytes a reader may take and the line still being typed; \<open>consoleread\<close> takes a line from the first.
\<close>

section \<open>Output\<close>

text \<open>The video memory has 25 rows of 80 cells.\<close>

definition screen_ok :: "'a ckernel_scheme \<Rightarrow> bool" where
  "screen_ok s \<longleftrightarrow> \<not> k_panicked s \<and> k_cursor s < 2000"

definition echo :: "cint \<Rightarrow> uchar list" where
  "echo c = (if c = BACKSPACE then [8, 0x20, 8] else [ucast c])"

definition shown :: "cint list \<Rightarrow> 'a ckernel_scheme \<Rightarrow> 'a ckernel_scheme \<Rightarrow> bool" where
  "shown cs s t \<longleftrightarrow> displays s t \<and> screen_ok t \<and> (\<forall>i. 2000 \<le> i \<longrightarrow> k_crt t i = k_crt s i) \<and>
     k_serial t = k_serial s @ (if k_uart s then concat (map echo cs) else [])"

lemma shown_Nil [simp]: "screen_ok s \<Longrightarrow> shown [] s s"
  by (simp add: shown_def)

lemma shown_append: "shown cs s t \<Longrightarrow> shown ds t u \<Longrightarrow> shown (cs @ ds) s u"
  using displays_trans [of s t u] displays_fields(9) [of s t] by (auto simp: shown_def)

lemma cgaputc_on_screen:
  assumes "k_cursor s < 2000"
  shows "\<exists>t. cgaputc c s = Ok t \<and> k_cursor t < 2000 \<and> (\<forall>i. 2000 \<le> i \<longrightarrow> k_crt t i = k_crt s i) \<and>
    k_serial t = k_serial s"
proof -
  define pos where "pos = (if c = 10 then k_cursor s + (80 - k_cursor s mod 80)
    else if c = BACKSPACE then k_cursor s - 1 else k_cursor s + 1)"
  have "k_cursor s div 80 < 25" using assms by (intro less_mult_imp_div_less) simp
  moreover have "k_cursor s = 80 * (k_cursor s div 80) + k_cursor s mod 80" "k_cursor s mod 80 < 80" by simp_all
  ultimately have "k_cursor s + (80 - k_cursor s mod 80) \<le> 2000" by linarith
  then have le: "pos \<le> 2000" using assms unfolding pos_def by simp linarith
  define crt where "crt = (if c = 10 \<or> c = BACKSPACE then k_crt s
    else (k_crt s)(k_cursor s := ucast (c AND 0xFF) OR 0x0700))"
  have crt: "2000 \<le> i \<Longrightarrow> crt i = k_crt s i" for i using assms by (simp add: crt_def)
  define pos' where "pos' = (if pos div 80 \<ge> 24 then pos - 80 else pos)"
  define crt' where "crt' = (if pos div 80 \<ge> 24 then cga_scroll pos' crt else crt)"
  have pos': "pos' \<le> 1920" using le by (auto simp: pos'_def not_le div_less_iff_less_mult)
  have crt': "2000 \<le> i \<Longrightarrow> crt' i = k_crt s i" for i using crt by (simp add: crt'_def cga_scroll_def)
  have moved: "(if c = 10 then (k_cursor s + (80 - k_cursor s mod 80), s)
      else if c = BACKSPACE then (k_cursor s - 1, s)
      else (k_cursor s + 1, s\<lparr>k_crt := (k_crt s)(k_cursor s := ucast (c AND 0xFF) OR 0x0700)\<rparr>)) =
    (pos, s\<lparr>k_crt := crt\<rparr>)"
    by (simp add: pos_def crt_def)
  have "cgaputc c s = Ok (s\<lparr>k_cursor := pos', k_crt := crt'(pos' := 0x20 OR 0x0700)\<rparr>)"
    using pos' unfolding cgaputc_def Let_def moved prod.case by (auto simp: pos'_def crt'_def)
  then show ?thesis using pos' crt' by simp
qed

lemma consputc_shown:
  assumes "screen_ok s"
  shows "\<exists>t. consputc c s = Ok t \<and> shown [c] s t"
proof -
  define u where "u = (if c = BACKSPACE then uartputc 8 (uartputc 0x20 (uartputc 8 s)) else uartputc c s)"
  have u: "k_cursor u = k_cursor s" "k_crt u = k_crt s"
    "k_serial u = k_serial s @ (if k_uart s then echo c else [])"
    by (simp_all add: u_def uartputc_def echo_def)
  obtain t where t: "cgaputc c u = Ok t" "k_cursor t < 2000" "\<forall>i. 2000 \<le> i \<longrightarrow> k_crt t i = k_crt u i"
    "k_serial t = k_serial u"
    using cgaputc_on_screen [of u c] assms u by (auto simp: screen_ok_def)
  have p: "consputc c s = Ok t" using assms t(1) by (simp add: consputc_def screen_ok_def u_def)
  then have "displays s t" by (rule displays_consputc)
  then show ?thesis
    using p t u displays_fields(8) [of s t] assms by (simp add: shown_def screen_ok_def)
qed

lemma consputs_shown:
  "screen_ok s \<Longrightarrow> \<exists>t. consputs cs s = Ok t \<and> shown cs s t"
proof (induction cs arbitrary: s)
  case (Cons c cs)
  obtain t where t: "consputc c s = Ok t" "shown [c] s t" using consputc_shown [OF Cons.prems] by blast
  have "screen_ok t" using t(2) by (simp add: shown_def)
  then obtain u where u: "consputs cs t = Ok u" "shown cs t u" using Cons.IH by blast
  have "shown (c # cs) s u" using shown_append [OF t(2) u(2)] by simp
  then show ?case using t(1) u(1) by simp
qed simp

lemma consputs_append:
  fixes s :: "'a ckernel_scheme"
  shows "consputs (cs @ ds) s = andthen (consputs cs s) (consputs ds)"
proof (induction cs arbitrary: s)
  case (Cons c cs)
  then have "consputs (cs @ ds) = (\<lambda>s :: 'a ckernel_scheme. andthen (consputs cs s) (consputs ds))"
    by (simp add: fun_eq_iff)
  then show ?case by (simp add: andthen_assoc)
qed simp

text \<open>
  The characters a directive stands for, with the arguments after it; then those of a whole format.
  \<open>None\<close> is a format that does not fit its arguments.
\<close>

definition directive :: "uchar \<Rightarrow> fmtarg list \<Rightarrow> (cint list \<times> fmtarg list) option" where
  "directive d ap =
     (if d = of_char (CHR ''d'') then (case ap of Arg_d v # ap \<Rightarrow> Some (chars (print_d v), ap) | _ \<Rightarrow> None)
      else if d = of_char (CHR ''x'') then (case ap of Arg_x v # ap \<Rightarrow> Some (chars (print_x32 v), ap) | _ \<Rightarrow> None)
      else if d = of_char (CHR ''p'') then (case ap of Arg_p v # ap \<Rightarrow> Some (chars (print_x64 v), ap) | _ \<Rightarrow> None)
      else if d = of_char (CHR ''s'') then
        (case ap of Arg_s v # ap \<Rightarrow>
           Some (map scast (case v of None \<Rightarrow> cstr ''(null)'' | Some t \<Rightarrow> str_of t), ap) | _ \<Rightarrow> None)
      else if d = 0x25 then Some ([0x25], ap) else Some ([0x25, ucast d], ap))"

fun rendered :: "uchar list \<Rightarrow> fmtarg list \<Rightarrow> cint list option" where
  "rendered [] ap = None"
| "rendered (c # fmt) ap =
     (if c = 0 then Some []
      else if c \<noteq> 0x25 then map_option (\<lambda>r. ucast c # r) (rendered fmt ap)
      else case fmt of
        [] \<Rightarrow> None
      | d # fmt \<Rightarrow>
          if d = 0 then Some []
          else (case directive d ap of None \<Rightarrow> None
            | Some (cs, ap) \<Rightarrow> map_option (\<lambda>r. cs @ r) (rendered fmt ap)))"

lemma cprintf_directive:
  assumes "directive d ap = Some (cs, ap')" and "d \<noteq> 0"
  shows "cprintf_loop (0x25 # d # fmt) ap s = andthen (consputs cs s) (cprintf_loop fmt ap')"
proof (cases "d \<in> {of_char (CHR ''d''), of_char (CHR ''x''), of_char (CHR ''p''), of_char (CHR ''s'')}")
  case True
  then show ?thesis using assms
    by (auto simp: directive_def split: list.splits fmtarg.splits)
next
  case False
  then show ?thesis using assms by (auto simp: directive_def andthen_assoc split: if_splits)
qed

lemma cprintf_loop_rendered:
  "rendered fmt ap = Some cs \<Longrightarrow> cprintf_loop fmt ap = (consputs cs :: 'a ckernel_scheme \<Rightarrow> _)"
proof (induction fmt ap arbitrary: cs rule: rendered.induct)
  case (2 c fmt ap)
  show ?case
  proof (intro ext, cases "c = 0 \<or> c \<noteq> 0x25")
    fix s :: "'a ckernel_scheme"
    case True
    then show "cprintf_loop (c # fmt) ap s = consputs cs s" using 2(1,3) by (auto split: if_splits)
  next
    fix s :: "'a ckernel_scheme"
    case c: False
    then obtain d fmt' where fmt: "fmt = d # fmt'" using 2(3) by (cases fmt) auto
    show "cprintf_loop (c # fmt) ap s = consputs cs s"
    proof (cases "d = 0")
      case False
      then obtain ds ap' r where r: "directive d ap = Some (ds, ap')" "rendered fmt' ap' = Some r" "cs = ds @ r"
        using 2(3) c unfolding fmt by (auto split: option.splits)
      have "cprintf_loop fmt' ap' = (consputs r :: 'a ckernel_scheme \<Rightarrow> _)"
        using 2(2) [OF _ _ fmt False r(1) refl r(2)] c by simp
      then show ?thesis using c r(3) unfolding fmt
        by (simp add: cprintf_directive [OF r(1) False] consputs_append del: cprintf_loop.simps)
    qed (use c 2(3) fmt in auto)
  qed
qed simp

definition cons_free :: "'a ckernel_scheme \<Rightarrow> bool" where
  "cons_free s \<longleftrightarrow> k_conslock s = initlock \<and> cpu_nested (k_cpu s)"

lemma cprintf_prints:
  fixes s :: "'a ckernel_scheme"
  assumes "screen_ok s" and "cons_free s" and r: "rendered fmt ap = Some cs"
  shows "\<exists>t. cprintf (Some fmt) ap s = Ok t \<and> shown cs s t \<and>
    (\<exists>(u :: 'a ckernel_scheme) v. consputs cs u = Ok v \<and> k_cursor u = k_cursor s \<and> k_cursor v = k_cursor t \<and> k_crt v = k_crt t)"
proof (cases "k_locking s")
  case True
  define u where "u = s\<lparr>k_cpu := pushcli (k_cpu s), k_conslock := locked_by (k_cpu s)\<rparr>"
  have a: "acquire_cons s = Ok u"
    using assms(2) by (simp add: acquire_cons_def cons_free_def lock_simps u_def)
  have "screen_ok u" using assms(1) by (simp add: screen_ok_def u_def)
  then obtain t where t: "consputs cs u = Ok t" "shown cs u t" using consputs_shown by blast
  define v where "v = t\<lparr>k_cpu := k_cpu s, k_conslock := k_conslock s\<rparr>"
  have d: "u = t\<lparr>k_crt := k_crt u, k_cursor := k_cursor u, k_serial := k_serial u\<rparr>"
    using t(2) by (simp add: shown_def displays_def)
  have "u\<lparr>k_cpu := k_cpu s, k_conslock := k_conslock s\<rparr> =
      v\<lparr>k_crt := k_crt u, k_cursor := k_cursor u, k_serial := k_serial u\<rparr>"
    by (subst d) (simp add: v_def)
  then have "displays s v" by (simp add: displays_def u_def)
  then have "shown cs s v" using t(2) by (simp add: shown_def screen_ok_def u_def v_def)
  moreover have "k_cpu t = pushcli (k_cpu s)" "k_conslock t = locked_by (k_cpu s)"
    using t(2) displays_fields [of u t] by (simp_all add: shown_def u_def)
  then have "release_cons t = Ok v"
    using assms(2) by (simp add: release_cons_def cons_free_def lock_simps v_def)
  ultimately have "cprintf (Some fmt) ap s = Ok v \<and> shown cs s v"
    using a t(1) True by (simp add: cprintf_def cprintf_loop_rendered [OF r])
  moreover have "k_cursor u = k_cursor s" "k_cursor t = k_cursor v" "k_crt t = k_crt v"
    by (simp_all add: u_def v_def)
  ultimately show ?thesis using t(1) by blast
next
  case False
  obtain t where t: "consputs cs s = Ok t" "shown cs s t" using consputs_shown [OF assms(1)] by blast
  then have "cprintf (Some fmt) ap s = Ok t" using False by (simp add: cprintf_def cprintf_loop_rendered [OF r])
  then show ?thesis using t by blast
qed

lemma cprintf_shown:
  "screen_ok s \<Longrightarrow> cons_free s \<Longrightarrow> rendered fmt ap = Some cs \<Longrightarrow>
     \<exists>t. cprintf (Some fmt) ap s = Ok t \<and> shown cs s t"
  using cprintf_prints by blast

lemma cons_free_shown: "shown cs s t \<Longrightarrow> cons_free t = cons_free s"
  using displays_fields [of s t] by (simp add: shown_def cons_free_def)

lemma shownD: "shown cs s t \<Longrightarrow> screen_ok t" "shown cs s t \<Longrightarrow> displays s t"
  by (simp_all add: shown_def)

lemma print_pcs_shown:
  assumes "screen_ok s" and "cons_free s" and "\<And>pc. rendered (lit fmt) [Arg_p pc] \<noteq> None"
  shows "\<exists>t cs. print_pcs fmt pcs s = Ok t \<and> shown cs s t"
  using assms(1,2)
proof (induction pcs arbitrary: s)
  case Nil
  then show ?case using shown_Nil by fastforce
next
  case (Cons pc pcs)
  obtain r where "rendered (lit fmt) [Arg_p pc] = Some r" using assms(3) [of pc] by blast
  then obtain t where t: "cputs fmt [Arg_p pc] s = Ok t" "shown r s t"
    using cprintf_shown [OF Cons.prems] by blast
  obtain u cs where "print_pcs fmt pcs t = Ok u" "shown cs t u"
    using Cons.IH [OF shownD(1) [OF t(2)]] Cons.prems(2) cons_free_shown [OF t(2)] by blast
  then show ?case using t shown_append by fastforce
qed

lemma rendered_pc: "rendered (lit '' %p'') [Arg_p pc] \<noteq> None" "rendered (lit ('' %p'' @ [CHR 0x0A])) [Arg_p pc] \<noteq> None"
  by (simp_all add: lit_def cstr_def directive_def)

lemma procdump_loop_shown:
  assumes "screen_ok s" and "cons_free s"
  shows "\<exists>t cs. procdump_loop is s = Ok t \<and> shown cs s t"
  using assms
proof (induction "is" arbitrary: s)
  case Nil
  then show ?case using shown_Nil by fastforce
next
  case (Cons i "is")
  let ?p = "k_procs s ! i"
  show ?case
  proof (cases "p_state ?p = UNUSED")
    case True
    then show ?thesis using Cons by simp
  next
    case False
    obtain r where "rendered (lit ''%d %s %s'')
        [Arg_d (p_pid ?p), Arg_s (Some (lit (state_name (p_state ?p)))), Arg_s (Some (p_name ?p))] = Some r"
      by (simp add: lit_def cstr_def directive_def)
    then obtain t where t: "cputs ''%d %s %s''
        [Arg_d (p_pid ?p), Arg_s (Some (lit (state_name (p_state ?p)))), Arg_s (Some (p_name ?p))] s = Ok t" "shown r s t"
      using cprintf_shown [OF Cons.prems] by blast
    have t': "screen_ok t" "cons_free t" using t(2) Cons.prems(2) shownD cons_free_shown by blast+
    let ?pcs = "takeWhile (\<lambda>pc. pc \<noteq> 0) (getstackpcs 10 (c_rbp (p_context ?p) + 16) (k_mem t))"
    obtain u cs where u: "(if p_state ?p = SLEEPING then print_pcs '' %p'' ?pcs t else Ok t) = Ok u" "shown cs t u"
      using print_pcs_shown [OF t' rendered_pc(1), of ?pcs] shown_Nil [OF t'(1)] by (metis (full_types))
    have u': "screen_ok u" "cons_free u" using u(2) t'(2) shownD cons_free_shown by blast+
    have "rendered (lit [CHR 0x0A]) [] = Some [10]" by (simp add: lit_def cstr_def)
    then obtain v where v: "cputs [CHR 0x0A] [] u = Ok v" "shown [10] u v" using cprintf_shown [OF u'] by blast
    have v': "screen_ok v" "cons_free v" using v(2) u'(2) shownD cons_free_shown by blast+
    obtain w ds where w: "procdump_loop is v = Ok w" "shown ds v w" using Cons.IH [OF v'] by blast
    have "shown (((r @ cs) @ [10]) @ ds) s w" using t(2) u(2) v(2) w(2) by (blast intro: shown_append)
    then show ?thesis using False t(1) u(1) v(1) w(1) by (auto simp: Let_def)
  qed
qed

text \<open>Text that fits above the last row stands in the cells from the cursor on.\<close>

definition cell :: "cint \<Rightarrow> ushort" where
  "cell c = ucast (c AND 0xFF) OR 0x0700"

definition plain :: "cint \<Rightarrow> bool" where
  "plain c \<longleftrightarrow> c \<noteq> 10 \<and> c \<noteq> BACKSPACE"

lemma consputc_plain:
  assumes "plain c" and "k_cursor s + 1 < 1920" and "consputc c s = Ok t"
  shows "k_cursor t = k_cursor s + 1 \<and> k_crt t = (k_crt s)(k_cursor s := cell c, k_cursor s + 1 := 0x20 OR 0x0700)"
proof -
  define u where "u = uartputc c s"
  have u: "k_cursor u = k_cursor s" "k_crt u = k_crt s" by (simp_all add: u_def uartputc_def)
  have "Suc (k_cursor s) div 80 < 24" using assms(2) by (intro less_mult_imp_div_less) simp
  then have "cgaputc c u = Ok (u\<lparr>k_cursor := k_cursor s + 1,
      k_crt := (k_crt s)(k_cursor s := cell c, k_cursor s + 1 := 0x20 OR 0x0700)\<rparr>)"
    using assms(1) by (simp add: cgaputc_def plain_def u cell_def Let_def)
  moreover have "cgaputc c u = Ok t"
    using assms(1,3) by (simp add: consputc_def plain_def u_def split: if_splits)
  ultimately show ?thesis by auto
qed

lemma consputs_plain:
  assumes "list_all plain cs" and "k_cursor s + length cs < 1920" and "consputs cs s = Ok t"
  shows "k_cursor t = k_cursor s + length cs \<and> (\<forall>i < length cs. k_crt t (k_cursor s + i) = cell (cs ! i)) \<and>
    (\<forall>i < k_cursor s. k_crt t i = k_crt s i)"
  using assms
proof (induction cs arbitrary: s)
  case (Cons c cs)
  obtain u where u: "consputc c s = Ok u" "consputs cs u = Ok t"
    using Cons.prems(3) by (auto simp: outcome_iff)
  note c = consputc_plain [OF _ _ u(1)]
  have cu: "k_cursor u = k_cursor s + 1" "\<forall>i \<le> k_cursor s. k_crt u i = (if i = k_cursor s then cell c else k_crt s i)"
    using c Cons.prems(1,2) by auto
  have ih: "k_cursor t = k_cursor u + length cs" "\<forall>i < length cs. k_crt t (k_cursor u + i) = cell (cs ! i)"
    "\<forall>i < k_cursor u. k_crt t i = k_crt u i"
    using Cons.IH [OF _ _ u(2)] Cons.prems(1,2) cu(1) by auto
  have "k_crt t (k_cursor s + i) = cell ((c # cs) ! i)" if "i < length (c # cs)" for i
    using that ih(2,3) cu by (cases i) auto
  then show ?case using ih cu by auto
qed simp

text \<open>C33: Whatever \<open>cprintf\<close> is asked to print, when the format fits its arguments it returns, with the
  cursor on the screen and no cell written beyond the video memory's 25 rows of 80; nothing but the
  screen and the serial line has changed, the serial line got the rendered characters in order, and
  text without newlines and backspaces that fits above the last row stands from the old cursor on.
\<close>

theorem cprintf_on_screen:
  fixes s :: "'a ckernel_scheme"
  assumes "screen_ok s" and "cons_free s" and "rendered fmt ap = Some cs"
  shows "\<exists>t. cprintf (Some fmt) ap s = Ok t \<and> k_cursor t < 2000 \<and>
    (\<forall>i. 2000 \<le> i \<longrightarrow> k_crt t i = k_crt s i) \<and> displays s t \<and>
    k_serial t = k_serial s @ (if k_uart s then concat (map echo cs) else []) \<and>
    (list_all plain cs \<and> k_cursor s + length cs < 1920 \<longrightarrow>
       k_cursor t = k_cursor s + length cs \<and> (\<forall>i < length cs. k_crt t (k_cursor s + i) = cell (cs ! i)))"
proof -
  obtain t and u v :: "'a ckernel_scheme" where t: "cprintf (Some fmt) ap s = Ok t" "shown cs s t" and u: "consputs cs u = Ok v"
    "k_cursor u = k_cursor s" "k_cursor v = k_cursor t" "k_crt v = k_crt t"
    using cprintf_prints [OF assms] by blast
  then show ?thesis using consputs_plain [OF _ _ u(1)] by (auto simp: shown_def screen_ok_def)
qed

theorem cprintf_on_screen_witness:
  "let s = boot_ckernel 100 (); fmt = lit ''pid %d''; cs = map ucast (cstr ''pid 12'') in
   screen_ok s \<and> cons_free s \<and> rendered fmt [Arg_d 12] = Some cs \<and>
   (\<exists>t. cprintf (Some fmt) [Arg_d 12] s = Ok t \<and> k_cursor t = 6 \<and> k_crt t 4 = 0x0731)"
proof -
  let ?s = "boot_ckernel 100 ()" and ?fmt = "lit ''pid %d''" and ?cs = "map ucast (cstr ''pid 12'') :: cint list"
  have s: "screen_ok ?s" "cons_free ?s" "k_cursor ?s = 0"
    by (simp_all add: screen_ok_def cons_free_def boot_defs cpu_settled_def cpu_nested_def)
  have "chars (print_d 12) = [49, 50]" by code_simp
  then have r: "rendered ?fmt [Arg_d 12] = Some ?cs"
    by (simp add: lit_def cstr_def directive_def)
  have c: "list_all plain ?cs" "length ?cs = 6" "cell (?cs ! 4) = 0x0731"
    by (simp_all add: cstr_def plain_def cell_def)
  obtain t where "cprintf (Some ?fmt) [Arg_d 12] ?s = Ok t" "k_cursor t = 0 + 6" "k_crt t (0 + 4) = cell (?cs ! 4)"
    using cprintf_on_screen [OF s(1,2) r] c(1) s(3) unfolding c(2) by fastforce
  then show ?thesis using s(1,2) r c(3) by (simp add: Let_def)
qed

section \<open>The line editor\<close>

text \<open>
  Console input as two lists: the bytes a reader may take, and the line that is still being typed. The
  abstract editor: control-U drops the line, backspace its last byte; any other character but NUL is
  taken while there is room (a carriage return as a newline), and a newline, a control-D or the last
  free byte hands the line over.
\<close>

type_synonym pending = "uchar list \<times> uchar list"

definition edited :: "cint \<Rightarrow> pending \<Rightarrow> pending" where
  "edited c p =
     (let (ready, line) = p; b = (if c = 13 then 10 else ucast c) in
      if c = ctl_Z \<or> c = ctl_P then p
      else if c = ctl_U then (ready, [])
      else if c = ctl_H \<or> c = 0x7F then (ready, butlast line)
      else if c = 0 \<or> 128 \<le> length ready + length line then p
      else if b = 10 \<or> b = 4 \<or> length ready + length line = 127 then (ready @ line @ [b], [])
      else (ready, line @ [b]))"

definition input_ready :: "input \<Rightarrow> uchar list" where
  "input_ready x = ring_items 128 (in_buf x) (in_r x) (in_w x)"

definition input_line :: "input \<Rightarrow> uchar list" where
  "input_line x = ring_items 128 (in_buf x) (in_w x) (in_e x)"

abbreviation pending :: "'a ckernel_scheme \<Rightarrow> pending" where
  "pending s \<equiv> (input_ready (k_input s), input_line (k_input s))"

definition input_ok :: "input \<Rightarrow> bool" where
  "input_ok x \<longleftrightarrow> length (in_buf x) = 128 \<and> length (input_ready x) + length (input_line x) \<le> 128 \<and> 10 \<notin> set (input_line x)"

lemma in_e_dist:
  assumes "input_ok x"
  shows "unat (in_e x - in_r x) = length (input_ready x) + length (input_line x)"
proof -
  have eq: "in_e x - in_r x = (in_w x - in_r x) + (in_e x - in_w x)" by simp
  have "unat (in_w x - in_r x) + unat (in_e x - in_w x) < 2 ^ 32"
    using assms by (simp add: input_ok_def input_ready_def input_line_def)
  then show ?thesis unfolding eq input_ready_def input_line_def length_ring_items by (intro unat_add_less) simp
qed

lemma line_empty: "input_line x = [] \<longleftrightarrow> in_e x = in_w x"
proof -
  have "input_line x = [] \<longleftrightarrow> unat (in_e x - in_w x) = 0"
    using length_ring_items [of 128 "in_buf x" "in_w x" "in_e x"] unfolding input_line_def by (metis length_0_conv)
  then show ?thesis by (simp add: unat_eq_0)
qed

lemma line_last:
  assumes "in_e x \<noteq> in_w x"
  shows "input_line x = input_line (x\<lparr>in_e := in_e x - 1\<rparr>) @ [in_buf x ! (unat (in_e x - 1) mod INPUT_BUF)]"
proof -
  have nz: "in_e x - in_w x \<noteq> 0" using assms by simp
  have eq: "in_e x - 1 - in_w x = in_e x - in_w x - 1" by simp
  have "0 < unat (in_e x - in_w x)" using nz by (simp only: unat_gt_0 not_False_eq_True)
  then have "unat (in_e x - 1 - in_w x) < 2 ^ 32 - 1"
    unfolding eq using unat_minus_one [OF nz] unat_less_pow32 [of "in_e x - in_w x"] by linarith
  from ring128.push_raw [OF this, of "in_buf x"] show ?thesis by (simp add: input_line_def ring_slot_def)
qed

lemma line_rub:
  assumes "input_ok x" and "in_e x \<noteq> in_w x"
  shows "input_line (x\<lparr>in_e := in_e x - 1\<rparr>) = butlast (input_line x)" "input_ok (x\<lparr>in_e := in_e x - 1\<rparr>)"
    "input_ready (x\<lparr>in_e := e\<rparr>) = input_ready x"
proof -
  show r: "input_ready (x\<lparr>in_e := e\<rparr>) = input_ready x" for e by (simp add: input_ready_def)
  note l = line_last [OF assms(2)]
  show b: "input_line (x\<lparr>in_e := in_e x - 1\<rparr>) = butlast (input_line x)" by (subst l) simp
  show "input_ok (x\<lparr>in_e := in_e x - 1\<rparr>)"
    using assms(1) unfolding input_ok_def b r by (auto dest: in_set_butlastD)
qed

definition cons_ready :: "'a ckernel_scheme \<Rightarrow> bool" where
  "cons_ready s \<longleftrightarrow> screen_ok s \<and> cons_free s \<and> pt_free s \<and> input_ok (k_input s)"

text \<open>What a character leaves as it is, besides what the abstract editor describes.\<close>

definition typed :: "pending \<Rightarrow> 'a ckernel_scheme \<Rightarrow> 'a ckernel_scheme \<Rightarrow> bool" where
  "typed p s t \<longleftrightarrow> cons_ready t \<and> pending t = p \<and> k_cpu t = k_cpu s \<and> in_lock (k_input t) = in_lock (k_input s)"

lemma typed_shown:
  assumes "cons_ready s" and "shown cs (upd_input f s) t" and "input_ok (f (k_input s))"
    and "in_lock (f (k_input s)) = in_lock (k_input s)" and "p = (input_ready (f (k_input s)), input_line (f (k_input s)))"
  shows "typed p s t"
proof -
  have "k_input t = f (k_input s)" "k_cpu t = k_cpu s" "k_conslock t = k_conslock s" "k_ptlock t = k_ptlock s"
    using displays_fields [OF shownD(2) [OF assms(2)]] by (simp_all add: upd_input_def)
  then show ?thesis
    using assms shownD(1) [OF assms(2)] by (simp add: typed_def cons_ready_def cons_free_def pt_free_def)
qed

lemma rub_out_typed:
  assumes "cons_ready s" and "in_e (k_input s) \<noteq> in_w (k_input s)"
  shows "\<exists>t. rub_out s = Ok t \<and> typed (input_ready (k_input s), butlast (input_line (k_input s))) s t"
proof -
  let ?f = "\<lambda>x. x\<lparr>in_e := in_e x - 1\<rparr>"
  have ok: "input_ok (k_input s)" using assms(1) by (simp add: cons_ready_def)
  have "screen_ok (upd_input ?f s)" using assms(1) by (simp add: cons_ready_def screen_ok_def upd_input_def)
  then obtain t where t: "rub_out s = Ok t" "shown [BACKSPACE] (upd_input ?f s) t"
    using consputc_shown unfolding rub_out_def by blast
  have "typed (input_ready (k_input s), butlast (input_line (k_input s))) s t"
    using line_rub [OF ok assms(2)] by (intro typed_shown [OF assms(1) t(2)]) simp_all
  then show ?thesis using t(1) by blast
qed

lemma typed_trans: "typed p s t \<Longrightarrow> typed q t u \<Longrightarrow> typed q s u"
  by (simp add: typed_def)

lemma killline_typed:
  "cons_ready s \<Longrightarrow> \<exists>t. killline s = Ok t \<and> typed (input_ready (k_input s), []) s t"
proof (induction "length (input_line (k_input s))" arbitrary: s)
  case 0
  then have "in_e (k_input s) = in_w (k_input s)" using line_empty by simp
  then show ?case using 0 line_empty [of "k_input s"] by (simp add: killline.simps typed_def)
next
  case (Suc n)
  let ?x = "k_input s"
  have ne: "in_e ?x \<noteq> in_w ?x" using Suc.hyps(2) line_empty [of ?x] by auto
  have "10 \<notin> set (input_line ?x)" using Suc.prems by (simp add: cons_ready_def input_ok_def)
  then have "in_buf ?x ! (unat (in_e ?x - 1) mod INPUT_BUF) \<noteq> 10"
    by (subst (asm) line_last [OF ne]) auto
  then have k: "killline s = andthen (rub_out s) killline" using ne by (subst killline.simps) simp
  obtain t where t: "rub_out s = Ok t" "typed (input_ready ?x, butlast (input_line ?x)) s t"
    using rub_out_typed [OF Suc.prems ne] by blast
  have "n = length (input_line (k_input t))" "cons_ready t" "input_ready (k_input t) = input_ready ?x"
    using t(2) Suc.hyps(2) by (auto simp: typed_def)
  then obtain u where "killline t = Ok u" "typed (input_ready ?x, []) t u" using Suc.hyps(1) [of t] by auto
  then show ?case using k t typed_trans by fastforce
qed

text \<open>A character that is taken: first the store at the edit index, then, for some, handing the line over.\<close>

definition stored :: "uchar \<Rightarrow> input \<Rightarrow> input" where
  "stored b x = x\<lparr>in_buf := (in_buf x)[unat (in_e x) mod INPUT_BUF := b], in_e := in_e x + 1\<rparr>"

definition handed :: "input \<Rightarrow> input" where
  "handed x = x\<lparr>in_w := in_e x\<rparr>"

lemma ready_line:
  assumes "length (input_ready x) + length (input_line x) \<le> 128"
  shows "ring_items 128 (in_buf x) (in_r x) (in_e x) = input_ready x @ input_line x"
  using assms unfolding input_ready_def input_line_def by (intro ring_items_split) simp

lemma stored_lists:
  assumes "input_ok x" and "length (input_ready x) + length (input_line x) < 128"
  shows "input_ready (stored b x) = input_ready x" "input_line (stored b x) = input_line x @ [b]"
proof -
  have d: "unat (in_e x - in_r x) < 128" using in_e_dist [OF assms(1)] assms(2) by simp
  have len: "length (in_buf x) = 128" using assms(1) by (simp add: input_ok_def)
  have slot: "unat (in_e x) mod INPUT_BUF = ring_slot 128 (in_e x)" by (simp add: ring_slot_def)
  define y where "y = x\<lparr>in_buf := (in_buf x)[ring_slot 128 (in_e x) := b]\<rparr>"
  have same: "length (input_ready y) = length (input_ready x)" "length (input_line y) = length (input_line x)"
    by (simp_all add: input_ready_def input_line_def y_def)
  have "input_ready y @ input_line y = ring_items 128 (in_buf y) (in_r y) (in_e y)"
    using assms(2) by (intro ready_line [symmetric]) (simp add: same)
  also have "\<dots> = ring_items 128 (in_buf x) (in_r x) (in_e x)"
    using ring128.items_update_other [OF d] by (simp add: y_def)
  also have "\<dots> = input_ready x @ input_line x"
    using assms(2) by (intro ready_line) simp
  finally have "input_ready y = input_ready x" using same(1) by simp
  then show "input_ready (stored b x) = input_ready x"
    by (simp add: input_ready_def stored_def slot y_def)
  have "unat (in_e x - in_w x) < 128" using assms(2) by (simp add: input_line_def)
  from ring128.push [OF len this, of b] show "input_line (stored b x) = input_line x @ [b]"
    by (simp add: input_line_def stored_def slot)
qed

lemma stored_ok:
  assumes "input_ok x" and "length (input_ready x) + length (input_line x) < 128"
  shows "length (in_buf (stored b x)) = 128"
    "length (input_ready (stored b x)) + length (input_line (stored b x)) \<le> 128"
    "b \<noteq> 10 \<Longrightarrow> input_ok (stored b x)"
  using assms unfolding input_ok_def by (simp_all add: stored_lists [OF assms], simp_all add: stored_def)

lemma stored_full:
  assumes "input_ok x" and "length (input_ready x) + length (input_line x) < 128"
  shows "in_e (stored b x) = in_r (stored b x) + 128 \<longleftrightarrow> length (input_ready x) + length (input_line x) = 127"
proof -
  have "unat (in_e x - in_r x) < 2 ^ 32 - 1" using in_e_dist [OF assms(1)] assms(2) by simp
  then have "unat (in_e x + 1 - in_r x) = Suc (length (input_ready x) + length (input_line x))"
    using unat_sub_add_one in_e_dist [OF assms(1)] by simp
  moreover have "in_e x + 1 = in_r x + 128 \<longleftrightarrow> unat (in_e x + 1 - in_r x) = unat (128 :: uint)"
    by (metis add.commute diff_eq_eq word_unat_eq_iff)
  ultimately have "in_e x + 1 = in_r x + 128 \<longleftrightarrow> Suc (length (input_ready x) + length (input_line x)) = 128"
    by (simp only: unat_numeral) simp
  then show ?thesis unfolding stored_def by simp
qed

lemma handed_lists:
  assumes "length (input_ready x) + length (input_line x) \<le> 128"
  shows "input_ready (handed x) = input_ready x @ input_line x" "input_line (handed x) = []"
  using ready_line [OF assms] by (simp_all add: handed_def input_ready_def input_line_def)

lemma handed_ok:
  "length (in_buf x) = 128 \<Longrightarrow> length (input_ready x) + length (input_line x) \<le> 128 \<Longrightarrow> input_ok (handed x)"
  unfolding input_ok_def by (simp add: handed_lists) (simp add: handed_def)

lemma byte_eq_iff:
  assumes "c < (256 :: cint)" and "n < 256"
  shows "(ucast c :: uchar) = ucast n \<longleftrightarrow> c = n"
proof -
  have "unat (ucast w :: uchar) = unat w" if "w < 256" for w :: cint
  proof -
    have "unat w < 256" using that by (simp add: word_less_nat_alt)
    then show ?thesis by (simp add: unsigned_ucast_eq take_bit_eq_mod)
  qed
  then show ?thesis using assms by (metis word_unat_eq_iff)
qed

lemma taken_typed:
  assumes r: "cons_ready s" and c: "c < 256" "c \<noteq> 0" "c \<notin> {ctl_Z, ctl_P, ctl_U, ctl_H, 0x7F}"
    and room: "length (input_ready (k_input s)) + length (input_line (k_input s)) < 128"
  shows "\<exists>t. consoleintr_char c s = Ok t \<and> typed (edited c (pending s)) s t"
proof -
  let ?x = "k_input s"
  define d where "d = (if c = 13 then 10 else c)"
  define b :: uchar where "b = ucast d"
  have ok: "input_ok ?x" using r by (simp add: cons_ready_def)
  have d256: "d < 256" using c(1) by (simp add: d_def)
  have b: "b = 10 \<longleftrightarrow> d = 10" "b = 4 \<longleftrightarrow> d = 4" "b = (if c = 13 then 10 else ucast c)"
    using byte_eq_iff [OF d256, of 10] byte_eq_iff [OF d256, of 4] by (simp_all add: b_def d_def)
  have small: "in_e ?x - in_r ?x < 128" using in_e_dist [OF ok] room by (simp add: word_less_nat_alt)
  let ?s = "upd_input (stored b) s"
  have "screen_ok ?s" using r by (simp add: cons_ready_def screen_ok_def upd_input_def)
  then obtain t where t: "consputc d ?s = Ok t" "shown [d] ?s t" using consputc_shown by blast
  have kt: "k_input t = stored b ?x" "k_cpu t = k_cpu s" "k_conslock t = k_conslock s" "k_ptlock t = k_ptlock s"
    using displays_fields [OF shownD(2) [OF t(2)]] by (simp_all add: upd_input_def)
  have xt: "input_ready (k_input t) = input_ready ?x" "input_line (k_input t) = input_line ?x @ [b]"
    "length (in_buf (k_input t)) = 128" "in_lock (k_input t) = in_lock ?x"
    using stored_lists [OF ok room] stored_ok [OF ok room] by (simp_all add: kt(1)) (simp add: stored_def)
  have full: "in_e (k_input t) = in_r (k_input t) + 128 \<longleftrightarrow> length (input_ready ?x) + length (input_line ?x) = 127"
    unfolding kt(1) by (rule stored_full [OF ok room])
  have run: "consoleintr_char c s =
      (if d = 10 \<or> d = ctl_D \<or> in_e (k_input t) = in_r (k_input t) + 128
       then wakeup InputChan (upd_input handed t) else Ok t)"
    using c small t(1) by (simp add: consoleintr_char_def d_def [symmetric] b_def [symmetric] stored_def [abs_def]
      handed_def [abs_def])
  have spec: "edited c (pending s) =
      (if d = 10 \<or> d = 4 \<or> length (input_ready ?x) + length (input_line ?x) = 127
       then (input_ready ?x @ input_line ?x @ [b], []) else (input_ready ?x, input_line ?x @ [b]))"
    using c room by (simp add: edited_def Let_def b(1,2) b(3) [symmetric])
  show ?thesis
  proof (cases "d = 10 \<or> d = 4 \<or> length (input_ready ?x) + length (input_line ?x) = 127")
    case True
    let ?t = "upd_input handed t"
    have "pt_free ?t" using r kt by (simp add: cons_ready_def pt_free_def upd_input_def)
    then have w: "wakeup InputChan ?t = Ok (wakeup1 InputChan ?t)" by (rule wakeup_ok)
    have le: "length (input_ready (k_input t)) + length (input_line (k_input t)) \<le> 128" using xt(1,2) room by simp
    have "typed (input_ready ?x @ input_line ?x @ [b], []) s (wakeup1 InputChan ?t)"
      using r kt(2-4) shownD(1) [OF t(2)] handed_ok [OF xt(3) le] handed_lists [OF le] xt
      by (simp add: typed_def cons_ready_def screen_ok_def cons_free_def pt_free_def upd_input_def wakeup1_def)
        (simp add: handed_def)
    then show ?thesis using run spec True full w by auto
  next
    case False
    have "b \<noteq> 10" using False b(1) by blast
    then have "typed (input_ready ?x, input_line ?x @ [b]) s t"
      using stored_ok(3) [OF ok room] stored_lists [OF ok room]
      by (intro typed_shown [OF r t(2)]) (simp_all add: stored_def)
    then show ?thesis using run spec False full by auto
  qed
qed

lemma typed_same: "cons_ready s \<Longrightarrow> typed (pending s) s s"
  by (simp add: typed_def)

lemma procdump_typed:
  assumes "cons_ready s"
  shows "\<exists>t. procdump s = Ok t \<and> typed (pending s) s t"
proof -
  have "screen_ok s" "cons_free s" using assms by (simp_all add: cons_ready_def)
  then obtain t cs where t: "procdump s = Ok t" "shown cs s t"
    using procdump_loop_shown unfolding procdump_def by blast
  have "upd_input id s = s" by (simp add: upd_input_def)
  then have "typed (pending s) s t"
    using typed_shown [OF assms, of cs id t] t(2) assms by (simp add: cons_ready_def)
  then show ?thesis using t(1) by blast
qed

lemma char_typed:
  assumes r: "cons_ready s" and c: "c < 256"
  shows "\<exists>t. consoleintr_char c s = Ok t \<and> typed (edited c (pending s)) s t"
proof -
  let ?x = "k_input s"
  have ok: "input_ok ?x" using r by (simp add: cons_ready_def)
  consider "c = ctl_Z" | "c = ctl_P" | "c = ctl_U" | "c = ctl_H \<or> c = 0x7F"
    | "c \<notin> {ctl_Z, ctl_P, ctl_U, ctl_H, 0x7F}" by blast
  then show ?thesis
  proof cases
    case 1
    have "typed (pending s) s (s\<lparr>k_idt := False\<rparr>)"
      using r by (simp add: typed_def cons_ready_def screen_ok_def cons_free_def pt_free_def)
    then show ?thesis using 1 by (simp add: consoleintr_char_def edited_def)
  next
    case 2
    then show ?thesis using procdump_typed [OF r] by (simp add: consoleintr_char_def edited_def)
  next
    case 3
    then show ?thesis using killline_typed [OF r] by (simp add: consoleintr_char_def edited_def)
  next
    case 4
    have e: "consoleintr_char c s = (if in_e ?x \<noteq> in_w ?x then rub_out s else Ok s)"
      "edited c (pending s) = (input_ready ?x, butlast (input_line ?x))"
      using 4 unfolding consoleintr_char_def edited_def by (elim disjE; simp)+
    show ?thesis
    proof (cases "in_e ?x = in_w ?x")
      case True
      then have "input_line ?x = []" by (simp add: line_empty)
      then show ?thesis using True e typed_same [OF r] by simp
    next
      case False
      then show ?thesis using e rub_out_typed [OF r False] by simp
    qed
  next
    case 5
    have d: "in_e ?x - in_r ?x < 128 \<longleftrightarrow> length (input_ready ?x) + length (input_line ?x) < 128"
      using in_e_dist [OF ok] by (simp add: word_less_nat_alt)
    show ?thesis
    proof (cases "c \<noteq> 0 \<and> length (input_ready ?x) + length (input_line ?x) < 128")
      case True
      then show ?thesis using taken_typed [OF r c _ 5] by simp
    next
      case False
      then have "\<not> (c \<noteq> 0 \<and> in_e ?x - in_r ?x < 128)"
        "c = 0 \<or> 128 \<le> length (input_ready ?x) + length (input_line ?x)" using d by auto
      then have "consoleintr_char c s = Ok s" "edited c (pending s) = pending s"
        using 5 unfolding consoleintr_char_def edited_def Let_def by (simp_all only: if_False if_True simp_thms
          insert_iff empty_iff prod.case de_Morgan_disj)
      then show ?thesis using typed_same [OF r] by simp
    qed
  qed
qed

lemma loop_typed:
  assumes "cons_ready s" and "\<forall>c \<in> set cs. c < 256"
  shows "\<exists>t. consoleintr_loop cs s = Ok t \<and> typed (fold edited cs (pending s)) s t"
  using assms
proof (induction cs arbitrary: s)
  case Nil
  then show ?case by (simp add: typed_same)
next
  case (Cons c cs)
  obtain t where t: "consoleintr_char c s = Ok t" "typed (edited c (pending s)) s t"
    using char_typed [OF Cons.prems(1)] Cons.prems(2) by auto
  then obtain u where u: "consoleintr_loop cs t = Ok u" "typed (fold edited cs (pending t)) t u"
    using Cons.IH [of t] Cons.prems(2) by (auto simp: typed_def)
  have "pending t = edited c (pending s)" using t(2) by (simp add: typed_def)
  then have "typed (fold edited (c # cs) (pending s)) s u" using typed_trans [OF t(2) u(2)] by simp
  then show ?case using t(1) u(1) by auto
qed

definition cons_quiet :: "'a ckernel_scheme \<Rightarrow> bool" where
  "cons_quiet s \<longleftrightarrow> cons_ready s \<and> in_lock (k_input s) = initlock \<and> cpu_settled (k_cpu s)"

lemma consoleintr_typed:
  assumes "cons_quiet s" and "\<forall>c \<in> set cs. c < 256"
  shows "\<exists>t. consoleintr cs s = Ok t \<and> cons_quiet t \<and> pending t = fold edited cs (pending s)"
proof -
  let ?lock = "\<lambda>lk x. x\<lparr>in_lock := lk\<rparr>"
  let ?u = "upd_input (?lock (locked_by (k_cpu s))) (s\<lparr>k_cpu := pushcli (k_cpu s)\<rparr>)"
  have lists: "input_ready (?lock lk x) = input_ready x" "input_line (?lock lk x) = input_line x"
    "input_ok (?lock lk x) = input_ok x" for lk x
    by (simp_all add: input_ready_def input_line_def input_ok_def)
  have settled: "cpu_settled (k_cpu s)" using assms(1) by (simp add: cons_quiet_def cons_ready_def cons_free_def)
  have a: "acquire_input s = Ok ?u"
    using assms(1) settled by (simp add: acquire_input_def cons_quiet_def lock_simps)
  have "cons_ready ?u"
    using assms(1) pushcli_nested [OF settled]
    by (simp add: cons_quiet_def cons_ready_def screen_ok_def cons_free_def pt_free_def upd_input_def lists)
  then obtain t where t: "consoleintr_loop cs ?u = Ok t" "typed (fold edited cs (pending ?u)) ?u t"
    using loop_typed assms(2) by blast
  let ?t = "upd_input (?lock initlock) (t\<lparr>k_cpu := k_cpu s\<rparr>)"
  have rel: "release_input t = Ok ?t"
    using t(2) settled by (simp add: release_input_def typed_def upd_input_def lock_simps)
  have "cons_quiet ?t"
    using t(2) settled
    by (simp add: cons_quiet_def typed_def cons_ready_def screen_ok_def cons_free_def pt_free_def upd_input_def lists)
  moreover have "pending ?t = fold edited cs (pending s)"
    using t(2) by (simp add: typed_def upd_input_def lists)
  ultimately show ?thesis using a t(1) rel by (auto simp: consoleintr_def)
qed

text \<open>C31: Typing, refined to a pair of lists. From a console at rest, an interrupt that delivers any
  characters returns, whatever they are: no output faults and no loop of the editor runs on. The bytes
  a reader may take and the line being typed are afterwards what the abstract editor makes of them,
  through wrap-around of the 32-bit indices; and the console is at rest again, so that this holds of
  any sequence of interrupts.
\<close>

theorem consoleintr_edits:
  assumes "cons_quiet s" and "\<forall>c \<in> set cs. c < 256"
  shows "\<exists>t. consoleintr cs s = Ok t \<and> cons_quiet t \<and>
    (input_ready (k_input t), input_line (k_input t)) =
      fold edited cs (input_ready (k_input s), input_line (k_input s))"
  by (rule consoleintr_typed [OF assms])

lemma boot_cons_quiet: "cons_quiet (boot_ckernel D x)" "pending (boot_ckernel D x) = ([], [])"
  by (simp_all add: cons_quiet_def cons_ready_def screen_ok_def cons_free_def pt_free_def input_ok_def
    input_ready_def input_line_def boot_defs cpu_settled_def cpu_nested_def)

theorem consoleintr_edits_witness:
  "let s = boot_ckernel 100 (); cs = map ucast (cstr ''xecx'') @ [8, 104, 111, 13, 97] in
   cons_quiet s \<and> (\<forall>c \<in> set cs. c < 256) \<and>
   (\<exists>t. consoleintr cs s = Ok t \<and> input_ready (k_input t) = cstr ''xecho'' @ [10] \<and> input_line (k_input t) = [97])"
proof -
  let ?s = "boot_ckernel 100 ()" and ?cs = "map ucast (cstr ''xecx'') @ [8, 104, 111, 13, 97] :: cint list"
  have c: "\<forall>c \<in> set ?cs. c < 256" by (simp add: cstr_def)
  have "fold edited ?cs ([], []) = (cstr ''xecho'' @ [10], [97])"
    by (simp add: cstr_def edited_def)
  then show ?thesis
    using consoleintr_edits [OF boot_cons_quiet(1) c, of 100 "()"] boot_cons_quiet [of 100 "()"] c by (auto simp: Let_def)
qed

section \<open>Reading a line\<close>

text \<open>
  What a reader that wants \<open>n\<close> bytes gets of the bytes there are, and what is left: up to the newline,
  which it gets, or up to a control-D. That one is used up only when it comes first, and left for the
  next reader otherwise (the flag says that the reader has some bytes already). \<open>None\<close> is a reader that
  must wait.
\<close>

fun line_read :: "nat \<Rightarrow> bool \<Rightarrow> uchar list \<Rightarrow> (uchar list \<times> uchar list) option" where
  "line_read 0 some bs = Some ([], bs)"
| "line_read (Suc n) some [] = None"
| "line_read (Suc n) some (b # bs) =
     (if b = 4 then Some ([], if some then b # bs else bs)
      else if b = 10 then Some ([b], bs)
      else map_option (\<lambda>(took, rest). (b # took, rest)) (line_read n True bs))"

definition set_r :: "uint \<Rightarrow> 'a ckernel_scheme \<Rightarrow> 'a ckernel_scheme" where
  "set_r r = upd_input (\<lambda>x. x\<lparr>in_r := r\<rparr>)"

lemma ready_pop:
  assumes "input_ready (k_input s) = b # bs"
  shows "in_r (k_input s) \<noteq> in_w (k_input s)" "in_buf (k_input s) ! (unat (in_r (k_input s)) mod INPUT_BUF) = b"
    "input_ready (k_input (set_r (in_r (k_input s) + 1) s)) = bs"
proof -
  show ne: "in_r (k_input s) \<noteq> in_w (k_input s)" using assms by (auto simp: input_ready_def)
  show "in_buf (k_input s) ! (unat (in_r (k_input s)) mod INPUT_BUF) = b"
    "input_ready (k_input (set_r (in_r (k_input s) + 1) s)) = bs"
    using assms ring128.pop [OF ne, of "in_buf (k_input s)"]
    by (simp_all add: input_ready_def ring_slot_def set_r_def upd_input_def)
qed

lemma set_r_set_r [simp]: "set_r a (set_r b s) = set_r a s"
  by (simp add: set_r_def upd_input_def)

lemma set_r_id [simp]: "set_r (in_r (k_input s)) s = s"
  by (simp add: set_r_def upd_input_def)

lemma consoleread_loop_ok:
  assumes "line_read n (n < target) (input_ready (k_input s)) = Some (took, rest)" and "n \<le> target"
  shows "\<exists>r. consoleread_loop n target dst s = Ok (Some (n - length took), dst @ took, set_r r s) \<and>
    input_ready (k_input (set_r r s)) = rest \<and> length took \<le> n"
  using assms
proof (induction n arbitrary: s dst took)
  case 0
  have "set_r (in_r (k_input s)) s = s" by simp
  then show ?case using 0 by (metis append.right_neutral consoleread_loop.simps(1) diff_zero fst_conv le_refl
    line_read.simps(1) list.size(3) option.inject snd_conv)
next
  case (Suc n)
  obtain b bs where bs: "input_ready (k_input s) = b # bs"
    using Suc.prems(1) by (cases "input_ready (k_input s)") auto
  note pop = ready_pop [OF bs]
  let ?t = "set_r (in_r (k_input s) + 1) s"
  have t: "upd_input (\<lambda>x. x\<lparr>in_r := in_r x + 1\<rparr>) s = ?t" "upd_input (\<lambda>x. x\<lparr>in_r := in_r x - 1\<rparr>) ?t = s"
    by (simp_all add: set_r_def upd_input_def)
  have run: "consoleread_loop (Suc n) target dst s =
      (if b = 4 then Ok (Some (Suc n), dst, if Suc n < target then s else ?t)
       else if b = 10 then Ok (Some n, dst @ [b], ?t)
       else consoleread_loop n target (dst @ [b]) ?t)"
    using pop(1,2) t by (simp add: Let_def)
  consider "b = 4" | "b = 10" | "b \<noteq> 4" "b \<noteq> 10" by blast
  then show ?case
  proof cases
    case 1
    then have "took = []" "rest = (if Suc n < target then b # bs else bs)" using Suc.prems(1) bs by auto
    then show ?thesis using run 1 pop(3) bs
      by (intro exI [of _ "if Suc n < target then in_r (k_input s) else in_r (k_input s) + 1"])
        (simp del: consoleread_loop.simps)
  next
    case 2
    then show ?thesis using run pop(3) Suc.prems(1) bs by (auto simp del: consoleread_loop.simps)
  next
    case 3
    then obtain g where g: "line_read n True bs = Some (g, rest)" "took = b # g"
      using Suc.prems(1) bs by auto
    then have "line_read n (n < target) (input_ready (k_input ?t)) = Some (g, rest)"
      using pop(3) Suc.prems(2) by simp
    from Suc.IH [OF this] Suc.prems(2) obtain r where
      "consoleread_loop n target (dst @ [b]) ?t = Ok (Some (n - length g), (dst @ [b]) @ g, set_r r ?t)"
      "input_ready (k_input (set_r r ?t)) = rest" "length g \<le> n" by fastforce
    then show ?thesis using run 3 g(2) by (auto simp del: consoleread_loop.simps)
  qed
qed

lemma consoleread_loop_waits:
  assumes "line_read n (n < target) (input_ready (k_input s)) = None" and "n \<le> target" and "k_proc s = Some i"
  shows "consoleread_loop n target dst s =
    (if p_killed (k_procs s ! i) then Ok (None, dst @ input_ready (k_input s), set_r (in_w (k_input s)) s)
     else Blocked ''input'')"
  using assms
proof (induction n arbitrary: s dst)
  case (Suc n)
  show ?case
  proof (cases "input_ready (k_input s)")
    case Nil
    then have "unat (in_w (k_input s) - in_r (k_input s)) = 0"
      by (metis input_ready_def length_ring_items list.size(3))
    then have "in_r (k_input s) = in_w (k_input s)" by (simp add: unat_eq_0)
    then show ?thesis using Suc.prems(3) Nil set_r_id [of s] by (simp add: with_proc_def)
  next
    case (Cons b bs)
    note pop = ready_pop [OF Cons]
    let ?t = "set_r (in_r (k_input s) + 1) s"
    have t: "upd_input (\<lambda>x. x\<lparr>in_r := in_r x + 1\<rparr>) s = ?t" by (simp add: set_r_def upd_input_def)
    have b: "b \<noteq> 4" "b \<noteq> 10" "line_read n True bs = None"
      using Suc.prems(1) Cons by (auto split: if_splits)
    have k: "k_proc ?t = k_proc s" "k_procs ?t = k_procs s" "in_w (k_input ?t) = in_w (k_input s)"
      by (simp_all add: set_r_def upd_input_def)
    have "consoleread_loop (Suc n) target dst s = consoleread_loop n target (dst @ [b]) ?t"
      using pop(1,2) t b by (simp add: Let_def)
    also have "\<dots> = (if p_killed (k_procs s ! i) then Ok (None, (dst @ [b]) @ bs, set_r (in_w (k_input s)) ?t)
        else Blocked ''input'')"
      using Suc.IH [of ?t "dst @ [b]"] Suc.prems(2,3) b(3) pop(3) k by simp
    finally show ?thesis using Cons by (simp del: consoleread_loop.simps)
  qed
qed simp

text \<open>The call around the loop: the inode's lock and that of the input are free while it runs.\<close>

definition reading :: "nat \<Rightarrow> 'a ckernel_scheme \<Rightarrow> 'a ckernel_scheme" where
  "reading ip s = upd_input (\<lambda>x. x\<lparr>in_lock := locked_by (k_cpu s)\<rparr>)
     ((set_ilock ip False 0 (wakeup1 (InodeLockChan ip) s))\<lparr>k_cpu := pushcli (k_cpu s)\<rparr>)"

definition done_reading :: "nat \<Rightarrow> nat \<Rightarrow> uint \<Rightarrow> 'a ckernel_scheme \<Rightarrow> 'a ckernel_scheme" where
  "done_reading ip i r s = set_ilock ip True (p_pid (k_procs s ! i)) (set_r r (wakeup1 (InodeLockChan ip) s))"

lemma reading_fields [simp]:
  "k_proc (reading ip s) = k_proc s" "input_ready (k_input (reading ip s)) = input_ready (k_input s)"
  "input_line (k_input (reading ip s)) = input_line (k_input s)" "in_w (k_input (reading ip s)) = in_w (k_input s)"
  "k_procs (reading ip s) = k_procs (wakeup1 (InodeLockChan ip) s)"
  by (simp_all add: reading_def upd_input_def set_ilock_def upd_inode_def wakeup1_def input_ready_def input_line_def)

lemma wakeup1_proc_nth:
  "i < length (k_procs s) \<Longrightarrow> p_killed (k_procs (wakeup1 ch s) ! i) = p_killed (k_procs s ! i)"
  "i < length (k_procs s) \<Longrightarrow> p_pid (k_procs (wakeup1 ch s) ! i) = p_pid (k_procs s ! i)"
  by (simp_all add: wakeup1_nth Let_def)

lemma set_ilock_twice:
  "ip < length (k_inodes s) \<Longrightarrow> set_ilock ip b p (set_ilock ip c q s) = set_ilock ip b p s"
  by (simp add: set_ilock_def upd_inode_def)

lemma consoleread_around:
  assumes "cons_quiet s" and "inode_at True ip s" and "k_proc s = Some i" and "i < length (k_procs s)"
  shows "consoleread ip n s =
    (let m = nat (sint n) in
     andthen (consoleread_loop m m [] (reading ip s)) (\<lambda>(r, dst, t).
     andthen (release_input t) (\<lambda>t. andthen (ilock (Some ip) t) (\<lambda>t.
     case r of None \<Rightarrow> Ok (- 1, dst, t) | Some k \<Rightarrow> Ok (of_nat (m - k), dst, t)))))"
    "release_input (set_r r (reading ip s)) =
      Ok (set_ilock ip False 0 (set_r r (wakeup1 (InodeLockChan ip) s)))"
    "ilock (Some ip) (set_ilock ip False 0 (set_r r (wakeup1 (InodeLockChan ip) s))) = Ok (done_reading ip i r s)"
proof -
  have q: "pt_quiet s" "cpu_settled (k_cpu s)" "in_lock (k_input s) = initlock"
    using assms(1) by (simp_all add: cons_quiet_def cons_ready_def pt_free_def pt_quiet_def)
  let ?u = "set_ilock ip False 0 (wakeup1 (InodeLockChan ip) s)"
  have "iunlock (Some ip) s = Ok ?u" by (rule iunlock_ok [OF q(1) assms(2)])
  moreover have "k_cpu ?u = k_cpu s" "k_input ?u = k_input s"
    by (simp_all add: set_ilock_def upd_inode_def wakeup1_def)
  then have "acquire_input ?u = Ok (reading ip s)"
    using q by (simp add: acquire_input_def lock_simps reading_def)
  ultimately show "consoleread ip n s =
    (let m = nat (sint n) in
     andthen (consoleread_loop m m [] (reading ip s)) (\<lambda>(r, dst, t).
     andthen (release_input t) (\<lambda>t. andthen (ilock (Some ip) t) (\<lambda>t.
     case r of None \<Rightarrow> Ok (- 1, dst, t) | Some k \<Rightarrow> Ok (of_nat (m - k), dst, t)))))"
    by (simp add: consoleread_def Let_def)
  show "release_input (set_r r (reading ip s)) = Ok (set_ilock ip False 0 (set_r r (wakeup1 (InodeLockChan ip) s)))"
    using q by (simp add: release_input_def reading_def set_r_def upd_input_def set_ilock_def upd_inode_def
      wakeup1_def lock_simps)
  let ?v = "set_ilock ip False 0 (set_r r (wakeup1 (InodeLockChan ip) s))"
  have "inode_at True ip (set_r r (wakeup1 (InodeLockChan ip) s))"
    using assms(2) by (simp add: inode_at_def set_r_def upd_input_def wakeup1_def)
  then have "inode_at False ip ?v" "ip < length (k_inodes (set_r r (wakeup1 (InodeLockChan ip) s)))"
    using set_ilock_at by (blast, simp add: inode_at_def)
  moreover have "cpu_settled (k_cpu ?v)" "k_proc ?v = Some i" "k_procs ?v = k_procs (wakeup1 (InodeLockChan ip) s)"
    using q assms(3) by (simp_all add: set_ilock_def upd_inode_def set_r_def upd_input_def wakeup1_def)
  ultimately show "ilock (Some ip) ?v = Ok (done_reading ip i r s)"
    using ilock_ok [of ?v i ip] wakeup1_proc_nth(2) [OF assms(4)]
    by (simp add: done_reading_def set_ilock_twice)
qed

lemma done_reading_ok:
  assumes "cons_quiet s" and "inode_at True ip s" and "length (input_ready (k_input (set_r r s))) \<le> length (input_ready (k_input s))"
  shows "cons_quiet (done_reading ip i r s)" "inode_at True ip (done_reading ip i r s)"
    "pending (done_reading ip i r s) = (input_ready (k_input (set_r r s)), input_line (k_input s))"
proof -
  have k: "k_input (done_reading ip i r s) = k_input (set_r r s)" "k_input (set_r r s) = (k_input s)\<lparr>in_r := r\<rparr>"
    by (simp_all add: done_reading_def set_ilock_def upd_inode_def set_r_def upd_input_def wakeup1_def)
  have line: "input_line ((k_input s)\<lparr>in_r := r\<rparr>) = input_line (k_input s)" by (simp add: input_line_def)
  show "pending (done_reading ip i r s) = (input_ready (k_input (set_r r s)), input_line (k_input s))"
    by (simp add: k line)
  show "inode_at True ip (done_reading ip i r s)"
    using assms(2) unfolding done_reading_def
    by (intro set_ilock_at [of True]) (simp add: inode_at_def set_r_def upd_input_def wakeup1_def)
  have "input_ok ((k_input s)\<lparr>in_r := r\<rparr>)"
    using assms(1,3) by (simp add: cons_quiet_def cons_ready_def input_ok_def line k)
  then show "cons_quiet (done_reading ip i r s)"
    using assms(1) by (simp add: cons_quiet_def cons_ready_def k)
      (simp add: screen_ok_def cons_free_def pt_free_def done_reading_def set_ilock_def upd_inode_def set_r_def
        upd_input_def wakeup1_def)
qed

lemma line_read_rest: "line_read n b bs = Some (took, rest) \<Longrightarrow> length rest \<le> length bs"
  by (induction n b bs arbitrary: took rest rule: line_read.induct) (fastforce split: if_splits)+

text \<open>C32: Reading a line. A process that holds the inode of the console and asks for \<open>n\<close> bytes gets the
  bytes of the line that are there, as \<open>line_read\<close> says, their number as the result, and leaves the
  rest and the line being typed to the next reader; the inode is locked again and the console at rest.
  When the bytes do not make a line the process waits, unless it is killed: then the call is -1.
\<close>

theorem consoleread_line:
  assumes "cons_quiet s" and "inode_at True ip s" and "k_proc s = Some i" and "i < length (k_procs s)"
  shows "case line_read (nat (sint n)) False (input_ready (k_input s)) of
      Some (took, rest) \<Rightarrow> \<exists>t. consoleread ip n s = Ok (of_nat (length took), took, t) \<and> cons_quiet t \<and>
        input_ready (k_input t) = rest \<and> input_line (k_input t) = input_line (k_input s) \<and> inode_at True ip t
    | None \<Rightarrow> if p_killed (k_procs s ! i)
        then \<exists>t. consoleread ip n s = Ok (- 1, input_ready (k_input s), t) \<and> cons_quiet t \<and> inode_at True ip t
        else consoleread ip n s = Blocked ''input''"
proof -
  let ?m = "nat (sint n)" and ?s = "reading ip s"
  note around = consoleread_around [OF assms]
  show ?thesis
  proof (cases "line_read ?m False (input_ready (k_input s))")
    case None
    then have loop: "consoleread_loop ?m ?m [] ?s =
      (if p_killed (k_procs s ! i) then Ok (None, input_ready (k_input s), set_r (in_w (k_input s)) ?s)
       else Blocked ''input'')"
      using consoleread_loop_waits [of ?m ?m ?s i "[]"] assms(3) wakeup1_proc_nth(1) [OF assms(4)] by simp
    have "input_ready (k_input (set_r (in_w (k_input s)) s)) = []"
      by (simp add: set_r_def upd_input_def input_ready_def)
    then have "cons_quiet (done_reading ip i (in_w (k_input s)) s)" "inode_at True ip (done_reading ip i (in_w (k_input s)) s)"
      using done_reading_ok [OF assms(1,2), of "in_w (k_input s)" i] by simp_all
    then show ?thesis using None loop around by (simp add: Let_def)
  next
    case (Some p)
    obtain took rest where p: "p = (took, rest)" by (cases p)
    obtain r where r: "consoleread_loop ?m ?m [] ?s = Ok (Some (?m - length took), took, set_r r ?s)"
      "input_ready (k_input (set_r r ?s)) = rest" "length took \<le> ?m"
      using consoleread_loop_ok [of ?m ?m ?s took rest "[]"] Some p by auto
    have eq: "input_ready (k_input (set_r r s)) = rest"
      using r(2) by (simp add: set_r_def upd_input_def reading_def input_ready_def set_ilock_def upd_inode_def wakeup1_def)
    have le: "length rest \<le> length (input_ready (k_input s))" using line_read_rest Some p by blast
    note ok = done_reading_ok [OF assms(1,2), of r i, unfolded eq, OF le]
    show ?thesis using Some p r(1,3) around ok by (simp add: Let_def)
  qed
qed

definition ls_typed :: "unit ckernel_scheme" where
  "ls_typed = upd_inode 3 (\<lambda>x. x\<lparr>i_ref := 1, i_valid := True, i_lock := (i_lock x)\<lparr>sl_locked := True\<rparr>\<rparr>)
     (upd_input (\<lambda>x. x\<lparr>in_buf := cstr ''ls'' @ 10 # replicate 125 0, in_w := 3, in_e := 3\<rparr>) (boot_ckernel 100 ()))"

lemma ls_typed_ok:
  "cons_quiet ls_typed" "inode_at True 3 ls_typed" "k_proc ls_typed = Some 0" "length (k_procs ls_typed) = NPROC"
  "input_ready (k_input ls_typed) = cstr ''ls'' @ [10]" "input_line (k_input ls_typed) = []"
  by (simp_all add: ls_typed_def cons_quiet_def cons_ready_def screen_ok_def cons_free_def pt_free_def input_ok_def
    input_ready_def input_line_def boot_defs cpu_settled_def cpu_nested_def upd_inode_def inode_at_def boot_inode_def initsleeplock_def
    sl_quiet_def ring_items_def ring_slot_def cstr_def upt_rec)

theorem consoleread_line_witness:
  "cons_quiet ls_typed \<and> inode_at True 3 ls_typed \<and> k_proc ls_typed = Some 0 \<and> 0 < length (k_procs ls_typed) \<and>
   (\<exists>t. consoleread 3 100 ls_typed = Ok (3, cstr ''ls'' @ [10], t) \<and> input_ready (k_input t) = [])"
proof -
  have lead: "line_read (Suc (Suc (Suc k))) False (cstr ''ls'' @ [10]) = Some (cstr ''ls'' @ [10], [])" for k
    by (simp add: cstr_def)
  have l: "line_read (nat (sint (100 :: cint))) False (input_ready (k_input ls_typed)) = Some (cstr ''ls'' @ [10], [])"
    using lead [of 97] by (simp add: ls_typed_ok)
  have p: "0 < length (k_procs ls_typed)" by (simp add: ls_typed_ok)
  have "of_nat (length (cstr ''ls'' @ [10])) = (3 :: cint)" by (simp add: cstr_def)
  then show ?thesis
    using consoleread_line [OF ls_typed_ok(1-3) p, of 100] ls_typed_ok p unfolding l by auto
qed

section \<open>The keyboard\<close>

text \<open>
  What the keyboard has sent, as the keys that were pressed and released, the latest first. A code with
  the high bit is a release; the code \<open>0xE0\<close> announces that the next one is of the second set of keys,
  whose numbers have the high bit.
\<close>

datatype key_event = Press nat | Release nat

type_synonym keyboard = "bool \<times> key_event list"

definition key_of :: "uchar \<Rightarrow> keyboard \<Rightarrow> nat" where
  "key_of b kb = unat b mod 0x80 + (if fst kb then 0x80 else 0)"

definition scan :: "uchar \<Rightarrow> keyboard \<Rightarrow> keyboard" where
  "scan b kb =
     (if b = 0xE0 then (True, snd kb)
      else if 0x80 \<le> b then (False, Release (key_of b kb) # snd kb)
      else (False, Press (key_of b kb) # snd kb))"

text \<open>
  Shift, control and alt each are two keys and hold from a press of one of them to a release of one;
  the lock keys change sides at each press.
\<close>

fun down :: "nat set \<Rightarrow> key_event list \<Rightarrow> bool" where
  "down ks [] = False"
| "down ks (Press k # es) = (k \<in> ks \<or> down ks es)"
| "down ks (Release k # es) = (k \<notin> ks \<and> down ks es)"

definition held :: "nat set \<Rightarrow> key_event list \<Rightarrow> bool" where
  "held ks es \<longleftrightarrow> (\<exists>newer k older. es = newer @ Press k # older \<and> k \<in> ks \<and> (\<forall>j \<in> ks. Release j \<notin> set newer))"

lemma held_Cons: "held ks (e # es) \<longleftrightarrow> (\<exists>k \<in> ks. e = Press k) \<or> held ks es \<and> (\<forall>j \<in> ks. e \<noteq> Release j)"
proof
  assume "held ks (e # es)"
  then obtain newer k older where "e # es = newer @ Press k # older" "k \<in> ks" "\<forall>j \<in> ks. Release j \<notin> set newer"
    unfolding held_def by blast
  then show "(\<exists>k \<in> ks. e = Press k) \<or> held ks es \<and> (\<forall>j \<in> ks. e \<noteq> Release j)"
    by (cases newer) (auto simp: held_def)
next
  assume "(\<exists>k \<in> ks. e = Press k) \<or> held ks es \<and> (\<forall>j \<in> ks. e \<noteq> Release j)"
  then show "held ks (e # es)"
  proof
    assume "\<exists>k \<in> ks. e = Press k"
    then show ?thesis unfolding held_def by (intro exI [of _ "[]"]) auto
  next
    assume h: "held ks es \<and> (\<forall>j \<in> ks. e \<noteq> Release j)"
    then obtain newer k older where "es = newer @ Press k # older" "k \<in> ks" "\<forall>j \<in> ks. Release j \<notin> set newer"
      unfolding held_def by blast
    then show ?thesis using h unfolding held_def
      by (intro exI [of _ "e # newer"] exI [of _ k] exI [of _ older]) auto
  qed
qed

lemma down_held: "down ks es \<longleftrightarrow> held ks es"
proof (induction es)
  case (Cons e es)
  then show ?case by (cases e) (auto simp: held_Cons)
qed (simp add: held_def)

definition locked :: "nat \<Rightarrow> key_event list \<Rightarrow> bool" where
  "locked k es \<longleftrightarrow> odd (length (filter (\<lambda>e. e = Press k) es))"

abbreviation (input) shift_keys :: "nat set" where "shift_keys \<equiv> {0x2A, 0x36}"
abbreviation (input) ctl_keys :: "nat set" where "ctl_keys \<equiv> {0x1D, 0x9D}"
abbreviation (input) alt_keys :: "nat set" where "alt_keys \<equiv> {0x38, 0xB8}"
abbreviation (input) caps_key :: nat where "caps_key \<equiv> 0x3A"

text \<open>The character of a code: that of the key in the map the modifiers choose, the case of a letter exchanged
  under the caps lock; 0 for a code that types nothing.\<close>

definition swap_case :: "uchar \<Rightarrow> uchar" where
  "swap_case c = (if 0x61 \<le> c \<and> c \<le> 0x7A then c - 0x20 else if 0x41 \<le> c \<and> c \<le> 0x5A then c + 0x20 else c)"

definition key_char :: "nat \<Rightarrow> key_event list \<Rightarrow> uchar" where
  "key_char k es =
     (let c = (if down ctl_keys es then ctlmap else if down shift_keys es then shiftmap else normalmap) ! k
      in if locked caps_key es then swap_case c else c)"

definition code_char :: "uchar \<Rightarrow> keyboard \<Rightarrow> uchar" where
  "code_char b kb = (if b < 0x80 then key_char (key_of b kb) (Press (key_of b kb) # snd kb) else 0)"

primrec typed_chars :: "uchar list \<Rightarrow> keyboard \<Rightarrow> uchar list" where
  "typed_chars [] kb = []"
| "typed_chars (b # bs) kb = code_char b kb # typed_chars bs (scan b kb)"

text \<open>The codes an interrupt reads, and what the flags \<open>shift\<close> say of the keyboard.\<close>

definition codes :: "(uchar \<times> uchar) list \<Rightarrow> uchar list" where
  "codes ports = map snd (takeWhile (\<lambda>p. fst p AND 1 \<noteq> 0) ports)"

definition shift_of :: "keyboard \<Rightarrow> uint \<Rightarrow> bool" where
  "shift_of kb shift \<longleftrightarrow>
     bit shift 0 = down shift_keys (snd kb) \<and> bit shift 1 = down ctl_keys (snd kb) \<and>
     bit shift 2 = down alt_keys (snd kb) \<and> bit shift 3 = locked caps_key (snd kb) \<and>
     bit shift 4 = locked 0x45 (snd kb) \<and> bit shift 5 = locked 0x46 (snd kb) \<and> bit shift 6 = fst kb \<and>
     (\<forall>n > 6. \<not> bit shift n)"

lemma flag_bits:
  fixes x :: uint
  shows "x AND E0ESC \<noteq> 0 \<longleftrightarrow> bit x 6" "x AND CAPSLOCK \<noteq> 0 \<longleftrightarrow> bit x 3" "x AND 0x80 \<noteq> 0 \<longleftrightarrow> bit x 7"
  using and_exp_eq_0_iff_not_bit [of x 6] and_exp_eq_0_iff_not_bit [of x 3] and_exp_eq_0_iff_not_bit [of x 7]
  by simp_all

lemma pow_bit: "m < 32 \<Longrightarrow> bit (2 ^ m :: uint) n \<longleftrightarrow> n = m"
  by (auto simp: bit_exp_iff)

lemma small_bits:
  fixes n :: nat
  shows "bit (1 :: uint) n \<longleftrightarrow> n = 0" "bit (2 :: uint) n \<longleftrightarrow> n = 1" "bit (4 :: uint) n \<longleftrightarrow> n = 2" "bit (8 :: uint) n \<longleftrightarrow> n = 3"
    "bit (16 :: uint) n \<longleftrightarrow> n = 4" "bit (32 :: uint) n \<longleftrightarrow> n = 5" "bit (64 :: uint) n \<longleftrightarrow> n = 6" "bit (0x80 :: uint) n \<longleftrightarrow> n = 7"
  by (use pow_bit [of 0 n] in simp, use pow_bit [of 1 n] in simp, use pow_bit [of 2 n] in simp, use pow_bit [of 3 n] in simp,
      use pow_bit [of 4 n] in simp, use pow_bit [of 5 n] in simp, use pow_bit [of 6 n] in simp, use pow_bit [of 7 n] in simp)

lemma code_bits:
  assumes "k < 256"
  shows "bit (ucast (shiftcode ! k) :: uint) n \<longleftrightarrow>
      n = 0 \<and> k \<in> shift_keys \<or> n = 1 \<and> k \<in> ctl_keys \<or> n = 2 \<and> k \<in> alt_keys"
    "bit (ucast (togglecode ! k) :: uint) n \<longleftrightarrow> n = 3 \<and> k = caps_key \<or> n = 4 \<and> k = 0x45 \<or> n = 5 \<and> k = 0x46"
proof -
  have "(ucast (shiftcode ! k) :: uint) = (if k \<in> shift_keys then 1 else if k \<in> ctl_keys then 2 else if k \<in> alt_keys then 4 else 0)"
    "(ucast (togglecode ! k) :: uint) = (if k = caps_key then 8 else if k = 0x45 then 16 else if k = 0x46 then 32 else 0)"
    using assms by (simp_all add: shiftcode_def togglecode_def key_array_def nth_list_update)
  then show "bit (ucast (shiftcode ! k) :: uint) n \<longleftrightarrow>
      n = 0 \<and> k \<in> shift_keys \<or> n = 1 \<and> k \<in> ctl_keys \<or> n = 2 \<and> k \<in> alt_keys"
    "bit (ucast (togglecode ! k) :: uint) n \<longleftrightarrow> n = 3 \<and> k = caps_key \<or> n = 4 \<and> k = 0x45 \<or> n = 5 \<and> k = 0x46"
    by (auto simp: small_bits simp del: bit_numeral_word_iff)
qed

lemma code_word:
  fixes b :: uchar
  shows "(ucast b :: uint) = 0xE0 \<longleftrightarrow> b = 0xE0" "bit (ucast b :: uint) 7 \<longleftrightarrow> 0x80 \<le> b"
    "0x80 \<le> b \<Longrightarrow> unat (ucast b :: uint) = unat b mod 0x80 + 0x80"
    "unat (ucast b AND 0x7F :: uint) = unat b mod 0x80"
    "b < 0x80 \<Longrightarrow> unat (ucast b OR 0x80 :: uint) = unat b mod 0x80 + 0x80"
    "b < 0x80 \<Longrightarrow> unat b = unat b mod 0x80"
proof -
  have b: "unat b < 256" using unat_less_pow8 [of b] by simp
  show "(ucast b :: uint) = 0xE0 \<longleftrightarrow> b = 0xE0" by (simp add: word_unat_eq_iff)
  show seven: "bit (ucast b :: uint) 7 \<longleftrightarrow> 0x80 \<le> b"
  proof -
    have "unat b div 128 < 2" using b by simp
    then have "odd (unat b div 128) \<longleftrightarrow> 128 \<le> unat b" by (auto simp: less_2_cases_iff div_eq_0_iff)
    moreover have "bit (ucast b :: uint) 7 \<longleftrightarrow> bit (unat b) 7" by (simp add: bit_unsigned_iff)
    ultimately show ?thesis by (simp add: bit_iff_odd word_le_nat_alt)
  qed
  show "0x80 \<le> b \<Longrightarrow> unat (ucast b :: uint) = unat b mod 0x80 + 0x80"
    using b mod_if [of "unat b" 128] by (auto simp: word_le_nat_alt)
  show and7: "unat (ucast b AND 0x7F :: uint) = unat b mod 0x80"
  proof -
    have "(ucast b AND 0x7F :: uint) = take_bit 7 (ucast b)" by (simp add: take_bit_eq_mask mask_eq_exp_minus_1)
    then have "unat (ucast b AND 0x7F :: uint) = take_bit 7 (unat b)" by (simp only: unsigned_take_bit_eq unat_ucast_8_32)
    then show ?thesis by (simp add: take_bit_eq_mod)
  qed
  show small: "b < 0x80 \<Longrightarrow> unat b = unat b mod 0x80" by (simp add: word_less_nat_alt)
  show "unat (ucast b OR 0x80 :: uint) = unat b mod 0x80 + 0x80" if "b < 0x80"
  proof -
    have "\<not> bit (ucast b :: uint) 7" using that seven by simp
    then have "ucast b + 0x80 = (ucast b OR 0x80 :: uint)"
      by (intro disjunctive_add) (auto simp: small_bits simp del: bit_numeral_word_iff)
    moreover have "unat (ucast b + 0x80 :: uint) = unat b + 0x80" using b by (simp add: unat_word_ariths)
    ultimately show ?thesis using small [OF that] by simp
  qed
qed

lemma ucast_below256: "(ucast (b :: uchar) :: uint) < 256"
  using unat_less_pow8 [of b] by (simp add: word_less_nat_alt unat_ucast_8_32)

lemma key_of_less: "key_of b kb < 256"
proof -
  have "unat b mod 128 < 128" by simp
  then have "unat b mod 128 + 128 < 256" "unat b mod 128 + 0 < 256" by linarith+
  then show ?thesis unfolding key_of_def by (cases "fst kb") (simp_all only: if_True if_False)
qed

lemma swap_case_word:
  "(ucast (swap_case c) :: uint) =
     (let c = (ucast c :: uint) in
      if 0x61 \<le> c \<and> c \<le> 0x7A then c + (0x41 - 0x61)
      else if 0x41 \<le> c \<and> c \<le> 0x5A then c + (0x61 - 0x41) else c)"
proof -
  have "unat c < 256" using unat_less_pow8 [of c] by simp
  then show ?thesis
    by (auto simp: swap_case_def Let_def word_unat_eq_iff word_le_nat_alt unat_word_ariths unat_sub_if')
qed

lemma map_choice:
  fixes x :: uint
  shows "[normalmap, shiftmap, ctlmap, ctlmap] ! unat (x AND (CTL OR SHIFT)) =
     (if bit x 1 then ctlmap else if bit x 0 then shiftmap else normalmap)"
proof -
  have "x AND (CTL OR SHIFT) = take_bit 2 x" by (simp add: take_bit_eq_mask mask_eq_exp_minus_1)
  also have "\<dots> = of_bool (bit x 0) + 2 * of_bool (bit x 1)"
    by (simp add: take_bit_Suc numeral_2_eq_2 bit_0 bit_Suc odd_iff_mod_2_eq_one)
  finally show ?thesis by auto
qed

lemma locked_Cons [simp]:
  "locked k (Press j # es) = (locked k es \<noteq> (j = k))" "locked k (Release j # es) = locked k es"
  by (simp_all add: locked_def)

lemma shift_of_release:
  assumes "shift_of kb shift" and "k < 256"
  shows "shift_of (False, Release k # snd kb) (shift AND NOT (ucast (shiftcode ! k) OR E0ESC))"
  using assms(1) unfolding shift_of_def
  by (simp add: bit_and_iff bit_or_iff bit_not_iff small_bits code_bits [OF assms(2)] conj_commute del: bit_numeral_word_iff bit_unsigned_iff)

lemma shift_of_press:
  assumes "shift_of (False, es) shift" and "k < 256"
  shows "shift_of (False, Press k # es) ((shift OR ucast (shiftcode ! k)) XOR ucast (togglecode ! k))"
  using assms(1) unfolding shift_of_def
  by (simp add: bit_xor_iff bit_or_iff small_bits code_bits [OF assms(2)] disj_commute del: bit_numeral_word_iff bit_unsigned_iff)

lemma shift_of_esc:
  assumes "shift_of kb shift"
  shows "shift_of (True, snd kb) (shift OR E0ESC)" "shift_of (False, snd kb) (shift AND NOT E0ESC)"
    "\<not> fst kb \<Longrightarrow> kb = (False, snd kb)"
  using assms unfolding shift_of_def
  by (simp_all add: bit_and_iff bit_or_iff bit_not_iff small_bits prod_eq_iff del: bit_numeral_word_iff)

lemma kbdgetc_scan:
  assumes s: "shift_of kb shift" and "fst p AND 1 \<noteq> 0"
  shows "\<exists>shift'. kbdgetc p shift = (ucast (code_char (snd p) kb), shift') \<and> shift_of (scan (snd p) kb) shift'"
proof -
  let ?b = "snd p"
  let ?k = "key_of ?b kb"
  have esc: "shift AND E0ESC \<noteq> 0 \<longleftrightarrow> fst kb" using s by (simp add: flag_bits shift_of_def)
  consider "?b = 0xE0" | "?b \<noteq> 0xE0" "0x80 \<le> ?b" | "?b \<noteq> 0xE0" "?b < 0x80" by fastforce
  then show ?thesis
  proof cases
    case 1
    then have "kbdgetc p shift = (0, shift OR E0ESC)" using assms(2) by (simp add: kbdgetc_def)
    then show ?thesis using 1 shift_of_esc(1) [OF s] by (simp add: code_char_def scan_def)
  next
    case 2
    have "unat (if fst kb then ucast ?b else ucast ?b AND 0x7F :: uint) = ?k"
      using 2 code_word [of ?b] by (simp add: key_of_def)
    then have "kbdgetc p shift = (0, shift AND NOT (ucast (shiftcode ! ?k) OR E0ESC))"
      using 2 assms(2) code_word(1,2) [of ?b] by (simp add: kbdgetc_def Let_def esc flag_bits(3))
    moreover have "\<not> ?b < 0x80" using 2(2) by simp
    ultimately show ?thesis using 2 shift_of_release [OF s key_of_less] by (simp add: code_char_def scan_def)
  next
    case 3
    define s0 where "s0 = (if fst kb then shift AND NOT E0ESC else shift)"
    define sh where "sh = (s0 OR ucast (shiftcode ! ?k)) XOR ucast (togglecode ! ?k)"
    have "shift_of (False, snd kb) s0"
      using shift_of_esc(2,3) [OF s] s by (cases "fst kb") (auto simp: s0_def)
    then have sh: "shift_of (False, Press ?k # snd kb) sh" unfolding sh_def by (rule shift_of_press [OF _ key_of_less])
    then have flags: "bit sh 0 = down shift_keys (Press ?k # snd kb)" "bit sh 1 = down ctl_keys (Press ?k # snd kb)"
      "bit sh 3 = locked caps_key (Press ?k # snd kb)" by (simp_all only: shift_of_def snd_conv)
    define d where "d = (if fst kb then ucast ?b OR 0x80 else ucast ?b :: uint)"
    have d: "unat d = ?k" using 3 code_word(5,6) [of ?b] by (simp add: d_def key_of_def)
    have b: "(ucast ?b :: uint) \<noteq> 0xE0" "(ucast ?b AND 0x80 :: uint) = 0"
      using 3 code_word(1,2) [of ?b] flag_bits(3) [of "ucast ?b"] by auto
    have eq: "(if shift AND E0ESC \<noteq> 0 then (ucast ?b OR 0x80, shift AND NOT E0ESC) else (ucast ?b, shift)) = (d, s0)"
      unfolding esc d_def s0_def by simp
    have "kbdgetc p shift =
        (let c = (ucast ([normalmap, shiftmap, ctlmap, ctlmap] ! unat (sh AND (CTL OR SHIFT)) ! ?k) :: uint)
         in if bit sh 3 then
              if 0x61 \<le> c \<and> c \<le> 0x7A then c + (0x41 - 0x61)
              else if 0x41 \<le> c \<and> c \<le> 0x5A then c + (0x61 - 0x41) else c
            else c, sh)"
      using assms(2) b unfolding kbdgetc_def Let_def eq prod.case d sh_def [symmetric] flag_bits(2)
      by (simp only: if_False if_True not_False_eq_True simp_thms)
    also have "\<dots> = (ucast (key_char ?k (Press ?k # snd kb)), sh)"
      unfolding map_choice key_char_def Let_def flags
      by (cases "locked caps_key (Press ?k # snd kb)") (simp_all only: swap_case_word Let_def if_True if_False)
    finally show ?thesis using 3 sh by (simp add: code_char_def scan_def not_le [symmetric])
  qed
qed

lemma kbd_chars_scan:
  "shift_of kb shift \<Longrightarrow> \<exists>shift'. kbd_chars ports shift = (map ucast (typed_chars (codes ports) kb), shift') \<and>
     shift_of (fold scan (codes ports) kb) shift'"
proof (induction ports arbitrary: kb shift)
  case (Cons p ps)
  show ?case
  proof (cases "fst p AND 1 = 0")
    case True
    then show ?thesis using Cons.prems by (simp add: codes_def kbdgetc_def)
  next
    case False
    obtain sh where sh: "kbdgetc p shift = (ucast (code_char (snd p) kb), sh)" "shift_of (scan (snd p) kb) sh"
      using kbdgetc_scan [OF Cons.prems False] by blast
    have "0 \<le> sint (ucast (code_char (snd p) kb) :: cint)"
      using bit_imp_le_length [of "code_char (snd p) kb" 31] by (auto simp: signed_ucast_eq bit_unsigned_iff)
    then show ?thesis using Cons.IH [OF sh(2)] sh(1) False by (auto simp: codes_def)
  qed
qed (simp add: codes_def)

text \<open>C34: Typing on the keyboard, against the history of its keys. When the flags \<open>shift\<close> stand for the keys
  pressed and released so far, an interrupt returns, the flags stand for the history with the codes it
  read (a shift, control or alt key holds from its press to its release, a lock key changes sides at each
  press, an \<open>0xE0\<close> goes with the next code only), and the input of the console is what the abstract
  editor makes of the characters typed: each key pressed gives that of the map its held modifiers choose,
  the case exchanged under the caps lock, and a release gives none. So this holds of any sequence of
  interrupts from the start, where no key has been pressed.
\<close>

theorem kbdintr_keys:
  assumes "shift_of kb shift" and "cons_quiet s"
  shows "\<exists>shift' t. kbdintr ports shift s = Ok (shift', t) \<and> shift_of (fold scan (codes ports) kb) shift' \<and>
    cons_quiet t \<and> (input_ready (k_input t), input_line (k_input t)) =
      fold edited (map ucast (typed_chars (codes ports) kb)) (input_ready (k_input s), input_line (k_input s))"
proof -
  obtain shift' where k: "kbd_chars ports shift = (map ucast (typed_chars (codes ports) kb), shift')"
    "shift_of (fold scan (codes ports) kb) shift'"
    using kbd_chars_scan [OF assms(1)] by blast
  have "\<forall>c \<in> set (map ucast (typed_chars (codes ports) kb)). c < (256 :: cint)" using ucast_below256 by auto
  from consoleintr_typed [OF assms(2) this] show ?thesis using k by (auto simp: kbdintr_def)
qed

text \<open>A shifted letter, the same key after the shift was released, then enter.\<close>

theorem kbdintr_keys_witness:
  "let s = boot_ckernel 100 (); ports = map (Pair 1) [0x2A, 0x1E, 0x9E, 0xAA, 0x1E, 0x9E, 0x1C, 0x9C] in
   shift_of (False, []) 0 \<and> cons_quiet s \<and>
   (\<exists>shift' t. kbdintr ports 0 s = Ok (shift', t) \<and> input_ready (k_input t) = [0x41, 0x61, 10])"
proof -
  let ?s = "boot_ckernel 100 ()"
  let ?bs = "[0x2A, 0x1E, 0x9E, 0xAA, 0x1E, 0x9E, 0x1C, 0x9C] :: uchar list"
  let ?ports = "map (Pair 1) ?bs :: (uchar \<times> uchar) list"
  have start: "shift_of (False, []) 0" by (simp add: shift_of_def locked_def)
  have "codes ?ports = ?bs" by (simp add: codes_def)
  moreover have "typed_chars ?bs (False, []) = [0, 0x41, 0, 0, 0x61, 0, 10, 0]" by code_simp
  moreover have "fold edited (map ucast [0, 0x41, 0, 0, 0x61, 0, 10, 0 :: uchar]) ([], []) = ([0x41, 0x61, 10], [])"
    by (simp add: edited_def)
  ultimately show ?thesis
    using kbdintr_keys [OF start boot_cons_quiet(1), of ?ports 100 "()"] boot_cons_quiet [of 100 "()"] start
    by (auto simp: Let_def)
qed

end
