(* ===== verification/Ulib.thy ===== *)
theory Ulib
  imports Prelude
begin

text \<open>
  The C library of the user programs (\<^verbatim>\<open>ulib.c\<close>). A pointer into a C string is the list of the bytes
  from there up to the NUL, which is not part of the list: \<open>*s\<close> is \<open>deref s\<close> and \<open>s + 1\<close> is the tail.
  Reading from a file descriptor takes bytes off a list of what the system has to deliver.
\<close>

section \<open>Strings\<close>

type_synonym ustr = "uchar list"

definition deref :: "ustr \<Rightarrow> uchar" where
  "deref s = (case s of [] \<Rightarrow> 0 | c # _ \<Rightarrow> c)"

text \<open>\<open>strcpy\<close>: what is in the array afterwards, up to its length; a string that does not fit is undefined.\<close>

primrec strcpy :: "uchar list \<Rightarrow> ustr \<Rightarrow> uchar list outcome" where
  "strcpy s [] = (case s of [] \<Rightarrow> Fault ''strcpy'' | _ # s \<Rightarrow> Ok (0 # s))"
| "strcpy s (c # t) =
     (case s of [] \<Rightarrow> Fault ''strcpy'' | _ # s \<Rightarrow> andthen (strcpy s t) (\<lambda>s. Ok (c # s)))"

fun strcmp :: "ustr \<Rightarrow> ustr \<Rightarrow> cint" where
  "strcmp (a # p) (b # q) = (if a = b then strcmp p q else ucast a - ucast b)"
| "strcmp p q = ucast (deref p) - ucast (deref q)"

primrec ustrlen_loop :: "ustr \<Rightarrow> cint \<Rightarrow> cint" where
  "ustrlen_loop [] n = n"
| "ustrlen_loop (_ # s) n = ustrlen_loop s (n + 1)"

definition ustrlen :: "ustr \<Rightarrow> uint" where
  "ustrlen s = ustrlen_loop s 0"

text \<open>\<open>strchr\<close>: the pointer to the first \<open>c\<close>; a NUL is never found.\<close>

primrec strchr :: "ustr \<Rightarrow> uchar \<Rightarrow> ustr option" where
  "strchr [] c = None"
| "strchr (a # s) c = (if a = c then Some (a # s) else strchr s c)"

primrec atoi_loop :: "ustr \<Rightarrow> cint \<Rightarrow> cint" where
  "atoi_loop [] n = n"
| "atoi_loop (c # s) n =
     (if 0x30 \<le> c \<and> c \<le> 0x39 then atoi_loop s (n * 10 + ucast c - 0x30) else n)"

definition atoi :: "ustr \<Rightarrow> cint" where
  "atoi s = atoi_loop s 0"

section \<open>Memory\<close>

text \<open>\<open>memset\<close> (\<open>stosb\<close>) and \<open>memmove\<close>, which copies upwards whatever the ranges are.\<close>

primrec umemset :: "nat \<Rightarrow> uchar \<Rightarrow> addr_t \<Rightarrow> (addr_t \<Rightarrow> uchar) \<Rightarrow> addr_t \<Rightarrow> uchar" where
  "umemset 0 c dst m = m"
| "umemset (Suc n) c dst m = umemset n c (dst + 1) (m(dst := c))"

primrec umemmove_loop :: "nat \<Rightarrow> addr_t \<Rightarrow> addr_t \<Rightarrow> (addr_t \<Rightarrow> uchar) \<Rightarrow> addr_t \<Rightarrow> uchar" where
  "umemmove_loop 0 dst src m = m"
| "umemmove_loop (Suc n) dst src m = umemmove_loop n (dst + 1) (src + 1) (m(dst := m src))"

definition umemmove :: "addr_t \<Rightarrow> addr_t \<Rightarrow> cint \<Rightarrow> (addr_t \<Rightarrow> uchar) \<Rightarrow> addr_t \<Rightarrow> uchar" where
  "umemmove vdst vsrc n m = umemmove_loop (nat (sint n)) vdst vsrc m"

section \<open>Reading\<close>

text \<open>
  What the \<open>read\<close> calls of a program can get: bytes that are ready together, or an error. A call takes at
  most as many bytes as it asks for; at the end it gets none.
\<close>

datatype delivery = Data "uchar list" | Fail

fun uread :: "nat \<Rightarrow> delivery list \<Rightarrow> uchar list option \<times> delivery list" where
  "uread n [] = (Some [], [])"
| "uread n (Fail # ds) = (None, ds)"
| "uread n (Data d # ds) = (Some (take n d), if length d \<le> n then ds else Data (drop n d) # ds)"

text \<open>The bytes that are still to be read; a \<open>read\<close> that gets some leaves fewer.\<close>

definition to_come :: "delivery list \<Rightarrow> nat" where
  "to_come ds = sum_list (map (\<lambda>d. case d of Data x \<Rightarrow> length x | Fail \<Rightarrow> 0) ds)"

lemma uread_less: "uread n ds = (Some (c # cs), ds') \<Longrightarrow> to_come ds' < to_come ds"
proof (cases "(n, ds)" rule: uread.cases)
  case (3 k d es)
  assume r: "uread n ds = (Some (c # cs), ds')"
  then have "take k d = c # cs" using 3 by simp
  then have "0 < length d" "0 < k" by (cases k; cases d; simp)+
  then show ?thesis using r 3 by (auto simp: to_come_def split: if_splits)
qed (auto simp: to_come_def)

text \<open>\<open>gets\<close>, with room for \<open>max\<close> bytes and the NUL among them; \<open>cs\<close> are the bytes it has stored.\<close>

fun gets_loop :: "nat \<Rightarrow> uchar list \<Rightarrow> delivery list \<Rightarrow> uchar list \<times> delivery list" where
  "gets_loop 0 cs ds = (cs, ds)"
| "gets_loop (Suc n) cs ds =
     (case uread 1 ds of
        (Some [c], ds) \<Rightarrow> if c = 0x0A \<or> c = 0x0D then (cs @ [c], ds) else gets_loop n (cs @ [c]) ds
      | (_, ds) \<Rightarrow> (cs, ds))"

definition gets :: "nat \<Rightarrow> delivery list \<Rightarrow> uchar list \<times> delivery list" where
  "gets mx ds = (let (cs, ds) = gets_loop (mx - 1) [] ds in (cs @ [0], ds))"

section \<open>Facts\<close>

lemma strchr_None_iff: "strchr s c = None \<longleftrightarrow> c \<notin> set s"
  by (induction s) auto

lemma strchr_Some: "strchr s c = Some q \<Longrightarrow> \<exists>p q'. s = p @ q \<and> q = c # q' \<and> c \<notin> set p"
proof (induction s)
  case (Cons a s)
  show ?case
  proof (cases "a = c")
    case True
    then show ?thesis using Cons.prems by (intro exI [of _ "[]"] exI [of _ s]) simp
  next
    case False
    then obtain p q' where "s = p @ q" "q = c # q'" "c \<notin> set p" using Cons by auto
    then show ?thesis using False by (intro exI [of _ "a # p"] exI [of _ q']) simp
  qed
qed simp

lemma ustrlen_length: "ustrlen s = of_nat (length s)"
proof -
  have "ustrlen_loop s n = n + of_nat (length s)" for n by (induction s arbitrary: n) simp_all
  then show ?thesis by (simp add: ustrlen_def)
qed

lemma ucast_byte_inj [simp]: "(ucast (a :: uchar) :: cint) = ucast b \<longleftrightarrow> a = b"
proof -
  have "(ucast a :: cint) = ucast b \<longleftrightarrow> unat (ucast a :: cint) = unat (ucast b :: cint)" by (rule word_unat_eq_iff)
  then show ?thesis by (simp add: word_unat_eq_iff [of a])
qed

lemma ucast_byte_zero [simp]: "(ucast (a :: uchar) :: cint) = 0 \<longleftrightarrow> a = 0"
  using ucast_byte_inj [of a 0] by simp

lemma strcmp_zero_iff:
  assumes "0 \<notin> set p" and "0 \<notin> set q"
  shows "strcmp p q = 0 \<longleftrightarrow> p = q"
  using assms
proof (induction p q rule: strcmp.induct)
  case (1 a p b q)
  then show ?case by simp
qed (auto simp: deref_def eq_commute [of 0] split: list.splits)

end
