(* ===== verification/Grep.thy ===== *)
theory Grep
  imports Ulib
begin

text \<open>
  \<^verbatim>\<open>grep.c\<close>: the regular expression matcher, shown to decide the language of a pattern, and the loop
  over the input, shown to print the matching lines of a file.
\<close>

section \<open>The matcher\<close>

text \<open>The three functions test one byte at a time; the end of a list is the NUL of the string.\<close>

function (sequential) matchhere :: "ustr \<Rightarrow> ustr \<Rightarrow> bool"
  and matchstar :: "uchar \<Rightarrow> ustr \<Rightarrow> ustr \<Rightarrow> bool" where
  "matchhere [] s = True"
| "matchhere (c # re) s =
     (if deref re = 0x2A then matchstar c (tl re) s
      else if c = 0x24 \<and> re = [] then s = []
      else case s of [] \<Rightarrow> False | t # s \<Rightarrow> (c = 0x2E \<or> c = t) \<and> matchhere re s)"
| "matchstar c re s =
     (matchhere re s \<or>
      (case s of [] \<Rightarrow> False | t # s \<Rightarrow> (t = c \<or> c = 0x2E) \<and> matchstar c re s))"
  by pat_completeness auto

termination
  by (relation "measure (\<lambda>x. case x of Inl (re, s) \<Rightarrow> 2 * (length re + length s)
        | Inr (c, re, s) \<Rightarrow> Suc (2 * (length re + length s)))")
    (auto simp: deref_def split: list.splits)

declare matchstar.simps [simp del]

primrec match_loop :: "ustr \<Rightarrow> ustr \<Rightarrow> bool" where
  "match_loop re [] = matchhere re []"
| "match_loop re (t # s) = (matchhere re (t # s) \<or> match_loop re s)"

definition match :: "ustr \<Rightarrow> ustr \<Rightarrow> bool" where
  "match re s = (if deref re = 0x5E then matchhere (tl re) s else match_loop re s)"

section \<open>What a pattern means\<close>

text \<open>
  A pattern is a sequence of bytes, \<open>None\<close> for the dot, each one repeated or not, and may be anchored at
  the end of the text. Its language is the set of the strings it stands for.
\<close>

type_synonym piece = "uchar option \<times> bool"

definition piece_of :: "uchar \<Rightarrow> uchar option" where
  "piece_of c = (if c = 0x2E then None else Some c)"

fun pieces :: "ustr \<Rightarrow> piece list \<times> bool" where
  "pieces [] = ([], False)"
| "pieces (c # re) =
     (if deref re = 0x2A then apfst (Cons (piece_of c, True)) (pieces (tl re))
      else if c = 0x24 \<and> re = [] then ([], True)
      else apfst (Cons (piece_of c, False)) (pieces re))"

definition stands_for :: "uchar option \<Rightarrow> uchar set" where
  "stands_for a = (case a of None \<Rightarrow> UNIV | Some c \<Rightarrow> {c})"

primrec lang :: "piece list \<Rightarrow> ustr set" where
  "lang [] = {[]}"
| "lang (p # ps) =
     (if snd p then {v @ w | v w. set v \<subseteq> stands_for (fst p) \<and> w \<in> lang ps}
      else {x # w | x w. x \<in> stands_for (fst p) \<and> w \<in> lang ps})"

text \<open>The text from here on starts with a string of the language, and ends there when that is asked for.\<close>

definition here :: "piece list \<times> bool \<Rightarrow> ustr \<Rightarrow> bool" where
  "here p s \<longleftrightarrow> (\<exists>w post. s = w @ post \<and> w \<in> lang (fst p) \<and> (snd p \<longrightarrow> post = []))"

lemma here_Nil: "here ([], False) s" "here ([], True) s \<longleftrightarrow> s = []"
  by (auto simp: here_def)

lemma here_single:
  "here (apfst (Cons (a, False)) p) s \<longleftrightarrow>
     (\<exists>t rest. s = t # rest \<and> t \<in> stands_for a \<and> here p rest)"
proof -
  have "here (apfst (Cons (a, False)) p) s \<longleftrightarrow>
      (\<exists>x w post. s = x # w @ post \<and> x \<in> stands_for a \<and> w \<in> lang (fst p) \<and> (snd p \<longrightarrow> post = []))"
    unfolding here_def by simp (metis append_Cons)
  then show ?thesis unfolding here_def by blast
qed

lemma here_many:
  "here (apfst (Cons (a, True)) p) s \<longleftrightarrow>
     (\<exists>v rest. s = v @ rest \<and> set v \<subseteq> stands_for a \<and> here p rest)"
proof -
  have "here (apfst (Cons (a, True)) p) s \<longleftrightarrow>
      (\<exists>v w post. s = v @ w @ post \<and> set v \<subseteq> stands_for a \<and> w \<in> lang (fst p) \<and> (snd p \<longrightarrow> post = []))"
    unfolding here_def by simp (metis append_assoc)
  then show ?thesis unfolding here_def by blast
qed

lemma many_unfold:
  "here (apfst (Cons (a, True)) p) s \<longleftrightarrow>
     here p s \<or> (\<exists>t rest. s = t # rest \<and> t \<in> stands_for a \<and> here (apfst (Cons (a, True)) p) rest)"
  (is "?l \<longleftrightarrow> ?r")
proof
  assume ?l
  then obtain v rest where v: "s = v @ rest" "set v \<subseteq> stands_for a" "here p rest" by (auto simp: here_many)
  then show ?r unfolding here_many by (cases v) fastforce+
next
  assume ?r
  then show ?l
  proof (elim disjE exE conjE)
    assume "here p s"
    then show ?l unfolding here_many by (intro exI [of _ "[]"] exI [of _ s]) simp
  next
    fix t rest
    assume t: "s = t # rest" "t \<in> stands_for a" "here (apfst (Cons (a, True)) p) rest"
    then obtain v r where "rest = v @ r" "set v \<subseteq> stands_for a" "here p r" by (auto simp: here_many)
    then show ?l using t unfolding here_many by (intro exI [of _ "t # v"] exI [of _ r]) simp
  qed
qed

lemma piece_stands: "t \<in> stands_for (piece_of c) \<longleftrightarrow> t = c \<or> c = 0x2E"
  by (auto simp: piece_of_def stands_for_def)

lemma matchhere_here:
  "matchhere re s \<longleftrightarrow> here (pieces re) s"
  "matchstar c re s \<longleftrightarrow> here (apfst (Cons (piece_of c, True)) (pieces re)) s"
proof (induction re s and c re s rule: matchhere_matchstar.induct)
  case (2 c re s)
  show ?case
  proof (cases "deref re = 0x2A")
    case False
    show ?thesis
    proof (cases "c = 0x24 \<and> re = []")
      case outer: False
      show ?thesis
        using 2(2) [OF False outer] False outer
        by (cases s) (auto simp: here_single piece_stands)
    qed (use False in \<open>auto simp: here_Nil deref_def\<close>)
  qed (use 2(1) in simp)
next
  case (3 c re s)
  show ?case
    unfolding matchstar.simps [of c re s] many_unfold [of "piece_of c" "pieces re" s]
    using 3 by (cases s) (auto simp: piece_stands)
qed (simp add: here_Nil)

lemma match_loop_here: "match_loop re s \<longleftrightarrow> (\<exists>pre rest. s = pre @ rest \<and> here (pieces re) rest)"
proof (induction s)
  case (Cons t s)
  have "(\<exists>pre rest. t # s = pre @ rest \<and> here (pieces re) rest) \<longleftrightarrow>
      here (pieces re) (t # s) \<or> (\<exists>pre rest. s = pre @ rest \<and> here (pieces re) rest)"
    by (auto simp: Cons_eq_append_conv)
  then show ?case using Cons.IH by (simp add: matchhere_here del: matchhere.simps)
qed (simp add: matchhere_here del: matchhere.simps)

text \<open>C23: \<open>match\<close> decides whether a text has a part that the pattern stands for: anywhere, or at the start of the
  text when the pattern begins with a caret, and reaching to the end when it ends in a dollar sign.  The dot stands
  for any byte, the star repeats the byte before it any number of times, and every other byte stands for itself.
\<close>

theorem match_decides:
  "match re s \<longleftrightarrow>
     (let bol = (deref re = 0x5E); (ps, eol) = pieces (if bol then tl re else re) in
      \<exists>pre w post. s = pre @ w @ post \<and> w \<in> lang ps \<and> (bol \<longrightarrow> pre = []) \<and> (eol \<longrightarrow> post = []))"
  by (cases "deref re = 0x5E")
    (auto simp: match_def match_loop_here matchhere_here here_def split_beta simp del: matchhere.simps)

theorem match_decides_witness: "match [0x62, 0x2A, 0x63] [0x61, 0x62, 0x62, 0x63, 0x64]"
  unfolding match_decides
  by (simp add: deref_def piece_of_def stands_for_def)
    (rule exI [of _ "[0x61]"], rule exI [of _ "[0x62, 0x62, 0x63]"], rule conjI, rule exI [of _ "[0x64]"], simp,
     rule exI [of _ "[0x62, 0x62]"], simp)

section \<open>The lines of the input\<close>

text \<open>The inner loop of \<open>grep\<close>: what it prints of the buffer, and what is left after the last newline.\<close>

definition cut :: "uchar list \<Rightarrow> ustr" where
  "cut p = takeWhile (\<lambda>c. c \<noteq> 0) p"

lemma cut_newline:
  assumes "strchr (cut p) c = Some q"
  shows "length (cut p) - length q < length p"
proof -
  have "length (cut p) \<le> length p" unfolding cut_def by (rule length_takeWhile_le)
  moreover have "q \<noteq> []" using strchr_Some [OF assms] by auto
  moreover have "cut p \<noteq> []" using assms by auto
  ultimately show ?thesis by (cases q; cases "cut p") auto
qed

function scan :: "ustr \<Rightarrow> uchar list \<Rightarrow> uchar list \<times> uchar list" where
  "scan pattern p =
     (case strchr (cut p) 0x0A of
        None \<Rightarrow> ([], p)
      | Some q \<Rightarrow>
          let n = length (cut p) - length q; line = take n p; (out, r) = scan pattern (drop (Suc n) p) in
          (if match pattern line then (line @ [0x0A]) @ out else out, r))"
  by pat_completeness auto

termination
  by (relation "measure (\<lambda>(pattern, p). length p)") (auto dest: cut_newline)

declare scan.simps [simp del]

text \<open>
  The outer loop, with the bytes that stand at the start of the buffer and what is written to the output.
  A buffer without a newline is thrown away.
\<close>

function grep_loop :: "ustr \<Rightarrow> uchar list \<Rightarrow> delivery list \<Rightarrow> uchar list" where
  "grep_loop pattern left ds =
     (case uread (1024 - length left - 1) ds of
        (Some (c # cs), ds') \<Rightarrow>
          let buf = left @ c # cs; (out, p) = scan pattern buf in
          out @ grep_loop pattern (if length p = length buf then [] else p) ds'
      | _ \<Rightarrow> [])"
  by pat_completeness auto

termination
  by (relation "measure (\<lambda>(pattern, left, ds). to_come ds)") (auto dest!: uread_less [OF sym])

declare grep_loop.simps [simp del]

definition grep :: "ustr \<Rightarrow> delivery list \<Rightarrow> uchar list" where
  "grep pattern ds = grep_loop pattern [] ds"

text \<open>The lines of a text, without their newlines, and what comes after the last newline.\<close>

primrec lines_from :: "uchar list \<Rightarrow> uchar list \<Rightarrow> uchar list list \<times> uchar list" where
  "lines_from l [] = ([], l)"
| "lines_from l (c # cs) =
     (if c = 0x0A then apfst (Cons l) (lines_from [] cs) else lines_from (l @ [c]) cs)"

definition lines_of :: "uchar list \<Rightarrow> uchar list list" where
  "lines_of d = fst (lines_from [] d)"

definition tail_of :: "uchar list \<Rightarrow> uchar list" where
  "tail_of d = snd (lines_from [] d)"

definition printed :: "ustr \<Rightarrow> uchar list \<Rightarrow> uchar list" where
  "printed pattern d = concat (map (\<lambda>l. l @ [0x0A]) (filter (match pattern) (lines_of d)))"

lemma lines_from_append:
  "lines_from l (a @ b) = (let (x, t) = lines_from l a in apfst ((@) x) (lines_from t b))"
  by (induction a arbitrary: l) (simp_all add: split_beta Let_def apfst_def map_prod_def)

lemma lines_from_start: "0x0A \<notin> set a \<Longrightarrow> lines_from l (a @ b) = lines_from (l @ a) b"
  by (induction a arbitrary: l) simp_all

lemma lines_no_newline: "0x0A \<notin> set d \<Longrightarrow> lines_of d = [] \<and> tail_of d = d"
  using lines_from_start [of d "[]" "[]"] by (simp add: lines_of_def tail_of_def)

lemma lines_of_append: "lines_of (a @ b) = lines_of a @ lines_of (tail_of a @ b)"
  "tail_of (a @ b) = tail_of (tail_of a @ b)" "0x0A \<notin> set (tail_of a)"
proof -
  have nl: "0x0A \<notin> set l \<Longrightarrow> 0x0A \<notin> set (snd (lines_from l a))" for l by (induction a arbitrary: l) auto
  then show "0x0A \<notin> set (tail_of a)" by (simp add: tail_of_def)
  then have "lines_from [] (tail_of a @ b) = lines_from (tail_of a) b" by (simp add: lines_from_start)
  then show "lines_of (a @ b) = lines_of a @ lines_of (tail_of a @ b)" "tail_of (a @ b) = tail_of (tail_of a @ b)"
    by (simp_all add: lines_of_def tail_of_def lines_from_append split_beta Let_def)
qed

lemma lines_first: "0x0A \<notin> set a \<Longrightarrow> lines_of (a @ 0x0A # b) = a # lines_of b \<and> tail_of (a @ 0x0A # b) = tail_of b"
  by (simp add: lines_of_def tail_of_def lines_from_start)

lemma tail_shorter: "0x0A \<in> set d \<Longrightarrow> length (tail_of d) < length d"
proof (induction d rule: length_induct)
  case (1 d)
  then obtain a b where d: "d = a @ 0x0A # b" "0x0A \<notin> set a" by (meson split_list_first)
  show ?case
  proof (cases "0x0A \<in> set b")
    case True
    then have "length (tail_of b) < length b" using 1(1) d(1) by simp
    then show ?thesis using d lines_first [OF d(2), of b] by simp
  qed (use d lines_first [OF d(2), of b] lines_no_newline [of b] in simp)
qed

lemma tail_of_subset: "set (tail_of d) \<subseteq> set d"
proof -
  have "set (snd (lines_from l d)) \<subseteq> set l \<union> set d" for l
  proof (induction d arbitrary: l)
    case (Cons c d)
    show ?case using Cons [of "[]"] Cons [of "l @ [c]"] by auto
  qed simp
  then show ?thesis unfolding tail_of_def by force
qed

lemma printed_append: "printed pattern (a @ b) = printed pattern a @ printed pattern (tail_of a @ b)"
  by (simp add: printed_def lines_of_append(1) [of a b])

lemma scan_lines: "0 \<notin> set p \<Longrightarrow> scan pattern p = (printed pattern p, tail_of p)"
proof (induction p rule: length_induct)
  case (1 p)
  have cut: "cut p = p" using 1(2) by (auto simp: cut_def takeWhile_eq_all_conv)
  show ?case
  proof (cases "strchr p 0x0A")
    case None
    then have "0x0A \<notin> set p" by (simp add: strchr_None_iff)
    then show ?thesis using None lines_no_newline [of p] by (simp add: scan.simps [of _ p] cut printed_def)
  next
    case (Some q)
    then obtain a b where p: "p = a @ q" "q = 0x0A # b" "0x0A \<notin> set a" using strchr_Some by blast
    have "scan pattern b = (printed pattern b, tail_of b)" using 1 p by simp
    moreover have "length p - length q = length a" "take (length a) p = a" "drop (Suc (length a)) p = b"
      using p by simp_all
    ultimately have "scan pattern p =
        (if match pattern a then (a @ [0x0A]) @ printed pattern b else printed pattern b, tail_of b)"
      using Some by (simp add: scan.simps [of _ p] cut)
    then show ?thesis using p lines_first [OF p(3), of b] by (simp add: printed_def)
  qed
qed

lemma grep_loop_end: "grep_loop pattern left [] = []" "grep_loop pattern left [Data []] = []"
  by (simp_all add: grep_loop.simps)

lemma grep_loop_turn:
  assumes "d \<noteq> []" and "length left < 1023" and "n = 1023 - length left" and "0 \<notin> set (left @ d)"
    and "buf = left @ take n d"
  shows "grep_loop pattern left [Data d] =
    printed pattern buf @ grep_loop pattern (if 0x0A \<in> set buf then tail_of buf else []) [Data (drop n d)]"
proof -
  obtain c cs where ccs: "take n d = c # cs" using assms(1-3) by (cases "take n d") auto
  have n: "1024 - length left - 1 = n" using assms(3) by simp
  have "0 \<notin> set buf" using assms(4,5) by (auto dest: in_set_takeD)
  then have scan: "scan pattern buf = (printed pattern buf, tail_of buf)" by (rule scan_lines)
  have "(length (tail_of buf) = length buf) = (0x0A \<notin> set buf)"
    using tail_shorter [of buf] lines_no_newline [of buf] by fastforce
  moreover have "grep_loop pattern l (if length d \<le> n then [] else [Data (drop n d)]) =
      grep_loop pattern l [Data (drop n d)]" for l
    by (simp add: grep_loop_end)
  ultimately show ?thesis
    unfolding grep_loop.simps [of _ _ "[Data d]"] n
    using ccs scan assms(5) by (simp add: Let_def)
qed

lemma grep_loop_prints:
  assumes "0 \<notin> set (left @ d)" and "0x0A \<notin> set left" and "length left < 1023"
    and "\<And>l. l \<in> set (lines_of (left @ d)) \<Longrightarrow> length l < 1023"
  shows "grep_loop pattern left [Data d] = printed pattern (left @ d)"
  using assms
proof (induction d arbitrary: left rule: length_induct)
  case (1 d)
  show ?case
  proof (cases "d = []")
    case False
    let ?n = "1023 - length left"
    let ?buf = "left @ take ?n d" and ?d = "drop ?n d"
    have split: "left @ d = ?buf @ ?d" by simp
    note turn = grep_loop_turn [OF False 1(4) refl 1(2) refl, of pattern]
    have shorter: "length ?d < length d" using False 1(4) by (cases d) auto
    have z: "0 \<notin> set ?buf" "0 \<notin> set ?d" using 1(2) by (auto dest: in_set_takeD in_set_dropD)
    show ?thesis
    proof (cases "0x0A \<in> set ?buf")
      case True
      have "length ?buf \<le> 1023" using 1(4) by simp
      then have t: "length (tail_of ?buf) < 1023" "0x0A \<notin> set (tail_of ?buf)"
        using tail_shorter [OF True] lines_of_append(3) [of ?buf] by linarith+
      moreover have "0 \<notin> set (tail_of ?buf @ ?d)" using z tail_of_subset [of ?buf] by auto
      moreover have "length l < 1023" if "l \<in> set (lines_of (tail_of ?buf @ ?d))" for l
        using 1(5) [of l] that unfolding split lines_of_append(1) [of ?buf ?d] by simp
      ultimately have "grep_loop pattern (tail_of ?buf) [Data ?d] = printed pattern (tail_of ?buf @ ?d)"
        using 1(1) shorter by blast
      moreover have "printed pattern (left @ d) = printed pattern ?buf @ printed pattern (tail_of ?buf @ ?d)"
        unfolding split by (rule printed_append)
      ultimately show ?thesis using turn True by (simp only: if_True)
    next
      case no: False
      have "0x0A \<notin> set ?d"
      proof
        assume "0x0A \<in> set ?d"
        then obtain a b where "?d = a @ 0x0A # b" "0x0A \<notin> set a" by (meson split_list_first)
        then have "lines_of (left @ d) = (?buf @ a) # lines_of b"
          using lines_first [of "?buf @ a" b] no unfolding split by (simp del: append_take_drop_id)
        moreover have "?d \<noteq> []" using \<open>0x0A \<in> set ?d\<close> by auto
        ultimately show False using 1(5) 1(4) by fastforce
      qed
      then have "0x0A \<notin> set ?d" "0x0A \<notin> set (left @ d)"
        using no unfolding split by (simp_all del: append_take_drop_id)
      then have "lines_of ?d = []" "lines_of ?buf = []" "lines_of (left @ d) = []"
        using no lines_no_newline by blast+
      moreover from this have "grep_loop pattern [] [Data ?d] = printed pattern ?d"
        using 1(1) shorter z(2) by simp
      ultimately show ?thesis using turn no by (simp add: printed_def)
    qed
  qed (use 1(3) lines_no_newline [of left] in \<open>simp add: grep_loop_end printed_def\<close>)
qed

text \<open>C29: On a text file in which every line has fewer than 1023 bytes, \<open>grep\<close> prints exactly the lines that match
  the pattern, whole and in their order, although it reads the file in pieces that end anywhere in a line.  A last
  line without a newline is not printed.
\<close>

theorem grep_prints:
  assumes "0 \<notin> set d" and "\<forall>l \<in> set (lines_of d). length l < 1023"
  shows "grep pattern [Data d] = concat (map (\<lambda>l. l @ [0x0A]) (filter (match pattern) (lines_of d)))"
  using grep_loop_prints [of "[]" d pattern] assms by (simp add: grep_def printed_def)

theorem grep_prints_witness:
  "grep [0x62] [Data [0x61, 0x62, 0x0A, 0x61, 0x0A, 0x62, 0x0A, 0x62]] = [0x61, 0x62, 0x0A, 0x62, 0x0A]"
  using grep_prints [of "[0x61, 0x62, 0x0A, 0x61, 0x0A, 0x62, 0x0A, 0x62]" "[0x62]"]
  by (simp add: lines_of_def match_def deref_def)

text \<open>A line that arrives in two pieces is lost: the buffer has no newline after the first one.\<close>

lemma grep_loses_line:
  "grep [0x62] [Data [0x62, 0x0A]] = [0x62, 0x0A]" "grep [0x62] [Data [0x62], Data [0x0A]] = []"
proof -
  have s: "scan p [0x62] = ([], [0x62])" "scan p [] = ([], [])" for p by (simp_all add: scan.simps cut_def)
  have m: "match [0x62] [0x62]" "\<not> match [0x62] []" by code_simp+
  then have "scan [0x62] [0x62, 0x0A] = ([0x62, 0x0A], [])" "scan [0x62] [0x0A] = ([], [])"
    using s by (simp_all add: scan.simps [of _ "_ # _"] cut_def Let_def)
  then show "grep [0x62] [Data [0x62, 0x0A]] = [0x62, 0x0A]" "grep [0x62] [Data [0x62], Data [0x0A]] = []"
    using s by (simp_all add: grep_def grep_loop.simps)
qed

end
