(* ===== verification/Printf.thy ===== *)
theory Printf
  imports Print Ulib
begin

text \<open>
  \<open>printf\<close> of the user programs (\<^verbatim>\<open>printf.c\<close>): the bytes it writes to its file descriptor, one \<open>write\<close>
  each. What it prints for a number is read back by \<open>atoi\<close> (\<^verbatim>\<open>ulib.c\<close>).
\<close>

section \<open>Formatted output\<close>

definition uprint_x64 :: "addr_t \<Rightarrow> uchar list" where
  "uprint_x64 x = hex_loop 16 x"

definition uprint_x32 :: "uint \<Rightarrow> uchar list" where
  "uprint_x32 x = hex_loop 8 x"

definition uprint_d :: "cint \<Rightarrow> uchar list" where
  "uprint_d v = rev (dec_loop (nat \<bar>sint v\<bar>) @ (if sint v < 0 then cstr ''-'' else []))"

datatype uarg = Uarg_c cint | Uarg_d cint | Uarg_x uint | Uarg_p addr_t | Uarg_s "ustr option"

text \<open>
  The loop over the format with the arguments that are left; a format that asks for an argument of another
  type, or for more than there are, is undefined.
\<close>

fun printf :: "ustr \<Rightarrow> uarg list \<Rightarrow> uchar list outcome" where
  "printf [] ap = Ok []"
| "printf (c # fmt) ap =
     (if c \<noteq> 0x25 then andthen (printf fmt ap) (\<lambda>out. Ok (c # out))
      else case fmt of
        [] \<Rightarrow> Ok []
      | c # fmt \<Rightarrow>
          if c = of_char (CHR ''c'') then
            (case ap of Uarg_c v # ap \<Rightarrow> andthen (printf fmt ap) (\<lambda>out. Ok (ucast v # out))
             | _ \<Rightarrow> Fault ''bad argument'')
          else if c = of_char (CHR ''d'') then
            (case ap of Uarg_d v # ap \<Rightarrow> andthen (printf fmt ap) (\<lambda>out. Ok (uprint_d v @ out))
             | _ \<Rightarrow> Fault ''bad argument'')
          else if c = of_char (CHR ''x'') then
            (case ap of Uarg_x v # ap \<Rightarrow> andthen (printf fmt ap) (\<lambda>out. Ok (uprint_x32 v @ out))
             | _ \<Rightarrow> Fault ''bad argument'')
          else if c = of_char (CHR ''p'') then
            (case ap of Uarg_p v # ap \<Rightarrow> andthen (printf fmt ap) (\<lambda>out. Ok (uprint_x64 v @ out))
             | _ \<Rightarrow> Fault ''bad argument'')
          else if c = of_char (CHR ''s'') then
            (case ap of Uarg_s v # ap \<Rightarrow>
               andthen (printf fmt ap) (\<lambda>out. Ok ((case v of None \<Rightarrow> cstr ''(null)'' | Some s \<Rightarrow> s) @ out))
             | _ \<Rightarrow> Fault ''bad argument'')
          else if c = 0x25 then andthen (printf fmt ap) (\<lambda>out. Ok (0x25 # out))
          else andthen (printf fmt ap) (\<lambda>out. Ok (0x25 # c # out)))"

section \<open>Numbers read back\<close>

lemma atoi_loop_append:
  "(\<And>c. c \<in> set a \<Longrightarrow> 0x30 \<le> c \<and> c \<le> 0x39) \<Longrightarrow> atoi_loop (a @ b) n = atoi_loop b (atoi_loop a n)"
  by (induction a arbitrary: n) auto

lemma atoi_digit: "k < 10 \<Longrightarrow> atoi_loop (digits ! k # b) n = atoi_loop b (n * 10 + of_nat k)"
proof -
  assume k: "k < 10"
  have "unat (digits ! k) = 48 + k" using k digits_nth [OF k] by (simp add: unat_of_nat take_bit_nat_eq_self del: of_nat_add)
  then have "0x30 \<le> digits ! k" "digits ! k \<le> 0x39" "(ucast (digits ! k) :: cint) = of_nat (48 + k)"
    using k by (simp_all add: word_le_nat_alt word_unat_eq_iff unat_of_nat take_bit_nat_eq_self del: of_nat_add)
  then show "atoi_loop (digits ! k # b) n = atoi_loop b (n * 10 + of_nat k)" by simp
qed

lemma atoi_snoc_digit:
  assumes "k < 10" and "\<And>c. c \<in> set a \<Longrightarrow> 0x30 \<le> c \<and> c \<le> 0x39"
  shows "atoi_loop (a @ [digits ! k]) n = atoi_loop a n * 10 + of_nat k"
  using atoi_loop_append [of a "[digits ! k]" n, OF assms(2)] atoi_digit [OF assms(1), of "[]"] by simp

lemma atoi_dec_loop: "atoi_loop (rev (dec_loop x)) 0 = of_nat x"
proof (induction x rule: dec_loop.induct)
  case (1 x)
  let ?a = "if x div 10 \<noteq> 0 then rev (dec_loop (x div 10)) else []"
  have a: "atoi_loop ?a 0 = of_nat (x div 10)" using 1 by simp
  have "rev (dec_loop x) = ?a @ [digits ! (x mod 10)]" by (subst dec_loop.simps) simp
  then have "atoi_loop (rev (dec_loop x)) 0 = atoi_loop ?a 0 * 10 + of_nat (x mod 10)"
    using atoi_snoc_digit [of "x mod 10" ?a 0] dec_loop_digits [of _ "x div 10"] by (simp split: if_splits)
  also have "\<dots> = of_nat (x div 10 * 10 + x mod 10)" unfolding a by (simp only: of_nat_add of_nat_mult of_nat_numeral)
  finally show ?case by (simp only: div_mult_mod_eq)
qed

lemma of_nat_abs: "of_nat (nat \<bar>sint (v :: cint)\<bar>) = (if sint v < 0 then - v else v)"
proof -
  have "of_int (sint v) = v" by simp
  then show ?thesis by (simp add: of_nat_nat abs_if del: of_int_sint)
qed

text \<open>C28: The decimal output of \<open>printf\<close> and \<open>cprintf\<close> is read back by \<open>atoi\<close>: a number that is not negative
  comes back as it was, and a negative one is printed as a minus sign before the digits of its absolute value,
  also for the smallest \<open>int\<close>.  No number takes more than 11 of the 16 bytes of the buffer it is built in.
\<close>

theorem print_d_reads_back:
  "uprint_d v = print_d v \<and> length (print_d v) \<le> 11 \<and>
   (if sint v < 0 then \<exists>ds. print_d v = 0x2D # ds \<and> atoi ds = - v else atoi (print_d v) = v)"
proof -
  have "nat \<bar>sint v\<bar> < 10 ^ Suc 9" using abs_cint_bound [of v] by simp
  then have "length (dec_loop (nat \<bar>sint v\<bar>)) \<le> 10" using dec_loop_length [of "nat \<bar>sint v\<bar>" 9] by simp
  moreover have "atoi (rev (dec_loop (nat \<bar>sint v\<bar>))) = (if sint v < 0 then - v else v)"
    by (simp add: atoi_def atoi_dec_loop of_nat_abs)
  ultimately show ?thesis
    unfolding uprint_d_def print_d_def cstr_def by (cases "sint v < 0") (simp_all del: abs_of_neg abs_of_nonneg)
qed

end
