(* ===== verification/Wc.thy ===== *)
theory Wc
  imports Printf
begin

text \<open>
  \<^verbatim>\<open>wc.c\<close> and \<^verbatim>\<open>cat.c\<close>: loops over what \<open>read\<close> delivers. Counting does not depend on how the input is cut
  into pieces.
\<close>

section \<open>Counting\<close>

record counts =
  lines :: cint
  words :: cint
  bytes :: cint
  inword :: bool

definition wc_space :: "uchar \<Rightarrow> bool" where
  "wc_space c \<longleftrightarrow> strchr [0x20, 0x0D, 0x09, 0x0A, 0x0B] c \<noteq> None"

definition wc_byte :: "uchar \<Rightarrow> counts \<Rightarrow> counts" where
  "wc_byte b x =
     (let x = x\<lparr>bytes := bytes x + 1\<rparr>;
          x = (if b = 0x0A then x\<lparr>lines := lines x + 1\<rparr> else x)
      in if wc_space b then x\<lparr>inword := False\<rparr>
         else if \<not> inword x then x\<lparr>words := words x + 1, inword := True\<rparr>
         else x)"

text \<open>\<open>None\<close> is the exit after a read error.\<close>

function wc_loop :: "counts \<Rightarrow> delivery list \<Rightarrow> counts option" where
  "wc_loop x ds =
     (case uread 512 ds of
        (None, _) \<Rightarrow> None
      | (Some [], _) \<Rightarrow> Some x
      | (Some (c # cs), ds') \<Rightarrow> wc_loop (fold wc_byte (c # cs) x) ds')"
  by pat_completeness auto

termination
  by (relation "measure (\<lambda>(x, ds). to_come ds)") (auto dest!: uread_less [OF sym])

declare wc_loop.simps [simp del]

definition wc :: "ustr \<Rightarrow> delivery list \<Rightarrow> uchar list outcome" where
  "wc name ds =
     (case wc_loop \<lparr>lines = 0, words = 0, bytes = 0, inword = False\<rparr> ds of
        None \<Rightarrow> printf (cstr (''wc: read error'' @ [CHR 0x0A])) []
      | Some x \<Rightarrow> printf (cstr (''%d %d %d %s'' @ [CHR 0x0A]))
          [Uarg_d (lines x), Uarg_d (words x), Uarg_d (bytes x), Uarg_s (Some name)])"

text \<open>\<open>cat\<close>: \<open>ok\<close> tells of each \<open>write\<close> whether it took all bytes; the result is what was written and whether
  the program went on.\<close>

function cat_loop :: "(nat \<Rightarrow> bool) \<Rightarrow> nat \<Rightarrow> delivery list \<Rightarrow> uchar list \<times> bool" where
  "cat_loop ok i ds =
     (case uread 512 ds of
        (None, _) \<Rightarrow> (cstr (''cat: read error'' @ [CHR 0x0A]), False)
      | (Some [], _) \<Rightarrow> ([], True)
      | (Some (c # cs), ds') \<Rightarrow>
          if ok i then apfst ((@) (c # cs)) (cat_loop ok (Suc i) ds')
          else (cstr (''cat: write error'' @ [CHR 0x0A]), False))"
  by pat_completeness auto

termination
  by (relation "measure (\<lambda>(ok, i, ds). to_come ds)") (auto dest!: uread_less [OF sym])

declare cat_loop.simps [simp del]

section \<open>The counts of an input\<close>

text \<open>A word starts at a byte that is no space and comes first or after a space.\<close>

definition word_starts :: "uchar list \<Rightarrow> nat set" where
  "word_starts d = {i. i < length d \<and> \<not> wc_space (d ! i) \<and> (i = 0 \<or> wc_space (d ! (i - 1)))}"

definition counted :: "uchar list \<Rightarrow> counts" where
  "counted d = \<lparr>lines = of_nat (count_list d 0x0A), words = of_nat (card (word_starts d)),
     bytes = of_nat (length d), inword = (d \<noteq> [] \<and> \<not> wc_space (last d))\<rparr>"

lemma word_starts_snoc:
  "word_starts (d @ [c]) =
     (if \<not> wc_space c \<and> (d = [] \<or> wc_space (last d)) then insert (length d) (word_starts d) else word_starts d)"
  by (cases "d = []") (auto simp: word_starts_def nth_append less_Suc_eq last_conv_nth)

lemma word_starts_bound: "finite (word_starts d)" "length d \<notin> word_starts d"
  by (simp_all add: word_starts_def)

lemma counted_snoc: "wc_byte c (counted d) = counted (d @ [c])"
  using word_starts_bound [of d]
  by (auto simp: wc_byte_def counted_def word_starts_snoc Let_def wc_space_def)

lemma counted_fold: "fold wc_byte cs (counted d) = counted (d @ cs)"
  by (induction cs arbitrary: d) (simp_all add: counted_snoc)

lemma wc_loop_counts: "[] \<notin> set ds \<Longrightarrow> wc_loop (counted d) (map Data ds) = Some (counted (d @ concat ds))"
proof (induction "to_come (map Data ds)" arbitrary: d ds rule: less_induct)
  case less
  show ?case
  proof (cases ds)
    case (Cons e es)
    let ?es = "if length e \<le> 512 then es else drop 512 e # es"
    have e: "e \<noteq> []" "[] \<notin> set es" using less.prems Cons by auto
    then obtain c cs where ccs: "take 512 e = c # cs" by (cases "take 512 e") auto
    have r: "uread 512 (map Data ds) = (Some (c # cs), map Data ?es)" using Cons ccs by simp
    have "wc_loop (counted d) (map Data ds) = wc_loop (counted (d @ c # cs)) (map Data ?es)"
      using r by (simp add: wc_loop.simps [of _ "map Data ds"] counted_fold del: fold.simps)
    also have "\<dots> = Some (counted ((d @ c # cs) @ concat ?es))"
      using less.hyps [OF uread_less [OF r]] e by (simp split: if_splits)
    also have "(d @ c # cs) @ concat ?es = d @ concat ds"
      using Cons ccs append_take_drop_id [of 512 e] by (auto simp flip: ccs)
    finally show ?thesis .
  qed (simp add: wc_loop.simps)
qed

text \<open>C30: However the input is cut into pieces, \<open>wc\<close> prints the number of its newlines, the number of its words and
  the number of its bytes, each as an \<open>int\<close> that wraps around.  A word is a longest part without spaces, carriage
  returns, tabs and newlines.
\<close>

theorem wc_counts:
  assumes "[] \<notin> set ds"
  shows "wc name (map Data ds) =
    (let d = concat ds in
     printf (cstr (''%d %d %d %s'' @ [CHR 0x0A]))
       [Uarg_d (of_nat (count_list d 0x0A)), Uarg_d (of_nat (card (word_starts d))), Uarg_d (of_nat (length d)),
        Uarg_s (Some name)])"
proof -
  have "counted [] = \<lparr>lines = 0, words = 0, bytes = 0, inword = False\<rparr>"
    by (simp add: counted_def word_starts_def)
  then show ?thesis using wc_loop_counts [OF assms, of "[]"] by (simp add: wc_def Let_def counted_def)
qed

theorem wc_counts_witness:
  "wc [0x66] [Data [0x61, 0x20], Data [0x62, 0x63, 0x0A]] =
     Ok [0x31, 0x20, 0x32, 0x20, 0x35, 0x20, 0x66, 0x0A]"
proof -
  let ?d = "[0x61, 0x20, 0x62, 0x63, 0x0A] :: uchar list"
  have "word_starts ?d = set (filter (\<lambda>i. \<not> wc_space (?d ! i) \<and> (i = 0 \<or> wc_space (?d ! (i - 1)))) [0..<5])"
    by (auto simp: word_starts_def)
  also have "\<dots> = {0, 2}" by code_simp
  finally have "card (word_starts ?d) = 2" by simp
  moreover have "printf (cstr (''%d %d %d %s'' @ [CHR 0x0A])) [Uarg_d 1, Uarg_d 2, Uarg_d 5, Uarg_s (Some [0x66])] =
      Ok [0x31, 0x20, 0x32, 0x20, 0x35, 0x20, 0x66, 0x0A]" by code_simp
  ultimately show ?thesis using wc_counts [of "[[0x61, 0x20], [0x62, 0x63, 0x0A]]" "[0x66]"] by simp
qed

end
