(* ===== verification/Shell.thy ===== *)
theory Shell
  imports Ulib
begin

text \<open>
  The command line parser of \<^verbatim>\<open>sh.c\<close>. A pointer into the line is the list of the bytes from there to its end,
  as in \<open>Ulib\<close>, so \<open>s < es\<close> is \<open>s \<noteq> []\<close>. The parser ends on every line and reads back every command tree
  from its text. \<open>panic\<close> of the shell prints its message and exits.
\<close>

section \<open>Commands\<close>

text \<open>
  The five kinds of \<open>struct cmd\<close>. The words of a command and the names of files are two pointers, to the start
  and past the end.
\<close>

datatype cmd =
    EXEC "(ustr \<times> ustr) list"
  | REDIR cmd ustr ustr cint cint
  | PIPE cmd cmd
  | LIST cmd cmd
  | BACK cmd

abbreviation (input) MAXARGS :: nat where "MAXARGS \<equiv> 10"

definition execcmd :: cmd where
  "execcmd = EXEC []"

definition redircmd :: "cmd \<Rightarrow> ustr \<times> ustr \<times> cint \<times> cint \<Rightarrow> cmd" where
  "redircmd subcmd r = (case r of (f, ef, mode, fd) \<Rightarrow> REDIR subcmd f ef mode fd)"

definition pipecmd :: "cmd \<Rightarrow> cmd \<Rightarrow> cmd" where
  "pipecmd left right = PIPE left right"

definition listcmd :: "cmd \<Rightarrow> cmd \<Rightarrow> cmd" where
  "listcmd left right = LIST left right"

definition backcmd :: "cmd \<Rightarrow> cmd" where
  "backcmd subcmd = BACK subcmd"

section \<open>Tokens\<close>

definition whitespace :: "uchar list" where
  "whitespace = [0x20, 0x09, 0x0D, 0x0A, 0x0B]"

definition symbols :: "uchar list" where
  "symbols = cstr ''<|>&;()''"

definition white :: "uchar \<Rightarrow> bool" where
  "white c \<longleftrightarrow> strchr whitespace c \<noteq> None"

definition symbol :: "uchar \<Rightarrow> bool" where
  "symbol c \<longleftrightarrow> strchr symbols c \<noteq> None"

text \<open>The token, where it starts, where it ends, and where the next one starts.\<close>

definition gettoken :: "ustr \<Rightarrow> uchar \<times> ustr \<times> ustr \<times> ustr" where
  "gettoken ps =
     (let q = dropWhile white ps in
      case q of
        [] \<Rightarrow> (0, q, q, q)
      | c # s \<Rightarrow>
          let (ret, s) =
            (if c \<in> set (cstr ''|();&<'') then (c, s)
             else if c = of_char (CHR ''>'') then
               (if deref s = of_char (CHR ''>'') then (of_char (CHR ''+''), tl s) else (c, s))
             else (of_char (CHR ''a''), dropWhile (\<lambda>c. \<not> white c \<and> \<not> symbol c) q))
          in (ret, q, s, dropWhile white s))"

definition peek :: "ustr \<Rightarrow> string \<Rightarrow> bool \<times> ustr" where
  "peek ps toks = (let s = dropWhile white ps in (s \<noteq> [] \<and> strchr (cstr toks) (deref s) \<noteq> None, s))"

definition rest :: "uchar \<times> ustr \<times> ustr \<times> ustr \<Rightarrow> ustr" where
  "rest t = snd (snd (snd t))"

lemma white_iff: "white c \<longleftrightarrow> c \<in> set whitespace"
  unfolding white_def by (simp add: strchr_None_iff)

lemma symbol_iff: "symbol c \<longleftrightarrow> c \<in> set symbols"
  unfolding symbol_def by (simp add: strchr_None_iff)

lemma dropWhile_length: "length (dropWhile P s) \<le> length s"
  by (induction s) auto

lemma peek_rest: "peek ps toks = (b, s) \<Longrightarrow> length s \<le> length ps \<and> (b \<longrightarrow> s \<noteq> [] \<and> \<not> white (deref s))"
proof -
  assume "peek ps toks = (b, s)"
  then have s: "s = dropWhile white ps" "b \<Longrightarrow> s \<noteq> []" by (auto simp: peek_def Let_def)
  have "\<not> white (hd s)" if "s \<noteq> []" using hd_dropWhile [of white ps] that s(1) by simp
  then show ?thesis using s dropWhile_length [of white ps] by (auto simp: deref_def split: list.split)
qed

lemma gettoken_shorter:
  assumes "s \<noteq> []" and "\<not> white (deref s)"
  shows "length (rest (gettoken s)) < length s"
proof -
  obtain c t where s: "s = c # t" using assms(1) by (cases s) auto
  then have w: "\<not> white c" "dropWhile white s = s" using assms(2) by (simp_all add: deref_def)
  have t: "length (dropWhile white t) \<le> length t" "length (dropWhile white (tl t)) \<le> length t"
    using dropWhile_length [of white t] dropWhile_length [of white "tl t"] by (simp_all add: le_diff_conv)
  let ?e = "dropWhile (\<lambda>c. \<not> white c \<and> \<not> symbol c) s"
  have e: "length (dropWhile white ?e) \<le> length t" if "\<not> symbol c"
    using that w(1) s dropWhile_length [of white ?e] dropWhile_length [of "\<lambda>c. \<not> white c \<and> \<not> symbol c" t] by simp
  have sym: "c \<in> set (cstr ''|();&<'') \<or> c = of_char (CHR ''>'')" if "symbol c"
    using that by (auto simp: symbol_iff symbols_def cstr_def)
  show ?thesis
    using w(2) t e sym s by (auto simp: gettoken_def rest_def Let_def)
qed

lemma gettoken_skip: "gettoken (dropWhile white s) = gettoken s"
  by (simp add: gettoken_def)

lemma gettoken_le: "length (rest (gettoken s)) \<le> length s"
proof (cases "dropWhile white s")
  case Nil
  then show ?thesis by (simp add: gettoken_def rest_def Let_def del: dropWhile_eq_Nil_conv)
next
  case (Cons c t)
  then have "\<not> white c" by (metis hd_dropWhile list.distinct(1) list.sel(1))
  then have "length (rest (gettoken (dropWhile white s))) < length (dropWhile white s)"
    using Cons by (intro gettoken_shorter) (simp_all add: deref_def)
  then show ?thesis using gettoken_skip [of s] dropWhile_length [of white s] by simp
qed

section \<open>The parser\<close>

text \<open>
  The redirections of a command, in the order of the text. They wrap the command they follow, but an exec
  command is filled with its words only later, so they are collected.
\<close>

type_synonym redir = "ustr \<times> ustr \<times> cint \<times> cint"

lemma redir_shorter:
  assumes "peek ps toks = (True, s)" and "gettoken (rest (gettoken s)) = (t, q, eq, s')"
  shows "length s' < length ps"
  using peek_rest [OF assms(1)] gettoken_shorter [of s] gettoken_le [of "rest (gettoken s)"] assms(2)
  by (simp add: rest_def)

function parseredirs :: "redir list \<Rightarrow> ustr \<Rightarrow> (redir list \<times> ustr) outcome" where
  "parseredirs rs ps =
     (let (more, s) = peek ps ''<>'' in
      if more then
        let tok = fst (gettoken s); (t, q, eq, s) = gettoken (rest (gettoken s)) in
        if t \<noteq> of_char (CHR ''a'') then Panic ''missing file for redirection''
        else if tok = of_char (CHR ''<'') then parseredirs (rs @ [(q, eq, 0, 0)]) s
        else parseredirs (rs @ [(q, eq, 0x201, 1)]) s
      else Ok (rs, s))"
  by pat_completeness auto

termination
  by (relation "measure (\<lambda>(rs, ps). length ps)") (auto dest: redir_shorter [OF sym sym])

declare parseredirs.simps [simp del]

definition wrap :: "cmd \<Rightarrow> redir list \<Rightarrow> cmd" where
  "wrap c rs = foldl redircmd c rs"

function parseargs :: "(ustr \<times> ustr) list \<Rightarrow> redir list \<Rightarrow> ustr \<Rightarrow> ((ustr \<times> ustr) list \<times> redir list \<times> ustr) outcome" where
  "parseargs argv rs ps =
     (let (stop, s) = peek ps ''|)&;''; (tok, q, eq, s') = gettoken s in
      if stop then Ok (argv, rs, s)
      else if tok = 0 then Ok (argv, rs, s')
      else if tok \<noteq> of_char (CHR ''a'') then Panic ''syntax''
      else if Suc (length argv) \<ge> MAXARGS then Panic ''too many args''
      else andthen (parseredirs rs s') (\<lambda>(rs, s). parseargs (argv @ [(q, eq)]) rs s))"
  by pat_completeness auto

termination
  by (relation "measure (\<lambda>(argv, rs, ps). 10 - length argv)") auto

declare parseargs.simps [simp del]

text \<open>The loop of \<open>parseline\<close> over the ampersands.\<close>

lemma token_shorter: "peek ps toks = (True, s) \<Longrightarrow> length (rest (gettoken s)) < length ps"
  using peek_rest [of ps toks True s] gettoken_shorter [of s] by simp

function parseback :: "cmd \<Rightarrow> ustr \<Rightarrow> cmd \<times> ustr" where
  "parseback c ps =
     (let (more, s) = peek ps ''&'' in
      if more then parseback (backcmd c) (rest (gettoken s)) else (c, s))"
  by pat_completeness auto

termination
  by (relation "measure (\<lambda>(c, ps). length ps)") (auto dest!: token_shorter [OF sym])

declare parseback.simps [simp del]

text \<open>
  The four functions that call each other. The first argument bounds how deep the calls go; \<open>Blocked\<close> is a
  bound that was too small.
\<close>

fun parseline :: "nat \<Rightarrow> ustr \<Rightarrow> (cmd \<times> ustr) outcome"
  and parsepipe :: "nat \<Rightarrow> ustr \<Rightarrow> (cmd \<times> ustr) outcome"
  and parseexec :: "nat \<Rightarrow> ustr \<Rightarrow> (cmd \<times> ustr) outcome"
  and parseblock :: "nat \<Rightarrow> ustr \<Rightarrow> (cmd \<times> ustr) outcome" where
  "parseline 0 ps = Blocked ''fuel''"
| "parseline (Suc n) ps =
     andthen (parsepipe n ps) (\<lambda>(c, s).
     let (c, s) = parseback c s; (more, s) = peek s '';'' in
     if more then andthen (parseline n (rest (gettoken s))) (\<lambda>(c', s). Ok (listcmd c c', s))
     else Ok (c, s))"
| "parsepipe 0 ps = Blocked ''fuel''"
| "parsepipe (Suc n) ps =
     andthen (parseexec n ps) (\<lambda>(c, s).
     let (more, s) = peek s ''|'' in
     if more then andthen (parsepipe n (rest (gettoken s))) (\<lambda>(c', s). Ok (pipecmd c c', s))
     else Ok (c, s))"
| "parseexec 0 ps = Blocked ''fuel''"
| "parseexec (Suc n) ps =
     (let (block, s) = peek ps ''('' in
      if block then parseblock n s
      else
        andthen (parseredirs [] s) (\<lambda>(rs, s).
        andthen (parseargs [] rs s) (\<lambda>(argv, rs, s). Ok (wrap (EXEC argv) rs, s))))"
| "parseblock 0 ps = Blocked ''fuel''"
| "parseblock (Suc n) ps =
     (let (opening, s) = peek ps ''('' in
      if \<not> opening then Panic ''parseblock''
      else
        andthen (parseline n (rest (gettoken s))) (\<lambda>(c, s).
        let (closing, s) = peek s '')'' in
        if \<not> closing then Panic ''syntax - missing )''
        else andthen (parseredirs [] (rest (gettoken s))) (\<lambda>(rs, s). Ok (wrap c rs, s))))"

definition enough :: "ustr \<Rightarrow> nat" where
  "enough s = 4 * length s + 4"

text \<open>The line is an array with a NUL at its end; \<open>nulterminate\<close> sets more of its bytes to 0.\<close>

primrec nulterminate :: "nat \<Rightarrow> cmd \<Rightarrow> uchar list \<Rightarrow> uchar list" where
  "nulterminate n (EXEC argv) buf = fold (\<lambda>(q, eq) buf. buf[n - length eq := 0]) argv buf"
| "nulterminate n (REDIR c f ef mode fd) buf = (nulterminate n c buf)[n - length ef := 0]"
| "nulterminate n (PIPE l r) buf = nulterminate n r (nulterminate n l buf)"
| "nulterminate n (LIST l r) buf = nulterminate n r (nulterminate n l buf)"
| "nulterminate n (BACK c) buf = nulterminate n c buf"

definition parsecmd :: "ustr \<Rightarrow> (cmd \<times> uchar list) outcome" where
  "parsecmd line =
     andthen (parseline (enough line) line) (\<lambda>(c, s).
     let (_, s) = peek s [] in
     if s \<noteq> [] then Panic ''syntax'' else Ok (c, nulterminate (length line) c (line @ [0])))"

section \<open>The parser ends\<close>

definition messages :: "string set" where
  "messages = {''syntax'', ''missing file for redirection'', ''syntax - missing )'', ''too many args''}"

text \<open>A result that leaves no more of the line than there was, or one of the messages.\<close>

primrec ends :: "nat \<Rightarrow> ('a \<times> ustr) outcome \<Rightarrow> bool" where
  "ends k (Ok x) \<longleftrightarrow> length (snd x) \<le> k"
| "ends k (Panic m) \<longleftrightarrow> m \<in> messages"
| "ends k (Blocked c) \<longleftrightarrow> False"
| "ends k (Fault w) \<longleftrightarrow> False"

lemma ends_andthen:
  "ends k m \<Longrightarrow> (\<And>x s. m = Ok (x, s) \<Longrightarrow> length s \<le> k \<Longrightarrow> ends k' (f (x, s))) \<Longrightarrow> ends k' (andthen m f)"
  by (cases m) auto

lemma ends_bind:
  "ends k m \<Longrightarrow> (\<And>x s. length s \<le> k \<Longrightarrow> ends k' (g x s)) \<Longrightarrow> ends k' (andthen m (\<lambda>(x, s). g x s))"
  by (cases m) auto

lemma ends_weaken: "ends k m \<Longrightarrow> k \<le> k' \<Longrightarrow> ends k' m"
  by (cases m) auto

lemma parseredirs_ends: "ends (length ps) (parseredirs rs ps)"
proof (induction rs ps rule: parseredirs.induct)
  case (1 rs ps)
  obtain more s where p: "peek ps ''<>'' = (more, s)" by (cases "peek ps ''<>''")
  obtain t q eq s' where g: "gettoken (rest (gettoken s)) = (t, q, eq, s')" by (cases "gettoken (rest (gettoken s))")
  have s: "length s \<le> length ps" using peek_rest [OF p] by simp
  have less: "more \<Longrightarrow> length s' \<le> length ps" using redir_shorter [of ps "''<>''" s t q eq s'] p g by simp
  show ?case
  proof (cases "more \<and> t = of_char (CHR ''a'')")
    case True
    then have "ends (length s') (parseredirs (rs @ [(q, eq, 0, 0)]) s')" if "fst (gettoken s) = of_char (CHR ''<'')"
      using 1(1) p g that by simp
    moreover have "ends (length s') (parseredirs (rs @ [(q, eq, 0x201, 1)]) s')" if "fst (gettoken s) \<noteq> of_char (CHR ''<'')"
      using 1(2) p g True that by simp
    ultimately show ?thesis using True p g less ends_weaken by (subst parseredirs.simps) (auto simp: Let_def)
  qed (use p g s in \<open>auto simp: parseredirs.simps [of rs ps] messages_def Let_def\<close>)
qed

lemma parseargs_ends: "ends (length ps) (andthen (parseargs argv rs ps) (\<lambda>(a, r, s). Ok ((a, r), s)))"
proof (induction argv rs ps rule: parseargs.induct)
  case (1 argv rs ps)
  obtain stop s where p: "peek ps ''|)&;'' = (stop, s)" by (cases "peek ps ''|)&;''")
  obtain t q eq s' where g: "gettoken s = (t, q, eq, s')" by (cases "gettoken s")
  have s: "length s \<le> length ps" "length s' \<le> length ps"
    using peek_rest [OF p] gettoken_le [of s] g by (simp_all add: rest_def)
  show ?case
  proof (cases "stop \<or> t \<noteq> of_char (CHR ''a'') \<or> Suc (length argv) \<ge> MAXARGS")
    case False
    have "ends (length ps) (andthen (parseredirs rs s') (\<lambda>(rs, s). andthen (parseargs (argv @ [(q, eq)]) rs s)
        (\<lambda>(a, r, s). Ok ((a, r), s))))"
    proof (rule ends_andthen [OF parseredirs_ends])
      fix rs' u assume r: "parseredirs rs s' = Ok (rs', u)" "length u \<le> length s'"
      have "ends (length u) (andthen (parseargs (argv @ [(q, eq)]) rs' u) (\<lambda>(a, r, s). Ok ((a, r), s)))"
        by (rule 1 [OF p [symmetric] refl g [symmetric] refl refl refl]) (use False r(1) in simp_all)
      then show "ends (length ps) (case (rs', u) of (rs, s) \<Rightarrow> andthen (parseargs (argv @ [(q, eq)]) rs s)
          (\<lambda>(a, r, s). Ok ((a, r), s)))"
        using ends_weaken [of "length u" _ "length ps"] r(2) s(2) by simp
    qed
    moreover have "of_char (CHR ''a'') \<noteq> (0 :: uchar)" by simp
    ultimately show ?thesis
      using p g False by (subst parseargs.simps) (simp add: andthen_assoc Let_def split_beta')
  qed (use p g s in \<open>auto simp: parseargs.simps [of argv rs ps] messages_def Let_def\<close>)
qed

lemma parseback_shorter: "length (snd (parseback c ps)) \<le> length ps"
proof (induction c ps rule: parseback.induct)
  case (1 c ps)
  obtain more s where p: "peek ps ''&'' = (more, s)" by (cases "peek ps ''&''")
  show ?case
  proof (cases more)
    case True
    then have "length (snd (parseback (backcmd c) (rest (gettoken s)))) \<le> length (rest (gettoken s))"
      using 1 p by simp
    then show ?thesis using True p token_shorter [of ps "''&''" s] by (simp add: parseback.simps [of c ps])
  qed (use p peek_rest [OF p] in \<open>simp add: parseback.simps [of c ps]\<close>)
qed

lemma peek_again: "peek ps toks = (b, s) \<Longrightarrow> peek s toks = (b, s)"
  by (clarsimp simp: peek_def Let_def simp del: dropWhile_eq_Nil_conv)

text \<open>What follows the first call in each of the functions, when the calls on what is left end.\<close>

lemma ends_after:
  "ends k m \<Longrightarrow> ends k (andthen m (\<lambda>(c, s). Ok (f c, s)))"
  by (cases m) auto

lemma line_after:
  assumes "length s \<le> k" and "\<And>u. length u < k \<Longrightarrow> ends k (parseline n u)"
  shows "ends k (let (c, s) = parseback c s; (more, s) = peek s '';'' in
    if more then andthen (parseline n (rest (gettoken s))) (\<lambda>(c', s). Ok (listcmd c c', s)) else Ok (c, s))"
proof -
  obtain c' s' where b: "parseback c s = (c', s')" by (cases "parseback c s")
  obtain more u where p: "peek s' '';'' = (more, u)" by (cases "peek s' '';''")
  have le: "length s' \<le> k" "length u \<le> k"
    using parseback_shorter [of c s] b assms(1) peek_rest [OF p] by simp_all
  then have "more \<Longrightarrow> length (rest (gettoken u)) < k" using token_shorter [of s' "'';''" u] p by simp
  then show ?thesis using b p le by (cases more) (simp_all add: ends_after [OF assms(2)])
qed

lemma pipe_after:
  assumes "length s \<le> k" and "\<And>u. length u < k \<Longrightarrow> ends k (parsepipe n u)"
  shows "ends k (let (more, s) = peek s ''|'' in
    if more then andthen (parsepipe n (rest (gettoken s))) (\<lambda>(c', s). Ok (pipecmd c c', s)) else Ok (c, s))"
proof -
  obtain more u where p: "peek s ''|'' = (more, u)" by (cases "peek s ''|''")
  have le: "length u \<le> k" using assms(1) peek_rest [OF p] by simp
  then have "more \<Longrightarrow> length (rest (gettoken u)) < k" using token_shorter [of s "''|''" u] p assms(1) by simp
  then show ?thesis using p le by (cases more) (simp_all add: ends_after [OF assms(2)])
qed

lemma block_after:
  assumes "length s \<le> k"
  shows "ends k (let (closing, s) = peek s '')'' in
    if \<not> closing then Panic ''syntax - missing )''
    else andthen (parseredirs [] (rest (gettoken s))) (\<lambda>(rs, s). Ok (wrap c rs, s)))"
proof -
  obtain closing u where p: "peek s '')'' = (closing, u)" by (cases "peek s '')''")
  have "closing \<Longrightarrow> length (rest (gettoken u)) \<le> k" using token_shorter [of s "'')''" u] p assms by simp
  then have "closing \<Longrightarrow> ends k (parseredirs [] (rest (gettoken u)))" using parseredirs_ends ends_weaken by blast
  then show ?thesis using p by (cases closing) (simp_all add: ends_after messages_def)
qed

lemma exec_after:
  assumes "length s \<le> k"
  shows "ends k (andthen (parseredirs [] s) (\<lambda>(rs, s).
    andthen (parseargs [] rs s) (\<lambda>(argv, rs, s). Ok (wrap (EXEC argv) rs, s))))"
proof (rule ends_andthen [OF parseredirs_ends])
  fix rs :: "redir list" and u :: ustr assume "length u \<le> length s"
  then have "ends k (andthen (parseargs [] rs u) (\<lambda>(a, r, s). Ok ((a, r), s)))"
    using parseargs_ends ends_weaken assms by (meson order_trans)
  then show "ends k (case (rs, u) of (rs, s) \<Rightarrow> andthen (parseargs [] rs s) (\<lambda>(argv, rs, s). Ok (wrap (EXEC argv) rs, s)))"
    by (cases "parseargs [] rs u") auto
qed

lemma parse_ends:
  "(4 * length ps + 4 \<le> n \<longrightarrow> ends (length ps) (parseline n ps)) \<and>
   (4 * length ps + 3 \<le> n \<longrightarrow> ends (length ps) (parsepipe n ps)) \<and>
   (4 * length ps + 2 \<le> n \<longrightarrow> ends (length ps) (parseexec n ps)) \<and>
   (4 * length ps + 1 \<le> n \<and> fst (peek ps ''('') \<longrightarrow> ends (length ps) (parseblock n ps))"
proof (induction n arbitrary: ps)
  case (Suc n)
  let ?k = "length ps"
  have line: "ends ?k (parseline n u)" if "length u < ?k" "4 * ?k \<le> n" for u
    using Suc.IH [of u] that ends_weaken [of "length u" "parseline n u" ?k] by simp
  have pipe: "ends ?k (parsepipe n u)" if "length u < ?k" "4 * ?k \<le> n" for u
    using Suc.IH [of u] that ends_weaken [of "length u" "parsepipe n u" ?k] by simp
  obtain block s where p: "peek ps ''('' = (block, s)" by (cases "peek ps ''(''")
  have s: "length s \<le> ?k" "peek s ''('' = (block, s)" using peek_rest [OF p] peek_again [OF p] by simp_all
  have "ends ?k (parseline (Suc n) ps)" if "4 * ?k + 4 \<le> Suc n"
    unfolding parseline.simps
    using Suc.IH [of ps] that line by (intro ends_bind [of ?k] line_after) simp_all
  moreover have "ends ?k (parsepipe (Suc n) ps)" if "4 * ?k + 3 \<le> Suc n"
    unfolding parsepipe.simps
    using Suc.IH [of ps] that pipe by (intro ends_bind [of ?k] pipe_after) simp_all
  moreover have "ends ?k (parseexec (Suc n) ps)" if "4 * ?k + 2 \<le> Suc n"
    using Suc.IH [of s] that s p exec_after [OF s(1)] ends_weaken [of "length s" "parseblock n s" ?k] by simp
  moreover have "ends ?k (parseblock (Suc n) ps)" if "4 * ?k + 1 \<le> Suc n" "fst (peek ps ''('')"
  proof -
    have "parseblock (Suc n) ps = andthen (parseline n (rest (gettoken s))) (\<lambda>(c, s).
        let (closing, s) = peek s '')'' in
        if \<not> closing then Panic ''syntax - missing )''
        else andthen (parseredirs [] (rest (gettoken s))) (\<lambda>(rs, s). Ok (wrap c rs, s)))"
      using that(2) p by simp
    moreover have "ends ?k (parseline n (rest (gettoken s)))"
      using that p token_shorter [of ps "''(''" s] line by simp
    ultimately show ?thesis using block_after by (metis (no_types, lifting) ends_bind)
  qed
  ultimately show ?case by blast
qed simp

text \<open>C25: The parser of the shell comes to an end on every line: it returns a command, or it stops with one of four
  messages.  The one message left, about a block that does not start with a parenthesis, never appears.
\<close>

theorem parsecmd_ends:
  "(\<exists>c buf. parsecmd line = Ok (c, buf)) \<or>
   (\<exists>m. parsecmd line = Panic m \<and>
      m \<in> {''syntax'', ''missing file for redirection'', ''syntax - missing )'', ''too many args''})"
proof -
  have "ends (length line) (parseline (enough line) line)" using parse_ends [of line "enough line"] by (simp add: enough_def)
  then show ?thesis
    by (cases "parseline (enough line) line") (auto simp: parsecmd_def Let_def split_beta messages_def)
qed

section \<open>The parser reads back what a command looks like\<close>

text \<open>A command with its words as strings, and the tree that a parsed command stands for.\<close>

datatype tree =
    TEXEC "ustr list"
  | TREDIR tree "ustr \<times> cint \<times> cint"
  | TPIPE tree tree
  | TLIST tree tree
  | TBACK tree

definition word_at :: "ustr \<times> ustr \<Rightarrow> ustr" where
  "word_at p = take (length (fst p) - length (snd p)) (fst p)"

definition file_at :: "redir \<Rightarrow> ustr \<times> cint \<times> cint" where
  "file_at r = (case r of (f, ef, mode, fd) \<Rightarrow> (word_at (f, ef), mode, fd))"

primrec tree_of :: "cmd \<Rightarrow> tree" where
  "tree_of (EXEC argv) = TEXEC (map word_at argv)"
| "tree_of (REDIR c f ef mode fd) = TREDIR (tree_of c) (word_at (f, ef), mode, fd)"
| "tree_of (PIPE l r) = TPIPE (tree_of l) (tree_of r)"
| "tree_of (LIST l r) = TLIST (tree_of l) (tree_of r)"
| "tree_of (BACK c) = TBACK (tree_of c)"

text \<open>
  The text of a tree: a blank after each word and each file name, and parentheses around a pipe, a list or a
  background command that is part of another command.
\<close>

definition redir_text :: "ustr \<times> cint \<times> cint \<Rightarrow> ustr" where
  "redir_text r = (if fst (snd r) = 0 then 0x3C else 0x3E) # fst r @ [0x20]"

definition words_text :: "ustr list \<Rightarrow> ustr" where
  "words_text ws = concat (map (\<lambda>w. w @ [0x20]) ws)"

definition paren :: "bool \<Rightarrow> ustr \<Rightarrow> ustr" where
  "paren inner s = (if inner then 0x28 # s @ [0x29] else s)"

primrec text_of :: "tree \<Rightarrow> bool \<Rightarrow> ustr" where
  "text_of (TEXEC ws) inner = words_text ws"
| "text_of (TREDIR t r) inner = text_of t True @ redir_text r"
| "text_of (TPIPE l r) inner = paren inner (text_of l True @ 0x7C # text_of r True)"
| "text_of (TLIST l r) inner = paren inner (text_of l True @ 0x3B # text_of r True)"
| "text_of (TBACK t) inner = paren inner (text_of t True @ [0x26])"

definition wordy :: "ustr \<Rightarrow> bool" where
  "wordy w \<longleftrightarrow> w \<noteq> [] \<and> (\<forall>c \<in> set w. c \<noteq> 0 \<and> \<not> white c \<and> \<not> symbol c)"

definition redir_ok :: "ustr \<times> cint \<times> cint \<Rightarrow> bool" where
  "redir_ok r \<longleftrightarrow> wordy (fst r) \<and> (snd r = (0, 0) \<or> snd r = (0x201, 1))"

primrec tree_ok :: "tree \<Rightarrow> bool" where
  "tree_ok (TEXEC ws) \<longleftrightarrow> length ws < MAXARGS \<and> (\<forall>w \<in> set ws. wordy w)"
| "tree_ok (TREDIR t r) \<longleftrightarrow> tree_ok t \<and> redir_ok r"
| "tree_ok (TPIPE l r) \<longleftrightarrow> tree_ok l \<and> tree_ok r"
| "tree_ok (TLIST l r) \<longleftrightarrow> tree_ok l \<and> tree_ok r"
| "tree_ok (TBACK t) \<longleftrightarrow> tree_ok t"

declare dropWhile_eq_Nil_conv [simp del]

abbreviation skip :: "ustr \<Rightarrow> ustr" where
  "skip \<equiv> dropWhile white"

lemma peek_skip: "peek (skip s) toks = peek s toks"
  by (simp add: peek_def)

lemma parseredirs_skip: "parseredirs rs (skip s) = parseredirs rs s"
  by (simp add: parseredirs.simps peek_skip)

lemma parseargs_skip: "parseargs argv rs (skip s) = parseargs argv rs s"
  by (simp add: parseargs.simps peek_skip)

lemma peek_Cons: "\<not> white c \<Longrightarrow> peek (c # s) toks = (c \<in> set (cstr toks), c # s)"
  by (simp add: peek_def strchr_None_iff deref_def Let_def del: strchr.simps)

lemma peek_blank: "peek (0x20 # s) toks = peek s toks"
  by (simp add: peek_def white_def whitespace_def)

lemma wordy_Cons: "wordy w \<Longrightarrow> \<exists>c v. w = c # v \<and> \<not> white c \<and> \<not> symbol c"
  by (cases w) (auto simp: wordy_def)

lemma dropWhile_word: "wordy w \<Longrightarrow> dropWhile (\<lambda>c. \<not> white c \<and> \<not> symbol c) (w @ 0x20 # r) = 0x20 # r"
  by (subst dropWhile_append2) (auto simp: wordy_def white_def whitespace_def)

lemma gettoken_word: "wordy w \<Longrightarrow> gettoken (w @ 0x20 # r) = (0x61, w @ 0x20 # r, 0x20 # r, skip r)"
proof -
  assume w: "wordy w"
  then obtain c v where c: "w = c # v" "\<not> white c" "\<not> symbol c" using wordy_Cons by blast
  then have "c \<notin> set (cstr ''|();&<'')" "c \<noteq> 0x3E" by (auto simp: symbol_iff symbols_def cstr_def)
  moreover have "white 0x20" by (simp add: white_def whitespace_def)
  ultimately show "gettoken (w @ 0x20 # r) = (0x61, w @ 0x20 # r, 0x20 # r, skip r)"
    using dropWhile_word [OF w, of r] c by (simp add: gettoken_def)
qed

lemma not_white: "\<not> white 0x3C" "\<not> white 0x3E" "\<not> white 0x7C" "\<not> white 0x28" "\<not> white 0x29" "\<not> white 0x3B" "\<not> white 0x26"
  by (simp_all add: white_def whitespace_def)

lemma gettoken_symbol:
  "c \<in> {0x7C, 0x28, 0x29, 0x3B, 0x26, 0x3C} \<Longrightarrow> gettoken (c # s) = (c, c # s, s, skip s)"
  "deref s \<noteq> 0x3E \<Longrightarrow> gettoken (0x3E # s) = (0x3E, 0x3E # s, s, skip s)"
  using not_white by (auto simp: gettoken_def cstr_def)

lemma word_at_word [simp]: "word_at (w @ r, r) = w"
  by (simp add: word_at_def)

text \<open>A run of redirections, then of words.\<close>

definition redirs_text :: "(ustr \<times> cint \<times> cint) list \<Rightarrow> ustr" where
  "redirs_text rs = concat (map redir_text rs)"

lemma parseredirs_one:
  assumes "redir_ok r"
  shows "\<exists>x. file_at x = r \<and> parseredirs rs (redir_text r @ s) = parseredirs (rs @ [x]) s"
proof -
  obtain f mode fd where r: "r = (f, mode, fd)" by (cases r)
  then have f: "wordy f" and m: "(mode, fd) = (0, 0) \<or> (mode, fd) = (0x201, 1)" using assms by (auto simp: redir_ok_def)
  obtain c v where c: "f = c # v" "\<not> white c" "\<not> symbol c" using wordy_Cons [OF f] by blast
  then have "c \<noteq> 0x3E" by (auto simp: symbol_iff symbols_def cstr_def)
  then have d: "deref (f @ 0x20 # s) \<noteq> 0x3E" "skip (f @ 0x20 # s) = f @ 0x20 # s" using c by (simp_all add: deref_def)
  let ?x = "(f @ 0x20 # s, 0x20 # s, mode, fd) :: redir"
  have "parseredirs rs (redir_text r @ s) = parseredirs (rs @ [?x]) (skip s)"
    using m
  proof
    assume "(mode, fd) = (0, 0)"
    then show ?thesis
      using r d gettoken_word [OF f, of s] not_white gettoken_symbol(1) [of "0x3C" "f @ 0x20 # s"]
      by (subst parseredirs.simps) (simp add: redir_text_def peek_Cons cstr_def rest_def)
  next
    assume "(mode, fd) = (0x201, 1)"
    then show ?thesis
      using r d gettoken_word [OF f, of s] not_white gettoken_symbol(2) [OF d(1)]
      by (subst parseredirs.simps) (simp add: redir_text_def peek_Cons cstr_def rest_def)
  qed
  moreover have "file_at ?x = r" by (simp add: file_at_def r)
  ultimately show ?thesis unfolding parseredirs_skip by blast
qed

lemma parseredirs_stop: "\<not> fst (peek s ''<>'') \<Longrightarrow> parseredirs rs s = Ok (rs, skip s)"
  by (subst parseredirs.simps) (auto simp: peek_def Let_def)

lemma parseredirs_text:
  assumes "\<forall>r \<in> set rs. redir_ok r" and "\<not> fst (peek s ''<>'')"
  shows "\<exists>xs. map file_at xs = rs \<and> parseredirs acc (redirs_text rs @ s) = Ok (acc @ xs, skip s)"
  using assms(1)
proof (induction rs arbitrary: acc)
  case Nil
  then show ?case using parseredirs_stop [OF assms(2), of acc] by (simp add: redirs_text_def)
next
  case (Cons r rs)
  obtain x where x: "file_at x = r" "parseredirs acc (redir_text r @ redirs_text rs @ s) = parseredirs (acc @ [x]) (redirs_text rs @ s)"
    using parseredirs_one [of r acc "redirs_text rs @ s"] Cons.prems by auto
  obtain xs where xs: "map file_at xs = rs" "parseredirs (acc @ [x]) (redirs_text rs @ s) = Ok ((acc @ [x]) @ xs, skip s)"
    using Cons.IH [of "acc @ [x]"] Cons.prems by auto
  show ?case using x xs by (intro exI [of _ "x # xs"]) (simp add: redirs_text_def)
qed

text \<open>Where a command of words ends: at the end of the line or before one of four symbols.\<close>

definition at_stop :: "ustr \<Rightarrow> bool" where
  "at_stop s \<longleftrightarrow> skip s = [] \<or> fst (peek s ''|)&;'')"

lemma at_stop_redirs: "at_stop s \<Longrightarrow> \<not> fst (peek s ''<>'')"
  by (auto simp: at_stop_def peek_def strchr_None_iff cstr_def Let_def simp del: strchr.simps)

lemma peek_snd: "snd (peek s toks) = skip s"
  by (simp add: peek_def Let_def)

lemma parseargs_stop: "at_stop s \<Longrightarrow> parseargs argv rs s = Ok (argv, rs, skip s)"
proof (cases "skip s = []")
  case True
  then have "peek s ''|)&;'' = (False, [])" by (simp add: peek_def)
  then show ?thesis using True by (subst parseargs.simps) (simp add: gettoken_def)
next
  case False
  assume "at_stop s"
  then have "peek s ''|)&;'' = (True, skip s)" using False peek_snd [of s] by (simp add: at_stop_def prod_eq_iff)
  then show ?thesis by (subst parseargs.simps) (simp add: split_beta)
qed

lemma parseargs_word:
  assumes "wordy w" and "Suc (length argv) < MAXARGS"
  shows "\<exists>x. word_at x = w \<and>
    parseargs argv rs (w @ 0x20 # s) = andthen (parseredirs rs s) (\<lambda>(rs, s). parseargs (argv @ [x]) rs s)"
proof -
  obtain c v where c: "w = c # v" "\<not> white c" "\<not> symbol c" using wordy_Cons [OF assms(1)] by blast
  then have "peek (w @ 0x20 # s) ''|)&;'' = (False, w @ 0x20 # s)"
    by (auto simp: peek_Cons symbol_iff symbols_def cstr_def)
  then have "parseargs argv rs (w @ 0x20 # s) =
      andthen (parseredirs rs (skip s)) (\<lambda>(rs, u). parseargs (argv @ [(w @ 0x20 # s, 0x20 # s)]) rs u)"
    using assms(2) gettoken_word [OF assms(1), of s] by (subst parseargs.simps) simp
  then show ?thesis unfolding parseredirs_skip by (intro exI [of _ "(w @ 0x20 # s, 0x20 # s)"]) simp
qed

lemma parseargs_text:
  assumes "\<forall>w \<in> set ws. wordy w" and "\<forall>r \<in> set rs. redir_ok r" and "at_stop s"
    and "length argv + length ws < MAXARGS" and "ws \<noteq> []"
  shows "\<exists>as xs. map word_at as = ws \<and> map file_at xs = rs \<and>
    parseargs argv acc (words_text ws @ redirs_text rs @ s) = Ok (argv @ as, acc @ xs, skip s)"
  using assms(1,4,5)
proof (induction ws arbitrary: argv)
  case (Cons w ws)
  have w: "wordy w" "Suc (length argv) < MAXARGS" using Cons.prems by auto
  obtain x where x: "word_at x = w" and px: "parseargs argv acc (w @ 0x20 # words_text ws @ redirs_text rs @ s) =
      andthen (parseredirs acc (words_text ws @ redirs_text rs @ s)) (\<lambda>(rs, s). parseargs (argv @ [x]) rs s)"
    using parseargs_word [OF w] by blast
  have t: "words_text (w # ws) @ redirs_text rs @ s = w @ 0x20 # words_text ws @ redirs_text rs @ s"
    by (simp add: words_text_def)
  show ?case
  proof (cases ws)
    case Nil
    obtain xs where "map file_at xs = rs" "parseredirs acc (redirs_text rs @ s) = Ok (acc @ xs, skip s)"
      using parseredirs_text [OF assms(2) at_stop_redirs [OF assms(3)]] by blast
    moreover have "parseargs (argv @ [x]) (acc @ xs) s = Ok (argv @ [x], acc @ xs, skip s)" for xs
      by (rule parseargs_stop [OF assms(3)])
    ultimately show ?thesis
      unfolding t px using x Nil by (intro exI [of _ "[x]"] exI [of _ xs]) (simp add: words_text_def parseargs_skip)
  next
    case (Cons w' ws')
    let ?u = "words_text ws @ redirs_text rs @ s"
    obtain c v where c: "w' = c # v" "\<not> white c" "\<not> symbol c"
      using wordy_Cons [of w'] Cons.prems(1) Cons by auto
    then have "\<not> fst (peek ?u ''<>'')" "skip ?u = ?u"
      using Cons by (auto simp: words_text_def peek_Cons symbol_iff symbols_def cstr_def)
    then have "parseredirs acc ?u = Ok (acc, ?u)" using parseredirs_stop [of ?u acc] by simp
    moreover have "\<forall>w \<in> set ws. wordy w" "length (argv @ [x]) + length ws < MAXARGS" "ws \<noteq> []"
      using Cons.prems Cons by simp_all
    then obtain as xs where "map word_at as = ws" "map file_at xs = rs"
        "parseargs (argv @ [x]) acc ?u = Ok ((argv @ [x]) @ as, acc @ xs, skip s)"
      using Cons.IH [of "argv @ [x]"] by blast
    ultimately show ?thesis
      unfolding t px using x by (intro exI [of _ "x # as"] exI [of _ xs]) simp
  qed
qed simp

text \<open>A tree is a command without redirections and the redirections around it.\<close>

primrec base :: "tree \<Rightarrow> tree" where
  "base (TEXEC ws) = TEXEC ws"
| "base (TREDIR t r) = base t"
| "base (TPIPE l r) = TPIPE l r"
| "base (TLIST l r) = TLIST l r"
| "base (TBACK t) = TBACK t"

primrec around :: "tree \<Rightarrow> (ustr \<times> cint \<times> cint) list" where
  "around (TEXEC ws) = []"
| "around (TREDIR t r) = around t @ [r]"
| "around (TPIPE l r) = []"
| "around (TLIST l r) = []"
| "around (TBACK t) = []"

lemma tree_split: "t = foldl TREDIR (base t) (around t)"
  "text_of t True = text_of (base t) True @ redirs_text (around t)"
  "tree_ok t \<longleftrightarrow> tree_ok (base t) \<and> (\<forall>r \<in> set (around t). redir_ok r)"
  by (induction t) (auto simp: redirs_text_def)

lemma tree_of_wrap: "tree_of (wrap c xs) = foldl TREDIR (tree_of c) (map file_at xs)"
  unfolding wrap_def by (induction xs arbitrary: c) (auto simp: redircmd_def file_at_def split_beta)

lemma parseexec_words:
  assumes "base t = TEXEC ws" and "tree_ok t" and "at_stop s"
  shows "\<exists>c. tree_of c = t \<and> parseexec (Suc n) (text_of t True @ s) = Ok (c, skip s)"
proof -
  have ok: "length ws < MAXARGS" "\<forall>w \<in> set ws. wordy w" "\<forall>r \<in> set (around t). redir_ok r"
    using assms(1,2) tree_split(3) [of t] by simp_all
  have txt_eq: "text_of t True @ s = words_text ws @ redirs_text (around t) @ s" (is "_ = ?u")
    using assms(1) tree_split(2) [of t] by simp
  have "\<exists>as xs. map word_at as = ws \<and> map file_at xs = around t \<and> \<not> fst (peek ?u ''('') \<and>
      andthen (parseredirs [] ?u) (\<lambda>(rs, s). parseargs [] rs s) = Ok (as, xs, skip s)"
  proof (cases ws)
    case Nil
    obtain xs where xs: "map file_at xs = around t" "parseredirs [] (redirs_text (around t) @ s) = Ok (xs, skip s)"
      using parseredirs_text [OF ok(3) at_stop_redirs [OF assms(3)], of "[]"] by auto
    have "\<not> fst (peek ?u ''('')"
    proof (cases "around t")
      case Nil
      then show ?thesis using assms(3) \<open>ws = []\<close>
        by (auto simp: at_stop_def words_text_def redirs_text_def peek_def strchr_None_iff cstr_def Let_def simp del: strchr.simps)
    next
      case (Cons r rs)
      then show ?thesis using \<open>ws = []\<close> not_white
        by (auto simp: words_text_def redirs_text_def redir_text_def peek_Cons cstr_def)
    qed
    then show ?thesis
      using xs Nil parseargs_stop [OF assms(3), of "[]" xs]
      by (intro exI [of _ "[]"] exI [of _ xs]) (simp add: words_text_def parseargs_skip)
  next
    case (Cons w ws')
    obtain c v where c: "w = c # v" "\<not> white c" "\<not> symbol c" using wordy_Cons [of w] ok(2) Cons by auto
    then have "\<not> fst (peek ?u ''<>'')" "skip ?u = ?u" "\<not> fst (peek ?u ''('')"
      using Cons by (auto simp: words_text_def peek_Cons symbol_iff symbols_def cstr_def)
    then show ?thesis
      using parseargs_text [OF ok(2,3) assms(3), of "[]" "[]"] ok(1) Cons parseredirs_stop [of ?u "[]"] by auto
  qed
  then obtain as xs where r: "map word_at as = ws" "map file_at xs = around t" "\<not> fst (peek ?u ''('')"
      "andthen (parseredirs [] ?u) (\<lambda>(rs, s). parseargs [] rs s) = Ok (as, xs, skip s)" by blast
  obtain rs u where "parseredirs [] ?u = Ok (rs, u)" "parseargs [] rs u = Ok (as, xs, skip s)"
    using r(4) by (auto simp: outcome_iff)
  moreover have "peek ?u ''('' = (False, skip ?u)" using r(3) peek_snd [of ?u] by (simp add: prod_eq_iff)
  ultimately have "parseexec (Suc n) ?u = Ok (wrap (EXEC as) xs, skip s)" by (simp add: parseredirs_skip)
  moreover have "tree_of (wrap (EXEC as) xs) = t"
    using tree_split(1) [of t] r(1,2) assms(1) by (simp add: tree_of_wrap)
  ultimately show ?thesis unfolding txt_eq by blast
qed

text \<open>Where a line ends inside of another one: at the end or before a closing parenthesis.\<close>

definition at_close :: "ustr \<Rightarrow> bool" where
  "at_close s \<longleftrightarrow> skip s = [] \<or> fst (peek s '')'')"

lemma peek_head: "fst (peek s toks) \<longleftrightarrow> skip s \<noteq> [] \<and> hd (skip s) \<in> set (cstr toks)"
  by (cases "skip s") (auto simp: peek_def strchr_None_iff deref_def Let_def simp del: strchr.simps)

lemma at_close_facts:
  assumes "at_close s"
  shows "at_stop s" "peek s ''|'' = (False, skip s)" "peek s '';'' = (False, skip s)" "parseback c s = (c, skip s)"
proof -
  have "skip s = [] \<or> hd (skip s) = 0x29" using assms by (auto simp: at_close_def peek_head cstr_def)
  then have "\<not> fst (peek s ''|'')" "\<not> fst (peek s '';'')" "\<not> fst (peek s ''&'')" and stop: "at_stop s"
    by (auto simp: at_stop_def peek_head cstr_def)
  then show "peek s ''|'' = (False, skip s)" "peek s '';'' = (False, skip s)" "parseback c s = (c, skip s)"
    using peek_snd [of s] by (simp_all add: prod_eq_iff parseback.simps [of c s] split_beta)
  show "at_stop s" by (rule stop)
qed

lemma peek_symbol: "c \<in> {0x7C, 0x28, 0x29, 0x3B, 0x26} \<Longrightarrow> peek (c # s) toks = (c \<in> set (cstr toks), c # s)"
  using not_white by (intro peek_Cons) auto

lemma at_stop_symbol: "c \<in> {0x7C, 0x29, 0x3B, 0x26} \<Longrightarrow> at_stop (c # s) \<and> skip (c # s) = c # s"
  using not_white by (auto simp: at_stop_def peek_symbol cstr_def)

lemma rest_symbol: "c \<in> {0x7C, 0x28, 0x29, 0x3B, 0x26} \<Longrightarrow> rest (gettoken (c # s)) = skip s"
  by (subst gettoken_symbol(1)) (auto simp: rest_def)

lemma parse_skip:
  "parseexec n (skip s) = parseexec n s" "parsepipe n (skip s) = parsepipe n s" "parseline n (skip s) = parseline n s"
proof -
  show e: "parseexec n (skip s) = parseexec n s" for n by (cases n) (simp_all add: peek_skip)
  show p: "parsepipe n (skip s) = parsepipe n s" for n by (cases n) (simp_all add: e)
  show "parseline n (skip s) = parseline n s" by (cases n) (simp_all add: p)
qed

lemma parseback_skip: "parseback c (skip s) = parseback c s"
  by (simp add: parseback.simps peek_skip)

lemma parseline_unit:
  assumes "parseexec n ps = Ok (c, skip s)" and "at_close s"
  shows "parseline (Suc (Suc n)) ps = Ok (c, skip s)"
  using assms at_close_facts [OF assms(2)] by (simp add: peek_skip parseback_skip)

definition unit_ok :: "tree \<Rightarrow> bool" where
  "unit_ok t \<longleftrightarrow> (\<forall>s n. at_stop s \<longrightarrow> 4 * length (text_of t True) + 2 \<le> n \<longrightarrow>
     (\<exists>c. tree_of c = t \<and> parseexec n (text_of t True @ s) = Ok (c, skip s)))"

definition line_ok :: "tree \<Rightarrow> bool" where
  "line_ok t \<longleftrightarrow> (\<forall>s n. at_close s \<longrightarrow> 4 * length (text_of t False) + 4 \<le> n \<longrightarrow>
     (\<exists>c. tree_of c = t \<and> parseline n (text_of t False @ s) = Ok (c, skip s)))"

lemma unit_okD:
  "unit_ok t \<Longrightarrow> at_stop s \<Longrightarrow> 4 * length (text_of t True) + 2 \<le> n \<Longrightarrow>
     \<exists>c. tree_of c = t \<and> parseexec n (text_of t True @ s) = Ok (c, skip s)"
  by (simp add: unit_ok_def)

lemma line_ok_pipe:
  assumes "unit_ok l" and "unit_ok r"
  shows "line_ok (TPIPE l r)"
  unfolding line_ok_def
proof (intro allI impI)
  fix s :: ustr and n
  let ?tl = "text_of l True" and ?tr = "text_of r True"
  assume s: "at_close s" and n: "4 * length (text_of (TPIPE l r) False) + 4 \<le> n"
  note f = at_close_facts [OF s]
  obtain k where k: "n = Suc (Suc (Suc k))" using n by (cases n; cases "n - 1"; cases "n - 2") auto
  have len: "4 * length ?tl + 2 \<le> Suc k" "4 * length ?tr + 2 \<le> k" using n k by (simp_all add: paren_def)
  obtain cl where cl: "tree_of cl = l" "parseexec (Suc k) (?tl @ 0x7C # ?tr @ s) = Ok (cl, 0x7C # ?tr @ s)"
    using unit_okD [OF assms(1) _ len(1), of "0x7C # ?tr @ s"] at_stop_symbol [of "0x7C" "?tr @ s"] by auto
  obtain cr where cr: "tree_of cr = r" "parseexec k (?tr @ s) = Ok (cr, skip s)"
    using unit_okD [OF assms(2) f(1) len(2)] by blast
  have "parsepipe (Suc k) (?tr @ s) = Ok (cr, skip s)" using cr(2) f(2) by (simp add: peek_skip)
  then have "parsepipe (Suc (Suc k)) (?tl @ 0x7C # ?tr @ s) = Ok (PIPE cl cr, skip s)"
    using cl(2) peek_symbol [of "0x7C" "?tr @ s" "''|''"] rest_symbol [of "0x7C" "?tr @ s"]
    by (subst parsepipe.simps) (simp add: cstr_def parse_skip pipecmd_def)
  then have "parseline n (text_of (TPIPE l r) False @ s) = Ok (PIPE cl cr, skip s)"
    using k f(3) at_close_facts(4) [OF s, of "PIPE cl cr"]
    by (simp add: paren_def peek_skip parseback_skip del: parsepipe.simps)
  then show "\<exists>c. tree_of c = TPIPE l r \<and> parseline n (text_of (TPIPE l r) False @ s) = Ok (c, skip s)"
    using cl(1) cr(1) by (intro exI [of _ "PIPE cl cr"]) simp
qed

lemma line_ok_list:
  assumes "unit_ok l" and "unit_ok r"
  shows "line_ok (TLIST l r)"
  unfolding line_ok_def
proof (intro allI impI)
  fix s :: ustr and n
  let ?tl = "text_of l True" and ?tr = "text_of r True"
  assume s: "at_close s" and n: "4 * length (text_of (TLIST l r) False) + 4 \<le> n"
  note f = at_close_facts [OF s]
  obtain k where k: "n = Suc (Suc (Suc k))" using n by (cases n; cases "n - 1"; cases "n - 2") auto
  have len: "4 * length ?tl + 2 \<le> Suc k" "4 * length ?tr + 2 \<le> k" using n k by (simp_all add: paren_def)
  let ?u = "0x3B # ?tr @ s"
  obtain cl where cl: "tree_of cl = l" "parseexec (Suc k) (?tl @ ?u) = Ok (cl, ?u)"
    using unit_okD [OF assms(1) _ len(1), of ?u] at_stop_symbol [of "0x3B" "?tr @ s"] by auto
  obtain cr where cr: "tree_of cr = r" "parseexec k (?tr @ s) = Ok (cr, skip s)"
    using unit_okD [OF assms(2) f(1) len(2)] by blast
  have r: "parseline (Suc (Suc k)) (?tr @ s) = Ok (cr, skip s)" by (rule parseline_unit [OF cr(2) s])
  have pk: "peek ?u ''|'' = (False, ?u)" "peek ?u ''&'' = (False, ?u)" "peek ?u '';'' = (True, ?u)"
    by (simp_all add: peek_symbol cstr_def)
  have "parsepipe (Suc (Suc k)) (?tl @ ?u) = Ok (cl, ?u)" using cl(2) pk(1) by (subst parsepipe.simps) simp
  moreover have "parseback cl ?u = (cl, ?u)" using pk(2) by (subst parseback.simps) simp
  ultimately have "parseline n (text_of (TLIST l r) False @ s) = Ok (LIST cl cr, skip s)"
    using k pk(3) r rest_symbol [of "0x3B" "?tr @ s"]
    by (simp add: paren_def parse_skip listcmd_def del: parsepipe.simps)
  then show "\<exists>c. tree_of c = TLIST l r \<and> parseline n (text_of (TLIST l r) False @ s) = Ok (c, skip s)"
    using cl(1) cr(1) by (intro exI [of _ "LIST cl cr"]) simp
qed

lemma line_ok_back:
  assumes "unit_ok t"
  shows "line_ok (TBACK t)"
  unfolding line_ok_def
proof (intro allI impI)
  fix s :: ustr and n
  let ?t = "text_of t True" and ?u = "0x26 # s"
  assume s: "at_close s" and n: "4 * length (text_of (TBACK t) False) + 4 \<le> n"
  note f = at_close_facts [OF s]
  obtain k where k: "n = Suc (Suc k)" using n by (cases n; cases "n - 1") auto
  obtain c where c: "tree_of c = t" "parseexec k (?t @ ?u) = Ok (c, ?u)"
    using unit_okD [OF assms _ , of ?u k] at_stop_symbol [of "0x26" s] n k by (auto simp: paren_def)
  have pk: "peek ?u ''|'' = (False, ?u)" "peek ?u ''&'' = (True, ?u)" by (simp_all add: peek_symbol cstr_def)
  have "parsepipe (Suc k) (?t @ ?u) = Ok (c, ?u)" using c(2) pk(1) by simp
  moreover have "parseback c ?u = (BACK c, skip s)"
    using pk(2) f(4) [of "BACK c"] rest_symbol [of "0x26" s]
    by (subst parseback.simps) (simp add: backcmd_def parseback_skip)
  ultimately have "parseline n (text_of (TBACK t) False @ s) = Ok (BACK c, skip s)"
    using k f(3) by (simp add: paren_def peek_skip del: parsepipe.simps)
  then show "\<exists>c. tree_of c = TBACK t \<and> parseline n (text_of (TBACK t) False @ s) = Ok (c, skip s)"
    using c(1) by (intro exI [of _ "BACK c"]) simp
qed

lemma unit_ok_block:
  assumes "line_ok b" and "base t = b" and "text_of b True = paren True (text_of b False)" and "tree_ok t"
  shows "unit_ok t"
  unfolding unit_ok_def
proof (intro allI impI)
  fix s :: ustr and n
  let ?b = "text_of b False" and ?r = "redirs_text (around t)"
  assume s: "at_stop s" and n: "4 * length (text_of t True) + 2 \<le> n"
  have txt_eq: "text_of t True @ s = 0x28 # ?b @ 0x29 # ?r @ s" (is "_ = ?ps")
    using tree_split(2) [of t] assms(2,3) by (simp add: paren_def)
  then have len: "length (text_of t True) = length ?b + length ?r + 2"
    using arg_cong [OF txt_eq, of length] by simp
  obtain k where k: "n = Suc (Suc k)" using n by (cases n; cases "n - 1") auto
  have "at_close (0x29 # ?r @ s)" "skip (0x29 # ?r @ s) = 0x29 # ?r @ s"
    using not_white by (simp_all add: at_close_def peek_symbol cstr_def)
  moreover have "4 * length ?b + 4 \<le> k" using n k len by simp
  ultimately obtain c where c: "tree_of c = b" "parseline k (?b @ 0x29 # ?r @ s) = Ok (c, 0x29 # ?r @ s)"
    using assms(1) unfolding line_ok_def by fastforce
  have "\<forall>r \<in> set (around t). redir_ok r" using assms(4) tree_split(3) by blast
  then obtain xs where xs: "map file_at xs = around t" "parseredirs [] (?r @ s) = Ok (xs, skip s)"
    using parseredirs_text [OF _ at_stop_redirs [OF s], of "around t" "[]"] by auto
  have "peek ?ps ''('' = (True, ?ps)" "peek (0x29 # ?r @ s) '')'' = (True, 0x29 # ?r @ s)"
    by (simp_all add: peek_symbol cstr_def)
  then have "parseexec n ?ps = Ok (wrap c xs, skip s)"
    using k c(2) xs(2) rest_symbol [of "0x28" "?b @ 0x29 # ?r @ s"] rest_symbol [of "0x29" "?r @ s"]
    by (simp add: parse_skip parseredirs_skip)
  moreover have "tree_of (wrap c xs) = t" using c(1) xs(1) assms(2) tree_split(1) [of t] by (simp add: tree_of_wrap)
  ultimately show "\<exists>c. tree_of c = t \<and> parseexec n (text_of t True @ s) = Ok (c, skip s)" unfolding txt_eq by blast
qed

lemma base_cases:
  "(\<exists>ws. base t = TEXEC ws) \<or> (\<exists>l r. base t = TPIPE l r) \<or> (\<exists>l r. base t = TLIST l r) \<or> (\<exists>c. base t = TBACK c)"
  by (induction t) auto

lemma size_base: "size (base t) \<le> size t"
  by (induction t) auto

lemma tree_unit_ok: "tree_ok t \<Longrightarrow> unit_ok t"
proof (induction "size t" arbitrary: t rule: less_induct)
  case less
  have b: "tree_ok (base t)" using less.prems tree_split(3) by blast
  note block = unit_ok_block [OF _ refl _ less.prems]
  consider ws where "base t = TEXEC ws" | l r where "base t = TPIPE l r" | l r where "base t = TLIST l r"
    | c where "base t = TBACK c"
    using base_cases [of t] by blast
  then show ?case
  proof cases
    case 1
    show ?thesis
      unfolding unit_ok_def
    proof (intro allI impI)
      fix s :: ustr and n
      assume "at_stop s" "4 * length (text_of t True) + 2 \<le> n"
      then show "\<exists>c. tree_of c = t \<and> parseexec n (text_of t True @ s) = Ok (c, skip s)"
        using parseexec_words [OF 1 less.prems, of s "n - 1"] by (cases n) simp_all
    qed
  next
    case 2
    then have "unit_ok l" "unit_ok r" using less.hyps b size_base [of t] by simp_all
    then show ?thesis using 2 block line_ok_pipe by (simp add: paren_def)
  next
    case 3
    then have "unit_ok l" "unit_ok r" using less.hyps b size_base [of t] by simp_all
    then show ?thesis using 3 block line_ok_list by (simp add: paren_def)
  next
    case 4
    then have "unit_ok c" using less.hyps b size_base [of t] by simp
    then show ?thesis using 4 block line_ok_back by (simp add: paren_def)
  qed
qed

lemma line_ok_unit: "unit_ok t \<Longrightarrow> text_of t False = text_of t True \<Longrightarrow> line_ok t"
  unfolding line_ok_def
proof (intro allI impI)
  fix s :: ustr and n
  assume t: "unit_ok t" "text_of t False = text_of t True" and s: "at_close s" and n: "4 * length (text_of t False) + 4 \<le> n"
  obtain k where k: "n = Suc (Suc k)" using n by (cases n; cases "n - 1") auto
  then have "4 * length (text_of t True) + 2 \<le> k" using n t(2) by simp
  then obtain c where "tree_of c = t" "parseexec k (text_of t True @ s) = Ok (c, skip s)"
    using unit_okD [OF t(1) at_close_facts(1) [OF s]] by blast
  then show "\<exists>c. tree_of c = t \<and> parseline n (text_of t False @ s) = Ok (c, skip s)"
    using parseline_unit [OF _ s] k t(2) by auto
qed

lemma tree_line_ok: "tree_ok t \<Longrightarrow> line_ok t"
  using line_ok_unit [OF tree_unit_ok]
  by (cases t) (simp_all add: line_ok_pipe line_ok_list line_ok_back tree_unit_ok)

text \<open>C24: The parser reads back the text of every command tree: words and file names without blanks and symbols,
  fewer than ten words to a command, redirections, pipes, lists and background commands in any combination. The
  text is the fully parenthesised one: every pipe, list or background command that stands inside of another
  command is in parentheses.
\<close>

theorem parsecmd_reads_back:
  assumes "tree_ok t"
  shows "\<exists>c buf. parsecmd (text_of t False) = Ok (c, buf) \<and> tree_of c = t"
proof -
  let ?s = "text_of t False"
  have "at_close []" by (simp add: at_close_def)
  then obtain c where c: "tree_of c = t" "parseline (enough ?s) ?s = Ok (c, [])"
    using tree_line_ok [OF assms] unfolding line_ok_def enough_def by force
  then show ?thesis by (simp add: parsecmd_def peek_def)
qed

theorem parsecmd_reads_back_witness:
  "\<exists>c buf. parsecmd [0x61, 0x20, 0x7C, 0x62, 0x20, 0x3E, 0x66, 0x20] = Ok (c, buf) \<and>
     tree_of c = TPIPE (TEXEC [[0x61]]) (TREDIR (TEXEC [[0x62]]) ([0x66], 0x201, 1))"
  using parsecmd_reads_back [of "TPIPE (TEXEC [[0x61]]) (TREDIR (TEXEC [[0x62]]) ([0x66], 0x201, 1))"]
  by (simp add: words_text_def redir_text_def paren_def wordy_def redir_ok_def white_iff whitespace_def symbol_iff
      symbols_def cstr_def)

end
