(* ===== verification/Dashboard.thy ===== *)
theory Dashboard
  imports Ktrace Ulib Print
begin

text \<open>
  The dashboard \<^verbatim>\<open>trace.c\<close>: it polls the kernel for trace events, keeps the last 32 it is asked to show, and
  redraws the screen. A drawing is the list of the calls of \<open>vidclear\<close> and \<open>vidputs\<close> it makes; what the
  kernel answers is the input of the main loop.
\<close>

section \<open>Drawing\<close>


abbreviation (input) COLOR_NORMAL :: cint where "COLOR_NORMAL \<equiv> 0x07"
abbreviation (input) COLOR_GREEN :: cint where "COLOR_GREEN \<equiv> 0x0a"
abbreviation (input) COLOR_YELLOW :: cint where "COLOR_YELLOW \<equiv> 0x0e"
abbreviation (input) COLOR_RED :: cint where "COLOR_RED \<equiv> 0x0c"




definition latency_color :: "cint \<Rightarrow> cint" where
  "latency_color latency =
     (if sint latency \<ge> 5 then COLOR_RED else if sint latency \<ge> 2 then COLOR_YELLOW else COLOR_GREEN)"

text \<open>
  The digits in \<open>temp\<close>, last one first, with the number of bytes that are free in it. The negation of the
  smallest \<open>int\<close> is that number again.
\<close>

primrec itoa_loop :: "nat \<Rightarrow> int \<Rightarrow> uchar list" where
  "itoa_loop 0 val = []"
| "itoa_loop (Suc n) val = (if val > 0 then of_int (0x30 + val mod 10) # itoa_loop n (val div 10) else [])"

definition itoa :: "cint \<Rightarrow> uchar list" where
  "itoa val =
     (let neg = sint val < 0; val = (if neg then - val else val) in
      if val = 0 then cstr ''0''
      else
        let temp = itoa_loop 15 (sint val);
            temp = (if neg \<and> length temp < 15 then temp @ cstr ''-'' else temp)
        in rev temp)"






definition bar :: "cint \<Rightarrow> string \<times> cint" where
  "bar count =
     (if count = 0 then (''.'', COLOR_NORMAL)
      else if sint count < 3 then (''-'', COLOR_GREEN)
      else if sint count < 7 then (''='', COLOR_YELLOW)
      else (''#'', COLOR_RED))"


section \<open>State\<close>



text \<open>The globals and the variables of \<open>main\<close>; \<open>limit = 0\<close> asks for the buffer to be drained once.\<close>

record options =
  o_rows :: cint
  o_type :: cint
  o_pid :: cint
  o_limit :: cint
  o_limit_set :: bool




section \<open>Arguments\<close>

function parse_args :: "ustr list \<Rightarrow> options \<Rightarrow> options" where
  "parse_args argv opts =
     (case argv of
        [] \<Rightarrow> opts
      | a # rest \<Rightarrow>
          if strcmp a (cstr ''-n'') = 0 \<and> rest \<noteq> [] then
            let rows = atoi (hd rest) in
            parse_args (tl rest) (opts\<lparr>o_rows := if sint rows > 32 then 32 else rows\<rparr>)
          else if strcmp a (cstr ''syscall'') = 0 then parse_args rest (opts\<lparr>o_type := TRACE_TYPE_SYSCALL\<rparr>)
          else if strcmp a (cstr ''proc'') = 0 then parse_args rest (opts\<lparr>o_type := TRACE_TYPE_PROC\<rparr>)
          else if strcmp a (cstr ''mem'') = 0 then parse_args rest (opts\<lparr>o_type := TRACE_TYPE_MEM\<rparr>)
          else if strcmp a (cstr ''trap'') = 0 then parse_args rest (opts\<lparr>o_type := TRACE_TYPE_TRAP\<rparr>)
          else
            let val = atoi a in
            if sint val > 0 \<or> strcmp a (cstr ''0'') = 0 then
              if \<not> o_limit_set opts then parse_args rest (opts\<lparr>o_limit := val, o_limit_set := True\<rparr>)
              else if o_pid opts = - 1 then parse_args rest (opts\<lparr>o_pid := val\<rparr>)
              else parse_args rest opts
            else parse_args rest opts)"
  by pat_completeness auto

termination
  by (relation "measure (\<lambda>(argv, opts). length argv)") auto

declare parse_args.simps [simp del]


section \<open>The main loop\<close>











section \<open>What the dashboard shows\<close>




































section \<open>Numbers on the dashboard\<close>

lemma itoa_loop_dec: "0 < x \<Longrightarrow> x < 10 ^ n \<Longrightarrow> itoa_loop n (int x) = dec_loop x"
proof (induction n arbitrary: x)
  case (Suc n)
  have d: "(of_int (0x30 + int x mod 10) :: uchar) = digits ! (x mod 10)"
  proof -
    have "0x30 + int x mod 10 = int (48 + x mod 10)" by (simp add: zmod_int)
    then show ?thesis using digits_nth [of "x mod 10"] by (simp only: of_int_of_nat_eq)
  qed
  have q: "int x div 10 = int (x div 10)" by (simp add: zdiv_int)
  show ?case
  proof (cases "x div 10 = 0")
    case True
    have "itoa_loop n 0 = []" by (cases n) simp_all
    then show ?thesis using Suc.prems(1) d q True by (simp add: dec_loop.simps [of x])
  next
    case False
    then have "itoa_loop n (int (x div 10)) = dec_loop (x div 10)"
      using Suc by (intro Suc.IH) (auto simp: div_less_iff_less_mult mult.commute)
    then show ?thesis using Suc.prems(1) d q False by (simp add: dec_loop.simps [of x])
  qed
qed simp

lemma sint_minus: "v \<noteq> 0x80000000 \<Longrightarrow> sint (- v :: cint) = - sint v"
proof -
  assume v: "v \<noteq> 0x80000000"
  have "sint v \<noteq> - (2 ^ 31)"
  proof
    assume "sint v = - (2 ^ 31)"
    moreover have "of_int (sint v) = v" by simp
    ultimately have "v = of_int (- (2 ^ 31))" by simp
    then show False using v by simp
  qed
  then have "signed_take_bit 31 (- sint v) = - sint v"
    using sint_greater_eq [of v] sint_less [of v] by (intro signed_take_bit_int_eq_self) simp_all
  then show "sint (- v) = - sint v" by (simp add: sint_word_ariths)
qed

text \<open>C27: The dashboard prints a number with its own \<open>itoa\<close> as \<open>print_d\<close> of the kernel does, except for the smallest
  \<open>int\<close>, of which it prints only the sign.
\<close>

theorem itoa_decimal:
  "itoa v = (if v = 0x80000000 then cstr ''-'' else print_d v)"
proof -
  consider "v = 0x80000000" | "v = 0" | "v \<noteq> 0x80000000" "v \<noteq> 0" by blast
  then show ?thesis
  proof cases
    case 1
    have "itoa 0x80000000 = cstr ''-''" by code_simp
    then show ?thesis using 1 by simp
  next
    case 2
    have "itoa 0 = print_d 0" by code_simp
    then show ?thesis using 2 by simp
  next
    case 3
    let ?x = "nat \<bar>sint v\<bar>"
    have x: "0 < ?x" "?x < 10 ^ 10" using 3(2) abs_cint_bound [of v] by (auto simp: signed_eq_0_iff)
    have "itoa_loop 15 \<bar>sint v\<bar> = dec_loop ?x" using itoa_loop_dec [of ?x 15] x by simp
    moreover have "length (dec_loop ?x) < 15" using dec_loop_length [of ?x 9] x(2) by simp
    moreover have "sint (if sint v < 0 then - v else v) = \<bar>sint v\<bar>" using sint_minus [OF 3(1)] by simp
    moreover have "(if sint v < 0 then - v else v) \<noteq> 0" using 3(2) by simp
    ultimately show ?thesis using 3(1) by (simp add: itoa_def print_d_def Let_def)
  qed
qed

end
