(* ===== verification/Umalloc.thy ===== *)
theory Umalloc
  imports Prelude
begin

text \<open>
  \<^verbatim>\<open>umalloc.c\<close>: the memory allocator of user programs. Free blocks form a circular list through their
  headers, in the order of their addresses from the static header \<open>base\<close> on; \<open>free\<close> joins neighbours,
  \<open>malloc\<close> takes the first block that is large enough and asks the kernel for more when there is none.
\<close>

section \<open>State\<close>

text \<open>
  An address of user memory is a number of bytes. A header has 16 of them: the link and the size of its
  block in headers, an unsigned int. \<open>h_brk\<close> is the end of the process's memory, where \<open>sbrk\<close> goes on;
  \<open>h_freep\<close> is 0 before the first call.
\<close>

abbreviation HDR :: nat where "HDR \<equiv> 16"

record uheap =
  h_base :: nat
  h_freep :: nat
  h_ptr :: "nat \<Rightarrow> nat"
  h_size :: "nat \<Rightarrow> nat"
  h_brk :: nat

definition set_ptr :: "nat \<Rightarrow> nat \<Rightarrow> uheap \<Rightarrow> uheap" where
  "set_ptr a q h = h\<lparr>h_ptr := (h_ptr h)(a := q)\<rparr>"

definition set_size :: "nat \<Rightarrow> nat \<Rightarrow> uheap \<Rightarrow> uheap" where
  "set_size a n h = h\<lparr>h_size := (h_size h)(a := n mod 2 ^ 32)\<rparr>"

text \<open>
  Whether the kernel grants a number of bytes beyond the present end is its own affair (\<open>growproc\<close>): it
  is a parameter of what follows.
\<close>

type_synonym grants = "nat \<Rightarrow> nat \<Rightarrow> bool"

definition sbrk :: "grants \<Rightarrow> nat \<Rightarrow> uheap \<Rightarrow> nat option \<times> uheap" where
  "sbrk grow n h = (if grow (h_brk h) n then (Some (h_brk h), h\<lparr>h_brk := h_brk h + n\<rparr>) else (None, h))"

section \<open>free\<close>

text \<open>The search for the free block before \<open>bp\<close>; \<open>None\<close> is a search that does not end.\<close>

partial_function (option) free_loop :: "uheap \<Rightarrow> nat \<Rightarrow> nat \<Rightarrow> nat option" where
  "free_loop h bp p =
     (if p < bp \<and> bp < h_ptr h p then Some p
      else if h_ptr h p \<le> p \<and> (p < bp \<or> bp < h_ptr h p) then Some p
      else free_loop h bp (h_ptr h p))"

definition free_join :: "nat \<Rightarrow> nat \<Rightarrow> uheap \<Rightarrow> uheap" where
  "free_join bp p h =
     (let q = h_ptr h p;
          h = (if bp + HDR * h_size h bp = q
               then set_ptr bp (h_ptr h q) (set_size bp (h_size h bp + h_size h q) h)
               else set_ptr bp q h);
          h = (if p + HDR * h_size h p = bp
               then set_ptr p (h_ptr h bp) (set_size p (h_size h p + h_size h bp) h)
               else set_ptr p bp h)
      in h\<lparr>h_freep := p\<rparr>)"

definition free :: "nat \<Rightarrow> uheap \<Rightarrow> uheap option" where
  "free ap h = (let bp = ap - HDR in map_option (\<lambda>p. free_join bp p h) (free_loop h bp (h_freep h)))"

section \<open>malloc\<close>

definition morecore :: "grants \<Rightarrow> nat \<Rightarrow> uheap \<Rightarrow> (nat \<times> uheap) option" where
  "morecore grow nu h =
     (let nu = (if nu < 4096 then 4096 else nu) in
      case sbrk grow (nu * HDR) h of
        (None, h) \<Rightarrow> Some (0, h)
      | (Some hp, h) \<Rightarrow> map_option (\<lambda>h. (h_freep h, h)) (free (hp + HDR) (set_size hp nu h)))"

text \<open>A block is taken whole, or its tail is.\<close>

definition take_block :: "nat \<Rightarrow> nat \<Rightarrow> nat \<Rightarrow> uheap \<Rightarrow> nat \<times> uheap" where
  "take_block nunits prevp p h =
     (let (p, h) = (if h_size h p = nunits then (p, set_ptr prevp (h_ptr h p) h)
        else let h = set_size p (h_size h p - nunits) h; p = p + HDR * h_size h p
             in (p, set_size p nunits h))
      in (p + HDR, h\<lparr>h_freep := prevp\<rparr>))"

partial_function (option) malloc_loop :: "grants \<Rightarrow> nat \<Rightarrow> nat \<Rightarrow> nat \<Rightarrow> uheap \<Rightarrow> (nat \<times> uheap) option" where
  "malloc_loop grow nunits prevp p h =
     (if nunits \<le> h_size h p then Some (take_block nunits prevp p h)
      else if p = h_freep h then
        Option.bind (morecore grow nunits h) (\<lambda>r.
          if fst r = 0 then Some (0, snd r)
          else malloc_loop grow nunits (fst r) (h_ptr (snd r) (fst r)) (snd r))
      else malloc_loop grow nunits p (h_ptr h p) h)"

definition malloc :: "grants \<Rightarrow> nat \<Rightarrow> uheap \<Rightarrow> (nat \<times> uheap) option" where
  "malloc grow nbytes h =
     (let nunits = ((nbytes + HDR - 1) div HDR + 1) mod 2 ^ 32;
          h = (if h_freep h = 0
               then set_size (h_base h) 0 ((set_ptr (h_base h) (h_base h) h)\<lparr>h_freep := h_base h\<rparr>)
               else h);
          prevp = h_freep h
      in malloc_loop grow nunits prevp (h_ptr h prevp) h)"

section \<open>The free list\<close>

text \<open>The nodes from one address up to another, along the links.\<close>

fun path :: "(nat \<Rightarrow> nat) \<Rightarrow> nat \<Rightarrow> nat list \<Rightarrow> nat \<Rightarrow> bool" where
  "path f x [] y \<longleftrightarrow> x = y"
| "path f x (a # as) y \<longleftrightarrow> x = a \<and> path f (f a) as y"

lemma path_append [simp]: "path f x (as @ bs) y \<longleftrightarrow> (\<exists>z. path f x as z \<and> path f z bs y)"
  by (induction as arbitrary: x) auto

lemma path_other [simp]: "a \<notin> set as \<Longrightarrow> path (f(a := q)) x as y \<longleftrightarrow> path f x as y"
  by (induction as arbitrary: x) auto

abbreviation block_end :: "uheap \<Rightarrow> nat \<Rightarrow> nat" where
  "block_end h a \<equiv> a + HDR * h_size h a"

abbreviation gaps :: "uheap \<Rightarrow> nat list \<Rightarrow> bool" where
  "gaps h as \<equiv> successively (\<lambda>a b. block_end h a < b) as"

lemma gaps_cong: "\<forall>a \<in> set as. h_size k a = h_size h a \<Longrightarrow> gaps k as \<longleftrightarrow> gaps h as"
  by (rule successively_cong) auto

text \<open>
  The free list \<open>as\<close>, from \<open>base\<close> on: in the order of the addresses, with a gap between any two blocks.
\<close>

definition free_list :: "uheap \<Rightarrow> nat list \<Rightarrow> bool" where
  "free_list h as \<longleftrightarrow> as \<noteq> [] \<and> hd as = h_base h \<and> path (h_ptr h) (h_base h) as (h_base h) \<and>
     gaps h as \<and> h_freep h \<in> set as"

lemma free_loop_after:
  assumes "path (h_ptr h) p (p # as) b" and "successively (<) (p # as)" and "p < bp" and "bp \<notin> set as" and "b \<le> p"
  shows "free_loop h bp p = Some (last (takeWhile (\<lambda>a. a < bp) (p # as)))"
  using assms
proof (induction as arbitrary: p)
  case Nil
  then show ?case by (subst free_loop.simps) simp
next
  case (Cons a as)
  then have a: "h_ptr h p = a" "p < a" "path (h_ptr h) a (a # as) b" "successively (<) (a # as)" by simp_all
  show ?case
  proof (cases "a < bp")
    case True
    have "free_loop h bp p = free_loop h bp a" using a True Cons.prems by (subst free_loop.simps) simp
    then show ?thesis using Cons.IH [OF a(3,4) True] Cons.prems True by simp
  next
    case False
    then have "free_loop h bp p = Some p" using a Cons.prems by (subst free_loop.simps) auto
    then show ?thesis using Cons.prems False by simp
  qed
qed

lemma free_loop_before:
  assumes "path (h_ptr h) p (p # as) b" and "successively (<) (p # as)" and "bp < p" and "b < bp"
  shows "free_loop h bp p = free_loop h bp b"
  using assms
proof (induction as arbitrary: p)
  case Nil
  then show ?case by (subst free_loop.simps) simp
next
  case (Cons a as)
  then have a: "h_ptr h p = a" "p < a" "path (h_ptr h) a (a # as) b" "successively (<) (a # as)" by simp_all
  have "free_loop h bp p = free_loop h bp a" using a Cons.prems by (subst free_loop.simps) simp
  then show ?case using Cons.IH [OF a(3,4)] a(2) Cons.prems by simp
qed

lemma successively_weaken:
  "gaps h as \<Longrightarrow> successively (<) as"
  by (erule successively_mono) auto

lemma sorted_less:
  assumes "successively (<) (xs @ p # (ys :: nat list))"
  shows "\<forall>x \<in> set xs. x < p" "\<forall>y \<in> set ys. p < y"
  using assms by (simp_all add: successively_conv_sorted_wrt [OF transp_on_less] sorted_wrt_append)

text \<open>The search ends with the last free block before \<open>bp\<close>.\<close>

lemma free_loop_ok:
  assumes f: "free_list h as" and bp: "h_base h < bp" "bp \<notin> set as"
  shows "\<exists>xs p ys. as = xs @ p # ys \<and> p < bp \<and> (\<forall>y \<in> set ys. bp < y) \<and> free_loop h bp (h_freep h) = Some p"
proof -
  let ?b = "h_base h" and ?c = "h_freep h"
  obtain l r where as: "as = l @ ?c # r" using f by (auto simp: free_list_def in_set_conv_decomp)
  have asc: "successively (<) as" using f successively_weaken by (auto simp: free_list_def)
  have path: "path (h_ptr h) ?b as ?b" using f by (simp add: free_list_def)
  obtain as' where as': "as = ?b # as'" using f by (metis free_list_def list.exhaust_sel)
  have low: "?b \<le> a" if "a \<in> set as" for a
    using that sorted_less(2) [of "[]" ?b as'] asc unfolding as' by (auto simp: less_imp_le)
  let ?p = "last (takeWhile (\<lambda>a. a < bp) as)"
  have found: "free_loop h bp ?c = Some ?p"
  proof (cases "?c < bp")
    case True
    have "path (h_ptr h) ?c (?c # r) ?b" "successively (<) (?c # r)"
      using path asc unfolding as by (auto simp: successively_append_iff)
    then have "free_loop h bp ?c = Some (last (takeWhile (\<lambda>a. a < bp) (?c # r)))"
      using True bp as low by (intro free_loop_after [where b = ?b]) auto
    moreover have "\<forall>x \<in> set l. x < ?c" by (rule sorted_less(1) [OF asc [unfolded as]])
    then have "\<forall>x \<in> set l. x < bp" using True by auto
    then have "takeWhile (\<lambda>a. a < bp) as = l @ takeWhile (\<lambda>a. a < bp) (?c # r)"
      unfolding as by (simp add: takeWhile_append)
    ultimately show ?thesis using True by simp
  next
    case False
    then have "bp < ?c" using bp(2) as by (cases "bp = ?c") auto
    moreover have "path (h_ptr h) ?c (?c # r) ?b" "successively (<) (?c # r)"
      using path asc unfolding as by (auto simp: successively_append_iff)
    ultimately have "free_loop h bp ?c = free_loop h bp ?b" using bp(1) by (intro free_loop_before)
    also have "\<dots> = Some (last (takeWhile (\<lambda>a. a < bp) (?b # as')))"
      using path asc bp unfolding as' by (intro free_loop_after [where b = ?b]) auto
    finally show ?thesis using as' by simp
  qed
  have ne: "takeWhile (\<lambda>a. a < bp) as \<noteq> []" using as' bp(1) by simp
  let ?ys = "dropWhile (\<lambda>a. a < bp) as"
  have split: "as = butlast (takeWhile (\<lambda>a. a < bp) as) @ ?p # ?ys"
    using ne append_butlast_last_id takeWhile_dropWhile_id by (metis append.assoc append_Cons append_Nil)
  have "?p < bp" using ne last_in_set set_takeWhileD by fastforce
  moreover have "\<forall>y \<in> set ?ys. bp < y"
  proof (cases ?ys)
    case Nil
    show ?thesis unfolding Nil by simp
  next
    case (Cons z zs)
    then have "\<not> z < bp" using hd_dropWhile [of "\<lambda>a. a < bp" as] by simp
    moreover have "z \<in> set as" using Cons set_dropWhileD by (metis list.set_intros(1))
    ultimately have "bp < z" using bp(2) by (metis linorder_neqE_nat)
    moreover have "\<forall>y \<in> set zs. z < y"
      using asc split Cons sorted_less(2) [of "butlast (takeWhile (\<lambda>a. a < bp) as) @ [?p]" z zs] by simp
    ultimately show ?thesis unfolding Cons by auto
  qed
  ultimately show ?thesis using found split by blast
qed

section \<open>The heap\<close>

text \<open>
  \<open>bs\<close> are the blocks that the program has. Blocks lie between \<open>base\<close> and the end of memory, and no two
  of them overlap. Memory ends below \<open>2 ^ 36\<close>, so that sizes fit an unsigned int.
\<close>

definition apart :: "uheap \<Rightarrow> nat \<Rightarrow> nat \<Rightarrow> bool" where
  "apart h a b \<longleftrightarrow> block_end h a \<le> b \<or> block_end h b \<le> a"

definition block_ok :: "uheap \<Rightarrow> nat \<Rightarrow> bool" where
  "block_ok h a \<longleftrightarrow> 0 < h_size h a \<and> h_base h + HDR \<le> a \<and> block_end h a \<le> h_brk h"

definition heap_inv :: "uheap \<Rightarrow> nat list \<Rightarrow> nat set \<Rightarrow> bool" where
  "heap_inv h as bs \<longleftrightarrow> free_list h as \<and> h_size h (h_base h) = 0 \<and> 0 < h_base h \<and> h_base h + HDR \<le> h_brk h \<and> h_brk h \<le> 2 ^ 36 \<and>
     (\<forall>a \<in> set (tl as) \<union> bs. block_ok h a) \<and>
     (\<forall>b \<in> bs. \<forall>a \<in> set (tl as). apart h a b) \<and> (\<forall>b \<in> bs. \<forall>c \<in> bs. b \<noteq> c \<longrightarrow> apart h b c)"

lemma heap_inv_block:
  assumes "heap_inv h as bs" and "a \<in> set (tl as) \<union> bs"
  shows "0 < h_size h a" "h_base h + HDR \<le> a" "block_end h a \<le> h_brk h" "h_brk h \<le> 2 ^ 36"
  using assms unfolding heap_inv_def block_ok_def by blast+

lemma heap_inv_apart:
  "heap_inv h as bs \<Longrightarrow> a \<in> set (tl as) \<Longrightarrow> b \<in> bs \<Longrightarrow> apart h a b"
  "heap_inv h as bs \<Longrightarrow> b \<in> bs \<Longrightarrow> c \<in> bs \<Longrightarrow> b \<noteq> c \<Longrightarrow> apart h b c"
  by (simp_all add: heap_inv_def)

lemma heap_inv_cases:
  assumes "heap_inv h (xs @ p # ys) bs"
  shows "p = h_base h \<and> xs = [] \<or> p \<in> set (tl (xs @ p # ys))" "set ys \<subseteq> set (tl (xs @ p # ys))"
proof -
  have "hd (xs @ p # ys) = h_base h" using assms unfolding heap_inv_def free_list_def by blast
  then show "p = h_base h \<and> xs = [] \<or> p \<in> set (tl (xs @ p # ys))" by (cases xs) simp_all
  show "set ys \<subseteq> set (tl (xs @ p # ys))" by (cases xs) auto
qed

text \<open>A block of the program lies behind the free block before it and ahead of the ones after it.\<close>

lemma around_block:
  assumes inv: "heap_inv h (xs @ p # ys) bs" and "bp \<in> bs" and "p < bp" and "\<forall>y \<in> set ys. bp < y"
  shows "block_end h p \<le> bp" "\<forall>y \<in> set ys. block_end h bp \<le> y" "bp \<notin> set (xs @ p # ys)"
proof -
  let ?as = "xs @ p # ys"
  have ok: "block_ok h bp" "\<forall>a \<in> set (tl ?as). apart h a bp" "h_size h (h_base h) = 0"
    using inv assms(2) by (auto simp: heap_inv_def)
  note c = heap_inv_cases [OF inv]
  show "block_end h p \<le> bp"
    using c(1) ok assms(3) by (auto simp: apart_def block_ok_def)
  show "\<forall>y \<in> set ys. block_end h bp \<le> y"
  proof
    fix y assume y: "y \<in> set ys"
    then have "apart h y bp" "0 < h_size h y" "bp < y"
      using c(2) ok(2) inv assms(4) by (auto simp: heap_inv_def block_ok_def)
    then show "block_end h bp \<le> y" by (auto simp: apart_def)
  qed
  have "successively (<) ?as" using inv successively_weaken by (auto simp: heap_inv_def free_list_def)
  from sorted_less(1) [OF this] show "bp \<notin> set ?as" using assms(3,4) by auto
qed

text \<open>
  The first half of \<open>free_join\<close>: \<open>zs\<close> are the free blocks behind \<open>bp\<close> once it is joined with its right
  neighbour.
\<close>

definition join_right :: "nat \<Rightarrow> nat \<Rightarrow> uheap \<Rightarrow> uheap" where
  "join_right bp q h =
     (if bp + HDR * h_size h bp = q
      then set_ptr bp (h_ptr h q) (set_size bp (h_size h bp + h_size h q) h)
      else set_ptr bp q h)"

definition right_ok :: "uheap \<Rightarrow> nat \<Rightarrow> nat list \<Rightarrow> uheap \<Rightarrow> nat list \<Rightarrow> bool" where
  "right_ok h bp ys k zs \<longleftrightarrow> path (h_ptr k) (h_ptr k bp) zs (h_base h) \<and> gaps k (bp # zs) \<and>
     set zs \<subseteq> set ys \<and> h_size h bp \<le> h_size k bp \<and>
     (h_size k bp = h_size h bp \<or> (\<exists>q \<in> set ys. block_end h bp = q \<and> h_size k bp = h_size h bp + h_size h q)) \<and>
     (\<forall>a. a \<noteq> bp \<longrightarrow> h_size k a = h_size h a \<and> h_ptr k a = h_ptr h a) \<and>
     h_base k = h_base h \<and> h_brk k = h_brk h"

lemma free_list_split:
  assumes "heap_inv h (xs @ p # ys) bs"
  shows "path (h_ptr h) (h_ptr h p) ys (h_base h)" "gaps h (xs @ p # ys)"
    "path (h_ptr h) (h_base h) xs p"
  using assms by (auto simp: heap_inv_def free_list_def)

lemma size_fits:
  assumes "heap_inv h as bs" and "a \<in> set (tl as) \<union> bs" and "b + HDR * n \<le> block_end h a" and "0 < b"
  shows "n < 2 ^ 32"
proof -
  have "b + HDR * n \<le> 2 ^ 36" using heap_inv_block(3,4) [OF assms(1,2)] assms(3) by linarith
  then show ?thesis using assms(4) by simp
qed

lemma join_right_ok:
  assumes inv: "heap_inv h (xs @ p # ys) bs" and bp: "bp \<in> bs" "p < bp" "\<forall>y \<in> set ys. bp < y"
  shows "\<exists>zs. right_ok h bp ys (join_right bp (h_ptr h p) h) zs"
proof -
  note around = around_block [OF assms]
  note list = free_list_split [OF inv]
  have base: "h_base h < bp" using heap_inv_block(2) [OF inv, of bp] bp(1) by simp
  show ?thesis
  proof (cases ys)
    case Nil
    then have "h_ptr h p = h_base h" using list(1) by simp
    then have "join_right bp (h_ptr h p) h = set_ptr bp (h_base h) h" using base by (simp add: join_right_def)
    then have "right_ok h bp ys (join_right bp (h_ptr h p) h) []" using Nil by (simp add: right_ok_def set_ptr_def)
    then show ?thesis by blast
  next
    case (Cons q ys')
    have q: "h_ptr h p = q" "path (h_ptr h) (h_ptr h q) ys' (h_base h)" using list(1) Cons by simp_all
    have ni: "bp \<notin> set ys'" "q \<noteq> bp" using around(3) Cons by auto
    have gap: "gaps h (q # ys')"
      using list(2) Cons by (auto simp: successively_append_iff)
    show ?thesis
    proof (cases "block_end h bp = q")
      case True
      have "h_size h bp + h_size h q < 2 ^ 32"
        using size_fits [OF inv, of q bp "h_size h bp + h_size h q"] True base heap_inv_cases(2) [OF inv] Cons
        by auto
      then have k: "join_right bp q h = h\<lparr>h_ptr := (h_ptr h)(bp := h_ptr h q),
          h_size := (h_size h)(bp := h_size h bp + h_size h q)\<rparr>"
        using True by (simp add: join_right_def set_ptr_def set_size_def)
      have "gaps (join_right bp q h) ys'" using gap ni k by (subst gaps_cong [of _ _ h]) (auto simp: successively_Cons)
      then have "gaps (join_right bp q h) (bp # ys')"
        using gap True unfolding k by (cases ys') (auto simp: algebra_simps)
      then have "right_ok h bp ys (join_right bp q h) ys'"
        using q ni True Cons unfolding k by (auto simp: right_ok_def)
      then show ?thesis using q by blast
    next
      case False
      then have k: "join_right bp q h = h\<lparr>h_ptr := (h_ptr h)(bp := q)\<rparr>" by (simp add: join_right_def set_ptr_def)
      have "block_end h bp < q" using around(2) Cons False by simp
      then have "right_ok h bp ys (join_right bp q h) ys"
        using q ni gap Cons unfolding k by (auto simp: right_ok_def successively_Cons)
      then show ?thesis using q by blast
    qed
  qed
qed

lemma right_apart:
  assumes inv: "heap_inv h (xs @ p # ys) bs" and bp: "bp \<in> bs" and r: "right_ok h bp ys k zs"
  shows "block_end k bp \<le> h_brk h" "b \<in> bs \<Longrightarrow> b \<noteq> bp \<Longrightarrow> block_end k bp \<le> b \<or> block_end h b \<le> bp"
proof -
  consider "h_size k bp = h_size h bp"
    | q where "q \<in> set ys" "block_end h bp = q" "block_end k bp = block_end h q"
    using r unfolding right_ok_def by (auto simp: algebra_simps)
  then have "block_end k bp \<le> h_brk h \<and> (b \<in> bs \<longrightarrow> b \<noteq> bp \<longrightarrow> block_end k bp \<le> b \<or> block_end h b \<le> bp)"
  proof cases
    case 1
    then show ?thesis using inv bp heap_inv_block(3) [OF inv, of bp] by (auto simp: heap_inv_def apart_def)
  next
    case 2
    have q: "q \<in> set (tl (xs @ p # ys))" using 2(1) heap_inv_cases(2) [OF inv] by blast
    have "block_end k bp \<le> b \<or> block_end h b \<le> bp" if b: "b \<in> bs" "b \<noteq> bp"
    proof -
      have "apart h bp b" "apart h q b"
        using heap_inv_apart(2) [OF inv bp b(1)] b(2) heap_inv_apart(1) [OF inv q b(1)] by auto
      then show ?thesis using 2(2,3) heap_inv_block(1) [OF inv, of b] b(1) by (auto simp: apart_def)
    qed
    then show ?thesis using 2(3) heap_inv_block(3) [OF inv, of q] q by simp
  qed
  then show "block_end k bp \<le> h_brk h" "b \<in> bs \<Longrightarrow> b \<noteq> bp \<Longrightarrow> block_end k bp \<le> b \<or> block_end h b \<le> bp" by auto
qed

text \<open>The second half of \<open>free_join\<close>, and what is then the free list.\<close>

definition join_left :: "nat \<Rightarrow> nat \<Rightarrow> uheap \<Rightarrow> uheap" where
  "join_left bp p k =
     (if p + HDR * h_size k p = bp
      then set_ptr p (h_ptr k bp) (set_size p (h_size k p + h_size k bp) k)
      else set_ptr p bp k)"

lemma free_join_eq: "free_join bp p h = (join_left bp p (join_right bp (h_ptr h p) h))\<lparr>h_freep := p\<rparr>"
  by (simp add: free_join_def join_left_def join_right_def Let_def)

lemma gaps_append_Cons:
  "gaps h (xs @ p # zs) \<longleftrightarrow> gaps h (xs @ [p]) \<and> gaps h (p # zs)"
  by (auto simp: successively_append_iff)

lemma gaps_last_cong: "\<forall>a \<in> set xs. h_size k a = h_size h a \<Longrightarrow> gaps k (xs @ [p]) \<longleftrightarrow> gaps h (xs @ [p])"
  using gaps_cong [of xs k h] by (cases "xs = []") (auto simp: successively_append_iff)

text \<open>A new free list over the old blocks: what is left to show of the blocks whose size has changed.\<close>

lemma heap_inv_new_list:
  assumes inv: "heap_inv h as bs" and "free_list f as'" and "bs' \<subseteq> bs"
    and same: "h_base f = h_base h" "h_brk f = h_brk h" "h_size f (h_base h) = 0" "\<forall>b \<in> bs'. h_size f b = h_size h b"
    and new: "\<forall>a \<in> set (tl as'). a \<in> set (tl as) \<and> h_size f a = h_size h a \<or>
      block_ok f a \<and> (\<forall>b \<in> bs'. apart f a b)"
  shows "heap_inv f as' bs'"
  unfolding heap_inv_def
proof (intro conjI ballI impI)
  fix a assume a: "a \<in> set (tl as') \<union> bs'"
  have "block_ok h a" if "a \<in> set (tl as) \<union> bs" using inv that unfolding heap_inv_def by blast
  then show "block_ok f a" using a new same assms(3) by (auto simp: block_ok_def)
next
  fix b a assume b: "b \<in> bs'" and a: "a \<in> set (tl as')"
  have "apart h a b" if "a \<in> set (tl as)" using heap_inv_apart(1) [OF inv that] b assms(3) by blast
  then show "apart f a b" using a b new same(4) by (auto simp: apart_def)
next
  fix b c assume "b \<in> bs'" "c \<in> bs'" "b \<noteq> c"
  moreover have "apart h b c" using heap_inv_apart(2) [OF inv] calculation assms(3) by blast
  ultimately show "apart f b c" using same(4) by (simp add: apart_def)
qed (use inv assms(2) same in \<open>auto simp: heap_inv_def\<close>)

lemma free_list_new:
  assumes inv: "heap_inv h (xs @ p # ys) bs" and "h_base f = h_base h" and "h_freep f \<in> set (xs @ p # zs)"
    and "\<forall>a \<in> set xs. h_ptr f a = h_ptr h a \<and> h_size f a = h_size h a"
    and "path (h_ptr f) (h_ptr f p) zs (h_base h)" and "gaps f (p # zs)"
  shows "free_list f (xs @ p # zs)"
proof -
  have "path (h_ptr f) x xs y \<longleftrightarrow> path (h_ptr h) x xs y" for x y
    using assms(4) by (induction xs arbitrary: x) auto
  then have "path (h_ptr f) (h_base h) (xs @ p # zs) (h_base h)"
    using free_list_split(3) [OF inv] assms(5) by auto
  moreover have "gaps h (xs @ [p])" using free_list_split(2) [OF inv] gaps_append_Cons by blast
  then have "gaps f (xs @ p # zs)"
    using assms(4,6) gaps_last_cong [of xs f h p] gaps_append_Cons [of f xs p zs] by blast
  moreover have "hd (xs @ p # ys) = h_base h" using inv unfolding heap_inv_def free_list_def by blast
  then have "hd (xs @ p # zs) = h_base h" by (cases xs) auto
  ultimately show ?thesis using assms(2,3) unfolding free_list_def by auto
qed

text \<open>What freeing \<open>bp\<close> must achieve; a block at least as large as \<open>bp\<close> is then in the free list.\<close>

definition freed :: "uheap \<Rightarrow> nat \<Rightarrow> nat set \<Rightarrow> uheap \<Rightarrow> nat list \<Rightarrow> bool" where
  "freed h bp bs f as \<longleftrightarrow> heap_inv f as (bs - {bp}) \<and> (\<forall>b \<in> bs - {bp}. h_size f b = h_size h b) \<and>
     h_base f = h_base h \<and> h_brk f = h_brk h \<and> (\<exists>a \<in> set as. h_size h bp \<le> h_size f a)"

lemma join_facts:
  assumes inv: "heap_inv h (xs @ p # ys) bs" and bp: "bp \<in> bs" "p < bp" "\<forall>y \<in> set ys. bp < y"
    and r: "right_ok h bp ys k zs"
  shows "p \<notin> set xs" "p \<notin> set zs" "bp \<notin> set xs" "bp \<notin> set zs" "h_base h < bp" "h_size h (h_base h) = 0"
    "0 < h_size h bp" "set zs \<subseteq> set (tl (xs @ p # ys))" "set (tl (xs @ p # zs)) \<subseteq> set (tl (xs @ p # ys))"
proof -
  have zy: "set zs \<subseteq> set ys" using r by (simp add: right_ok_def)
  have "successively (<) (xs @ p # ys)" using free_list_split(2) [OF inv] successively_weaken by blast
  then have "p \<notin> set xs" "p \<notin> set ys" using sorted_less by blast+
  then show "p \<notin> set xs" "p \<notin> set zs" "bp \<notin> set xs" "bp \<notin> set zs"
    using around_block(3) [OF inv bp] zy by auto
  show "h_base h < bp" "h_size h (h_base h) = 0" "0 < h_size h bp"
    using heap_inv_block(1,2) [OF inv, of bp] bp(1) inv by (simp_all add: heap_inv_def)
  show "set zs \<subseteq> set (tl (xs @ p # ys))" using zy heap_inv_cases(2) [OF inv] by blast
  then show "set (tl (xs @ p # zs)) \<subseteq> set (tl (xs @ p # ys))" using zy by (cases xs) auto
qed

lemma join_left_linked:
  assumes inv: "heap_inv h (xs @ p # ys) bs" and bp: "bp \<in> bs" "p < bp" "\<forall>y \<in> set ys. bp < y"
    and r: "right_ok h bp ys k zs" and no: "block_end h p \<noteq> bp"
  shows "freed h bp bs ((join_left bp p k)\<lparr>h_freep := p\<rparr>) (xs @ p # bp # zs)"
proof -
  let ?f = "(set_ptr p bp k)\<lparr>h_freep := p\<rparr>"
  note j = join_facts [OF inv bp r] and ra = right_apart [OF inv bp(1) r]
  have k: "path (h_ptr k) (h_ptr k bp) zs (h_base h)" "gaps k (bp # zs)"
    "h_size h bp \<le> h_size k bp" "h_base k = h_base h" "h_brk k = h_brk h"
    "\<And>a. a \<noteq> bp \<Longrightarrow> h_size k a = h_size h a" "\<And>a. a \<noteq> bp \<Longrightarrow> h_ptr k a = h_ptr h a"
    using r by (simp_all add: right_ok_def)
  have xs: "\<forall>a \<in> set xs. a \<noteq> p \<and> h_ptr k a = h_ptr h a \<and> h_size k a = h_size h a" using j(1,3) k(6,7) by metis
  have f: "(join_left bp p k)\<lparr>h_freep := p\<rparr> = ?f" using no k(6) [of p] bp(2) by (simp add: join_left_def)
  have lt: "block_end h p < bp" using around_block(1) [OF inv bp] no by simp
  have "free_list ?f (xs @ p # bp # zs)"
  proof (rule free_list_new [OF inv])
    show "gaps ?f (p # bp # zs)" using k(2) k(6) [of p] lt bp(2) by (simp add: set_ptr_def)
  qed (use j(2) k(1,4) xs bp(2) in \<open>auto simp: set_ptr_def\<close>)
  moreover have "\<forall>a \<in> set (tl (xs @ p # bp # zs)). a \<in> set (tl (xs @ p # ys)) \<and> h_size ?f a = h_size h a \<or>
      block_ok ?f a \<and> (\<forall>b \<in> bs - {bp}. apart ?f a b)"
  proof
    fix a assume "a \<in> set (tl (xs @ p # bp # zs))"
    then consider "a = bp" | "a \<noteq> bp" "a \<in> set (tl (xs @ p # zs))" by (cases xs) auto
    then show "a \<in> set (tl (xs @ p # ys)) \<and> h_size ?f a = h_size h a \<or> block_ok ?f a \<and> (\<forall>b \<in> bs - {bp}. apart ?f a b)"
    proof cases
      case 1
      have "block_ok ?f bp" using ra(1) k(3-5) j(7) heap_inv_block(2) [OF inv, of bp] bp(1)
        by (simp add: block_ok_def set_ptr_def)
      then show ?thesis using 1 ra(2) k(6) by (auto simp: apart_def set_ptr_def)
    next
      case 2
      then show ?thesis using j(9) k(6) by (auto simp: set_ptr_def)
    qed
  qed
  ultimately have "heap_inv ?f (xs @ p # bp # zs) (bs - {bp})"
    using k j by (intro heap_inv_new_list [OF inv]) (auto simp: set_ptr_def)
  then show ?thesis using k f by (auto simp: freed_def set_ptr_def)
qed

lemma join_left_joined:
  assumes inv: "heap_inv h (xs @ p # ys) bs" and bp: "bp \<in> bs" "p < bp" "\<forall>y \<in> set ys. bp < y"
    and r: "right_ok h bp ys k zs" and yes: "block_end h p = bp"
  shows "freed h bp bs ((join_left bp p k)\<lparr>h_freep := p\<rparr>) (xs @ p # zs)"
proof -
  let ?f = "k\<lparr>h_ptr := (h_ptr k)(p := h_ptr k bp), h_size := (h_size k)(p := h_size h p + h_size k bp), h_freep := p\<rparr>"
  note j = join_facts [OF inv bp r] and ra = right_apart [OF inv bp(1) r]
  have k: "path (h_ptr k) (h_ptr k bp) zs (h_base h)" "gaps k (bp # zs)"
    "h_size h bp \<le> h_size k bp" "h_base k = h_base h" "h_brk k = h_brk h"
    "\<And>a. a \<noteq> bp \<Longrightarrow> h_size k a = h_size h a" "\<And>a. a \<noteq> bp \<Longrightarrow> h_ptr k a = h_ptr h a"
    using r by (simp_all add: right_ok_def)
  have xs: "\<forall>a \<in> set xs. a \<noteq> p \<and> h_ptr k a = h_ptr h a \<and> h_size k a = h_size h a" using j(1,3) k(6,7) by metis
  have pb: "p \<noteq> h_base h" using yes j(5,6) by auto
  then have ptl: "p \<in> set (tl (xs @ p # ys))" using heap_inv_cases(1) [OF inv] by blast
  have ends: "p + HDR * (h_size h p + h_size k bp) = block_end k bp" using yes by simp
  have "h_size h p + h_size k bp < 2 ^ 32"
  proof -
    have "0 < p" using heap_inv_block(2) [OF inv, of p] ptl by simp
    then show ?thesis using ends ra(1) heap_inv_block(4) [OF inv, of bp] bp(1) by simp
  qed
  then have f: "(join_left bp p k)\<lparr>h_freep := p\<rparr> = ?f"
    using yes k(6) [of p] bp(2) by (simp add: join_left_def set_ptr_def set_size_def)
  have list: "free_list ?f (xs @ p # zs)"
  proof (rule free_list_new [OF inv])
    have "gaps ?f zs" using k(2) j(2) by (subst gaps_cong [of _ _ k]) (auto simp: successively_Cons)
    then show "gaps ?f (p # zs)" using k(2) ends by (cases zs) auto
  qed (use j(2) k(1,4) xs in auto)
  have pok: "block_ok ?f p"
    using ends ra(1) k(4,5) heap_inv_block(1,2) [OF inv, of p] ptl by (simp add: block_ok_def)
  have papart: "apart ?f p b" if "b \<in> bs - {bp}" for b
  proof -
    have "apart h p b" using heap_inv_apart(1) [OF inv ptl] that by blast
    moreover have "0 < h_size h p" "0 < h_size h b" using heap_inv_block(1) [OF inv] ptl that by auto
    ultimately show ?thesis using ra(2) [of b] that yes ends k(6) [of b] by (auto simp: apart_def)
  qed
  have bsame: "h_size ?f b = h_size h b" if "b \<in> bs - {bp}" for b
  proof -
    have "apart h p b" "0 < h_size h p" using heap_inv_apart(1) [OF inv ptl] heap_inv_block(1) [OF inv] ptl that by auto
    moreover have "0 < h_size h b" using heap_inv_block(1) [OF inv] that by auto
    ultimately have "b \<noteq> p" by (auto simp: apart_def)
    then show ?thesis using k(6) that by simp
  qed
  have new: "\<forall>a \<in> set (tl (xs @ p # zs)). a \<in> set (tl (xs @ p # ys)) \<and> h_size ?f a = h_size h a \<or>
      block_ok ?f a \<and> (\<forall>b \<in> bs - {bp}. apart ?f a b)"
  proof
    fix a assume a: "a \<in> set (tl (xs @ p # zs))"
    then have "a \<in> set (tl (xs @ p # ys))" using j(9) by blast
    moreover have "a \<noteq> bp" using calculation around_block(3) [OF inv bp] by (metis list.set_sel(2) append_is_Nil_conv list.distinct(1))
    ultimately show "a \<in> set (tl (xs @ p # ys)) \<and> h_size ?f a = h_size h a \<or> block_ok ?f a \<and> (\<forall>b \<in> bs - {bp}. apart ?f a b)"
      using pok papart k(6) by (cases "a = p") auto
  qed
  have "heap_inv ?f (xs @ p # zs) (bs - {bp})"
    by (rule heap_inv_new_list [OF inv list _ _ _ _ _ new]) (use bsame k(4,5) k(6) [of "h_base h"] j(5,6) pb in auto)
  then show ?thesis using bsame k(3-5) f by (auto simp: freed_def)
qed

lemma free_join_ok:
  assumes inv: "heap_inv h (xs @ p # ys) bs" and bp: "bp \<in> bs" "p < bp" "\<forall>y \<in> set ys. bp < y"
  shows "\<exists>as. freed h bp bs (free_join bp p h) as"
proof -
  obtain zs where r: "right_ok h bp ys (join_right bp (h_ptr h p) h) zs" using join_right_ok [OF assms] by blast
  show ?thesis
    unfolding free_join_eq using join_left_linked [OF assms r] join_left_joined [OF assms r] by blast
qed

lemma free_ok:
  assumes inv: "heap_inv h as bs" and bp: "bp \<in> bs"
  shows "\<exists>f as'. free (bp + HDR) h = Some f \<and> freed h bp bs f as'"
proof -
  have "h_base h < bp" using heap_inv_block(2) [OF inv, of bp] bp by simp
  moreover have "bp \<notin> set as"
  proof
    assume "bp \<in> set as"
    moreover have "as \<noteq> []" "hd as = h_base h" using inv by (simp_all add: heap_inv_def free_list_def)
    ultimately have "bp \<in> set (tl as)" using \<open>h_base h < bp\<close> by (cases as) auto
    then have "apart h bp bp" by (rule heap_inv_apart(1) [OF inv _ bp])
    then show False using heap_inv_block(1) [OF inv, of bp] bp by (simp add: apart_def)
  qed
  moreover have "free_list h as" using inv by (simp add: heap_inv_def)
  ultimately obtain xs p ys where p: "as = xs @ p # ys" "p < bp" "\<forall>y \<in> set ys. bp < y"
    "free_loop h bp (h_freep h) = Some p"
    using free_loop_ok by blast
  obtain as' where "freed h bp bs (free_join bp p h) as'" using free_join_ok [OF inv [unfolded p(1)] bp p(2,3)] by blast
  then show ?thesis using p(4) by (auto simp: free_def)
qed

lemma gaps_sorted: "gaps h as \<longleftrightarrow> sorted_wrt (\<lambda>a b. block_end h a < b) as"
  by (rule successively_conv_sorted_wrt) (auto simp: transp_def)

lemma gaps_mono:
  assumes "gaps h as" and "\<And>c. c \<in> set as \<Longrightarrow> h_size f c \<le> h_size h c"
  shows "gaps f as"
proof -
  have "block_end f a < b" if "a \<in> set as" "block_end h a < b" for a b
    using assms(2) [OF that(1)] that(2) by simp
  then show ?thesis using assms(1) unfolding gaps_sorted by (auto intro: sorted_wrt_mono_rel [rotated])
qed

lemma free_apart:
  assumes "heap_inv h as bs" and "a \<in> set as" and "b \<in> set as" and "a \<noteq> b"
  shows "apart h a b"
proof -
  have s: "sorted_wrt (\<lambda>a b. block_end h a < b) as"
    using assms(1) by (simp add: heap_inv_def free_list_def gaps_sorted)
  obtain i j where ij: "i < length as" "a = as ! i" "j < length as" "b = as ! j"
    using assms(2,3) by (auto simp: in_set_conv_nth)
  then have "i < j \<or> j < i" using assms(4) by (cases "i = j") auto
  then show ?thesis using sorted_wrt_nth_less [OF s, of i j] sorted_wrt_nth_less [OF s, of j i] ij by (auto simp: apart_def)
qed

lemma apart_sym: "apart h a b = apart h b a"
  by (auto simp: apart_def)

lemma all_apart:
  assumes inv: "heap_inv h as bs" and "a \<in> set (tl as) \<union> bs" and "b \<in> set (tl as) \<union> bs" and "a \<noteq> b"
  shows "apart h a b"
proof -
  have "set (tl as) \<subseteq> set as" by (cases as) auto
  then show ?thesis
    using assms free_apart [OF inv, of a b] heap_inv_apart [OF inv] apart_sym [of h a b] by blast
qed

lemma free_not_had:
  assumes inv: "heap_inv h as bs"
  shows "set (tl as) \<inter> bs = {}"
proof -
  have False if "a \<in> set (tl as)" "a \<in> bs" for a
    using heap_inv_apart(1) [OF inv that] heap_inv_block(1) [OF inv, of a] that by (auto simp: apart_def)
  then show ?thesis by blast
qed

text \<open>A heap over the same or other blocks, from the old blocks and how the new ones lie.\<close>

lemma heap_invI:
  assumes "free_list f as" and "h_size f (h_base f) = 0" and "0 < h_base f" and "h_base f + HDR \<le> h_brk f"
    and "h_brk f \<le> 2 ^ 36" and "set (tl as) \<inter> bs = {}"
    and "\<And>a. a \<in> set (tl as) \<union> bs \<Longrightarrow> block_ok f a"
    and "\<And>a b. a \<in> set (tl as) \<union> bs \<Longrightarrow> b \<in> bs \<Longrightarrow> a \<noteq> b \<Longrightarrow> apart f a b"
  shows "heap_inv f as bs"
  using assms unfolding heap_inv_def by blast

lemma heap_inv_base:
  assumes "heap_inv h as bs"
  shows "as = h_base h # tl as" "0 < h_base h" "h_size h (h_base h) = 0" "h_base h + HDR \<le> h_brk h" "h_brk h \<le> 2 ^ 36"
    "h_base h \<notin> set (tl as) \<union> bs"
proof -
  show "as = h_base h # tl as" using assms unfolding heap_inv_def free_list_def by (metis list.exhaust_sel)
  show "0 < h_base h" "h_size h (h_base h) = 0" "h_base h + HDR \<le> h_brk h" "h_brk h \<le> 2 ^ 36"
    using assms by (simp_all add: heap_inv_def)
  show "h_base h \<notin> set (tl as) \<union> bs" using heap_inv_block(2) [OF assms, of "h_base h"] by auto
qed

text \<open>The successor of a free block along the links is its successor in the list.\<close>

lemma next_free:
  assumes inv: "heap_inv h as bs" and "prev \<in> set as" and "h_ptr h prev \<noteq> h_base h"
  shows "\<exists>xs ys. as = xs @ prev # h_ptr h prev # ys"
proof -
  obtain xs ys where as: "as = xs @ prev # ys" using assms(2) by (auto simp: in_set_conv_decomp)
  have "path (h_ptr h) (h_ptr h prev) ys (h_base h)" using free_list_split(1) inv as by blast
  then show ?thesis using assms(3) as by (cases ys) auto
qed

definition taken :: "uheap \<Rightarrow> nat \<Rightarrow> nat \<Rightarrow> nat set \<Rightarrow> uheap \<Rightarrow> bool" where
  "taken h n b bs f \<longleftrightarrow> (\<exists>as. heap_inv f as (insert b bs)) \<and> b \<notin> bs \<and> h_size f b = n \<and> (\<forall>c \<in> bs. h_size f c = h_size h c)"

lemma take_whole:
  assumes inv: "heap_inv h (xs @ prev # a # ys) bs"
  shows "taken h (h_size h a) a bs ((set_ptr prev (h_ptr h a) h)\<lparr>h_freep := prev\<rparr>)"
proof -
  let ?as = "xs @ prev # a # ys" and ?f = "(set_ptr prev (h_ptr h a) h)\<lparr>h_freep := prev\<rparr>"
  note base = heap_inv_base [OF inv]
  have asc: "successively (<) ?as" using free_list_split(2) [OF inv] successively_weaken by blast
  have ord: "prev \<notin> set xs" "prev \<notin> set ys" "prev \<noteq> a" "a \<notin> set ys" "a \<notin> set xs"
    using sorted_less [OF asc] sorted_less [of "xs @ [prev]" a ys] asc by auto
  have atl: "a \<in> set (tl ?as)" "set (tl (xs @ prev # ys)) \<subseteq> set (tl ?as)" "a \<notin> set (tl (xs @ prev # ys))"
    using ord by (cases xs; auto)+
  have "gaps h ?as" by (rule free_list_split(2) [OF inv])
  then have "gaps h (prev # ys)" unfolding gaps_sorted by (auto simp: sorted_wrt_append)
  then have list: "free_list ?f (xs @ prev # ys)"
    using ord free_list_split(1) [OF inv] by (intro free_list_new [OF inv]) (auto simp: set_ptr_def)
  have abs: "a \<notin> bs" using free_not_had [OF inv] atl(1) by blast
  have s: "h_size ?f = h_size h" "h_base ?f = h_base h" "h_brk ?f = h_brk h" by (simp_all add: set_ptr_def)
  then have same: "block_ok ?f = block_ok h" "apart ?f = apart h" by (simp_all add: fun_eq_iff block_ok_def apart_def)
  have sub: "set (tl (xs @ prev # ys)) \<union> insert a bs \<subseteq> set (tl ?as) \<union> bs" using atl by blast
  have "block_ok h c" if "c \<in> set (tl ?as) \<union> bs" for c using inv that by (simp add: heap_inv_def)
  then have "heap_inv ?f (xs @ prev # ys) (insert a bs)"
    using list base(2-5) atl sub all_apart [OF inv] free_not_had [OF inv]
    by (intro heap_invI) (unfold same s, blast+)
  then show ?thesis using abs s by (auto simp: taken_def)
qed

lemma take_tail:
  assumes inv: "heap_inv h as bs" and a: "a \<in> set (tl as)" and n: "0 < n" "n < h_size h a" and prev: "prev \<in> set as"
    and e: "e = a + HDR * (h_size h a - n)"
  shows "taken h n e bs ((set_size e n (set_size a (h_size h a - n) h))\<lparr>h_freep := prev\<rparr>)" (is "taken h n e bs ?f")
proof -
  define f where "f = ?f"
  note base = heap_inv_base [OF inv]
  have aok: "0 < a" "h_base h + HDR \<le> a" "block_end h a \<le> h_brk h" "a < e" "e + HDR * n = block_end h a"
    using heap_inv_block(2,3) [OF inv, of a] a n e by (simp_all add: algebra_simps)
  have "h_size h a < 2 ^ 32" by (rule size_fits [OF inv _ _ aok(1)]) (use a in auto)
  then have s: "h_size f = (h_size h)(a := h_size h a - n, e := n)" "h_base f = h_base h" "h_brk f = h_brk h"
    "h_ptr f = h_ptr h" "h_freep f = prev"
    using n by (simp_all add: set_size_def f_def)
  have ends: "block_end f a = e" "block_end f e = block_end h a" "h_size f e = n" "0 < h_size f a"
    using aok(4,5) e n by (simp_all add: s)
  have e_new: "c \<noteq> e \<and> (c \<noteq> a \<longrightarrow> h_size f c = h_size h c \<and> apart f c a \<and> apart f c e)"
    if "c \<in> set (tl as) \<union> bs" for c
  proof (cases "c = a")
    case False
    have "apart h c a" using all_apart [OF inv that _ False] a by blast
    then have "c \<noteq> e" using n aok(4,5) by (auto simp: apart_def)
    moreover have "h_size f c = h_size h c" using False calculation by (simp add: s)
    ultimately show ?thesis using \<open>apart h c a\<close> ends aok(4,5) by (auto simp: apart_def)
  qed (use aok(4) in simp)
  have "h_size f c \<le> h_size h c" if "c \<in> set as" for c
  proof -
    have "c = h_base h \<or> c \<in> set (tl as)" using that base(1) by (metis set_ConsD)
    then show ?thesis using e_new [of c] aok(2,4) n by (cases "c = a") (auto simp: s)
  qed
  moreover have "gaps h as" using inv unfolding heap_inv_def free_list_def by blast
  ultimately have "gaps f as" using gaps_mono by blast
  then have list: "free_list f as" using inv prev unfolding heap_inv_def free_list_def by (simp add: s)
  have ok: "block_ok f c" if "c \<in> set (tl as) \<union> insert e bs" for c
  proof -
    consider "c = e" | "c = a" | "c \<in> set (tl as) \<union> bs" "c \<noteq> a" using \<open>c \<in> _\<close> by blast
    then show ?thesis
      using ends aok n e_new [of c] heap_inv_block [OF inv, of c] by cases (auto simp: block_ok_def s(2,3))
  qed
  have old: "apart f c d" if "c \<in> set (tl as) \<union> bs" "d \<in> bs" "c \<noteq> d" for c d
  proof -
    have "d \<noteq> a" using free_not_had [OF inv] a that(2) by blast
    then show ?thesis
      using e_new [of c] e_new [of d] that apart_sym [of f d a] all_apart [OF inv that(1) _ that(3)]
      by (cases "c = a") (auto simp: apart_def)
  qed
  have new: "apart f c e" if "c \<in> set (tl as) \<union> bs" for c
    using e_new [OF that] ends(1) by (cases "c = a") (auto simp: apart_def)
  have "heap_inv f as (insert e bs)"
  proof (rule heap_invI)
    show "set (tl as) \<inter> insert e bs = {}" using e_new free_not_had [OF inv] by blast
    show "h_size f (h_base f) = 0" using aok(2,4) base(3) by (simp add: s)
    show "apart f c d" if "c \<in> set (tl as) \<union> insert e bs" "d \<in> insert e bs" "c \<noteq> d" for c d
      using that old [of c d] new [of c] new [of d] apart_sym [of f e d] by blast
  qed (use list base(2,4,5) ok s in auto)
  then show ?thesis using e_new free_not_had [OF inv] a ends(3) unfolding f_def [symmetric] taken_def by blast
qed

lemma take_block_ok:
  assumes inv: "heap_inv h as bs" and prev: "prev \<in> set as" and n: "0 < n" "n \<le> h_size h (h_ptr h prev)"
  shows "\<exists>b f. take_block n prev (h_ptr h prev) h = (b + HDR, f) \<and> taken h n b bs f"
proof -
  let ?a = "h_ptr h prev"
  have "?a \<noteq> h_base h" using n heap_inv_base(3) [OF inv] by auto
  then obtain xs ys where as: "as = xs @ prev # ?a # ys" using next_free [OF inv prev] by blast
  show ?thesis
  proof (cases "h_size h ?a = n")
    case True
    then show ?thesis using take_whole [OF inv [unfolded as]] by (auto simp: take_block_def)
  next
    case False
    have a: "?a \<in> set (tl as)" by (subst as, cases xs) auto
    have "h_size h ?a < 2 ^ 32"
      using size_fits [OF inv, of ?a ?a "h_size h ?a"] a heap_inv_block(2) [OF inv, of ?a] by auto
    then have "take_block n prev ?a h = (?a + HDR * (h_size h ?a - n) + HDR,
        (set_size (?a + HDR * (h_size h ?a - n)) n (set_size ?a (h_size h ?a - n) h))\<lparr>h_freep := prev\<rparr>)"
      using False by (simp add: take_block_def set_size_def Let_def)
    then show ?thesis using take_tail [OF inv a n(1) _ prev refl] n(2) False by auto
  qed
qed

text \<open>The walk of \<open>malloc\<close> along the links, up to \<open>freep\<close>: it stops at a block that is large enough.\<close>

lemma malloc_walk:
  assumes "path (h_ptr h) (h_ptr h prev) (ws @ [h_freep h]) z" and "h_freep h \<notin> set ws"
  shows "if \<exists>a \<in> set (ws @ [h_freep h]). n \<le> h_size h a
    then \<exists>q \<in> insert prev (set ws). n \<le> h_size h (h_ptr h q) \<and>
      malloc_loop grow n prev (h_ptr h prev) h = Some (take_block n q (h_ptr h q) h)
    else malloc_loop grow n prev (h_ptr h prev) h =
      Option.bind (morecore grow n h) (\<lambda>r. if fst r = 0 then Some (0, snd r)
        else malloc_loop grow n (fst r) (h_ptr (snd r) (fst r)) (snd r))"
  using assms
proof (induction ws arbitrary: prev)
  case Nil
  then have "h_ptr h prev = h_freep h" by simp
  then show ?case by (subst (1 2) malloc_loop.simps) auto
next
  case (Cons w ws)
  then have w: "h_ptr h prev = w" "w \<noteq> h_freep h" "path (h_ptr h) (h_ptr h w) (ws @ [h_freep h]) z" "h_freep h \<notin> set ws"
    by auto
  show ?case
  proof (cases "n \<le> h_size h w")
    case True
    then have "malloc_loop grow n prev w h = Some (take_block n prev w h)" by (subst malloc_loop.simps) simp
    then show ?thesis using True w(1) by auto
  next
    case False
    then have "malloc_loop grow n prev w h = malloc_loop grow n w (h_ptr h w) h"
      using w(2) by (subst malloc_loop.simps) simp
    then show ?thesis using Cons.IH [OF w(3,4)] False w(1) by (auto split: if_splits)
  qed
qed

lemma freep_round:
  assumes inv: "heap_inv h as bs"
  shows "\<exists>ws z. path (h_ptr h) (h_ptr h (h_freep h)) (ws @ [h_freep h]) z \<and> h_freep h \<notin> set ws \<and>
    set (ws @ [h_freep h]) = set as"
proof -
  obtain l r where as: "as = l @ h_freep h # r"
    using inv unfolding heap_inv_def free_list_def by (auto simp: in_set_conv_decomp)
  note list = free_list_split [OF inv [unfolded as]]
  have "successively (<) (l @ h_freep h # r)" using list(2) successively_weaken by blast
  from sorted_less [OF this] have "h_freep h \<notin> set (r @ l)" by auto
  moreover have "path (h_ptr h) (h_ptr h (h_freep h)) ((r @ l) @ [h_freep h]) (h_ptr h (h_freep h))"
    using list(1,3) by auto
  moreover have "set ((r @ l) @ [h_freep h]) = set as" by (subst as) auto
  ultimately show ?thesis by blast
qed

lemma malloc_found:
  assumes inv: "heap_inv h as bs" and "0 < n" and "\<exists>a \<in> set as. n \<le> h_size h a"
  shows "\<exists>b f. malloc_loop grow n (h_freep h) (h_ptr h (h_freep h)) h = Some (b + HDR, f) \<and> taken h n b bs f"
proof -
  obtain ws z where ws: "path (h_ptr h) (h_ptr h (h_freep h)) (ws @ [h_freep h]) z" "h_freep h \<notin> set ws"
    "set (ws @ [h_freep h]) = set as" using freep_round [OF inv] by blast
  obtain q where q: "q \<in> insert (h_freep h) (set ws)" "n \<le> h_size h (h_ptr h q)"
    "malloc_loop grow n (h_freep h) (h_ptr h (h_freep h)) h = Some (take_block n q (h_ptr h q) h)"
    using malloc_walk [OF ws(1,2), of n grow] assms(3) unfolding ws(3) by auto
  have "q \<in> set as" using q(1) ws(3) by auto
  then show ?thesis using take_block_ok [OF inv _ assms(2) q(2)] q(3) by auto
qed

text \<open>The kernel does not let memory grow to \<open>2 ^ 36\<close> bytes: there are far fewer pages.\<close>

definition bounded :: "grants \<Rightarrow> bool" where
  "bounded grow \<longleftrightarrow> (\<forall>b n. grow b n \<longrightarrow> b + n \<le> 2 ^ 36)"

lemma heap_inv_grow:
  assumes inv: "heap_inv h as bs" and "0 < n" "n < 2 ^ 32" and "h_brk h + HDR * n \<le> 2 ^ 36"
    and f: "f = set_size (h_brk h) n (h\<lparr>h_brk := h_brk h + n * HDR\<rparr>)"
  shows "heap_inv f as (insert (h_brk h) bs)" "h_brk h \<notin> bs" "h_size f (h_brk h) = n" "\<forall>b \<in> bs. h_size f b = h_size h b"
proof -
  let ?e = "h_brk h"
  note base = heap_inv_base [OF inv]
  have s: "h_size f = (h_size h)(?e := n)" "h_base f = h_base h" "h_brk f = ?e + HDR * n"
    "h_ptr f = h_ptr h" "h_freep f = h_freep h"
    using assms(3) by (simp_all add: f set_size_def)
  have below: "c < ?e \<and> block_end h c \<le> ?e \<and> h_size f c = h_size h c" if "c \<in> set (tl as) \<union> bs" for c
    using heap_inv_block(1,3) [OF inv that] by (auto simp: s)
  have "?e \<noteq> h_base h" using base(4) by simp
  have "h_size f c = h_size h c" if "c \<in> set as" for c
    using that base(1) below [of c] \<open>?e \<noteq> h_base h\<close> by (metis UnI1 fun_upd_apply s(1) set_ConsD)
  then have "gaps f as" using gaps_cong [of as f h] inv unfolding heap_inv_def free_list_def by blast
  then have list: "free_list f as" using inv unfolding heap_inv_def free_list_def by (simp add: s)
  show eb: "?e \<notin> bs" and se: "h_size f ?e = n" and keep: "\<forall>b \<in> bs. h_size f b = h_size h b"
    using below by (auto simp: s)
  show "heap_inv f as (insert ?e bs)"
  proof (rule heap_invI)
    show "set (tl as) \<inter> insert ?e bs = {}" using below free_not_had [OF inv] by blast
    show "block_ok f c" if "c \<in> set (tl as) \<union> insert ?e bs" for c
    proof (cases "c = ?e")
      case True
      then show ?thesis using base(4) assms(2) se by (simp add: block_ok_def s(2,3))
    next
      case False
      then have "c \<in> set (tl as) \<union> bs" using that by blast
      then show ?thesis using below [of c] heap_inv_block [OF inv, of c] by (simp add: block_ok_def s(2,3))
    qed
    show "apart f c d" if "c \<in> set (tl as) \<union> insert ?e bs" "d \<in> insert ?e bs" "c \<noteq> d" for c d
      using that below [of c] below [of d] all_apart [OF inv, of c d] by (auto simp: apart_def)
  qed (use list base(2-5) \<open>?e \<noteq> h_base h\<close> assms(4) s in auto)
qed

lemma freep_pos:
  assumes "heap_inv h as bs"
  shows "h_freep h \<noteq> 0"
proof -
  have "h_freep h = h_base h \<or> h_freep h \<in> set (tl as)"
    using assms heap_inv_base(1) [OF assms] unfolding heap_inv_def free_list_def by (metis set_ConsD)
  then show ?thesis using heap_inv_base(2) [OF assms] heap_inv_block(2) [OF assms, of "h_freep h"] by auto
qed

lemma morecore_ok:
  assumes inv: "heap_inv h as bs" and g: "bounded grow" and n: "0 < n" "n < 2 ^ 32"
  shows "if grow (h_brk h) (max 4096 n * HDR)
    then \<exists>f as'. morecore grow n h = Some (h_freep f, f) \<and> heap_inv f as' bs \<and> (\<forall>b \<in> bs. h_size f b = h_size h b) \<and>
      (\<exists>a \<in> set as'. n \<le> h_size f a)
    else morecore grow n h = Some (0, h)"
proof -
  let ?n = "max 4096 n" and ?e = "h_brk h"
  have m: "(if n < 4096 then 4096 else n) = ?n" "0 < ?n" "?n < 2 ^ 32" using n(2) by (auto simp: max_def)
  show ?thesis
  proof (cases "grow ?e (?n * HDR)")
    case True
    let ?g = "set_size ?e ?n (h\<lparr>h_brk := ?e + ?n * HDR\<rparr>)"
    have "?e + HDR * ?n \<le> 2 ^ 36" using True g by (simp add: bounded_def mult.commute)
    note grown = heap_inv_grow [OF inv m(2,3) this refl]
    obtain f as' where f: "free (?e + HDR) ?g = Some f" "freed ?g ?e (insert ?e bs) f as'"
      using free_ok [OF grown(1)] by blast
    have bs: "insert ?e bs - {?e} = bs" using grown(2) by blast
    have f': "heap_inv f as' bs" "\<forall>b \<in> bs. h_size f b = h_size h b" "\<exists>a \<in> set as'. n \<le> h_size f a"
      using f(2) grown(3,4) unfolding freed_def bs by auto
    have "morecore grow n h = Some (h_freep f, f)"
      using True f(1) by (simp add: morecore_def m(1) sbrk_def)
    then show ?thesis using True f' by auto
  next
    case False
    then show ?thesis by (simp add: morecore_def m(1) sbrk_def)
  qed
qed

text \<open>A heap at rest, before the first call or after any.\<close>

definition heap_ok :: "uheap \<Rightarrow> nat set \<Rightarrow> bool" where
  "heap_ok h bs \<longleftrightarrow> (\<exists>as. heap_inv h as bs) \<or>
     h_freep h = 0 \<and> bs = {} \<and> 0 < h_base h \<and> h_base h + HDR \<le> h_brk h \<and> h_brk h \<le> 2 ^ 36"

definition start :: "uheap \<Rightarrow> uheap" where
  "start h = (if h_freep h = 0
     then set_size (h_base h) 0 ((set_ptr (h_base h) (h_base h) h)\<lparr>h_freep := h_base h\<rparr>) else h)"

lemma start_ok:
  assumes "heap_ok h bs"
  shows "\<exists>as. heap_inv (start h) as bs" "\<forall>b \<in> bs. h_size (start h) b = h_size h b" "h_brk (start h) = h_brk h"
proof -
  have "\<exists>as. heap_inv (start h) as bs \<and> (\<forall>b \<in> bs. h_size (start h) b = h_size h b) \<and> h_brk (start h) = h_brk h"
  proof (cases "h_freep h = 0")
    case True
    then have "bs = {}" "0 < h_base h" "h_base h + HDR \<le> h_brk h" "h_brk h \<le> 2 ^ 36"
      using assms freep_pos unfolding heap_ok_def by blast+
    then have "heap_inv (start h) [h_base h] bs"
      using True by (simp add: heap_inv_def free_list_def start_def set_size_def set_ptr_def)
    then show ?thesis using True \<open>bs = {}\<close> by (auto simp: start_def set_size_def set_ptr_def)
  next
    case False
    then show ?thesis using assms by (auto simp: heap_ok_def start_def)
  qed
  then show "\<exists>as. heap_inv (start h) as bs" "\<forall>b \<in> bs. h_size (start h) b = h_size h b" "h_brk (start h) = h_brk h"
    by blast+
qed

lemma malloc_loop_ok:
  assumes inv: "heap_inv h as bs" and g: "bounded grow" and n: "0 < n" "n < 2 ^ 32"
  shows "(\<exists>b f. malloc_loop grow n (h_freep h) (h_ptr h (h_freep h)) h = Some (b + HDR, f) \<and> taken h n b bs f) \<or>
    malloc_loop grow n (h_freep h) (h_ptr h (h_freep h)) h = Some (0, h) \<and> \<not> grow (h_brk h) (max 4096 n * HDR)"
proof (cases "\<exists>a \<in> set as. n \<le> h_size h a")
  case True
  then show ?thesis using malloc_found [OF inv n(1) True] by blast
next
  case False
  obtain ws z where ws: "path (h_ptr h) (h_ptr h (h_freep h)) (ws @ [h_freep h]) z" "h_freep h \<notin> set ws"
    "set (ws @ [h_freep h]) = set as" using freep_round [OF inv] by blast
  have loop: "malloc_loop grow n (h_freep h) (h_ptr h (h_freep h)) h =
      Option.bind (morecore grow n h) (\<lambda>r. if fst r = 0 then Some (0, snd r)
        else malloc_loop grow n (fst r) (h_ptr (snd r) (fst r)) (snd r))"
    using malloc_walk [OF ws(1,2), of n grow] False unfolding ws(3) by simp
  show ?thesis
  proof (cases "grow (h_brk h) (max 4096 n * HDR)")
    case True
    then obtain f as' where f: "morecore grow n h = Some (h_freep f, f)" "heap_inv f as' bs"
      "\<forall>b \<in> bs. h_size f b = h_size h b" "\<exists>a \<in> set as'. n \<le> h_size f a"
      using morecore_ok [OF inv g n] by auto
    have "malloc_loop grow n (h_freep h) (h_ptr h (h_freep h)) h =
        malloc_loop grow n (h_freep f) (h_ptr f (h_freep f)) f"
      using loop f(1) freep_pos [OF f(2)] by simp
    moreover obtain b k where "malloc_loop grow n (h_freep f) (h_ptr f (h_freep f)) f = Some (b + HDR, k)" "taken f n b bs k"
      using malloc_found [OF f(2) n(1) f(4)] by blast
    ultimately show ?thesis using f(3) by (auto simp: taken_def)
  next
    case False
    then show ?thesis using morecore_ok [OF inv g n] loop by simp
  qed
qed

lemma malloc_start:
  assumes "nbytes < 2 ^ 32"
  shows "malloc grow nbytes h = malloc_loop grow ((nbytes + HDR - 1) div HDR + 1) (h_freep (start h))
    (h_ptr (start h) (h_freep (start h))) (start h)"
proof -
  have "(nbytes + HDR - 1) div HDR + 1 < 2 ^ 32" using assms by simp
  then show ?thesis by (simp add: malloc_def start_def Let_def)
qed

text \<open>C35: The allocator of user programs, from any state its calls can leave. \<open>malloc\<close> always returns. It
  gives 0 only when the kernel refuses the memory it asks for, and leaves every block as it is; otherwise
  the \<open>nbytes\<close> bytes at its result lie within the process's memory and overlap no block the program
  already has, headers included, and the block is the program's until freed. \<open>free\<close> of a block the
  program has always returns, too. Sizes of the other blocks never change, and the heap stays in order:
  the free list sorted by address, joined, and apart from the blocks in use.\<close>

theorem malloc_free_invariant:
  assumes "heap_ok h bs" and "bounded grow" and "nbytes < 2 ^ 32"
  shows "(\<exists>p f. malloc grow nbytes h = Some (p, f) \<and> (\<forall>b \<in> bs. h_size f b = h_size h b) \<and>
      (if p = 0 then heap_ok f bs \<and> \<not> grow (h_brk h) (max 4096 ((nbytes + HDR - 1) div HDR + 1) * HDR)
       else heap_ok f (insert (p - HDR) bs) \<and> p + nbytes \<le> h_brk f \<and>
         (\<forall>b \<in> bs. {p - HDR ..< p + nbytes} \<inter> {b ..< block_end f b} = {}))) \<and>
    (\<forall>b \<in> bs. \<exists>f. free (b + HDR) h = Some f \<and> heap_ok f (bs - {b}) \<and>
      (\<forall>c \<in> bs - {b}. h_size f c = h_size h c))"
proof (intro conjI ballI)
  let ?n = "(nbytes + HDR - 1) div HDR + 1" and ?s = "start h"
  have n: "0 < ?n" "?n < 2 ^ 32" "nbytes + HDR \<le> HDR * ?n" using assms(3) by simp_all
  obtain as where inv: "heap_inv ?s as bs" using start_ok(1) [OF assms(1)] by blast
  note st = start_ok(2,3) [OF assms(1)] and run = malloc_start [OF assms(3), of grow h]
  from malloc_loop_ok [OF inv assms(2) n(1,2)]
  show "\<exists>p f. malloc grow nbytes h = Some (p, f) \<and> (\<forall>b \<in> bs. h_size f b = h_size h b) \<and>
      (if p = 0 then heap_ok f bs \<and> \<not> grow (h_brk h) (max 4096 ?n * HDR)
       else heap_ok f (insert (p - HDR) bs) \<and> p + nbytes \<le> h_brk f \<and>
         (\<forall>b \<in> bs. {p - HDR ..< p + nbytes} \<inter> {b ..< block_end f b} = {}))"
  proof (elim disjE exE conjE)
    fix p f
    assume p: "malloc_loop grow ?n (h_freep ?s) (h_ptr ?s (h_freep ?s)) ?s = Some (p + HDR, f)" and t: "taken ?s ?n p bs f"
    obtain as' where f: "heap_inv f as' (insert p bs)" "h_size f p = ?n" "p \<notin> bs" using t by (auto simp: taken_def)
    have "{p ..< p + HDR + nbytes} \<inter> {b ..< block_end f b} = {}" if "b \<in> bs" for b
    proof -
      have "apart f p b" using heap_inv_apart(2) [OF f(1), of p b] that f(3) by auto
      then show ?thesis using f(2) n(3) by (auto simp: apart_def)
    qed
    moreover have "p + HDR + nbytes \<le> h_brk f" using heap_inv_block(3) [OF f(1), of p] f(2) n(3) by simp
    moreover have "heap_ok f (insert p bs)" using f(1) by (auto simp: heap_ok_def)
    moreover have "\<forall>b \<in> bs. h_size f b = h_size h b" using t st(1) by (auto simp: taken_def)
    ultimately show ?thesis using run p by (intro exI [of _ "p + HDR"] exI [of _ f]) simp
  next
    assume "malloc_loop grow ?n (h_freep ?s) (h_ptr ?s (h_freep ?s)) ?s = Some (0, ?s)"
      and "\<not> grow (h_brk ?s) (max 4096 ?n * HDR)"
    then show ?thesis using run st inv by (intro exI [of _ 0] exI [of _ ?s]) (auto simp: heap_ok_def)
  qed
next
  fix b assume b: "b \<in> bs"
  then obtain as where inv: "heap_inv h as bs" using assms(1) by (auto simp: heap_ok_def)
  show "\<exists>f. free (b + HDR) h = Some f \<and> heap_ok f (bs - {b}) \<and> (\<forall>c \<in> bs - {b}. h_size f c = h_size h c)"
    using free_ok [OF inv b] by (auto simp: freed_def heap_ok_def)
qed

definition small_heap :: uheap where
  "small_heap = \<lparr>h_base = 4096, h_freep = 0, h_ptr = (\<lambda>_. 0), h_size = (\<lambda>_. 0), h_brk = 8192\<rparr>"

theorem malloc_free_invariant_witness:
  "let grow = (\<lambda>b n. b + n \<le> 1000000) in
   heap_ok small_heap {} \<and> bounded grow \<and>
   (\<exists>f. malloc grow 100 small_heap = Some (73616, f) \<and> heap_ok f {73600})"
proof -
  let ?g = "\<lambda>b n :: nat. b + n \<le> 1000000"
  have ok: "heap_ok small_heap {}" "bounded ?g" by (simp_all add: heap_ok_def small_heap_def bounded_def)
  have "map_option fst (malloc ?g 100 small_heap) = Some 73616"
    by (simp add: malloc_def small_heap_def malloc_loop.simps morecore_def sbrk_def free_def free_loop.simps free_join_def
      set_size_def set_ptr_def take_block_def Let_def)
  then show ?thesis using malloc_free_invariant [OF ok, of 100] ok by (auto simp: Let_def)
qed

end
