(* ===== verification/Ioapic.thy ===== *)
theory Ioapic
  imports Params
begin

unbundle bit_operations_syntax

text \<open>
  \<^verbatim>\<open>ioapic.c\<close>: the I/O APIC, which routes the interrupt lines of the devices to processors. Its registers
  are reached through a selector and a data window; each line has two of them in the redirection table.
\<close>

section \<open>Registers\<close>

record ioapic =
  io_sel :: uint
  io_regs :: "uint \<Rightarrow> uint"

abbreviation (input) REG_ID :: uint where "REG_ID \<equiv> 0x00"
abbreviation (input) REG_VER :: uint where "REG_VER \<equiv> 0x01"
abbreviation (input) REG_TABLE :: uint where "REG_TABLE \<equiv> 0x10"
abbreviation (input) INT_DISABLED :: uint where "INT_DISABLED \<equiv> 0x00010000"
abbreviation (input) IRQ_BASE :: uint where "IRQ_BASE \<equiv> 32"

definition ioapicread :: "uint \<Rightarrow> ioapic \<Rightarrow> uint \<times> ioapic" where
  "ioapicread reg a = (let a = a\<lparr>io_sel := reg\<rparr> in (io_regs a (io_sel a), a))"

definition ioapicwrite :: "uint \<Rightarrow> uint \<Rightarrow> ioapic \<Rightarrow> ioapic" where
  "ioapicwrite reg data a = (let a = a\<lparr>io_sel := reg\<rparr> in a\<lparr>io_regs := (io_regs a)(io_sel a := data)\<rparr>)"

section \<open>Operations\<close>

definition ioapic_mask :: "nat \<Rightarrow> ioapic \<Rightarrow> ioapic" where
  "ioapic_mask i a =
     ioapicwrite (REG_TABLE + 2 * of_nat i + 1) 0
       (ioapicwrite (REG_TABLE + 2 * of_nat i) (INT_DISABLED OR (IRQ_BASE + of_nat i)) a)"

text \<open>
  \<open>ioapicid\<close> is what the search of the BIOS tables has found; the first component says that the message
  about a different one is printed.
\<close>

definition ioapicinit :: "uint \<Rightarrow> ioapic \<Rightarrow> bool \<times> ioapic" where
  "ioapicinit ioapicid a =
     (let (ver, a) = ioapicread REG_VER a;
          maxintr = unat (drop_bit 16 ver AND 0xFF);
          (idr, a) = ioapicread REG_ID a;
          id = drop_bit 24 idr
      in (id \<noteq> ioapicid, fold ioapic_mask [0..<Suc maxintr] a))"

definition ioapicenable :: "uint \<Rightarrow> uint \<Rightarrow> ioapic \<Rightarrow> ioapic" where
  "ioapicenable irq cpunum a =
     ioapicwrite (REG_TABLE + 2 * irq + 1) (push_bit 24 cpunum)
       (ioapicwrite (REG_TABLE + 2 * irq) (IRQ_BASE + irq) a)"

section \<open>The redirection table\<close>

definition io_route :: "ioapic \<Rightarrow> nat \<Rightarrow> uint \<times> uint" where
  "io_route a i = (io_regs a (REG_TABLE + 2 * of_nat i), io_regs a (REG_TABLE + 2 * of_nat i + 1))"

lemma io_index:
  "REG_TABLE + 2 * of_nat i = of_nat (16 + 2 * i)" "REG_VER = of_nat 1" "REG_ID = of_nat 0"
  by (simp_all add: algebra_simps)

lemma of_nat_uint_eq: "m < 1000 \<Longrightarrow> n < 1000 \<Longrightarrow> (of_nat m :: uint) = of_nat n \<longleftrightarrow> m = n"
  by (simp add: word_of_nat_eq_iff take_bit_nat_eq_self)

lemma io_index_distinct:
  assumes "i < 256" and "j < 256"
  shows "REG_TABLE + 2 * of_nat i = REG_TABLE + 2 * of_nat j \<longleftrightarrow> i = j"
    "REG_TABLE + 2 * of_nat i + 1 = REG_TABLE + 2 * of_nat j + 1 \<longleftrightarrow> i = j"
    "REG_TABLE + 2 * of_nat i = REG_TABLE + 2 * of_nat j + 1 \<longleftrightarrow> False"
    "REG_TABLE + 2 * of_nat i + 1 = REG_TABLE + 2 * of_nat j \<longleftrightarrow> False"
    "REG_VER = REG_TABLE + 2 * of_nat j \<longleftrightarrow> False" "REG_VER = REG_TABLE + 2 * of_nat j + 1 \<longleftrightarrow> False"
    "REG_ID = REG_TABLE + 2 * of_nat j \<longleftrightarrow> False" "REG_ID = REG_TABLE + 2 * of_nat j + 1 \<longleftrightarrow> False"
  unfolding io_index of_nat_add [symmetric] using assms by (subst of_nat_uint_eq; presburger)+

lemma ioapicwrite_regs: "io_regs (ioapicwrite r d a) = (io_regs a)(r := d)"
  by (simp add: ioapicwrite_def Let_def)

lemma io_route_write:
  assumes "i < 256" and "j < 256"
  shows "io_route (ioapicwrite (REG_TABLE + 2 * of_nat j + 1) h (ioapicwrite (REG_TABLE + 2 * of_nat j) l a)) i =
    (if i = j then (l, h) else io_route a i)"
    "io_regs (ioapicwrite (REG_TABLE + 2 * of_nat j + 1) h (ioapicwrite (REG_TABLE + 2 * of_nat j) l a)) REG_VER =
      io_regs a REG_VER"
    "io_regs (ioapicwrite (REG_TABLE + 2 * of_nat j + 1) h (ioapicwrite (REG_TABLE + 2 * of_nat j) l a)) REG_ID =
      io_regs a REG_ID"
  using assms by (simp_all only: io_route_def ioapicwrite_regs fun_upd_apply io_index_distinct if_False
      split: if_split) simp_all

lemma ioapic_mask_route:
  assumes "i < 256" and "j < 256"
  shows "io_route (ioapic_mask j a) i = (if i = j then (INT_DISABLED OR (IRQ_BASE + of_nat j), 0) else io_route a i)"
    "io_regs (ioapic_mask j a) REG_VER = io_regs a REG_VER" "io_regs (ioapic_mask j a) REG_ID = io_regs a REG_ID"
  unfolding ioapic_mask_def io_route_write [OF assms] by (rule refl)+

lemma ioapicenable_route:
  assumes "i < 256" and "j < 256"
  shows "io_route (ioapicenable (of_nat j) c a) i = (if i = j then (IRQ_BASE + of_nat j, push_bit 24 c) else io_route a i)"
    "io_regs (ioapicenable (of_nat j) c a) REG_VER = io_regs a REG_VER"
    "io_regs (ioapicenable (of_nat j) c a) REG_ID = io_regs a REG_ID"
  unfolding ioapicenable_def io_route_write [OF assms] by (rule refl)+

lemma ioapic_mask_all:
  assumes "n \<le> 256" and "i < 256"
  shows "io_route (fold ioapic_mask [0..<n] a) i =
      (if i < n then (INT_DISABLED OR (IRQ_BASE + of_nat i), 0) else io_route a i)"
    "io_regs (fold ioapic_mask [0..<n] a) REG_VER = io_regs a REG_VER"
    "io_regs (fold ioapic_mask [0..<n] a) REG_ID = io_regs a REG_ID"
  using assms by (induction n) (auto simp: ioapic_mask_route)

lemma ioapic_lines: "unat (drop_bit 16 (ver :: uint) AND 0xFF) < 256"
proof -
  have "drop_bit 16 ver AND 0xFF = take_bit 8 (drop_bit 16 ver)"
    by (simp add: take_bit_eq_mask mask_eq_exp_minus_1)
  then show ?thesis by (simp only: unsigned_take_bit_eq) (simp add: take_bit_eq_mod)
qed

text \<open>Devices turn their interrupts on, each with its line and a processor.\<close>

definition ioapic_enables :: "(nat \<times> uint) list \<Rightarrow> ioapic \<Rightarrow> ioapic" where
  "ioapic_enables es = fold (\<lambda>(irq, cpu). ioapicenable (of_nat irq) cpu) es"

lemma ioapic_enables_route:
  assumes "\<forall>e \<in> set es. fst e < 256" and "i < 256"
  shows "io_route (ioapic_enables es a) i =
      (case map_of (rev es) i of Some cpu \<Rightarrow> (IRQ_BASE + of_nat i, push_bit 24 cpu) | None \<Rightarrow> io_route a i)"
    "io_regs (ioapic_enables es a) REG_VER = io_regs a REG_VER"
    "io_regs (ioapic_enables es a) REG_ID = io_regs a REG_ID"
  using assms(1)
  by (induction es arbitrary: a)
    (auto simp: ioapic_enables_def ioapicenable_route [OF assms(2)] map_add_def split: option.splits)

section \<open>Properties\<close>

text \<open>After ioapicinit and any sequence of ioapicenable calls for lines the chip has, each line of the redirection table
  stands as the calls ask for: a line that was enabled delivers its own trap number to the processor of the last call,
  every other line is masked and routed to no processor; the identification and version registers are as before.\<close>

theorem ioapic_routes:
  assumes "\<forall>e \<in> set es. fst e \<le> unat (drop_bit 16 (io_regs a REG_VER) AND 0xFF)"
    and "i \<le> unat (drop_bit 16 (io_regs a REG_VER) AND 0xFF)"
  shows "io_route (ioapic_enables es (snd (ioapicinit ioapicid a))) i =
      (case map_of (rev es) i of
         Some cpu \<Rightarrow> (IRQ_BASE + of_nat i, push_bit 24 cpu)
       | None \<Rightarrow> (INT_DISABLED OR (IRQ_BASE + of_nat i), 0)) \<and>
    io_regs (ioapic_enables es (snd (ioapicinit ioapicid a))) REG_VER = io_regs a REG_VER \<and>
    io_regs (ioapic_enables es (snd (ioapicinit ioapicid a))) REG_ID = io_regs a REG_ID"
proof -
  let ?n = "unat (drop_bit 16 (io_regs a REG_VER) AND 0xFF)"
  have n: "?n < 256" by (rule ioapic_lines)
  have es: "\<forall>e \<in> set es. fst e < 256" and i: "i < 256" using assms n by auto
  let ?a = "fold ioapic_mask [0..<Suc ?n] (a\<lparr>io_sel := REG_ID\<rparr>)"
  have a: "snd (ioapicinit ioapicid a) = ?a"
    by (simp add: ioapicinit_def ioapicread_def Let_def del: upt_Suc)
  note m = ioapic_mask_all [of "Suc ?n" i "a\<lparr>io_sel := REG_ID\<rparr>"]
  show ?thesis unfolding a ioapic_enables_route [OF es i] using m n i assms(2)
    by (simp del: upt_Suc split: option.split)
qed

end
