(* ===== verification/Ide.thy ===== *)
theory Ide
  imports Bio Ioapic
begin

unbundle bit_operations_syntax

text \<open>
  \<^verbatim>\<open>ide.c\<close>: the driver of the IDE disk. Requests wait in a queue threaded through the buffers; the driver
  programs the drive for the first one, the drive raises an interrupt when it has finished, and the
  handler completes the request, wakes the process that waits for it and programs the next one. What a
  client of the driver sees is the block device of \<^verbatim>\<open>memide.c\<close>, one request after another.
\<close>

section \<open>State\<close>

text \<open>
  \<open>id_queue\<close> is \<open>idequeue\<close>, \<open>id_qnext\<close> the field \<open>qnext\<close> of the buffers. The drive is met through its
  ports only: \<open>id_status\<close> are the values that reading port 0x1f7 will give, \<open>id_in\<close> the blocks of
  data that port 0x1f0 will give, and \<open>id_out\<close> is what has been written to the ports since the last
  interrupt. \<open>id_ioapic\<close> is the chip that routes the interrupts.
\<close>

datatype portop =
    Outb "16 word" uchar
  | Outsl "16 word" "uchar list"

record dkernel = bkernel +
  id_lock :: spinlock
  id_queue :: "nat option"
  id_qnext :: "nat \<Rightarrow> nat option"
  id_havedisk1 :: bool
  id_status :: "uchar list"
  id_in :: "uchar list list"
  id_out :: "portop list"
  id_ioapic :: ioapic

abbreviation (input) IRQ_IDE :: uint where "IRQ_IDE \<equiv> 14"
abbreviation (input) SECTOR_SIZE :: nat where "SECTOR_SIZE \<equiv> 512"
abbreviation (input) IDE_BSY :: uchar where "IDE_BSY \<equiv> 0x80"
abbreviation (input) IDE_DRDY :: uchar where "IDE_DRDY \<equiv> 0x40"
abbreviation (input) IDE_DF :: uchar where "IDE_DF \<equiv> 0x20"
abbreviation (input) IDE_ERR :: uchar where "IDE_ERR \<equiv> 0x01"
abbreviation (input) IDE_CMD_READ :: uchar where "IDE_CMD_READ \<equiv> 0x20"
abbreviation (input) IDE_CMD_WRITE :: uchar where "IDE_CMD_WRITE \<equiv> 0x30"
abbreviation (input) IDE_CMD_RDMUL :: uchar where "IDE_CMD_RDMUL \<equiv> 0xc4"
abbreviation (input) IDE_CMD_WRMUL :: uchar where "IDE_CMD_WRMUL \<equiv> 0xc5"

definition outp :: "portop list \<Rightarrow> 'a dkernel_scheme \<Rightarrow> 'a dkernel_scheme" where
  "outp ps s = s\<lparr>id_out := id_out s @ ps\<rparr>"

definition acquire_ide :: "'a dkernel_scheme \<Rightarrow> 'a dkernel_scheme outcome" where
  "acquire_ide s = andthen (acquire (k_cpu s) (id_lock s)) (\<lambda>(c, lk). Ok (s\<lparr>k_cpu := c, id_lock := lk\<rparr>))"

definition release_ide :: "'a dkernel_scheme \<Rightarrow> 'a dkernel_scheme outcome" where
  "release_ide s = andthen (release (k_cpu s) (id_lock s)) (\<lambda>(c, lk). Ok (s\<lparr>k_cpu := c, id_lock := lk\<rparr>))"

section \<open>Waiting for the drive\<close>

text \<open>
  The loop of \<open>idewait\<close> over the values the port gives: the first that says ready and not busy, and
  those after it. A drive that never says so keeps the loop going.
\<close>

fun idewait_loop :: "uchar list \<Rightarrow> (uchar \<times> uchar list) option" where
  "idewait_loop [] = None"
| "idewait_loop (r # rs) =
     (if r AND (IDE_BSY OR IDE_DRDY) \<noteq> IDE_DRDY then idewait_loop rs else Some (r, rs))"

definition idewait :: "bool \<Rightarrow> 'a dkernel_scheme \<Rightarrow> (cint \<times> 'a dkernel_scheme) outcome" where
  "idewait checkerr s =
     (case idewait_loop (id_status s) of
        None \<Rightarrow> Blocked ''drive''
      | Some (r, rs) \<Rightarrow>
          Ok (if checkerr \<and> r AND (IDE_DF OR IDE_ERR) \<noteq> 0 then - 1 else 0, s\<lparr>id_status := rs\<rparr>))"

text \<open>The search for disk 1: at most \<open>n\<close> reads of the status port, up to the first that is not 0.\<close>

fun ideinit_loop :: "nat \<Rightarrow> 'a dkernel_scheme \<Rightarrow> 'a dkernel_scheme outcome" where
  "ideinit_loop 0 s = Ok s"
| "ideinit_loop (Suc n) s =
     (case id_status s of
        [] \<Rightarrow> Blocked ''drive''
      | r # rs \<Rightarrow>
          let s = s\<lparr>id_status := rs\<rparr> in
          if r \<noteq> 0 then Ok (s\<lparr>id_havedisk1 := True\<rparr>) else ideinit_loop n s)"

text \<open>\<open>ncpu\<close> is the number of processors that the search of the BIOS tables has found.\<close>

definition ideinit :: "uint \<Rightarrow> 'a dkernel_scheme \<Rightarrow> 'a dkernel_scheme outcome" where
  "ideinit ncpu s =
     (let s = s\<lparr>id_lock := initlock\<rparr>;
          s = s\<lparr>id_ioapic := ioapicenable IRQ_IDE (ncpu - 1) (id_ioapic s)\<rparr>
      in
     andthen (idewait False s) (\<lambda>(_, s).
     andthen (ideinit_loop 1000 (outp [Outb 0x1f6 (0xe0 OR push_bit 4 1)] s)) (\<lambda>s.
     Ok (outp [Outb 0x1f6 (0xe0 OR push_bit 4 0)] s))))"

section \<open>Starting a request\<close>

definition idestart :: "nat option \<Rightarrow> 'a dkernel_scheme \<Rightarrow> 'a dkernel_scheme outcome" where
  "idestart p s =
     (case p of
        None \<Rightarrow> Panic ''idestart''
      | Some i \<Rightarrow>
          let b = k_bufs s ! i in
          if unat (b_blockno b) \<ge> FSSIZE then Panic ''incorrect blockno''
          else
            let sector_per_block = BSIZE div SECTOR_SIZE;
                sector = b_blockno b * of_nat sector_per_block;
                read_cmd = (if sector_per_block = 1 then IDE_CMD_READ else IDE_CMD_RDMUL);
                write_cmd = (if sector_per_block = 1 then IDE_CMD_WRITE else IDE_CMD_WRMUL)
            in
            if sector_per_block > 7 then Panic ''idestart''
            else andthen (idewait False s) (\<lambda>(_, s).
              let s = outp [Outb 0x3f6 0, Outb 0x1f2 (of_nat sector_per_block),
                    Outb 0x1f3 (ucast (sector AND 0xff)),
                    Outb 0x1f4 (ucast (signed_drop_bit 8 sector AND 0xff)),
                    Outb 0x1f5 (ucast (signed_drop_bit 16 sector AND 0xff)),
                    Outb 0x1f6 (ucast (0xe0 OR push_bit 4 (b_dev b AND 1) OR
                      (signed_drop_bit 24 sector AND 0x0f)))] s
              in
              if b_dirty b then Ok (outp [Outb 0x1f7 write_cmd, Outsl 0x1f0 (b_data b)] s)
              else Ok (outp [Outb 0x1f7 read_cmd] s)))"

section \<open>The interrupt handler\<close>

definition insl :: "nat \<Rightarrow> 'a dkernel_scheme \<Rightarrow> 'a dkernel_scheme outcome" where
  "insl i s =
     (case id_in s of
        [] \<Rightarrow> Blocked ''drive''
      | d # ds \<Rightarrow> Ok ((upd_buf i (\<lambda>b. b\<lparr>b_data := d\<rparr>) s)\<lparr>id_in := ds\<rparr>))"

text \<open>\<open>ideintr\<close>, with its reading of the data and its start of the next request as operations of their own.\<close>

definition ideintr_read :: "nat \<Rightarrow> 'a dkernel_scheme \<Rightarrow> 'a dkernel_scheme outcome" where
  "ideintr_read i s =
     (if \<not> b_dirty (k_bufs s ! i)
      then andthen (idewait True s) (\<lambda>(r, s). if 0 \<le> sint r then insl i s else Ok s)
      else Ok s)"

definition ideintr_next :: "'a dkernel_scheme \<Rightarrow> 'a dkernel_scheme outcome" where
  "ideintr_next s = (if id_queue s \<noteq> None then idestart (id_queue s) s else Ok s)"

definition ideintr :: "'a dkernel_scheme \<Rightarrow> 'a dkernel_scheme outcome" where
  "ideintr s =
     andthen (acquire_ide s) (\<lambda>s.
     case id_queue s of
       None \<Rightarrow> release_ide s
     | Some i \<Rightarrow>
         andthen (ideintr_read i (s\<lparr>id_queue := id_qnext s i\<rparr>)) (\<lambda>s.
         let s = upd_buf i (\<lambda>b. b\<lparr>b_valid := True\<rparr>) s;
             s = upd_buf i (\<lambda>b. b\<lparr>b_dirty := False\<rparr>) s
         in
         andthen (wakeup (IdeChan i) s) (\<lambda>s.
         andthen (ideintr_next s) release_ide)))"

section \<open>iderw\<close>

text \<open>The last buffer of the queue from \<open>p\<close> on; \<open>None\<close> is a search that does not end.\<close>

partial_function (option) ide_last :: "(nat \<Rightarrow> nat option) \<Rightarrow> nat \<Rightarrow> nat option" where
  "ide_last nx p = (case nx p of None \<Rightarrow> Some p | Some q \<Rightarrow> ide_last nx q)"

definition ide_append :: "nat \<Rightarrow> 'a dkernel_scheme \<Rightarrow> 'a dkernel_scheme outcome" where
  "ide_append i s =
     (let s = s\<lparr>id_qnext := (id_qnext s)(i := None)\<rparr> in
      case id_queue s of
        None \<Rightarrow> Ok (s\<lparr>id_queue := Some i\<rparr>)
      | Some p \<Rightarrow>
          (case ide_last (id_qnext s) p of
             None \<Rightarrow> Blocked ''loop''
           | Some q \<Rightarrow> Ok (s\<lparr>id_qnext := (id_qnext s)(q := Some i)\<rparr>)))"

text \<open>
  \<open>iderw\<close> up to its loop, one turn of the loop, which ends with the process asleep (\<open>False\<close>) or the
  call finished (\<open>True\<close>), and what the process does when it runs again.
\<close>

definition iderw_start :: "nat \<Rightarrow> 'a dkernel_scheme \<Rightarrow> 'a dkernel_scheme outcome" where
  "iderw_start i s =
     andthen (holdingsleep (b_lock (k_bufs s ! i)) s) (\<lambda>(r, lk, s).
     let s = upd_buf i (\<lambda>b. b\<lparr>b_lock := lk\<rparr>) s; b = k_bufs s ! i in
     if \<not> r then Panic ''iderw: buf not locked''
     else if b_valid b \<and> \<not> b_dirty b then Panic ''iderw: nothing to do''
     else if b_dev b \<noteq> 0 \<and> \<not> id_havedisk1 s then Panic ''iderw: ide disk 1 not present''
     else andthen (acquire_ide s) (\<lambda>s.
       andthen (ide_append i s) (\<lambda>s.
       if id_queue s = Some i then idestart (Some i) s else Ok s)))"

definition iderw_wait :: "nat \<Rightarrow> 'a dkernel_scheme \<Rightarrow> (bool \<times> 'a dkernel_scheme) outcome" where
  "iderw_wait i s =
     (let b = k_bufs s ! i in
      if b_valid b \<and> \<not> b_dirty b then andthen (release_ide s) (\<lambda>s. Ok (True, s))
      else andthen (sleep_enter (IdeChan i) (Some (id_lock s)) s) (\<lambda>(lk, s).
        Ok (False, case lk of Some l \<Rightarrow> s\<lparr>id_lock := l\<rparr> | None \<Rightarrow> s)))"

definition iderw_wake ::
  "bool \<Rightarrow> nat \<Rightarrow> nat \<Rightarrow> 'a dkernel_scheme \<Rightarrow> (bool \<times> 'a dkernel_scheme) outcome" where
  "iderw_wake intena p i s =
     andthen (sleep_leave intena p (Some (id_lock s)) s) (\<lambda>(lk, s).
     iderw_wait i (case lk of Some l \<Rightarrow> s\<lparr>id_lock := l\<rparr> | None \<Rightarrow> s))"

section \<open>The drive\<close>

text \<open>
  A drive is what it makes of the writes to its ports: the new contents of the disk and the sector it
  delivers. Of the drive the driver relies on this much of the ATA protocol: with interrupts enabled, a
  count of one sector and drive 1 selected for 28-bit block addresses, the command 0x20 delivers the
  addressed sector, and the command 0x30 stores the data that follows in it.
\<close>

type_synonym drive = "portop list \<Rightarrow> uchar list list \<Rightarrow> uchar list list \<times> uchar list"

definition reg :: "16 word \<Rightarrow> portop list \<Rightarrow> uchar" where
  "reg p ps = fold (\<lambda>x v. case x of Outb q w \<Rightarrow> if q = p then w else v | Outsl _ _ \<Rightarrow> v) ps 0"

definition ata_lba :: "portop list \<Rightarrow> nat" where
  "ata_lba ps = unat (reg 0x1f3 ps) + 2 ^ 8 * unat (reg 0x1f4 ps) + 2 ^ 16 * unat (reg 0x1f5 ps) +
     2 ^ 24 * unat (reg 0x1f6 ps AND 0x0f)"

definition ata_addressed :: "portop list \<Rightarrow> uchar list list \<Rightarrow> bool" where
  "ata_addressed ps disk \<longleftrightarrow> reg 0x3f6 ps = 0 \<and> reg 0x1f2 ps = 1 \<and> reg 0x1f6 ps AND 0xf0 = 0xf0 \<and>
     ata_lba ps < length disk"

definition ata_drive :: "drive \<Rightarrow> bool" where
  "ata_drive drive \<longleftrightarrow>
     (\<forall>ps disk. ata_addressed (ps @ [Outb 0x1f7 0x20]) disk \<longrightarrow>
        drive (ps @ [Outb 0x1f7 0x20]) disk = (disk, disk ! ata_lba (ps @ [Outb 0x1f7 0x20]))) \<and>
     (\<forall>ps d disk. ata_addressed (ps @ [Outb 0x1f7 0x30, Outsl 0x1f0 d]) disk \<and> length d = SECTOR_SIZE \<longrightarrow>
        fst (drive (ps @ [Outb 0x1f7 0x30, Outsl 0x1f0 d]) disk) =
          disk[ata_lba (ps @ [Outb 0x1f7 0x30, Outsl 0x1f0 d]) := d])"

text \<open>What \<open>idestart\<close> writes for a buffer, and what the drive makes of it.\<close>

definition start_ports :: "buf \<Rightarrow> portop list" where
  "start_ports b =
     [Outb 0x3f6 0, Outb 0x1f2 1, Outb 0x1f3 (ucast (b_blockno b AND 0xff)),
      Outb 0x1f4 (ucast (signed_drop_bit 8 (b_blockno b) AND 0xff)),
      Outb 0x1f5 (ucast (signed_drop_bit 16 (b_blockno b) AND 0xff)),
      Outb 0x1f6 (ucast (0xe0 OR push_bit 4 (b_dev b AND 1) OR (signed_drop_bit 24 (b_blockno b) AND 0x0f)))] @
     (if b_dirty b then [Outb 0x1f7 0x30, Outsl 0x1f0 (b_data b)] else [Outb 0x1f7 0x20])"

lemma sint_small:
  assumes "unat (w :: uint) < FSSIZE"
  shows "sint w = int (unat w)"
proof -
  have "uint w < 1000" using assms by (simp only: unat_eq_nat_uint nat_less_iff uint_ge_0)
  then have "signed_take_bit 31 (uint w) = uint w"
    by (intro signed_take_bit_int_eq_self) (simp_all add: order_trans [OF _ uint_ge_0])
  then show ?thesis unfolding sint_uint by simp
qed

lemma signed_drop_bit_small:
  assumes "unat (w :: uint) < FSSIZE"
  shows "signed_drop_bit n w = of_nat (unat w div 2 ^ n)"
proof -
  have l: "unat w div 2 ^ n < FSSIZE"
    using assms by (rule le_less_trans [OF div_le_dividend])
  then have u: "unat (of_nat (unat w div 2 ^ n) :: uint) = unat w div 2 ^ n"
    by (intro of_nat_inverse [OF refl]) simp
  have "sint (of_nat (unat w div 2 ^ n) :: uint) = int (unat w div 2 ^ n)"
    using sint_small [of "of_nat (unat w div 2 ^ n)"] l unfolding u by blast
  moreover have "sint (signed_drop_bit n w) = drop_bit n (int (unat w))"
    using assms by (simp only: sint_signed_drop_bit_eq sint_small)
  ultimately have "sint (signed_drop_bit n w) = sint (of_nat (unat w div 2 ^ n) :: uint)"
    by (simp only: drop_bit_eq_div zdiv_int of_nat_power of_nat_numeral)
  then show ?thesis by (simp only: signed_word_eqI)
qed

lemma start_ports_regs:
  assumes "unat (b_blockno b) < FSSIZE" and "b_dev b = 1"
  shows "reg 0x3f6 (pre @ start_ports b) = 0" "reg 0x1f2 (pre @ start_ports b) = 1"
    "reg 0x1f6 (pre @ start_ports b) = 0xf0" "ata_lba (pre @ start_ports b) = unat (b_blockno b)"
proof -
  define n where "n = unat (b_blockno b)"
  have n: "n < 1000" and b: "b_blockno b = of_nat n" using assms by (simp_all add: n_def)
  have "n div 2 ^ 16 = 0" "n div 2 ^ 24 = 0" using n by simp_all
  then have hi: "signed_drop_bit 16 (b_blockno b) = 0" "signed_drop_bit 24 (b_blockno b) = 0"
    using assms by (simp_all add: signed_drop_bit_small n_def)
  have mi: "signed_drop_bit 8 (b_blockno b) = of_nat (n div 2 ^ 8)"
    using assms by (simp add: signed_drop_bit_small n_def)
  have u: "unat (ucast ((of_nat k :: uint) AND 0xff) :: uchar) = k mod 256" if "k < 1000" for k
  proof -
    have "(of_nat k :: uint) AND 0xff = take_bit 8 (of_nat k)"
      by (simp add: take_bit_eq_mask mask_eq_exp_minus_1)
    moreover have "unat (ucast (take_bit 8 (of_nat k) :: uint) :: uchar) = take_bit 8 (unat (of_nat k :: uint))"
      by (simp only: unsigned_ucast_eq unsigned_take_bit_eq len_bit0 len_num1) simp
    ultimately show ?thesis using that by (simp add: unsigned_of_nat take_bit_eq_mod)
  qed
  show "reg 0x3f6 (pre @ start_ports b) = 0" "reg 0x1f2 (pre @ start_ports b) = 1"
    by (simp_all add: reg_def start_ports_def)
  show "reg 0x1f6 (pre @ start_ports b) = 0xf0"
    using assms by (simp add: reg_def start_ports_def hi)
  have "ata_lba (pre @ start_ports b) = n mod 256 + 256 * (n div 256 mod 256)"
    using n assms(2) u [of n] u [of "n div 256"]
    by (simp add: ata_lba_def reg_def start_ports_def hi mi) (simp add: b)
  also have "\<dots> = n" using n by simp
  finally show "ata_lba (pre @ start_ports b) = unat (b_blockno b)" by (simp add: n_def)
qed

text \<open>A buffer that asks for the disk, and what the drive does for it.\<close>

definition ide_req :: "buf \<Rightarrow> bool" where
  "ide_req b \<longleftrightarrow> sl_quiet (b_lock b) \<and> b_locked b \<and> b_dev b = 1 \<and> unat (b_blockno b) < FSSIZE \<and>
     length (b_data b) = BSIZE \<and> \<not> (b_valid b \<and> \<not> b_dirty b)"

lemma ata_drive_start:
  assumes "ata_drive drive" and b: "ide_req b" and d: "FSSIZE \<le> length disk"
  shows "\<not> b_dirty b \<Longrightarrow> drive (pre @ start_ports b) disk = (disk, disk ! unat (b_blockno b))"
    and "b_dirty b \<Longrightarrow> fst (drive (pre @ start_ports b) disk) = disk[unat (b_blockno b) := b_data b]"
proof -
  note r = start_ports_regs [of b pre]
  have a: "ata_addressed (pre @ start_ports b) disk"
    using b d r by (simp add: ata_addressed_def ide_req_def)
  obtain ps where ps: "pre @ start_ports b =
      ps @ (if b_dirty b then [Outb 0x1f7 0x30, Outsl 0x1f0 (b_data b)] else [Outb 0x1f7 0x20])"
    unfolding start_ports_def append_assoc [symmetric] by blast
  have l: "ata_lba (pre @ start_ports b) = unat (b_blockno b)" "length (b_data b) = 512"
    using b r by (simp_all add: ide_req_def)
  show "\<not> b_dirty b \<Longrightarrow> drive (pre @ start_ports b) disk = (disk, disk ! unat (b_blockno b))"
    using assms(1) a l unfolding ata_drive_def ps by simp
  show "b_dirty b \<Longrightarrow> fst (drive (pre @ start_ports b) disk) = disk[unat (b_blockno b) := b_data b]"
    using assms(1) a l unfolding ata_drive_def ps by simp
qed

text \<open>A drive that gets ready \<open>n\<close> times, without an error.\<close>

fun serves :: "nat \<Rightarrow> uchar list \<Rightarrow> bool" where
  "serves 0 st = True"
| "serves (Suc n) st =
     (case idewait_loop st of None \<Rightarrow> False | Some (r, rs) \<Rightarrow> r AND (IDE_DF OR IDE_ERR) = 0 \<and> serves n rs)"

lemma idewait_serves:
  assumes "serves (Suc n) (id_status s)"
  obtains rs where "idewait ce s = Ok (0, s\<lparr>id_status := rs\<rparr>)" and "serves n rs"
  using assms by (auto simp: idewait_def split: option.splits)

section \<open>The queue\<close>

fun ide_chain :: "(nat \<Rightarrow> nat option) \<Rightarrow> nat option \<Rightarrow> nat list \<Rightarrow> bool" where
  "ide_chain nx p [] \<longleftrightarrow> p = None"
| "ide_chain nx p (i # is) \<longleftrightarrow> p = Some i \<and> ide_chain nx (nx i) is"

lemma ide_chain_upd: "i \<notin> set qs \<Longrightarrow> ide_chain (nx(i := q)) p qs = ide_chain nx p qs"
  by (induction qs arbitrary: p) auto

lemma ide_last_chain: "ide_chain nx (Some p) qs \<Longrightarrow> ide_last nx p = Some (last qs)"
proof (induction qs arbitrary: p)
  case (Cons i qs)
  then show ?case by (cases qs) (auto simp: ide_last.simps [of nx i])
qed simp

lemma ide_chain_append:
  "ide_chain nx p qs \<Longrightarrow> distinct qs \<Longrightarrow> i \<notin> set qs \<Longrightarrow> qs \<noteq> [] \<Longrightarrow>
     ide_chain (nx(i := None, last qs := Some i)) p (qs @ [i])"
proof (induction qs arbitrary: p)
  case (Cons j qs)
  show ?case
  proof (cases "qs = []")
    case False
    then have "last qs \<noteq> j" using Cons.prems(2) last_in_set [of qs] by auto
    with False Cons show ?thesis by auto
  qed (use Cons.prems in auto)
qed simp

lemma ide_append_ok:
  assumes c: "ide_chain (id_qnext s) (id_queue s) qs" and d: "distinct qs" "i \<notin> set qs"
  obtains nx where "ide_append i s = Ok (s\<lparr>id_queue := Some (hd (qs @ [i])), id_qnext := nx\<rparr>)"
    and "ide_chain nx (Some (hd (qs @ [i]))) (qs @ [i])"
proof (cases qs)
  case Nil
  then show thesis using c by (intro that [of "(id_qnext s)(i := None)"]) (simp_all add: ide_append_def)
next
  case (Cons j js)
  let ?nx = "(id_qnext s)(i := None)"
  have q: "id_queue s = Some j" using c Cons by simp
  have "ide_chain ?nx (Some j) qs" using c d(2) q by (simp add: ide_chain_upd)
  then have "ide_append i s = Ok (s\<lparr>id_queue := Some j, id_qnext := ?nx(last qs := Some i)\<rparr>)"
    using q by (simp add: ide_append_def ide_last_chain)
  moreover have "ide_chain (?nx(last qs := Some i)) (Some j) (qs @ [i])"
    using ide_chain_append [OF c d] Cons q by simp
  moreover have "hd (qs @ [i]) = j" using Cons by simp
  ultimately show thesis by (intro that) (simp_all only:)
qed

section \<open>The operations on a quiet processor\<close>

lemma idestart_ok:
  assumes "ide_req (k_bufs s ! i)" and "serves (Suc n) (id_status s)"
  obtains rs where "idestart (Some i) s =
      Ok (s\<lparr>id_status := rs, id_out := id_out s @ start_ports (k_bufs s ! i)\<rparr>)" and "serves n rs"
proof -
  obtain rs where "idewait False s = Ok (0, s\<lparr>id_status := rs\<rparr>)" "serves n rs"
    using assms(2) by (rule idewait_serves)
  then show thesis using assms(1)
    by (intro that) (simp_all add: idestart_def ide_req_def start_ports_def outp_def Let_def)
qed

lemma release_pushed [lock_simps]:
  "cpu_settled c \<Longrightarrow> release (pushcli (pushcli c)) (locked_by c) = Ok (pushcli c, initlock)"
  using release_locked_by [of "pushcli c"] by (simp add: locked_by_def pushcli_nested)

lemma sleep_enter_ok:
  assumes "cpu_settled c" "cpu_ncli c = 0" "k_cpu s = pushcli c" "k_ptlock s = initlock"
    and "k_proc s = Some p" "p < length (k_procs s)"
  shows "sleep_enter ch (Some (locked_by c)) s = Ok (Some initlock,
    upd_proc p (\<lambda>q. q\<lparr>p_chan := Some ch, p_state := SLEEPING\<rparr>) (s\<lparr>k_ptlock := locked_by c\<rparr>))"
proof -
  have "cpu_ncli (pushcli c) = 1" "\<not> cpu_if (pushcli c)"
    using assms(2) by (simp_all add: pushcli_def Let_def)
  then show ?thesis using assms
    by (simp add: sleep_enter_def acquire_pt_def sched_out_def with_proc_def holding_def upd_proc_nth
        locked_by_def [of "pushcli c"] lock_simps) (simp add: locked_by_def upd_proc_def)
qed

section \<open>The driver at work\<close>

text \<open>
  The driver between two calls, with \<open>qs\<close> the buffers of the queue: each of them asks for the disk, the
  drive has been programmed for the first one, and a process asleep in \<open>iderw\<close> has its buffer in the
  queue.
\<close>

definition ide_ok :: "nat list \<Rightarrow> 'a dkernel_scheme \<Rightarrow> bool" where
  "ide_ok qs s \<longleftrightarrow>
     pt_quiet s \<and> cpu_ncli (k_cpu s) = 0 \<and> id_lock s = initlock \<and> id_havedisk1 s \<and>
     FSSIZE \<le> length (k_disk s) \<and> distinct qs \<and> ide_chain (id_qnext s) (id_queue s) qs \<and>
     (\<forall>i \<in> set qs. i < length (k_bufs s) \<and> ide_req (k_bufs s ! i)) \<and>
     (\<exists>pre. id_out s = pre @ (if qs = [] then [] else start_ports (k_bufs s ! hd qs))) \<and>
     (\<forall>p \<in> set (k_procs s). \<forall>i. p_state p = SLEEPING \<and> p_chan p = Some (IdeChan i) \<longrightarrow> i \<in> set qs)"

lemma iderw_start_ok:
  assumes ok: "ide_ok qs s" and i: "i < length (k_bufs s)" "ide_req (k_bufs s ! i)" "i \<notin> set qs"
    and st: "serves 1 (id_status s)"
  obtains nx rs pre where "iderw_start i s =
      Ok (s\<lparr>k_cpu := pushcli (k_cpu s), id_lock := locked_by (k_cpu s), id_queue := Some (hd (qs @ [i])),
        id_qnext := nx, id_status := rs, id_out := pre @ start_ports (k_bufs s ! hd (qs @ [i]))\<rparr>)"
    and "ide_chain nx (Some (hd (qs @ [i]))) (qs @ [i])"
proof -
  let ?s = "s\<lparr>k_cpu := pushcli (k_cpu s), id_lock := locked_by (k_cpu s)\<rparr>"
  have "ide_chain (id_qnext ?s) (id_queue ?s) qs" "distinct qs" using ok by (simp_all add: ide_ok_def)
  then obtain nx where nx: "ide_append i ?s = Ok (?s\<lparr>id_queue := Some (hd (qs @ [i])), id_qnext := nx\<rparr>)"
      "ide_chain nx (Some (hd (qs @ [i]))) (qs @ [i])"
    using i(3) by (rule ide_append_ok)
  let ?t = "?s\<lparr>id_queue := Some (hd (qs @ [i])), id_qnext := nx\<rparr>"
  have start: "iderw_start i s = (if hd (qs @ [i]) = i then idestart (Some i) ?t else Ok ?t)"
    using ok i nx(1) by (cases "b_dirty (k_bufs s ! i)")
      (simp_all add: iderw_start_def ide_ok_def ide_req_def pt_quiet_def holdingsleep_ok b_locked_def
        upd_buf_def acquire_ide_def lock_simps Let_def)
  show thesis
  proof (cases qs)
    case Nil
    have "ide_req (k_bufs ?t ! i)" "serves (Suc 0) (id_status ?t)" using i(2) st by simp_all
    then obtain rs where "idestart (Some i) ?t =
        Ok (?t\<lparr>id_status := rs, id_out := id_out ?t @ start_ports (k_bufs ?t ! i)\<rparr>)"
      by (rule idestart_ok)
    then show thesis using Nil start nx(2) by (intro that [of "id_out s" rs nx]) simp_all
  next
    case (Cons j js)
    then have h: "hd (qs @ [i]) \<noteq> i" using i(3) by auto
    obtain pre where "id_out s = pre @ start_ports (k_bufs s ! j)" using ok Cons by (auto simp: ide_ok_def)
    with h show thesis using Cons start nx(2) by (intro that [of pre "id_status s" nx]) simp_all
  qed
qed

text \<open>
  A process calls \<open>iderw\<close>, sleeps, and the scheduler, which the processor goes on with, drops
  \<open>ptable.lock\<close>.
\<close>

definition iderw_sleep :: "nat \<Rightarrow> 'a dkernel_scheme \<Rightarrow> 'a dkernel_scheme outcome" where
  "iderw_sleep i s =
     andthen (iderw_start i s) (\<lambda>s.
     andthen (iderw_wait i s) (\<lambda>(r, s).
     if r then Ok s else andthen (release_pt s) (\<lambda>s. Ok (s\<lparr>k_proc := None\<rparr>))))"

lemma iderw_sleep_ok:
  assumes ok: "ide_ok qs s" and i: "i < length (k_bufs s)" "ide_req (k_bufs s ! i)" "i \<notin> set qs"
    and st: "serves 1 (id_status s)" and p: "k_proc s = Some p" "p < length (k_procs s)"
  obtains t where "iderw_sleep i s = Ok t" and "ide_ok (qs @ [i]) t" and "k_bufs t = k_bufs s"
    and "k_disk t = k_disk s"
    and "k_procs t = (k_procs s)[p := (k_procs s ! p)\<lparr>p_chan := Some (IdeChan i), p_state := SLEEPING\<rparr>]"
proof -
  obtain nx rs pre where s1: "iderw_start i s =
      Ok (s\<lparr>k_cpu := pushcli (k_cpu s), id_lock := locked_by (k_cpu s), id_queue := Some (hd (qs @ [i])),
        id_qnext := nx, id_status := rs, id_out := pre @ start_ports (k_bufs s ! hd (qs @ [i]))\<rparr>)" (is "_ = Ok ?s1")
    and nx: "ide_chain nx (Some (hd (qs @ [i]))) (qs @ [i])"
    using ok i st by (rule iderw_start_ok)
  have c: "cpu_settled (k_cpu s)" "cpu_ncli (k_cpu s) = 0" "k_ptlock s = initlock"
    using ok by (simp_all add: ide_ok_def pt_quiet_def)
  let ?f = "\<lambda>q. q\<lparr>p_chan := Some (IdeChan i), p_state := SLEEPING\<rparr>"
  let ?s2 = "(upd_proc p ?f (?s1\<lparr>k_ptlock := locked_by (k_cpu s)\<rparr>))\<lparr>id_lock := initlock\<rparr>"
  have s2: "iderw_wait i ?s1 = Ok (False, ?s2)"
    using i(2) sleep_enter_ok [of "k_cpu s" ?s1 p "IdeChan i"] c p
    by (auto simp: iderw_wait_def ide_req_def Let_def)
  have "release_pt ?s2 = Ok (?s2\<lparr>k_cpu := k_cpu s, k_ptlock := initlock\<rparr>)"
    using c by (intro release_pt_ok) (simp_all add: upd_proc_def)
  then have "iderw_sleep i s = Ok (?s2\<lparr>k_cpu := k_cpu s, k_ptlock := initlock, k_proc := None\<rparr>)" (is "_ = Ok ?t")
    by (simp add: iderw_sleep_def s1 s2)
  moreover have "ide_ok (qs @ [i]) ?t"
    using ok i nx p
    by (auto simp: ide_ok_def pt_quiet_def upd_proc_def hd_append dest: set_update_subset_insert [THEN subsetD])
  ultimately show thesis by (rule that) (simp_all add: upd_proc_def)
qed

text \<open>
  The drive finishes what it has been programmed for, and will report \<open>st\<close> when it is asked.
\<close>

definition drive_done :: "drive \<Rightarrow> uchar list \<Rightarrow> 'a dkernel_scheme \<Rightarrow> 'a dkernel_scheme" where
  "drive_done drive st s =
     (case drive (id_out s) (k_disk s) of (disk, d) \<Rightarrow>
        s\<lparr>k_disk := disk, id_in := [d], id_status := st, id_out := []\<rparr>)"

definition served :: "uchar list \<Rightarrow> buf \<Rightarrow> buf" where
  "served d b = b\<lparr>b_data := (if b_dirty b then b_data b else d), b_valid := True, b_dirty := False\<rparr>"

lemma served_eq:
  "b_dirty b \<Longrightarrow> served d b = b\<lparr>b_dirty := False, b_valid := True\<rparr>"
  "\<not> b_dirty b \<Longrightarrow> served d b = b\<lparr>b_data := d, b_valid := True\<rparr>"
  by (cases b; simp add: served_def)+

lemma ideintr_read_ok:
  assumes "i < length (k_bufs s)" and "serves 2 (id_status s)" and "id_in s = [d]"
  obtains rs ds where "ideintr_read i s =
     Ok (s\<lparr>k_bufs := (k_bufs s)[i := (k_bufs s ! i)\<lparr>b_data := if b_dirty (k_bufs s ! i) then b_data (k_bufs s ! i) else d\<rparr>],
       id_status := rs, id_in := ds\<rparr>)" and "serves 1 rs"
proof (cases "b_dirty (k_bufs s ! i)")
  case True
  have "serves 1 (id_status s)" using assms(2) by (auto simp: numeral_2_eq_2 split: option.splits)
  with True show thesis by (intro that [of "id_in s" "id_status s"]) (simp_all add: ideintr_read_def)
next
  case False
  have "serves (Suc 1) (id_status s)" using assms(2) by (simp add: numeral_2_eq_2)
  then obtain rs where "idewait True s = Ok (0, s\<lparr>id_status := rs\<rparr>)" "serves 1 rs"
    by (rule idewait_serves)
  with False show thesis using assms(3)
    by (intro that [of "[]" rs]) (simp_all add: ideintr_read_def insl_def upd_buf_def)
qed

lemma ideintr_next_ok:
  assumes "ide_chain nx (id_queue s) qs" and "\<forall>i \<in> set qs. ide_req (k_bufs s ! i)"
    and "serves 1 (id_status s)" and "id_out s = []"
  obtains rs where "ideintr_next s =
    Ok (s\<lparr>id_status := rs, id_out := if qs = [] then [] else start_ports (k_bufs s ! hd qs)\<rparr>)"
proof (cases qs)
  case Nil
  then show thesis using assms by (intro that [of "id_status s"]) (simp_all add: ideintr_next_def)
next
  case (Cons j js)
  then have "ide_req (k_bufs s ! j)" "serves (Suc 0) (id_status s)" using assms(2,3) by simp_all
  then obtain rs where "idestart (Some j) s = Ok (s\<lparr>id_status := rs, id_out := id_out s @ start_ports (k_bufs s ! j)\<rparr>)"
    by (rule idestart_ok)
  then show thesis using Cons assms by (intro that [of rs]) (simp_all add: ideintr_next_def)
qed

lemma ideintr_eq:
  assumes l: "pt_quiet s" "id_lock s = initlock"
    and q: "id_queue s = Some i" "ide_chain (id_qnext s) (id_qnext s i) qs" "i \<notin> set qs" "i < length (k_bufs s)"
      "\<forall>j \<in> set qs. ide_req (k_bufs s ! j)"
    and st: "serves 2 (id_status s)" "id_in s = [d]" "id_out s = []"
  obtains rs ds where "ideintr s =
    Ok (s\<lparr>k_bufs := (k_bufs s)[i := served d (k_bufs s ! i)], k_procs := k_procs (wakeup1 (IdeChan i) s),
      id_queue := id_qnext s i, id_status := rs, id_in := ds,
      id_out := if qs = [] then [] else start_ports (k_bufs s ! hd qs)\<rparr>)"
proof -
  let ?c = "k_cpu s"
  let ?s1 = "s\<lparr>k_cpu := pushcli ?c, id_lock := locked_by ?c, id_queue := id_qnext s i\<rparr>"
  have "i < length (k_bufs ?s1)" "serves 2 (id_status ?s1)" "id_in ?s1 = [d]" using q st by simp_all
  then obtain rs ds where read: "ideintr_read i ?s1 =
     Ok (?s1\<lparr>k_bufs := (k_bufs ?s1)[i := (k_bufs ?s1 ! i)\<lparr>b_data := if b_dirty (k_bufs ?s1 ! i) then b_data (k_bufs ?s1 ! i) else d\<rparr>],
       id_status := rs, id_in := ds\<rparr>)" and rs: "serves 1 rs"
    by (rule ideintr_read_ok)
  let ?s2 = "?s1\<lparr>k_bufs := (k_bufs s)[i := served d (k_bufs s ! i)], id_status := rs, id_in := ds\<rparr>"
  let ?s3 = "?s2\<lparr>k_procs := k_procs (wakeup1 (IdeChan i) s)\<rparr>"
  have "wakeup (IdeChan i) ?s2 = Ok (wakeup1 (IdeChan i) ?s2)"
    using l by (intro wakeup_ok) (simp add: pt_quiet_def pt_free_def pushcli_nested)
  then have wake: "wakeup (IdeChan i) ?s2 = Ok ?s3" by (simp add: wakeup1_def)
  have "ide_chain (id_qnext s) (id_queue ?s3) qs" "\<forall>j \<in> set qs. ide_req (k_bufs ?s3 ! j)"
      "serves 1 (id_status ?s3)" "id_out ?s3 = []"
    using q st rs by (auto simp: nth_list_update)
  then obtain rs' where nxt: "ideintr_next ?s3 =
      Ok (?s3\<lparr>id_status := rs', id_out := if qs = [] then [] else start_ports (k_bufs ?s3 ! hd qs)\<rparr>)"
    by (rule ideintr_next_ok)
  have "hd qs \<noteq> i" if "qs \<noteq> []" using that q(3) by auto
  then have h: "qs \<noteq> [] \<Longrightarrow> k_bufs ?s3 ! hd qs = k_bufs s ! hd qs" by simp
  let ?r = "?s1\<lparr>k_bufs := (k_bufs ?s1)[i := (k_bufs ?s1 ! i)\<lparr>b_data := if b_dirty (k_bufs ?s1 ! i) then b_data (k_bufs ?s1 ! i) else d\<rparr>],
       id_status := rs, id_in := ds\<rparr>"
  have upd: "upd_buf i (\<lambda>b. b\<lparr>b_dirty := False\<rparr>) (upd_buf i (\<lambda>b. b\<lparr>b_valid := True\<rparr>) ?r) = ?s2"
    using q(4) by (intro dkernel.equality) (simp_all add: upd_buf_def served_def)
  have "ideintr s = andthen (wakeup (IdeChan i) (upd_buf i (\<lambda>b. b\<lparr>b_dirty := False\<rparr>)
      (upd_buf i (\<lambda>b. b\<lparr>b_valid := True\<rparr>) ?r))) (\<lambda>s. andthen (ideintr_next s) release_ide)"
    using l(2) q(1) read by (simp add: ideintr_def acquire_ide_def lock_simps Let_def)
  also have "\<dots> = andthen (ideintr_next ?s3) release_ide" by (simp only: upd wake andthen.simps)
  finally show thesis using l nxt h
    by (intro that [of ds rs']) (simp add: release_ide_def pt_quiet_def lock_simps)
qed

text \<open>The block device of \<^verbatim>\<open>memide.c\<close> on the same request.\<close>

lemma iderw_served:
  assumes "ide_ok (i # qs) s"
  obtains w where "iderw i s = Ok w"
    and "k_bufs w = (k_bufs s)[i := served (k_disk s ! unat (b_blockno (k_bufs s ! i))) (k_bufs s ! i)]"
    and "k_disk w = (if b_dirty (k_bufs s ! i)
      then (k_disk s)[unat (b_blockno (k_bufs s ! i)) := b_data (k_bufs s ! i)] else k_disk s)"
proof -
  let ?b = "k_bufs s ! i"
  have c: "cpu_settled (k_cpu s)" "i < length (k_bufs s)" "sl_quiet (b_lock ?b)" "b_locked ?b" "b_dev ?b = 1"
      "unat (b_blockno ?b) < length (k_disk s)" and v: "b_valid ?b \<Longrightarrow> b_dirty ?b"
    using assms by (auto simp: ide_ok_def pt_quiet_def ide_req_def)
  show thesis
  proof (cases "b_dirty ?b")
    case True
    show thesis using c True
      by (intro that [OF iderw_write [OF c(1,2) refl c(3,4) True c(5,6)]]) (simp_all add: set_buf_def served_eq)
  next
    case False
    with v have "\<not> b_valid ?b" by blast
    show thesis using False
      by (intro that [OF iderw_read [OF c(1,2) refl c(3,4) False \<open>\<not> b_valid ?b\<close> c(5,6)]])
        (simp_all add: set_buf_def served_eq)
  qed
qed

lemma ideintr_ok:
  assumes ok: "ide_ok (i # qs) s" and drive: "ata_drive drive" and st: "serves 2 st"
  obtains t w where "ideintr (drive_done drive st s) = Ok t" and "ide_ok qs t"
    and "iderw i s = Ok w" and "k_bufs t = k_bufs w" and "k_disk t = k_disk w"
    and "k_procs t = k_procs (wakeup1 (IdeChan i) s)"
proof -
  let ?b = "k_bufs s ! i"
  obtain disk d where dd: "drive (id_out s) (k_disk s) = (disk, d)" by fastforce
  have req: "ide_req ?b" "i < length (k_bufs s)" "FSSIZE \<le> length (k_disk s)"
    using ok by (simp_all add: ide_ok_def)
  obtain pre where pre: "id_out s = pre @ start_ports ?b" using ok by (auto simp: ide_ok_def)
  have disk: "disk = (if b_dirty ?b then (k_disk s)[unat (b_blockno ?b) := b_data ?b] else k_disk s)"
      "\<not> b_dirty ?b \<Longrightarrow> d = k_disk s ! unat (b_blockno ?b)"
    using ata_drive_start [OF drive req(1,3), of pre] dd pre by auto
  have sv: "served d ?b = served (k_disk s ! unat (b_blockno ?b)) ?b"
    using disk(2) by (simp add: served_def)
  obtain w where w: "iderw i s = Ok w"
    "k_bufs w = (k_bufs s)[i := served (k_disk s ! unat (b_blockno ?b)) ?b]" "k_disk w = disk"
    using iderw_served [OF ok] disk(1) by metis
  let ?s = "s\<lparr>k_disk := disk, id_in := [d], id_status := st, id_out := []\<rparr>"
  have s: "drive_done drive st s = ?s" by (simp add: drive_done_def dd)
  have q: "pt_quiet ?s" "id_lock ?s = initlock" "id_queue ?s = Some i"
      "ide_chain (id_qnext ?s) (id_qnext ?s i) qs" "i \<notin> set qs" "i < length (k_bufs ?s)"
      "\<forall>j \<in> set qs. ide_req (k_bufs ?s ! j)" "serves 2 (id_status ?s)" "id_in ?s = [d]" "id_out ?s = []"
    using ok st by (simp_all add: ide_ok_def pt_quiet_def)
  obtain rs ds where t: "ideintr ?s =
    Ok (?s\<lparr>k_bufs := (k_bufs ?s)[i := served d (k_bufs ?s ! i)], k_procs := k_procs (wakeup1 (IdeChan i) ?s),
      id_queue := id_qnext ?s i, id_status := rs, id_in := ds,
      id_out := if qs = [] then [] else start_ports (k_bufs ?s ! hd qs)\<rparr>)" (is "_ = Ok ?t")
    using q by (rule ideintr_eq)
  have "ide_ok qs ?t"
    using ok disk(1) by (auto simp: ide_ok_def pt_quiet_def wakeup1_def nth_list_update split: if_splits)
  with t s w sv show thesis by (intro that [of ?t w]) (simp_all add: wakeup1_def)
qed

section \<open>The start of the driver\<close>

text \<open>
  \<open>ideinit\<close> finds disk 1 when the drive gets ready and one of the next thousand values of the status
  port is not 0, and leaves the driver idle.
\<close>

lemma ideinit_loop_finds:
  "length (takeWhile (\<lambda>r. r = 0) (id_status s)) < n \<Longrightarrow> list_ex (\<lambda>r. r \<noteq> 0) (id_status s) \<Longrightarrow>
     \<exists>rs. ideinit_loop n s = Ok (s\<lparr>id_status := rs, id_havedisk1 := True\<rparr>)"
proof (induction n arbitrary: s)
  case (Suc n)
  show ?case
  proof (cases "id_status s")
    case (Cons r rs)
    show ?thesis
    proof (cases "r = 0")
      case True
      then have "\<exists>rs'. ideinit_loop n (s\<lparr>id_status := rs\<rparr>) =
          Ok (s\<lparr>id_status := rs\<rparr>\<lparr>id_status := rs', id_havedisk1 := True\<rparr>)"
        using Suc.prems Cons by (intro Suc.IH) simp_all
      then show ?thesis using True Cons by simp
    next
      case False
      have "ideinit_loop (Suc n) s = Ok (s\<lparr>id_status := rs, id_havedisk1 := True\<rparr>)"
        using False Cons by simp
      then show ?thesis by blast
    qed
  qed (use Suc.prems in simp)
qed simp

lemma ideinit_idle:
  assumes "idewait_loop (id_status s) = Some (r, rs)" and "length (takeWhile (\<lambda>r. r = 0) rs) < 1000"
    and "list_ex (\<lambda>r. r \<noteq> 0) rs"
    and "pt_quiet s" "cpu_ncli (k_cpu s) = 0" "FSSIZE \<le> length (k_disk s)" "id_queue s = None"
    and "\<forall>p \<in> set (k_procs s). p_state p \<noteq> SLEEPING"
  obtains t where "ideinit ncpu s = Ok t" and "ide_ok [] t" and "k_bufs t = k_bufs s" and "k_procs t = k_procs s"
    and "k_proc t = k_proc s" and "k_disk t = k_disk s"
    and "id_ioapic t = ioapicenable IRQ_IDE (ncpu - 1) (id_ioapic s)"
proof -
  let ?s = "s\<lparr>id_lock := initlock, id_ioapic := ioapicenable IRQ_IDE (ncpu - 1) (id_ioapic s), id_status := rs\<rparr>"
  let ?t = "outp [Outb 0x1f6 (0xe0 OR push_bit 4 1)] ?s"
  obtain rs' where "ideinit_loop 1000 ?t = Ok (?t\<lparr>id_status := rs', id_havedisk1 := True\<rparr>)"
    using ideinit_loop_finds [of ?t 1000] assms(2,3) by (auto simp: outp_def)
  then have "ideinit ncpu s =
      Ok (outp [Outb 0x1f6 (0xe0 OR push_bit 4 0)] (?t\<lparr>id_status := rs', id_havedisk1 := True\<rparr>))" (is "_ = Ok ?u")
    using assms(1) by (simp add: ideinit_def idewait_def Let_def del: ideinit_loop.simps)
  moreover have "ide_ok [] ?u" using assms by (auto simp: ide_ok_def pt_quiet_def outp_def)
  ultimately show thesis by (rule that) (simp_all add: outp_def)
qed

section \<open>Runs\<close>

text \<open>
  The driver with its processes and the drive, from an idle driver on: processes put requests, the drive
  interrupts when it has finished one, and once in a while when there is none, the scheduler switches to
  a process that does not sleep, and a process changes a buffer of its own. \<open>qs\<close> are the requests that
  are outstanding, in the order of the calls; a buffer is asked for once at a time because its caller
  holds its lock.
\<close>

inductive ide_run ::
  "drive \<Rightarrow> 'a dkernel_scheme \<Rightarrow> nat list \<Rightarrow> 'a dkernel_scheme \<Rightarrow> bool" for drive s\<^sub>0 where
  start: "ide_run drive s\<^sub>0 [] s\<^sub>0"
| request: "ide_run drive s\<^sub>0 qs s \<Longrightarrow> k_proc s = Some p \<Longrightarrow> p < length (k_procs s) \<Longrightarrow>
     i < length (k_bufs s) \<Longrightarrow> ide_req (k_bufs s ! i) \<Longrightarrow> i \<notin> set qs \<Longrightarrow> serves 1 st \<Longrightarrow>
     iderw_sleep i (s\<lparr>id_status := st\<rparr>) = Ok t \<Longrightarrow> ide_run drive s\<^sub>0 (qs @ [i]) t"
| interrupt: "ide_run drive s\<^sub>0 (i # qs) s \<Longrightarrow> serves 2 st \<Longrightarrow>
     ideintr (drive_done drive st s) = Ok t \<Longrightarrow> ide_run drive s\<^sub>0 qs t"
| spurious: "ide_run drive s\<^sub>0 [] s \<Longrightarrow> ideintr s = Ok t \<Longrightarrow> ide_run drive s\<^sub>0 [] t"
| switch: "ide_run drive s\<^sub>0 qs s \<Longrightarrow> p < length (k_procs s) \<Longrightarrow> p_state (k_procs s ! p) \<noteq> SLEEPING \<Longrightarrow>
     ide_run drive s\<^sub>0 qs (s\<lparr>k_proc := Some p\<rparr>)"
| touch: "ide_run drive s\<^sub>0 qs s \<Longrightarrow> i \<notin> set qs \<Longrightarrow> ide_run drive s\<^sub>0 qs (set_buf i b s)"

lemma ide_ok_status: "ide_ok qs (s\<lparr>id_status := st\<rparr>) = ide_ok qs s"
  by (simp add: ide_ok_def pt_quiet_def)

lemma ideintr_spurious:
  assumes "ide_ok [] s"
  shows "ideintr s = Ok s"
  using assms by (simp add: ideintr_def acquire_ide_def release_ide_def ide_ok_def pt_quiet_def lock_simps)

lemma ide_ok_touch:
  assumes "ide_ok qs s" and "i \<notin> set qs"
  shows "ide_ok qs (set_buf i b s)"
proof -
  have "k_bufs s ! j = (k_bufs s)[i := b] ! j" if "j \<in> set qs" for j
    using that assms(2) by (metis nth_list_update_neq)
  then show ?thesis using assms by (auto simp: ide_ok_def pt_quiet_def set_buf_def)
qed

lemma ide_run_ok:
  assumes "ide_run drive s\<^sub>0 qs s" and "ide_ok [] s\<^sub>0" and "ata_drive drive"
  shows "ide_ok qs s"
  using assms(1)
proof (induction rule: ide_run.induct)
  case (request qs s p i st t)
  then show ?case
    using iderw_sleep_ok [of qs "s\<lparr>id_status := st\<rparr>" i p] by (auto simp: ide_ok_status)
next
  case (interrupt i qs s st t)
  from interrupt.IH assms(3) interrupt.hyps(2) show ?case
    by (rule ideintr_ok) (use interrupt.hyps(3) in simp)
next
  case (switch qs s p)
  then show ?case by (auto simp: ide_ok_def pt_quiet_def)
qed (simp_all add: assms(2) ideintr_spurious ide_ok_touch)

text \<open>
  The scheduler switches to a process that is asleep in \<open>iderw\<close> and has been woken; \<open>intena\<close> is what
  \<open>sched\<close> saved on that process's stack.
\<close>

definition dispatch :: "nat \<Rightarrow> 'a kernel_scheme \<Rightarrow> 'a kernel_scheme outcome" where
  "dispatch p s = andthen (acquire_pt s) (\<lambda>s. Ok (upd_proc p (\<lambda>q. q\<lparr>p_state := RUNNING\<rparr>) (s\<lparr>k_proc := Some p\<rparr>)))"

lemma iderw_wake_ok:
  assumes c: "cpu_ncli c = 0" "k_cpu s = pushcli c" "k_ptlock s = locked_by c" "id_lock s = initlock"
    and b: "b_valid (k_bufs s ! i)" "\<not> b_dirty (k_bufs s ! i)"
  shows "iderw_wake intena p i s = Ok (True, upd_proc p (\<lambda>q. q\<lparr>p_chan := None\<rparr>)
    (s\<lparr>k_cpu := c\<lparr>cpu_intena := intena, cpu_if := intena\<rparr>, k_ptlock := initlock\<rparr>))"
proof -
  let ?c = "c\<lparr>cpu_intena := intena, cpu_if := intena\<rparr>"
  let ?s = "upd_proc p (\<lambda>q. q\<lparr>p_chan := None\<rparr>) (sched_in intena s)"
  have settled: "cpu_settled ?c" using c(1) by (simp add: cpu_settled_def cpu_nested_def)
  have in_c: "(pushcli c)\<lparr>cpu_intena := intena\<rparr> = pushcli ?c"
    using c(1) by (cases c) (simp add: pushcli_def)
  have "release_pt ?s = Ok (?s\<lparr>k_cpu := ?c, k_ptlock := initlock\<rparr>)"
    using settled c in_c by (intro release_pt_ok) (simp_all add: sched_in_def upd_proc_def locked_by_def)
  then show ?thesis using settled c(4) b
    by (simp add: iderw_wake_def sleep_leave_def iderw_wait_def release_ide_def lock_simps Let_def)
      (simp add: upd_proc_def sched_in_def c)
qed

text \<open>
  A drive that follows the protocol, and an idle driver over 1000 blocks, whose first process holds a
  buffer to be filled from block 2.
\<close>

definition plain_drive :: drive where
  "plain_drive ps disk = (case last ps of
     Outsl _ d \<Rightarrow> (disk[ata_lba ps := d], []) | Outb _ _ \<Rightarrow> (disk, disk ! ata_lba ps))"

lemma plain_drive_ata: "ata_drive plain_drive"
  by (simp add: ata_drive_def plain_drive_def)

definition idle_ide :: "unit dkernel_scheme" where
  "idle_ide = (boot_bkernel (replicate FSSIZE (replicate BSIZE 7)) \<lparr>id_lock = initlock, id_queue = None,
       id_qnext = (\<lambda>_. None), id_havedisk1 = True, id_status = [], id_in = [], id_out = [],
       id_ioapic = \<lparr>io_sel = 0, io_regs = (\<lambda>_. 0)\<rparr>\<rparr>)
     \<lparr>k_bufs := [boot_buf\<lparr>b_dev := 1, b_blockno := 2, b_lock := initsleeplock\<lparr>sl_locked := True\<rparr>\<rparr>]\<rparr>"

lemma idle_ide_ok: "ide_ok [] idle_ide"
  by (simp add: ide_ok_def idle_ide_def boot_bkernel_eq boot_mkernel_def boot_tkernel_def traceinit_def
      boot_kernel_def boot_cpu_def pt_quiet_def cpu_settled_def cpu_nested_def idle_proc_def)

lemma idle_ide_request:
  obtains s where "ide_run plain_drive idle_ide [0] s" and "0 < length (k_procs s)"
    and "p_state (k_procs s ! 0) = SLEEPING" and "p_chan (k_procs s ! 0) = Some (IdeChan 0)"
proof -
  let ?s = "idle_ide\<lparr>id_status := [0xc0, 0x40]\<rparr>"
  have f: "k_proc ?s = Some 0" "length (k_procs ?s) = NPROC" "0 < length (k_bufs ?s)"
    by (simp_all add: idle_ide_def boot_bkernel_eq boot_mkernel_def boot_tkernel_def traceinit_def boot_kernel_def)
  have r: "ide_req (k_bufs ?s ! 0)"
    by (simp add: idle_ide_def boot_buf_def ide_req_def sl_quiet_def b_locked_def initsleeplock_def)
  have st: "serves 1 (id_status ?s)" by simp
  have ok: "ide_ok [] ?s" "0 \<notin> set []" "0 < length (k_procs ?s)"
    using idle_ide_ok f(2) by (simp_all add: ide_ok_status)
  obtain t where t: "iderw_sleep 0 ?s = Ok t" and p: "k_procs t =
      (k_procs ?s)[0 := (k_procs ?s ! 0)\<lparr>p_chan := Some (IdeChan 0), p_state := SLEEPING\<rparr>]"
    using ok(1) f(3) r ok(2) st f(1) ok(3) by (rule iderw_sleep_ok)
  have "ide_run plain_drive idle_ide ([] @ [0]) t"
    by (rule ide_run.request [where p = 0, OF ide_run.start _ _ _ _ _ _ t])
      (use f r st ok(3) in \<open>simp_all only: dkernel.simps bkernel.simps kernel.simps, simp_all\<close>)
  then have r: "ide_run plain_drive idle_ide [0] t" by simp
  show thesis
    by (rule that [OF r], unfold p)
      (use ok(3) in \<open>simp_all only: nth_list_update_eq length_list_update, simp_all\<close>)
qed

section \<open>Properties\<close>

text \<open>C38: The IDE driver serves requests in the order of the calls, each like the block device of memide.c. The requests
  are for device 1 and blocks below \<open>FSSIZE\<close>, from callers that hold the buffer. In every run with a drive that
  follows the ATA protocol, whatever the interleaving of calls, interrupts and other work on the buffers, an
  interrupt for which the drive gets ready twice without reporting an error is handled without a panic: the oldest
  request is done to buffer and disk exactly as memide.c would do it, no process stays asleep for it, and the queue
  holds the other requests, in order.\<close>

theorem ide_serves_in_order:
  assumes "ata_drive drive" and "ide_ok [] s\<^sub>0" and "ide_run drive s\<^sub>0 (i # qs) s" and "serves 2 st"
  shows "\<exists>t w. ideintr (drive_done drive st s) = Ok t \<and> iderw i s = Ok w \<and>
    k_bufs t = k_bufs w \<and> k_disk t = k_disk w \<and>
    (\<forall>p \<in> set (k_procs t). p_state p = SLEEPING \<longrightarrow> p_chan p \<noteq> Some (IdeChan i)) \<and>
    ide_chain (id_qnext t) (id_queue t) qs"
proof -
  have ok: "ide_ok (i # qs) s" using assms(3,2,1) by (rule ide_run_ok)
  then have "i \<notin> set qs" by (simp add: ide_ok_def)
  from ok assms(1,4) obtain t w where t: "ideintr (drive_done drive st s) = Ok t" "ide_ok qs t"
      "iderw i s = Ok w" "k_bufs t = k_bufs w" "k_disk t = k_disk w"
    by (rule ideintr_ok)
  then have "\<forall>p \<in> set (k_procs t). p_state p = SLEEPING \<longrightarrow> p_chan p \<noteq> Some (IdeChan i)"
      "ide_chain (id_qnext t) (id_queue t) qs"
    using \<open>i \<notin> set qs\<close> by (auto simp: ide_ok_def)
  with t show ?thesis by blast
qed

theorem ide_serves_in_order_witness:
  "\<exists>s t w. ide_run plain_drive idle_ide [0] s \<and>
    ideintr (drive_done plain_drive [0x80, 0x40, 0x40] s) = Ok t \<and> iderw 0 s = Ok w \<and>
    k_bufs t = k_bufs w \<and> k_disk t = k_disk w \<and> ide_chain (id_qnext t) (id_queue t) []"
proof -
  obtain s where s: "ide_run plain_drive idle_ide [0] s" by (rule idle_ide_request)
  have "serves 2 [0x80, 0x40, 0x40]" by (simp add: numeral_2_eq_2)
  from ide_serves_in_order [OF plain_drive_ata idle_ide_ok s this] s show ?thesis by blast
qed

text \<open>C39: A call of iderw returns. In every run with a drive that follows the ATA protocol, when the drive finishes the
  oldest request without reporting an error, the process asleep for it becomes runnable, and once the scheduler switches to it its call of iderw
  finishes at once: the buffer is valid and clean, as the handler left it, both locks are free and the processor has the
  interrupt state the process went to sleep with.\<close>

theorem iderw_returns:
  assumes "ata_drive drive" and "ide_ok [] s\<^sub>0" and "ide_run drive s\<^sub>0 (i # qs) s" and "serves 2 st"
    and p: "p < length (k_procs s)" "p_state (k_procs s ! p) = SLEEPING" "p_chan (k_procs s ! p) = Some (IdeChan i)"
  shows "\<exists>t u v. ideintr (drive_done drive st s) = Ok t \<and> p_state (k_procs t ! p) = RUNNABLE \<and>
    dispatch p t = Ok u \<and> iderw_wake intena p i u = Ok (True, v) \<and>
    k_bufs v = k_bufs t \<and> b_valid (k_bufs v ! i) \<and> \<not> b_dirty (k_bufs v ! i) \<and>
    k_proc v = Some p \<and> p_state (k_procs v ! p) = RUNNING \<and> p_chan (k_procs v ! p) = None \<and>
    k_ptlock v = initlock \<and> id_lock v = initlock \<and>
    cpu_ncli (k_cpu v) = 0 \<and> cpu_if (k_cpu v) = intena"
proof -
  have ok: "ide_ok (i # qs) s" using assms(3,2,1) by (rule ide_run_ok)
  from ok assms(1,4) obtain t w where t: "ideintr (drive_done drive st s) = Ok t" "ide_ok qs t"
      "iderw i s = Ok w" "k_bufs t = k_bufs w" and procs: "k_procs t = k_procs (wakeup1 (IdeChan i) s)"
    by (rule ideintr_ok)
  have i: "i < length (k_bufs s)" using ok by (simp add: ide_ok_def)
  obtain d where "k_bufs t ! i = served d (k_bufs s ! i)"
    using iderw_served [OF ok] t(3,4) i by (metis nth_list_update_eq outcome.inject(1))
  then have b: "b_valid (k_bufs t ! i)" "\<not> b_dirty (k_bufs t ! i)" by (simp_all add: served_def)
  have l: "pt_quiet t" "cpu_ncli (k_cpu t) = 0" "id_lock t = initlock" using t(2) by (simp_all add: ide_ok_def)
  let ?u = "upd_proc p (\<lambda>q. q\<lparr>p_state := RUNNING\<rparr>)
    (t\<lparr>k_cpu := pushcli (k_cpu t), k_ptlock := locked_by (k_cpu t), k_proc := Some p\<rparr>)"
  have u: "dispatch p t = Ok ?u" using l(1) by (simp add: dispatch_def acquire_pt_ok)
  have "iderw_wake intena p i ?u = Ok (True, upd_proc p (\<lambda>q. q\<lparr>p_chan := None\<rparr>)
      (?u\<lparr>k_cpu := (k_cpu t)\<lparr>cpu_intena := intena, cpu_if := intena\<rparr>, k_ptlock := initlock\<rparr>))"
    using l b by (intro iderw_wake_ok) (simp_all add: upd_proc_def)
  moreover have "p_state (k_procs t ! p) = RUNNABLE" "p < length (k_procs t)"
    using p by (simp_all add: procs wakeup1_nth)
  ultimately show ?thesis using t(1) u l b by (simp add: upd_proc_def)
qed

theorem iderw_returns_witness:
  "\<exists>s t u v. ide_run plain_drive idle_ide [0] s \<and>
    ideintr (drive_done plain_drive [0x80, 0x40, 0x40] s) = Ok t \<and> dispatch 0 t = Ok u \<and>
    iderw_wake True 0 0 u = Ok (True, v) \<and> b_valid (k_bufs v ! 0) \<and> k_proc v = Some 0"
proof -
  obtain s where s: "ide_run plain_drive idle_ide [0] s" "0 < length (k_procs s)"
      "p_state (k_procs s ! 0) = SLEEPING" "p_chan (k_procs s ! 0) = Some (IdeChan 0)"
    by (rule idle_ide_request)
  have "serves 2 [0x80, 0x40, 0x40]" by (simp add: numeral_2_eq_2)
  from iderw_returns [OF plain_drive_ata idle_ide_ok s(1) this s(2-4), of True] s(1) show ?thesis by blast
qed

text \<open>C40: A read that fails is not noticed. When the drive reports an error for the read it has finished, the interrupt
  handler leaves the data of the buffer as it was and marks the buffer valid and clean all the same, so that the process
  that waits for it goes on with what the buffer held before.\<close>

theorem ideintr_read_error:
  assumes "pt_quiet s" and "id_lock s = initlock"
    and "id_queue s = Some i" and "id_qnext s i = None" and "i < length (k_bufs s)" and "\<not> b_dirty (k_bufs s ! i)"
    and "idewait_loop (id_status s) = Some (r, rs)" and "r AND (IDE_DF OR IDE_ERR) \<noteq> 0"
  shows "\<exists>t. ideintr s = Ok t \<and> k_disk t = k_disk s \<and> id_queue t = None \<and>
    k_bufs t = (k_bufs s)[i := (k_bufs s ! i)\<lparr>b_valid := True, b_dirty := False\<rparr>] \<and>
    k_procs t = k_procs (wakeup1 (IdeChan i) s)"
proof -
  let ?s1 = "s\<lparr>k_cpu := pushcli (k_cpu s), id_lock := locked_by (k_cpu s), id_queue := None, id_status := rs\<rparr>"
  let ?s2 = "?s1\<lparr>k_bufs := (k_bufs s)[i := (k_bufs s ! i)\<lparr>b_valid := True, b_dirty := False\<rparr>]\<rparr>"
  have "ideintr_read i (s\<lparr>k_cpu := pushcli (k_cpu s), id_lock := locked_by (k_cpu s), id_queue := None\<rparr>) = Ok ?s1"
    using assms by (simp add: ideintr_read_def idewait_def)
  moreover have "wakeup (IdeChan i) ?s2 = Ok (wakeup1 (IdeChan i) ?s2)"
    using assms(1) by (intro wakeup_ok) (simp add: pt_quiet_def pt_free_def pushcli_nested)
  ultimately have "ideintr s = andthen (ideintr_next (wakeup1 (IdeChan i) ?s2)) release_ide"
    using assms by (simp add: ideintr_def acquire_ide_def lock_simps upd_buf_def Let_def)
  then show ?thesis using assms(1,2)
    by (simp add: ideintr_next_def wakeup1_def release_ide_def pt_quiet_def lock_simps)
qed

theorem ideintr_read_error_witness:
  "\<exists>t. ideintr (idle_ide\<lparr>id_queue := Some 0, id_status := [0x80, 0x41]\<rparr>) = Ok t \<and>
    b_valid (k_bufs t ! 0) \<and> b_data (k_bufs t ! 0) = replicate BSIZE 0 \<and> k_disk t ! 2 = replicate BSIZE 7"
proof -
  let ?s = "idle_ide\<lparr>id_queue := Some 0, id_status := [0x80, 0x41]\<rparr>"
  have q: "pt_quiet ?s" "id_lock ?s = initlock" "id_queue ?s = Some 0" "0 < length (k_bufs ?s)"
      "\<not> b_dirty (k_bufs ?s ! 0)" "id_qnext ?s 0 = None"
    using idle_ide_ok by (simp_all add: ide_ok_def pt_quiet_def idle_ide_def boot_buf_def boot_bkernel_eq
        boot_mkernel_def boot_tkernel_def traceinit_def boot_kernel_def)
  have w: "idewait_loop (id_status ?s) = Some (0x41, [])" "(0x41 :: uchar) AND (IDE_DF OR IDE_ERR) \<noteq> 0"
    by simp_all
  have d: "k_disk ?s ! 2 = replicate BSIZE 7" "k_bufs ?s ! 0 = boot_buf\<lparr>b_dev := 1, b_blockno := 2,
      b_lock := initsleeplock\<lparr>sl_locked := True\<rparr>\<rparr>"
    by (simp_all add: idle_ide_def boot_bkernel_eq boot_mkernel_def boot_tkernel_def traceinit_def
        boot_kernel_def)
  from ideintr_read_error [OF q(1-3,6,4,5) w] obtain t where "ideintr ?s = Ok t" "k_disk t = k_disk ?s"
      "k_bufs t = (k_bufs ?s)[0 := (k_bufs ?s ! 0)\<lparr>b_valid := True, b_dirty := False\<rparr>]" by blast
  then show ?thesis using q(4) d by (auto simp: boot_buf_def)
qed

end
