(* ===== verification/Mkfs.thy ===== *)
theory Mkfs
  imports Fsdata
begin

unbundle bit_operations_syntax

text \<open>
  \<^verbatim>\<open>mkfs.c\<close>: the program that builds the initial image of the file system: the super block, an inode and
  blocks for every file, the root directory and the map of the blocks in use.
\<close>

section \<open>State\<close>

text \<open>
  The image is the list of its blocks; the host writes what it is told to, and a read past the end of the
  image fails. A \<open>Panic\<close> is an assertion that fails or a call of \<open>exit(1)\<close>. The host is little-endian.
\<close>

record mkfs =
  mk_img :: "uchar list list"
  mk_sb :: superblock
  mk_freeinode :: uint
  mk_freeblock :: uint

abbreviation (input) NINODES :: nat where "NINODES \<equiv> 200"

definition nbitmap :: nat where "nbitmap = FSSIZE div (BSIZE * 8) + 1"

definition ninodeblocks :: nat where "ninodeblocks = NINODES div IPB + 1"

definition xshort :: "ushort \<Rightarrow> ushort" where
  "xshort x = word_of_bytes [ucast x, ucast (drop_bit 8 x)]"

definition xint :: "uint \<Rightarrow> uint" where
  "xint x = word_of_bytes [ucast x, ucast (drop_bit 8 x), ucast (drop_bit 16 x), ucast (drop_bit 24 x)]"

section \<open>Blocks and inodes of the image\<close>

text \<open>The block at the file offset \<open>sec * BSIZE\<close>, which is computed as a \<open>uint\<close>.\<close>

definition sect_pos :: "uint \<Rightarrow> nat" where
  "sect_pos sec = unat (sec * of_nat BSIZE) div BSIZE"

definition wsect :: "uint \<Rightarrow> uchar list \<Rightarrow> mkfs \<Rightarrow> mkfs" where
  "wsect sec buf s =
     (let p = sect_pos sec; img = mk_img s in
      s\<lparr>mk_img := if p < length img then img[p := buf]
        else img @ replicate (p - length img) (replicate BSIZE 0) @ [buf]\<rparr>)"

definition rsect :: "uint \<Rightarrow> mkfs \<Rightarrow> uchar list outcome" where
  "rsect sec s =
     (let p = sect_pos sec in if p < length (mk_img s) then Ok (mk_img s ! p) else Panic ''read'')"

definition winode :: "uint \<Rightarrow> dinode \<Rightarrow> mkfs \<Rightarrow> mkfs outcome" where
  "winode inum ip s =
     (let bn = IBLOCK inum (mk_sb s) in
      andthen (rsect bn s) (\<lambda>buf. Ok (wsect bn (put_dinode (dinode_off inum) ip buf) s)))"

definition rinode :: "uint \<Rightarrow> mkfs \<Rightarrow> dinode outcome" where
  "rinode inum s = andthen (rsect (IBLOCK inum (mk_sb s)) s) (\<lambda>buf. Ok (get_dinode buf (dinode_off inum)))"

definition mk_ialloc :: "ushort \<Rightarrow> mkfs \<Rightarrow> (uint \<times> mkfs) outcome" where
  "mk_ialloc type s =
     (let inum = mk_freeinode s; s = s\<lparr>mk_freeinode := inum + 1\<rparr>;
          din = \<lparr>d_type = xshort type, d_major = 0, d_minor = 0, d_nlink = xshort 1, d_size = xint 0,
            d_addrs = replicate (NDIRECT + 1) 0\<rparr>
      in andthen (winode inum din s) (\<lambda>s. Ok (inum, s)))"

definition mk_balloc :: "uint \<Rightarrow> mkfs \<Rightarrow> mkfs outcome" where
  "mk_balloc n s =
     (if \<not> sint n < int (BSIZE * 8) then Panic ''assert''
      else let buf = fold set_bit_in [0..<nat (sint n)] (replicate BSIZE 0)
        in Ok (wsect (sb_bmapstart (mk_sb s)) buf s))"

section \<open>Appending to a file\<close>

text \<open>An address of the inode gets a block number from \<open>freeblock\<close> where it has none yet.\<close>

definition addr_fresh :: "nat \<Rightarrow> dinode \<Rightarrow> mkfs \<Rightarrow> dinode \<times> mkfs" where
  "addr_fresh k din s =
     (if xint (d_addrs din ! k) = 0
      then (din\<lparr>d_addrs := (d_addrs din)[k := xint (mk_freeblock s)]\<rparr>, s\<lparr>mk_freeblock := mk_freeblock s + 1\<rparr>)
      else (din, s))"

text \<open>The block of the image behind block \<open>fbn\<close> of a file.\<close>

definition iappend_block :: "uint \<Rightarrow> dinode \<Rightarrow> mkfs \<Rightarrow> (uint \<times> dinode \<times> mkfs) outcome" where
  "iappend_block fbn din s =
     (if fbn < of_nat NDIRECT then
        let (din, s) = addr_fresh (unat fbn) din s in Ok (xint (d_addrs din ! unat fbn), din, s)
      else
        let (din, s) = addr_fresh NDIRECT din s; j = 4 * unat (fbn - of_nat NDIRECT) in
        andthen (rsect (xint (d_addrs din ! NDIRECT)) s) (\<lambda>indirect.
          if get32 indirect j = 0 then
            let indirect = put32 j (xint (mk_freeblock s)) indirect;
                s = wsect (xint (d_addrs din ! NDIRECT)) indirect (s\<lparr>mk_freeblock := mk_freeblock s + 1\<rparr>)
            in Ok (xint (get32 indirect j), din, s)
          else Ok (xint (get32 indirect j), din, s)))"

definition iappend_n1 :: "uint \<Rightarrow> nat \<Rightarrow> nat" where
  "iappend_n1 off n = min n (unat ((off div of_nat BSIZE + 1) * of_nat BSIZE - off))"

lemma block_rest: "(a div 512 + 1) * 512 - a = 512 - a mod (512 :: nat)"
proof -
  define q r where "q = a div 512" and "r = a mod 512"
  have "a = q * 512 + r" by (simp add: q_def r_def)
  then have "(q + 1) * 512 - a = 512 - r" by simp
  then show ?thesis by (simp only: q_def r_def)
qed

lemma iappend_n1_eq:
  assumes "off div 512 < (140 :: uint)"
  shows "iappend_n1 off n = min n (BSIZE - unat off mod BSIZE)"
proof -
  define a where "a = unat off"
  have "a div 512 < 140" using assms by (simp add: a_def word_less_nat_alt unat_div)
  then have a: "a < 71680" by simp
  have off: "off = of_nat a" by (simp add: a_def)
  have d: "off div 512 = of_nat (a div 512)" by (subst word_arith_nat_div) (simp add: a_def)
  have "(off div 512 + 1) * 512 - off = of_nat ((a div 512 + 1) * 512) - of_nat a"
    unfolding d by (simp add: off)
  also have "\<dots> = of_nat ((a div 512 + 1) * 512 - a)" by (subst of_nat_diff) simp_all
  also have "(a div 512 + 1) * 512 - a = 512 - a mod 512"
    by (rule block_rest)
  finally have e: "(off div 512 + 1) * 512 - off = of_nat (512 - a mod 512)" .
  have "unat (of_nat (512 - a mod 512) :: uint) = 512 - a mod 512"
    by (intro of_nat_inverse [OF refl]) simp
  then show ?thesis unfolding iappend_n1_def of_nat_numeral e a_def by (simp only:)
qed

lemma iappend_n1_pos:
  assumes "off div 512 < (140 :: uint)"
  shows "0 < iappend_n1 off (Suc n)"
  using assms by (simp add: iappend_n1_eq)

function (sequential) iappend_loop ::
  "dinode \<Rightarrow> uint \<Rightarrow> uchar list \<Rightarrow> mkfs \<Rightarrow> (dinode \<times> uint \<times> mkfs) outcome" where
  "iappend_loop din off [] s = Ok (din, off, s)"
| "iappend_loop din off (c # cs) s =
     (let p = c # cs; fbn = off div of_nat BSIZE in
      if \<not> fbn < of_nat MAXFILE then Panic ''assert''
      else andthen (iappend_block fbn din s) (\<lambda>(x, din, s).
        let n1 = iappend_n1 off (length p) in
        andthen (rsect x s) (\<lambda>buf.
          iappend_loop din (off + of_nat n1) (drop n1 p)
            (wsect x (patched (unat (off - fbn * of_nat BSIZE)) (take n1 p) buf) s))))"
  by pat_completeness auto
termination
  by (relation "measure (\<lambda>(din, off, p, s). length p)")
    (auto intro: diff_less iappend_n1_pos simp flip: less_Suc_eq_le)

definition iappend :: "uint \<Rightarrow> uchar list \<Rightarrow> mkfs \<Rightarrow> mkfs outcome" where
  "iappend inum p s =
     andthen (rinode inum s) (\<lambda>din.
     andthen (iappend_loop din (xint (d_size din)) p s) (\<lambda>(din, off, s).
     winode inum (din\<lparr>d_size := xint off\<rparr>) s))"

section \<open>main\<close>

definition mk_super :: superblock where
  "mk_super =
     (let nlog = LOGSIZE; nmeta = 2 + nlog + ninodeblocks + nbitmap; nblocks = FSSIZE - nmeta in
      \<lparr>sb_size = xint (of_nat FSSIZE), sb_nblocks = xint (of_nat nblocks), sb_ninodes = xint (of_nat NINODES),
       sb_nlog = xint (of_nat nlog), sb_logstart = xint 2, sb_inodestart = xint (of_nat (2 + nlog)),
       sb_bmapstart = xint (of_nat (2 + nlog + ninodeblocks))\<rparr>)"

definition super_words :: "superblock \<Rightarrow> uint list" where
  "super_words sb = [sb_size sb, sb_nblocks sb, sb_ninodes sb, sb_nlog sb, sb_logstart sb, sb_inodestart sb, sb_bmapstart sb]"

text \<open>\<open>main\<close> up to the allocation of the root directory, on an image that has just been truncated.\<close>

definition mkfs_layout :: mkfs where
  "mkfs_layout =
     (let s = \<lparr>mk_img = [], mk_sb = mk_super, mk_freeinode = 1,
            mk_freeblock = of_nat (2 + LOGSIZE + ninodeblocks + nbitmap)\<rparr>;
          s = fold (\<lambda>i. wsect (of_nat i) (replicate BSIZE 0)) [0..<FSSIZE] s
      in wsect 1 (put_words 0 (super_words (mk_sb s)) (replicate BSIZE 0)) s)"

definition mk_entry :: "uint \<Rightarrow> uchar list \<Rightarrow> uchar list" where
  "mk_entry inum name = dirent_bytes \<lparr>de_inum = xshort (ucast inum), de_name = take DIRSIZ (name @ replicate DIRSIZ 0)\<rparr>"

text \<open>The files of the command line: a name and the blocks that reading it gives, unless it cannot be opened.\<close>

type_synonym host_file = "uchar list \<times> uchar list list option"

fun mk_copy :: "uint \<Rightarrow> uchar list list \<Rightarrow> mkfs \<Rightarrow> mkfs outcome" where
  "mk_copy inum [] s = Ok s"
| "mk_copy inum (buf # bufs) s = (if buf = [] then Ok s else andthen (iappend inum buf s) (mk_copy inum bufs))"

definition skip_underscore :: "uchar list \<Rightarrow> uchar list" where
  "skip_underscore name = (if name \<noteq> [] \<and> hd name = 0x5f then tl name else name)"

fun mk_files :: "uint \<Rightarrow> host_file list \<Rightarrow> mkfs \<Rightarrow> mkfs outcome" where
  "mk_files rootino [] s = Ok s"
| "mk_files rootino ((name, file) # fs) s =
     (if 0x2f \<in> set name then Panic ''assert''
      else case file of
        None \<Rightarrow> Panic ''open''
      | Some bufs \<Rightarrow>
          andthen (mk_ialloc T_FILE s) (\<lambda>(inum, s).
          andthen (iappend rootino (mk_entry inum (skip_underscore name)) s) (\<lambda>s.
          andthen (mk_copy inum bufs s) (mk_files rootino fs))))"

text \<open>The size of the root directory is rounded up, and the map of the blocks in use is written.\<close>

definition mk_finish :: "uint \<Rightarrow> mkfs \<Rightarrow> mkfs outcome" where
  "mk_finish rootino s =
     andthen (rinode rootino s) (\<lambda>din.
     let off = xint (d_size din); off = (off div of_nat BSIZE + 1) * of_nat BSIZE in
     andthen (winode rootino (din\<lparr>d_size := xint off\<rparr>) s) (\<lambda>s.
     mk_balloc (mk_freeblock s) s))"

definition mkfs_main :: "host_file list \<Rightarrow> mkfs outcome" where
  "mkfs_main fs =
     andthen (mk_ialloc T_DIR mkfs_layout) (\<lambda>(rootino, s).
     if rootino \<noteq> ROOTINO then Panic ''assert''
     else andthen (iappend rootino (mk_entry rootino [0x2e]) s) (\<lambda>s.
       andthen (iappend rootino (mk_entry rootino [0x2e, 0x2e]) s) (\<lambda>s.
       andthen (mk_files rootino fs s) (mk_finish rootino))))"

section \<open>Bytes, sectors and inodes\<close>

lemma xint_id [simp]: "xint x = x"
proof -
  have "xint x = word_of_bytes (bytes_of 4 x)" by (simp add: xint_def numeral_eq_Suc)
  then show ?thesis by (simp add: word_of_bytes_of)
qed

lemma xshort_id [simp]: "xshort x = x"
proof -
  have "xshort x = word_of_bytes (bytes_of 2 x)" by (simp add: xshort_def numeral_eq_Suc)
  then show ?thesis by (simp add: word_of_bytes_of)
qed

lemma unat_small: "n < 2 ^ 32 \<Longrightarrow> unat (of_nat n :: uint) = n"
  by (simp add: unsigned_of_nat take_bit_nat_eq_self)

lemma of_nat_zero: "n < 2 ^ 32 \<Longrightarrow> (of_nat n :: uint) = 0 \<longleftrightarrow> n = 0"
  by (auto simp: word_of_nat_eq_0_iff dest: dvd_imp_le)

lemma sect_pos_small: "n < 2 ^ 20 \<Longrightarrow> sect_pos (of_nat n) = n"
proof -
  assume n: "n < 2 ^ 20"
  have "(of_nat n * of_nat 512 :: uint) = of_nat (n * 512)" by simp
  moreover have "unat (of_nat (n * 512) :: uint) = n * 512" using n by (intro unat_small) simp
  ultimately show ?thesis unfolding sect_pos_def by simp
qed

definition img_ok :: "uchar list list \<Rightarrow> bool" where
  "img_ok img \<longleftrightarrow> length img = FSSIZE \<and> (\<forall>b < FSSIZE. length (img ! b) = BSIZE)"

lemma img_okD: "img_ok img \<Longrightarrow> length img = FSSIZE" "img_ok img \<Longrightarrow> b < FSSIZE \<Longrightarrow> length (img ! b) = BSIZE"
  by (simp_all add: img_ok_def)

lemma img_ok_upd: "img_ok img \<Longrightarrow> length buf = BSIZE \<Longrightarrow> img_ok (img[b := buf])"
  unfolding img_ok_def by (metis length_list_update nth_list_update_eq nth_list_update_neq)

lemma rsect_ok: "img_ok (mk_img s) \<Longrightarrow> b < FSSIZE \<Longrightarrow> rsect (of_nat b) s = Ok (mk_img s ! b)"
  by (simp add: rsect_def sect_pos_small img_ok_def)

lemma wsect_ok: "img_ok (mk_img s) \<Longrightarrow> b < FSSIZE \<Longrightarrow> wsect (of_nat b) buf s = s\<lparr>mk_img := (mk_img s)[b := buf]\<rparr>"
  by (simp add: wsect_def sect_pos_small img_ok_def Let_def)

text \<open>Words inside an inode do not overlap.\<close>

lemma get16_put16_other:
  "off + 2 \<le> length bs \<Longrightarrow> p + 2 \<le> off \<or> off + 2 \<le> p \<Longrightarrow> get16 (put16 off w bs) p = get16 bs p"
  using take_drop_patch [of off "bytes_of 2 w" bs p 2] by (simp add: get16_def put16_def)

lemma get16_put32_other:
  "off + 4 \<le> length bs \<Longrightarrow> p + 2 \<le> off \<or> off + 4 \<le> p \<Longrightarrow> get16 (put32 off w bs) p = get16 bs p"
  using take_drop_patch [of off "bytes_of 4 w" bs p 2] by (simp add: get16_def put32_def)

lemma get32_put16_other:
  "off + 2 \<le> length bs \<Longrightarrow> p + 4 \<le> off \<or> off + 2 \<le> p \<Longrightarrow> get32 (put16 off w bs) p = get32 bs p"
  using take_drop_patch [of off "bytes_of 2 w" bs p 4] by (simp add: get32_def put16_def)

lemmas get_put_other = get16_put16_other get16_put32_other get32_put16_other get32_put32_other

lemma get_put_words_other:
  "off + 4 * length ws \<le> length d \<Longrightarrow> p + 4 \<le> off \<or> off + 4 * length ws \<le> p \<Longrightarrow>
     get32 (put_words off ws d) p = get32 d p"
  "off + 4 * length ws \<le> length d \<Longrightarrow> p + 2 \<le> off \<or> off + 4 * length ws \<le> p \<Longrightarrow>
     get16 (put_words off ws d) p = get16 d p"
  by (induction ws arbitrary: off d) (auto simp: get_put_other)

lemma get_put_words:
  "off + 4 * length ws \<le> length d \<Longrightarrow> i < length ws \<Longrightarrow> get32 (put_words off ws d) (off + 4 * i) = ws ! i"
proof (induction ws arbitrary: off d i)
  case (Cons w ws)
  show ?case
  proof (cases i)
    case 0
    then show ?thesis using Cons.prems by (simp add: get_put_words_other)
  next
    case (Suc j)
    have "get32 (put_words (off + 4) ws (put32 off w d)) (off + 4 + 4 * j) = ws ! j"
      using Cons.prems Suc by (intro Cons.IH) simp_all
    then show ?thesis using Suc by (simp add: algebra_simps)
  qed
qed simp

lemma get_put_dinode:
  assumes "length (d_addrs x) = NDIRECT + 1" and "off + 64 \<le> length d"
  shows "get_dinode (put_dinode off x d) off = x"
proof -
  have a: "map (\<lambda>i. get32 (put_words (off + 12) ws e) (off + 12 + 4 * i)) [0..<13] = ws"
    if "length e = length d" "length ws = 13" for e ws
    using assms that by (intro nth_equalityI) (simp_all add: get_put_words del: upt_Suc)
  show ?thesis using assms
    by (cases x) (simp add: get_dinode_def put_dinode_def get_put_words_other get_put_other a del: upt_Suc)
qed

lemma get_put_dinode_other:
  assumes "length (d_addrs x) = NDIRECT + 1" and "off + 64 \<le> length d" and "p + 64 \<le> off \<or> off + 64 \<le> p"
  shows "get_dinode (put_dinode off x d) p = get_dinode d p"
proof -
  have a: "get32 (put_dinode off x d) (p + 12 + 4 * i) = get32 d (p + 12 + 4 * i)" if "i < 13" for i
    using assms that by (auto simp: put_dinode_def get_put_words_other get_put_other)
  have b: "get32 (put_dinode off x d) (p + 8) = get32 d (p + 8)"
    using assms by (auto simp: put_dinode_def get_put_words_other get_put_other)
  have c: "get16 (put_dinode off x d) (p + i) = get16 d (p + i)" if "i < 8" for i
    using assms that by (auto simp: put_dinode_def get_put_words_other get_put_other)
  show ?thesis using a b c [of 0] c [of 2] c [of 4] c [of 6] by (simp add: get_dinode_def)
qed

section \<open>The blocks of a file\<close>

text \<open>
  \<open>bl\<close> are the data blocks of a file, in order, and \<open>ind\<close> is its indirect block, in the addresses of its
  inode and in the indirect block.
\<close>

definition frep :: "uchar list list \<Rightarrow> dinode \<Rightarrow> nat list \<Rightarrow> nat option \<Rightarrow> bool" where
  "frep img din bl ind \<longleftrightarrow> length (d_addrs din) = NDIRECT + 1 \<and> length bl \<le> MAXFILE \<and>
     (\<forall>k < NDIRECT. d_addrs din ! k = (if k < length bl then of_nat (bl ! k) else 0)) \<and>
     d_addrs din ! NDIRECT = (case ind of None \<Rightarrow> 0 | Some b \<Rightarrow> of_nat b) \<and>
     (ind = None \<longleftrightarrow> length bl \<le> NDIRECT) \<and>
     (\<forall>b. ind = Some b \<longrightarrow> (\<forall>k < NINDIRECT. get32 (img ! b) (4 * k) =
        (if k + NDIRECT < length bl then of_nat (bl ! (k + NDIRECT)) else 0)))"

definition owned :: "nat list \<Rightarrow> nat option \<Rightarrow> nat set" where
  "owned bl ind = set bl \<union> set_option ind"

text \<open>The blocks from \<open>fb\<close> on are free and still zero.\<close>

abbreviation (input) NMETA :: nat where "NMETA \<equiv> 59"

definition space :: "mkfs \<Rightarrow> nat \<Rightarrow> bool" where
  "space s fb \<longleftrightarrow> img_ok (mk_img s) \<and> mk_freeblock s = of_nat fb \<and> NMETA \<le> fb \<and> fb \<le> FSSIZE \<and>
     (\<forall>b. fb \<le> b \<and> b < FSSIZE \<longrightarrow> mk_img s ! b = replicate BSIZE 0)"

definition file_ok :: "mkfs \<Rightarrow> nat \<Rightarrow> dinode \<Rightarrow> nat list \<Rightarrow> nat option \<Rightarrow> bool" where
  "file_ok s fb din bl ind \<longleftrightarrow> frep (mk_img s) din bl ind \<and> distinct bl \<and> set_option ind \<inter> set bl = {} \<and>
     owned bl ind \<subseteq> {NMETA..<fb}"

lemma file_ok_block:
  assumes "file_ok s fb din bl ind" and "k < length bl"
  shows "NMETA \<le> bl ! k" "bl ! k < fb"
proof -
  have "bl ! k \<in> {NMETA..<fb}" using assms nth_mem [OF assms(2)] unfolding file_ok_def owned_def by blast
  then show "NMETA \<le> bl ! k" "bl ! k < fb" by simp_all
qed

lemma file_ok_ind:
  assumes "file_ok s fb din bl ind" and "ind = Some b"
  shows "NMETA \<le> b" "b < fb" "b \<notin> set bl"
  using assms by (auto simp: file_ok_def owned_def)

lemma of_nat_less_12: "k < MAXFILE \<Longrightarrow> (of_nat k :: uint) < 12 \<longleftrightarrow> k < 12"
  by (simp add: word_less_nat_alt unat_small)

lemma unat_minus_12: "k < MAXFILE \<Longrightarrow> NDIRECT \<le> k \<Longrightarrow> unat (of_nat k - 12 :: uint) = k - 12"
proof -
  assume k: "k < MAXFILE" "NDIRECT \<le> k"
  then have "(of_nat k - 12 :: uint) = of_nat (k - 12)" by (simp add: of_nat_diff)
  moreover have "unat (of_nat (k - 12) :: uint) = k - 12" using k by (intro unat_small) simp
  ultimately show ?thesis by (simp only:)
qed

lemma iappend_block_old:
  assumes "space s fb" and "file_ok s fb din bl ind" and "k < length bl"
  shows "iappend_block (of_nat k) din s = Ok (of_nat (bl ! k), din, s)"
proof -
  note f = assms(1,2) [unfolded space_def file_ok_def frep_def]
  have k: "k < MAXFILE" using assms(2,3) by (simp add: file_ok_def frep_def)
  have b: "NMETA \<le> bl ! k" "bl ! k < 2 ^ 32" using file_ok_block [OF assms(2,3)] f by auto
  show ?thesis
  proof (cases "k < NDIRECT")
    case True
    then show ?thesis using b f assms(3) k
      by (simp add: iappend_block_def addr_fresh_def of_nat_less_12 unat_small of_nat_zero)
  next
    case False
    then obtain i where i: "ind = Some i" using f assms(3) by auto
    have i': "NMETA \<le> i" "i < FSSIZE" using file_ok_ind [OF assms(2) i] f by auto
    have "get32 (mk_img s ! i) (4 * (k - 12)) = of_nat (bl ! k)" using f i False k assms(3) by auto
    then show ?thesis using False i i' f k b
      by (simp add: iappend_block_def addr_fresh_def of_nat_less_12 unat_minus_12 of_nat_zero rsect_ok)
  qed
qed

text \<open>A file that has got one more data block, the block \<open>x\<close>, and the indirect block if it is the first to need one.\<close>

definition grown ::
  "mkfs \<Rightarrow> nat \<Rightarrow> dinode \<Rightarrow> nat list \<Rightarrow> nat option \<Rightarrow> nat \<Rightarrow> dinode \<Rightarrow> mkfs \<Rightarrow> nat \<Rightarrow> nat option \<Rightarrow> bool" where
  "grown s fb din bl ind x din' s' fb' ind' \<longleftrightarrow>
     space s' fb' \<and> file_ok s' fb' din' (bl @ [x]) ind' \<and> fb \<le> x \<and> x < fb' \<and>
     owned (bl @ [x]) ind' \<subseteq> owned bl ind \<union> {fb..<fb'} \<and>
     (\<forall>b < fb. ind \<noteq> Some b \<longrightarrow> mk_img s' ! b = mk_img s ! b) \<and> mk_img s' ! x = replicate BSIZE 0 \<and>
     din' = din\<lparr>d_addrs := d_addrs din'\<rparr> \<and> mk_sb s' = mk_sb s \<and> mk_freeinode s' = mk_freeinode s"

lemma get32_zeroes: "get32 (replicate n 0) p = 0"
proof -
  have "word_of_bytes (replicate m 0) = (0 :: uint)" for m by (induction m) simp_all
  then show ?thesis by (simp add: get32_def)
qed

lemma iappend_block_direct:
  assumes sp: "space s fb" and f: "file_ok s fb din bl ind" and k: "length bl < NDIRECT" and r: "fb < FSSIZE"
  shows "\<exists>din' s'. iappend_block (of_nat (length bl)) din s = Ok (of_nat fb, din', s') \<and>
    grown s fb din bl ind fb din' s' (fb + 1) ind"
proof -
  let ?k = "length bl"
  let ?din = "din\<lparr>d_addrs := (d_addrs din)[?k := of_nat fb]\<rparr>" and ?s = "s\<lparr>mk_freeblock := of_nat (fb + 1)\<rparr>"
  note d = sp [unfolded space_def] f [unfolded file_ok_def frep_def]
  have ind: "ind = None" using d k by simp
  have "iappend_block (of_nat ?k) din s = Ok (of_nat fb, ?din, ?s)"
    using d k by (simp add: iappend_block_def addr_fresh_def of_nat_less_12 unat_small add.commute)
  moreover have "fb \<notin> set bl" using d by (auto simp: owned_def)
  then have "grown s fb din bl ind fb ?din ?s (fb + 1) ind"
    using d k r ind by (auto simp: grown_def space_def file_ok_def frep_def owned_def nth_list_update nth_append)
  ultimately show ?thesis by blast
qed

lemma get32_put32_word:
  assumes "length d = BSIZE" and "j < NINDIRECT" and "k < NINDIRECT"
  shows "get32 (put32 (4 * j) w d) (4 * k) = (if k = j then w else get32 d (4 * k))"
  using assms by (cases j k rule: linorder_cases) (simp_all add: get32_put32_other)

lemma iappend_block_indirect:
  assumes sp: "space s fb" and f: "file_ok s fb din bl ind" and k: "NDIRECT < length bl" "length bl < MAXFILE"
    and r: "fb < FSSIZE"
  shows "\<exists>din' s'. iappend_block (of_nat (length bl)) din s = Ok (of_nat fb, din', s') \<and>
    grown s fb din bl ind fb din' s' (fb + 1) ind"
proof -
  let ?k = "length bl"
  note d = sp [unfolded space_def] f [unfolded file_ok_def frep_def]
  obtain i where i: "ind = Some i" using d k by (cases ind) auto
  have i': "NMETA \<le> i" "i < fb" "i \<notin> set bl" using file_ok_ind [OF f i] by auto
  let ?ib = "put32 (4 * (?k - 12)) (of_nat fb) (mk_img s ! i)"
  let ?s = "s\<lparr>mk_freeblock := of_nat (fb + 1), mk_img := (mk_img s)[i := ?ib]\<rparr>"
  have len: "length (mk_img s ! i) = BSIZE" "length ?ib = BSIZE" "i < length (mk_img s)"
    using d i' r k by (simp_all add: img_ok_def)
  have z: "get32 (mk_img s ! i) (4 * (?k - 12)) = 0" using d i k by simp
  have "iappend_block (of_nat ?k) din s = Ok (of_nat fb, din, ?s)"
    using d k i i' r z len
    by (simp add: iappend_block_def addr_fresh_def of_nat_less_12 unat_minus_12 of_nat_zero rsect_ok wsect_ok
        Let_def add.commute)
  moreover have nb: "fb \<notin> set bl" using d by (auto simp: owned_def)
  have g: "get32 ?ib (4 * j) = (if j + 12 < Suc ?k then of_nat ((bl @ [fb]) ! (j + 12)) else 0)" if "j < 128" for j
    using d i that k get32_put32_word [OF len(1), of "?k - 12" j] by (auto simp: nth_append)
  have "frep (mk_img ?s) din (bl @ [fb]) ind"
    using d i k g len by (auto simp: frep_def nth_append)
  then have "grown s fb din bl ind fb din ?s (fb + 1) ind"
    using d r i i' nb len img_ok_upd by (auto simp: grown_def space_def file_ok_def owned_def)
  ultimately show ?thesis by blast
qed

lemma iappend_block_first_indirect:
  assumes sp: "space s fb" and f: "file_ok s fb din bl ind" and k: "length bl = NDIRECT" and r: "fb + 1 < FSSIZE"
  shows "\<exists>din' s'. iappend_block (of_nat (length bl)) din s = Ok (of_nat (fb + 1), din', s') \<and>
    grown s fb din bl ind (fb + 1) din' s' (fb + 2) (Some fb)"
proof -
  note d = sp [unfolded space_def] f [unfolded file_ok_def frep_def]
  have ind: "ind = None" using d k by simp
  let ?z = "replicate BSIZE 0" let ?ib = "put32 0 (of_nat (fb + 1)) ?z"
  let ?din = "din\<lparr>d_addrs := (d_addrs din)[NDIRECT := of_nat fb]\<rparr>"
  let ?s = "s\<lparr>mk_freeblock := of_nat (fb + 2), mk_img := (mk_img s)[fb := ?ib]\<rparr>"
  have z: "mk_img s ! fb = ?z" "fb < length (mk_img s)" using d r by (simp_all add: img_ok_def)
  have "iappend_block (of_nat (length bl)) din s = Ok (of_nat (fb + 1), ?din, ?s)"
    using d k ind r z
    by (simp add: iappend_block_def addr_fresh_def of_nat_zero rsect_ok wsect_ok get32_zeroes Let_def add.commute)
  moreover have nb: "fb \<notin> set bl" "fb + 1 \<notin> set bl" using d by (auto simp: owned_def)
  have g: "get32 ?ib (4 * j) = (if j + 12 < Suc (length bl) then of_nat ((bl @ [fb + 1]) ! (j + 12)) else 0)"
    if "j < 128" for j
    using that k get32_put32_word [of ?z 0 j "of_nat (fb + 1)"] by (auto simp: nth_append get32_zeroes)
  have "frep (mk_img ?s) ?din (bl @ [fb + 1]) (Some fb)"
    unfolding frep_def using d ind k g z by (auto simp: nth_list_update nth_append)
  then have "grown s fb din bl ind (fb + 1) ?din ?s (fb + 2) (Some fb)"
    using d r ind nb z img_ok_upd by (auto simp: grown_def space_def file_ok_def owned_def)
  ultimately show ?thesis by blast
qed

definition cost :: "nat \<Rightarrow> nat" where
  "cost k = (if k = NDIRECT then 2 else 1)"

lemma iappend_block_new:
  assumes "space s fb" and "file_ok s fb din bl ind" and "length bl < MAXFILE" and "fb + cost (length bl) \<le> FSSIZE"
  shows "\<exists>x din' s' ind'. iappend_block (of_nat (length bl)) din s = Ok (of_nat x, din', s') \<and>
    grown s fb din bl ind x din' s' (fb + cost (length bl)) ind'"
proof (cases "length bl" NDIRECT rule: linorder_cases)
  case less
  then show ?thesis using iappend_block_direct [OF assms(1,2)] assms(4) by (auto simp: cost_def)
next
  case equal
  then have c: "cost (length bl) = 2" "fb + 1 < FSSIZE" using assms(4) by (simp_all add: cost_def)
  show ?thesis unfolding c(1) using iappend_block_first_indirect [OF assms(1,2) equal c(2)] by blast
next
  case greater
  then show ?thesis using iappend_block_indirect [OF assms(1,2)] assms(3,4) by (auto simp: cost_def)
qed

section \<open>Appending bytes\<close>

text \<open>The bytes of a file.\<close>

definition blocks_bytes :: "uchar list list \<Rightarrow> nat list \<Rightarrow> nat \<Rightarrow> uchar list" where
  "blocks_bytes img bl n = map (\<lambda>i. img ! (bl ! (i div BSIZE)) ! (i mod BSIZE)) [0..<n]"

definition cost_upto :: "nat \<Rightarrow> nat" where
  "cost_upto k = k + (if NDIRECT < k then 1 else 0)"

text \<open>A file has taken more blocks, and nothing else of the image below the free blocks has changed.\<close>

definition extends ::
  "mkfs \<Rightarrow> nat \<Rightarrow> dinode \<Rightarrow> nat list \<Rightarrow> nat option \<Rightarrow> mkfs \<Rightarrow> nat \<Rightarrow> dinode \<Rightarrow> nat list \<Rightarrow> nat option \<Rightarrow> bool" where
  "extends s fb din bl ind s' fb' din' bl' ind' \<longleftrightarrow>
     space s' fb' \<and> file_ok s' fb' din' bl' ind' \<and> fb \<le> fb' \<and> fb' + cost_upto (length bl) = fb + cost_upto (length bl') \<and>
     owned bl' ind' \<subseteq> owned bl ind \<union> {fb..<fb'} \<and>
     (\<forall>b < fb. b \<notin> owned bl ind \<longrightarrow> mk_img s' ! b = mk_img s ! b) \<and>
     din' = din\<lparr>d_addrs := d_addrs din'\<rparr> \<and> mk_sb s' = mk_sb s \<and> mk_freeinode s' = mk_freeinode s"

lemma extends_refl:
  "space s fb \<Longrightarrow> file_ok s fb din bl ind \<Longrightarrow> extends s fb din bl ind s fb din bl ind"
  by (simp add: extends_def)

lemma extends_trans:
  assumes a: "extends s fb din bl ind s' fb' din' bl' ind'" and b: "extends s' fb' din' bl' ind' t gb ein cl jnd"
  shows "extends s fb din bl ind t gb ein cl jnd"
proof -
  have o: "owned cl jnd \<subseteq> owned bl ind \<union> {fb..<gb}" using a b by (fastforce simp: extends_def)
  have i: "mk_img t ! c = mk_img s ! c" if "c < fb" "c \<notin> owned bl ind" for c
  proof -
    have "c \<notin> owned bl' ind'" using a that by (auto simp: extends_def)
    then show ?thesis using a b that by (simp add: extends_def)
  qed
  have "din' = din\<lparr>d_addrs := d_addrs din'\<rparr>" "ein = din'\<lparr>d_addrs := d_addrs ein\<rparr>" using a b by (simp_all add: extends_def)
  then have d: "ein = din\<lparr>d_addrs := d_addrs ein\<rparr>" by (metis dinode.surjective dinode.update_convs(6))
  show ?thesis using a b o i d by (simp add: extends_def)
qed

lemma grown_extends:
  assumes "grown s fb din bl ind x din' s' (fb + cost (length bl)) ind'"
  shows "extends s fb din bl ind s' (fb + cost (length bl)) din' (bl @ [x]) ind'"
  using assms by (auto simp: grown_def extends_def cost_def cost_upto_def owned_def)

text \<open>Putting bytes into a block of the file.\<close>

lemma extends_write:
  assumes sp: "space s fb" and f: "file_ok s fb din bl ind" and x: "x \<in> set bl" and l: "length buf = BSIZE"
  shows "extends s fb din bl ind (s\<lparr>mk_img := (mk_img s)[x := buf]\<rparr>) fb din bl ind"
proof -
  have x': "x < fb" "fb \<le> FSSIZE" "ind \<noteq> Some x" using sp f x by (auto simp: file_ok_def owned_def space_def)
  have "space (s\<lparr>mk_img := (mk_img s)[x := buf]\<rparr>) fb"
    using sp x' l by (auto simp: space_def img_ok_upd)
  moreover have "file_ok (s\<lparr>mk_img := (mk_img s)[x := buf]\<rparr>) fb din bl ind"
    using f x' by (auto simp: file_ok_def frep_def)
  moreover have "\<forall>b < fb. b \<notin> owned bl ind \<longrightarrow> (mk_img s)[x := buf] ! b = mk_img s ! b"
    using x unfolding owned_def by (metis UnI1 nth_list_update_neq)
  ultimately show ?thesis by (simp add: extends_def)
qed

definition nblks :: "nat \<Rightarrow> nat" where
  "nblks n = (n + (BSIZE - 1)) div BSIZE"

lemma nblks_cases:
  "nblks sz = (if sz mod BSIZE = 0 then sz div BSIZE else sz div BSIZE + 1)"
proof -
  define q r where "q = sz div 512" and "r = sz mod 512"
  have sz: "sz = 512 * q + r" and r: "r < 512" by (simp_all add: q_def r_def)
  have "(512 * q + r + 511) div 512 = (if r = 0 then q else q + 1)"
  proof (cases "r = 0")
    case False
    then have "512 * q + r + 511 = 512 * (q + 1) + (r - 1)" by simp
    also have "\<dots> div 512 = q + 1" using r by (subst div_mult_self4) simp_all
    finally show ?thesis using False by simp
  qed simp
  then show ?thesis by (simp add: nblks_def sz [symmetric] q_def r_def)
qed

lemma nblks_add:
  assumes "0 < m" and "m \<le> BSIZE - sz mod BSIZE"
  shows "nblks (sz + m) = sz div BSIZE + 1"
proof -
  define q r where "q = sz div 512" and "r = sz mod 512"
  have sz: "sz = 512 * q + r" by (simp add: q_def r_def)
  have "sz + m + 511 = 512 * (q + 1) + (r + m - 1)" using assms(1) by (simp add: sz)
  moreover have "r + m - 1 < 512" using assms(1,2) by (simp add: r_def)
  ultimately have "nblks (sz + m) = q + 1" unfolding nblks_def by (simp add: div_mult_self4)
  then show ?thesis by (simp only: q_def)
qed

lemma div_nblks: "i < n \<Longrightarrow> i div BSIZE < nblks n"
  using div_le_mono [of "i + 512" "n + 511" 512] by (simp add: nblks_def)

lemma blocks_bytes_same:
  assumes "\<And>k. k < nblks n \<Longrightarrow> img' ! (bl' ! k) = img ! (bl ! k)"
  shows "blocks_bytes img' bl' n = blocks_bytes img bl n"
proof -
  show ?thesis using assms div_nblks by (simp add: blocks_bytes_def)
qed

lemma iappend_block_ready:
  assumes sp: "space s fb" and f: "file_ok s fb din bl ind" and bl: "length bl = nblks sz" and sz: "sz < MAXFILE * BSIZE"
    and r: "fb + cost_upto (sz div BSIZE + 1) \<le> FSSIZE + cost_upto (length bl)"
  shows "\<exists>din' s' fb' bl' ind'. iappend_block (of_nat (sz div BSIZE)) din s = Ok (of_nat (bl' ! (sz div BSIZE)), din', s') \<and>
    extends s fb din bl ind s' fb' din' bl' ind' \<and> length bl' = sz div BSIZE + 1 \<and>
    blocks_bytes (mk_img s') bl' sz = blocks_bytes (mk_img s) bl sz"
proof (cases "sz mod BSIZE = 0")
  case True
  then have l: "length bl = sz div BSIZE" using bl by (simp add: nblks_cases)
  have "length bl < MAXFILE" using sz l by simp
  moreover have "fb + cost (length bl) \<le> FSSIZE" using r l by (simp add: cost_def cost_upto_def split: if_splits)
  ultimately obtain x din' s' ind' where g: "iappend_block (of_nat (length bl)) din s = Ok (of_nat x, din', s')"
      "grown s fb din bl ind x din' s' (fb + cost (length bl)) ind'"
    using iappend_block_new [OF sp f] by blast
  have "mk_img s' ! ((bl @ [x]) ! k) = mk_img s ! (bl ! k)" if "k < nblks sz" for k
  proof -
    have k: "k < length bl" using that bl by simp
    have "ind \<noteq> Some (bl ! k)" using f k by (auto simp: file_ok_def)
    then show ?thesis using g(2) k file_ok_block(2) [OF f k] by (simp add: grown_def nth_append)
  qed
  then have "blocks_bytes (mk_img s') (bl @ [x]) sz = blocks_bytes (mk_img s) bl sz" by (rule blocks_bytes_same)
  moreover have "iappend_block (of_nat (sz div BSIZE)) din s = Ok (of_nat ((bl @ [x]) ! (sz div BSIZE)), din', s')"
    using g(1) unfolding l [symmetric] by simp
  ultimately show ?thesis using grown_extends [OF g(2)] l by (metis length_append_singleton Suc_eq_plus1)
next
  case False
  then have l: "length bl = sz div BSIZE + 1" using bl by (simp add: nblks_cases)
  then show ?thesis using iappend_block_old [OF sp f, of "sz div BSIZE"] extends_refl [OF sp f] by auto
qed

lemma blocks_bytes_append:
  assumes l: "length bl = sz div BSIZE + 1" "distinct bl" and x: "x = bl ! (sz div BSIZE)" "x < length img" "length (img ! x) = BSIZE"
    and c: "length cs \<le> BSIZE - sz mod BSIZE"
  shows "blocks_bytes (img[x := patched (sz mod BSIZE) cs (img ! x)]) bl (sz + length cs) = blocks_bytes img bl sz @ cs"
proof (rule nth_equalityI)
  let ?img = "img[x := patched (sz mod BSIZE) cs (img ! x)]"
  fix i assume "i < length (blocks_bytes ?img bl (sz + length cs))"
  then have i: "i < sz + length cs" by (simp add: blocks_bytes_def)
  have m: "sz mod BSIZE < BSIZE" by simp
  have p: "sz mod BSIZE + length cs \<le> length (img ! x)" using c x(3) m by linarith
  show "blocks_bytes ?img bl (sz + length cs) ! i = (blocks_bytes img bl sz @ cs) ! i"
  proof (cases "i < sz")
    case True
    show ?thesis
    proof (cases "i div BSIZE = sz div BSIZE")
      case eq: True
      then have "i mod BSIZE < sz mod BSIZE" using True by (metis div_mult_mod_eq nat_add_left_cancel_less)
      then show ?thesis using True eq i x p
        by (simp add: blocks_bytes_def nth_append patched_nth)
    next
      case neq: False
      then have "i div BSIZE < sz div BSIZE" using True by (simp add: div_le_mono le_neq_implies_less)
      then have "bl ! (i div BSIZE) \<noteq> x" using l x(1) by (simp add: nth_eq_iff_index_eq)
      then show ?thesis using True i by (simp add: blocks_bytes_def nth_append)
    qed
  next
    case False
    define j where "j = i - sz"
    have j: "i = sz + j" "j < length cs" using False i by (simp_all add: j_def)
    have "sz mod BSIZE + j < BSIZE" using j c m by linarith
    from within_block [OF this] show ?thesis using j p x c
      by (simp add: blocks_bytes_def nth_append patched_nth)
  qed
qed (simp add: blocks_bytes_def)

lemma nblks_mono: "m \<le> n \<Longrightarrow> nblks m \<le> nblks n"
  by (simp add: nblks_def div_le_mono)

lemma cost_upto_mono: "m \<le> n \<Longrightarrow> cost_upto m \<le> cost_upto n"
  by (simp add: cost_upto_def)

lemma word_div_512: "sz < 2 ^ 32 \<Longrightarrow> (of_nat sz :: uint) div 512 = of_nat (sz div 512)"
  by (subst word_arith_nat_div) (simp add: unat_small)

lemma iappend_turn:
  assumes sz: "sz < MAXFILE * BSIZE" and p: "p \<noteq> []"
    and b: "iappend_block (of_nat (sz div BSIZE)) din s = Ok (x, din', s')"
    and n: "n1 = min (length p) (BSIZE - sz mod BSIZE)" and r: "rsect x s' = Ok buf"
  shows "iappend_loop din (of_nat sz) p s =
    iappend_loop din' (of_nat (sz + n1)) (drop n1 p) (wsect x (patched (sz mod BSIZE) (take n1 p) buf) s')"
proof -
  have d: "(of_nat sz :: uint) div 512 = of_nat (sz div 512)" using sz by (simp add: word_div_512)
  have q: "sz div 512 < 140" using sz by simp
  have l: "(of_nat (sz div 512) :: uint) < 140" using q by (simp add: word_less_nat_alt unat_small)
  have u: "unat (of_nat sz :: uint) = sz" using sz by (simp add: unat_small)
  have n1: "iappend_n1 (of_nat sz) (length p) = n1" using l d u n by (simp add: iappend_n1_eq)
  have "(of_nat sz - of_nat (sz div 512) * 512 :: uint) = of_nat (sz mod 512)"
    by (metis add_diff_cancel_left' div_mult_mod_eq of_nat_add of_nat_mult of_nat_numeral)
  moreover have "unat (of_nat (sz mod 512) :: uint) = sz mod 512" by (intro unat_small) (simp add: less_trans)
  ultimately have o: "unat (of_nat sz - of_nat (sz div 512) * 512 :: uint) = sz mod 512" by (simp only:)
  obtain c cs where "p = c # cs" using p by (cases p) auto
  then show ?thesis using b r n1 l o d by (simp add: Let_def del: iappend_loop.simps(1))
qed

lemma iappend_step:
  assumes sp: "space s fb" and f: "file_ok s fb din bl ind" and bl: "length bl = nblks sz"
    and p: "p \<noteq> []" "sz + length p \<le> MAXFILE * BSIZE"
    and r: "fb + cost_upto (nblks (sz + length p)) \<le> FSSIZE + cost_upto (length bl)"
  obtains n1 din' s' fb' bl' ind' where "0 < n1" and "n1 \<le> length p"
    and "iappend_loop din (of_nat sz) p s = iappend_loop din' (of_nat (sz + n1)) (drop n1 p) s'"
    and "extends s fb din bl ind s' fb' din' bl' ind'" and "length bl' = nblks (sz + n1)"
    and "blocks_bytes (mk_img s') bl' (sz + n1) = blocks_bytes (mk_img s) bl sz @ take n1 p"
proof -
  define n1 where "n1 = min (length p) (BSIZE - sz mod BSIZE)"
  have sz: "sz < MAXFILE * BSIZE" using p by (cases p) simp_all
  have n1: "0 < n1" "n1 \<le> length p" "n1 \<le> BSIZE - sz mod BSIZE" using p(1) by (simp_all add: n1_def)
  have nb: "nblks (sz + n1) = sz div BSIZE + 1" by (rule nblks_add [OF n1(1,3)])
  have "cost_upto (sz div BSIZE + 1) \<le> cost_upto (nblks (sz + length p))"
    using nblks_mono [of "sz + n1" "sz + length p"] n1(2) cost_upto_mono unfolding nb by simp
  then have "fb + cost_upto (sz div BSIZE + 1) \<le> FSSIZE + cost_upto (length bl)" using r by linarith
  from iappend_block_ready [OF sp f bl sz this]
  obtain din' s1 fb' bl' ind' where b: "iappend_block (of_nat (sz div BSIZE)) din s = Ok (of_nat (bl' ! (sz div BSIZE)), din', s1)"
      "extends s fb din bl ind s1 fb' din' bl' ind'" "length bl' = sz div BSIZE + 1"
      "blocks_bytes (mk_img s1) bl' sz = blocks_bytes (mk_img s) bl sz" by blast
  let ?x = "bl' ! (sz div BSIZE)"
  have e: "space s1 fb'" "file_ok s1 fb' din' bl' ind'" using b(2) by (simp_all add: extends_def)
  have x: "?x \<in> set bl'" "?x < FSSIZE" using b(3) file_ok_block [OF e(2), of "sz div BSIZE"] e(1) by (auto simp: space_def)
  have im: "img_ok (mk_img s1)" using e(1) by (simp add: space_def)
  let ?buf = "patched (sz mod BSIZE) (take n1 p) (mk_img s1 ! ?x)"
  have lb: "length (mk_img s1 ! ?x) = BSIZE" using im x(2) by (rule img_okD)
  have t: "length (take n1 p) = n1" using n1(2) by simp
  have "sz mod BSIZE + length (take n1 p) \<le> length (mk_img s1 ! ?x)" unfolding t lb using n1(3) by simp
  then have "length ?buf = BSIZE" using lb by simp
  from extends_write [OF e x(1) this]
  have w: "extends s1 fb' din' bl' ind' (wsect (of_nat ?x) ?buf s1) fb' din' bl' ind'" by (simp add: wsect_ok im x(2))
  have "blocks_bytes ((mk_img s1)[?x := ?buf]) bl' (sz + length (take n1 p)) = blocks_bytes (mk_img s1) bl' sz @ take n1 p"
    using b(3) e(2) x(2) im lb n1(3) t by (intro blocks_bytes_append) (simp_all add: file_ok_def img_ok_def)
  then have "blocks_bytes (mk_img (wsect (of_nat ?x) ?buf s1)) bl' (sz + n1) = blocks_bytes (mk_img s) bl sz @ take n1 p"
    using im x(2) b(4) t by (simp add: wsect_ok)
  moreover have "iappend_loop din (of_nat sz) p s = iappend_loop din' (of_nat (sz + n1)) (drop n1 p) (wsect (of_nat ?x) ?buf s1)"
    using sz p(1) b(1) n1_def by (rule iappend_turn) (simp add: rsect_ok im x(2))
  ultimately show thesis using n1(1,2) extends_trans [OF b(2) w] b(3) nb by (intro that) simp_all
qed

lemma iappend_loop_ok:
  assumes "space s fb" and "file_ok s fb din bl ind" and "length bl = nblks sz"
    and "sz + length p \<le> MAXFILE * BSIZE" and "fb + cost_upto (nblks (sz + length p)) \<le> FSSIZE + cost_upto (length bl)"
  shows "\<exists>din' s' fb' bl' ind'. iappend_loop din (of_nat sz) p s = Ok (din', of_nat (sz + length p), s') \<and>
    extends s fb din bl ind s' fb' din' bl' ind' \<and> length bl' = nblks (sz + length p) \<and>
    blocks_bytes (mk_img s') bl' (sz + length p) = blocks_bytes (mk_img s) bl sz @ p"
  using assms
proof (induction "length p" arbitrary: p sz s fb din bl ind rule: less_induct)
  case less
  show ?case
  proof (cases "p = []")
    case True
    then show ?thesis using less.prems extends_refl by fastforce
  next
    case False
    then obtain n1 din' s' fb' bl' ind' where t: "0 < n1" "n1 \<le> length p"
        "iappend_loop din (of_nat sz) p s = iappend_loop din' (of_nat (sz + n1)) (drop n1 p) s'"
        "extends s fb din bl ind s' fb' din' bl' ind'" "length bl' = nblks (sz + n1)"
        "blocks_bytes (mk_img s') bl' (sz + n1) = blocks_bytes (mk_img s) bl sz @ take n1 p"
      using less.prems by (elim iappend_step)
    have e: "space s' fb'" "file_ok s' fb' din' bl' ind'" "fb' + cost_upto (length bl) = fb + cost_upto (length bl')"
      using t(4) by (simp_all add: extends_def)
    have n: "sz + n1 + length (drop n1 p) = sz + length p" using t(2) by simp
    have "\<exists>ein t gb cl jnd. iappend_loop din' (of_nat (sz + n1)) (drop n1 p) s' =
        Ok (ein, of_nat (sz + n1 + length (drop n1 p)), t) \<and> extends s' fb' din' bl' ind' t gb ein cl jnd \<and>
        length cl = nblks (sz + n1 + length (drop n1 p)) \<and>
        blocks_bytes (mk_img t) cl (sz + n1 + length (drop n1 p)) = blocks_bytes (mk_img s') bl' (sz + n1) @ drop n1 p"
      using t(1,2,5) e less.prems(4,5) n by (intro less.hyps) simp_all
    then obtain ein u gb cl jnd where u: "iappend_loop din' (of_nat (sz + n1)) (drop n1 p) s' = Ok (ein, of_nat (sz + length p), u)"
        "extends s' fb' din' bl' ind' u gb ein cl jnd" "length cl = nblks (sz + length p)"
        "blocks_bytes (mk_img u) cl (sz + length p) = blocks_bytes (mk_img s) bl sz @ p"
      unfolding n t(6) append_assoc append_take_drop_id by blast
    then show ?thesis using extends_trans [OF t(4) u(2)] t(3) by metis
  qed
qed

section \<open>Inodes\<close>

definition image_inode :: "uchar list list \<Rightarrow> nat \<Rightarrow> dinode" where
  "image_inode img n = get_dinode (img ! (2 + LOGSIZE + n div IPB)) (64 * (n mod IPB))"

lemma mk_super_starts: "sb_inodestart mk_super = of_nat 32" "sb_bmapstart mk_super = of_nat 58"
  by (simp_all add: mk_super_def ninodeblocks_def Let_def)

lemma IBLOCK_super:
  assumes "n < 208"
  shows "IBLOCK (of_nat n) mk_super = of_nat (32 + n div 8)" "dinode_off (of_nat n) = 64 * (n mod 8)"
proof -
  have "(of_nat n :: uint) div 8 = of_nat (n div 8)"
    using assms by (subst word_arith_nat_div) (simp add: unat_small)
  then show "IBLOCK (of_nat n) mk_super = of_nat (32 + n div 8)" by (simp add: IBLOCK_def mk_super_starts)
  show "dinode_off (of_nat n) = 64 * (n mod 8)" using assms by (simp add: dinode_off_def unat_small)
qed

lemma rinode_ok:
  assumes "img_ok (mk_img s)" and "mk_sb s = mk_super" and "n < 208"
  shows "rinode (of_nat n) s = Ok (image_inode (mk_img s) n)"
proof -
  have "rsect (of_nat (32 + n div 8)) s = Ok (mk_img s ! (32 + n div 8))"
    using assms by (intro rsect_ok) simp_all
  then show ?thesis using assms(2) IBLOCK_super [OF assms(3)] by (simp add: rinode_def image_inode_def)
qed

lemma winode_ok:
  assumes im: "img_ok (mk_img s)" and "mk_sb s = mk_super" and n: "n < 208" and d: "length (d_addrs d) = NDIRECT + 1"
  obtains img where "winode (of_nat n) d s = Ok (s\<lparr>mk_img := img\<rparr>)" and "img_ok img" and "image_inode img n = d"
    and "\<And>m. m < 208 \<Longrightarrow> m \<noteq> n \<Longrightarrow> image_inode img m = image_inode (mk_img s) m"
    and "\<And>b. b < 32 \<or> 58 \<le> b \<Longrightarrow> img ! b = mk_img s ! b"
proof -
  let ?b = "32 + n div 8" and ?o = "64 * (n mod 8)"
  let ?buf = "put_dinode ?o d (mk_img s ! ?b)"
  have b: "?b < FSSIZE" "?b < length (mk_img s)" using n im by (simp_all add: img_ok_def)
  have l: "length (mk_img s ! ?b) = BSIZE" using im b(1) by (rule img_okD)
  have o: "?o + 64 \<le> length (mk_img s ! ?b)" using l by simp
  have "length ?buf = BSIZE" using length_put_dinode [OF o d] l by simp
  then have "img_ok ((mk_img s)[?b := ?buf])" by (rule img_ok_upd [OF im])
  moreover have "rsect (of_nat ?b) s = Ok (mk_img s ! ?b)" by (rule rsect_ok [OF im b(1)])
  then have "winode (of_nat n) d s = Ok (s\<lparr>mk_img := (mk_img s)[?b := ?buf]\<rparr>)"
    using assms(2) IBLOCK_super [OF n] wsect_ok [OF im b(1), of ?buf] by (simp add: winode_def)
  moreover have "image_inode ((mk_img s)[?b := ?buf]) n = d"
    using get_put_dinode [OF d o] b(2) by (simp add: image_inode_def)
  moreover have "image_inode ((mk_img s)[?b := ?buf]) m = image_inode (mk_img s) m" if "m < 208" "m \<noteq> n" for m
  proof (cases "m div 8 = n div 8")
    case True
    then have "m mod 8 \<noteq> n mod 8" using that(2) by (metis div_mult_mod_eq)
    then have "64 * (m mod 8) + 64 \<le> ?o \<or> ?o + 64 \<le> 64 * (m mod 8)" by linarith
    then show ?thesis using get_put_dinode_other [OF d o] b(2) True by (simp add: image_inode_def)
  qed (simp add: image_inode_def)
  moreover have "(mk_img s)[?b := ?buf] ! c = mk_img s ! c" if "c < 32 \<or> 58 \<le> c" for c
  proof -
    have "n div 8 < 26" using n by simp
    then have "?b \<noteq> c" using that by linarith
    then show ?thesis by simp
  qed
  ultimately show thesis by (intro that [of "(mk_img s)[?b := ?buf]"])
qed

section \<open>The state of the program\<close>

text \<open>
  \<open>fs\<close> are the types and contents of the inodes so far, \<open>B\<close> their blocks. The blocks of different files
  are different, and together they are the blocks from the first data block up to \<open>fb\<close>.
\<close>

definition file_at :: "mkfs \<Rightarrow> nat \<Rightarrow> nat \<Rightarrow> ushort \<times> uchar list \<Rightarrow> nat list \<times> nat option \<Rightarrow> bool" where
  "file_at s fb n f b \<longleftrightarrow>
     (let din = image_inode (mk_img s) n; c = snd f in
      d_type din = fst f \<and> d_nlink din = 1 \<and> d_size din = of_nat (length c) \<and> length c \<le> MAXFILE * BSIZE \<and>
      file_ok s fb din (fst b) (snd b) \<and> length (fst b) = nblks (length c) \<and>
      blocks_bytes (mk_img s) (fst b) (length c) = c)"

definition blocks_of :: "(ushort \<times> uchar list) list \<Rightarrow> nat" where
  "blocks_of fs = sum_list (map (\<lambda>f. cost_upto (nblks (length (snd f)))) fs)"

definition mk_inv :: "mkfs \<Rightarrow> (ushort \<times> uchar list) list \<Rightarrow> (nat list \<times> nat option) list \<Rightarrow> bool" where
  "mk_inv s fs B \<longleftrightarrow> space s (NMETA + blocks_of fs) \<and> mk_sb s = mk_super \<and> mk_freeinode s = of_nat (length fs + 1) \<and>
     length fs < NINODES \<and> length B = length fs \<and>
     (\<forall>i < length fs. file_at s (NMETA + blocks_of fs) (i + 1) (fs ! i) (B ! i)) \<and>
     (\<forall>i < length fs. \<forall>j < length fs. i \<noteq> j \<longrightarrow> owned (fst (B ! i)) (snd (B ! i)) \<inter> owned (fst (B ! j)) (snd (B ! j)) = {}) \<and>
     mk_img s ! 1 = put_words 0 (super_words mk_super) (replicate BSIZE 0)"

lemma file_at_frame:
  assumes f: "file_at s fb n f b" and i: "image_inode (mk_img s') n = image_inode (mk_img s) n"
    and o: "\<And>c. c \<in> owned (fst b) (snd b) \<Longrightarrow> mk_img s' ! c = mk_img s ! c" and l: "fb \<le> fb'"
  shows "file_at s' fb' n f b"
proof -
  let ?din = "image_inode (mk_img s) n"
  have ok: "file_ok s fb ?din (fst b) (snd b)" "length (fst b) = nblks (length (snd f))"
    using f by (simp_all add: file_at_def Let_def)
  then have "file_ok s' fb' ?din (fst b) (snd b)"
    using o l by (auto simp: file_ok_def frep_def owned_def)
  moreover have "blocks_bytes (mk_img s') (fst b) (length (snd f)) = blocks_bytes (mk_img s) (fst b) (length (snd f))"
    using ok o by (intro blocks_bytes_same) (simp add: owned_def)
  ultimately show ?thesis using f i by (simp add: file_at_def Let_def)
qed

lemma blocks_of_update:
  "i < length fs \<Longrightarrow> blocks_of (fs[i := f]) + cost_upto (nblks (length (snd (fs ! i)))) =
     blocks_of fs + cost_upto (nblks (length (snd f)))"
proof (induction fs arbitrary: i)
  case (Cons g fs)
  then show ?case by (cases i) (simp_all add: blocks_of_def)
qed simp

lemma mk_invD:
  assumes "mk_inv s fs B"
  shows "space s (NMETA + blocks_of fs)" "img_ok (mk_img s)" "mk_sb s = mk_super" "length fs < NINODES" "length B = length fs"
    "\<And>i. i < length fs \<Longrightarrow> file_at s (NMETA + blocks_of fs) (i + 1) (fs ! i) (B ! i)"
    "\<And>i j. i < length fs \<Longrightarrow> j < length fs \<Longrightarrow> i \<noteq> j \<Longrightarrow>
       owned (fst (B ! i)) (snd (B ! i)) \<inter> owned (fst (B ! j)) (snd (B ! j)) = {}"
  using assms unfolding mk_inv_def space_def by blast+

lemma mk_inv_owned:
  assumes "mk_inv s fs B" and "i < length fs"
  shows "owned (fst (B ! i)) (snd (B ! i)) \<subseteq> {NMETA..<NMETA + blocks_of fs}"
  using mk_invD(6) [OF assms] unfolding file_at_def Let_def file_ok_def by blast

text \<open>The loop of \<open>iappend\<close> does not reach the inodes and the blocks of other files.\<close>

lemma extends_inodes:
  assumes "extends s fb din bl ind s' fb' din' bl' ind'" and "file_ok s fb din bl ind" and "NMETA \<le> fb"
  shows "n < 208 \<Longrightarrow> image_inode (mk_img s') n = image_inode (mk_img s) n" "mk_img s' ! 1 = mk_img s ! 1"
proof -
  have o: "mk_img s' ! b = mk_img s ! b" if "b < NMETA" for b
  proof -
    have "owned bl ind \<subseteq> {NMETA..<fb}" using assms(2) by (simp add: file_ok_def)
    then have "b \<notin> owned bl ind" using that by auto
    then show ?thesis using assms(1,3) that by (simp add: extends_def)
  qed
  have d: "2 + LOGSIZE + n div IPB < NMETA" if "n < 208"
    using that by simp
  show "n < 208 \<Longrightarrow> image_inode (mk_img s') n = image_inode (mk_img s) n"
    unfolding image_inode_def using o [OF d] by simp
  show "mk_img s' ! 1 = mk_img s ! 1" by (simp add: o)
qed

lemma mk_inv_update:
  assumes inv: "mk_inv s fs B" and i: "i < length fs" and fb': "fb' = NMETA + blocks_of (fs[i := f])" "NMETA + blocks_of fs \<le> fb'"
    and s': "space s' fb'" "mk_sb s' = mk_super" "mk_freeinode s' = mk_freeinode s" "mk_img s' ! 1 = mk_img s ! 1"
    and f: "file_at s' fb' (i + 1) f (bl, ind)"
    and own: "owned bl ind \<subseteq> owned (fst (B ! i)) (snd (B ! i)) \<union> {NMETA + blocks_of fs..<fb'}"
    and ino: "\<And>m. m < 208 \<Longrightarrow> m \<noteq> i + 1 \<Longrightarrow> image_inode (mk_img s') m = image_inode (mk_img s) m"
    and img: "\<And>b. NMETA \<le> b \<Longrightarrow> b < NMETA + blocks_of fs \<Longrightarrow> b \<notin> owned (fst (B ! i)) (snd (B ! i)) \<Longrightarrow>
      mk_img s' ! b = mk_img s ! b"
  shows "mk_inv s' (fs[i := f]) (B[i := (bl, ind)])"
proof -
  note D = mk_invD [OF inv] and O = mk_inv_owned [OF inv]
  let ?fs = "fs[i := f]" and ?B = "B[i := (bl, ind)]"
  have at: "file_at s' fb' (j + 1) (?fs ! j) (?B ! j)" if "j < length fs" for j
  proof (cases "j = i")
    case False
    have "file_at s' fb' (j + 1) (fs ! j) (B ! j)"
    proof (rule file_at_frame [OF D(6) [OF that] _ _ fb'(2)])
      show "image_inode (mk_img s') (j + 1) = image_inode (mk_img s) (j + 1)" using ino [of "j + 1"] that D(4) False by simp
      fix c assume "c \<in> owned (fst (B ! j)) (snd (B ! j))"
      then show "mk_img s' ! c = mk_img s ! c"
        using O [OF that] D(7) [OF that i False] by (intro img) auto
    qed
    then show ?thesis using False by simp
  qed (use f i D(5) in simp)
  have new: "owned bl ind \<inter> owned (fst (B ! j)) (snd (B ! j)) = {}" if "j < length fs" "j \<noteq> i" for j
    using own O [OF that(1)] D(7) [OF that(1) i that(2)] by fastforce
  have dis: "owned (fst (?B ! j)) (snd (?B ! j)) \<inter> owned (fst (?B ! k)) (snd (?B ! k)) = {}"
    if "j < length fs" "k < length fs" "j \<noteq> k" for j k
    using that new [of j] new [of k] D(5) D(7) [OF that] by (cases "j = i"; cases "k = i") (simp_all add: Int_commute)
  have b1: "mk_img s' ! 1 = put_words 0 (super_words mk_super) (replicate BSIZE 0)" "mk_freeinode s' = of_nat (length fs + 1)"
    using s'(3,4) inv by (simp_all add: mk_inv_def)
  show ?thesis unfolding mk_inv_def length_list_update fb'(1) [symmetric] using s'(1,2) D(4,5) at dis b1 by blast
qed

text \<open>The inode written back after the loop.\<close>

lemma winode_file:
  assumes s: "space s fb" "mk_sb s = mk_super" "n < 208" and f: "file_ok s fb din bl ind" "d_nlink din = 1"
    and c: "length c \<le> MAXFILE * BSIZE" "length bl = nblks (length c)" "blocks_bytes (mk_img s) bl (length c) = c"
  obtains img where "winode (of_nat n) (din\<lparr>d_size := of_nat (length c)\<rparr>) s = Ok (s\<lparr>mk_img := img\<rparr>)"
    and "space (s\<lparr>mk_img := img\<rparr>) fb" and "file_at (s\<lparr>mk_img := img\<rparr>) fb n (d_type din, c) (bl, ind)"
    and "\<And>m. m < 208 \<Longrightarrow> m \<noteq> n \<Longrightarrow> image_inode img m = image_inode (mk_img s) m"
    and "\<And>b. b < 32 \<or> 58 \<le> b \<Longrightarrow> img ! b = mk_img s ! b"
proof -
  let ?d = "din\<lparr>d_size := of_nat (length c)\<rparr>"
  have im: "img_ok (mk_img s)" and l: "length (d_addrs ?d) = NDIRECT + 1" and own: "owned bl ind \<subseteq> {NMETA..<fb}"
    using s(1) f(1) by (simp_all add: space_def file_ok_def frep_def)
  obtain img where w: "winode (of_nat n) ?d s = Ok (s\<lparr>mk_img := img\<rparr>)" "img_ok img" "image_inode img n = ?d"
      "\<And>m. m < 208 \<Longrightarrow> m \<noteq> n \<Longrightarrow> image_inode img m = image_inode (mk_img s) m"
      "\<And>b. b < 32 \<or> 58 \<le> b \<Longrightarrow> img ! b = mk_img s ! b"
    using winode_ok [OF im s(2,3) l] by metis
  let ?s = "s\<lparr>mk_img := img\<rparr>"
  have hi: "img ! b = mk_img s ! b" if "NMETA \<le> b" for b using w(5) that by simp
  have "space ?s fb" using s(1) w(2) hi by (simp add: space_def)
  moreover have "frep img ?d bl ind" using f(1) hi own by (auto simp: file_ok_def frep_def owned_def)
  moreover have "blocks_bytes img bl (length c) = blocks_bytes (mk_img s) bl (length c)"
    using own c(2) by (intro blocks_bytes_same hi) (auto simp: owned_def subset_iff)
  ultimately have "space ?s fb" "file_at ?s fb n (d_type din, c) (bl, ind)"
    using f w(3) c by (simp_all add: file_at_def file_ok_def Let_def)
  then show thesis using w by (intro that [of img]) blast+
qed

lemma extends_dinode:
  assumes "extends s fb din bl ind s' fb' din' bl' ind'"
  shows "d_type din' = d_type din" "d_nlink din' = d_nlink din"
  using assms unfolding extends_def by (metis dinode.select_convs dinode.surjective dinode.update_convs(6))+

lemma iappend_inv:
  assumes inv: "mk_inv s fs B" and i: "i < length fs" and c: "fs ! i = (t, c)"
    and len: "length c + length p \<le> MAXFILE * BSIZE" and room: "NMETA + blocks_of (fs[i := (t, c @ p)]) \<le> FSSIZE"
  shows "\<exists>s' B'. iappend (of_nat (i + 1)) p s = Ok s' \<and> mk_inv s' (fs[i := (t, c @ p)]) B'"
proof -
  let ?n = "i + 1" and ?fb = "NMETA + blocks_of fs" and ?fs = "fs[i := (t, c @ p)]" and ?c = "c @ p"
  define bl ind where "bl = fst (B ! i)" and "ind = snd (B ! i)"
  define din where "din = image_inode (mk_img s) ?n"
  note inv' = mk_invD [OF inv]
  have n: "?n < 208" using inv'(4) i by simp
  have "file_at s ?fb ?n (t, c) (B ! i)" using inv'(6) [OF i] c by simp
  then have f: "file_ok s ?fb din bl ind" "length bl = nblks (length c)" "blocks_bytes (mk_img s) bl (length c) = c"
      "d_size din = of_nat (length c)" "d_type din = t" "d_nlink din = 1"
    by (simp_all add: file_at_def Let_def din_def bl_def ind_def)
  have cost: "blocks_of ?fs + cost_upto (length bl) = blocks_of fs + cost_upto (nblks (length c + length p))"
    using blocks_of_update [OF i, of "(t, ?c)"] c f(2) by simp
  then have "?fb + cost_upto (nblks (length c + length p)) \<le> FSSIZE + cost_upto (length bl)" using room by simp
  from iappend_loop_ok [OF inv'(1) f(1,2) len this] f(3)
  obtain din' s1 fb' bl' ind' where lp: "iappend_loop din (of_nat (length c)) p s = Ok (din', of_nat (length c + length p), s1)"
      and e: "extends s ?fb din bl ind s1 fb' din' bl' ind'" and b: "length bl' = nblks (length ?c)"
      "blocks_bytes (mk_img s1) bl' (length ?c) = ?c" by auto
  have e': "space s1 fb'" "file_ok s1 fb' din' bl' ind'" "mk_sb s1 = mk_super" "mk_freeinode s1 = mk_freeinode s" "?fb \<le> fb'"
    and d': "d_nlink din' = 1" "d_type din' = t" and l: "length ?c \<le> MAXFILE * BSIZE"
    using e f(5,6) inv'(3) extends_dinode [OF e] len by (simp_all add: extends_def)
  have fb': "fb' = NMETA + blocks_of ?fs" using e cost b(1) by (simp add: extends_def)
  obtain img where w: "winode (of_nat ?n) (din'\<lparr>d_size := of_nat (length ?c)\<rparr>) s1 = Ok (s1\<lparr>mk_img := img\<rparr>)"
      "space (s1\<lparr>mk_img := img\<rparr>) fb'" "file_at (s1\<lparr>mk_img := img\<rparr>) fb' ?n (d_type din', ?c) (bl', ind')"
      "\<And>m. m < 208 \<Longrightarrow> m \<noteq> ?n \<Longrightarrow> image_inode img m = image_inode (mk_img s1) m"
      "\<And>b. b < 32 \<or> 58 \<le> b \<Longrightarrow> img ! b = mk_img s1 ! b"
    using winode_file [OF e'(1,3) n e'(2) d'(1) l b] by metis
  have "rinode (of_nat ?n) s = Ok din" unfolding din_def by (rule rinode_ok [OF inv'(2,3) n])
  then have "iappend (of_nat ?n) p s = Ok (s1\<lparr>mk_img := img\<rparr>)" using lp f(4) w(1) by (simp add: iappend_def)
  moreover have "mk_inv (s1\<lparr>mk_img := img\<rparr>) ?fs (B[i := (bl', ind')])"
    using e e'(3,4) d'(2) w extends_inodes [OF e f(1)]
    by (intro mk_inv_update [OF inv i fb' e'(5)]) (simp_all add: extends_def bl_def ind_def)
  ultimately show ?thesis by blast
qed

lemma blocks_of_simps [simp]:
  "blocks_of [] = 0" "blocks_of (f # fs) = cost_upto (nblks (length (snd f))) + blocks_of fs"
  "blocks_of (fs @ gs) = blocks_of fs + blocks_of gs"
  by (simp_all add: blocks_of_def)

lemma nblks_0 [simp]: "nblks 0 = 0" "cost_upto 0 = 0"
  by (simp_all add: nblks_def cost_upto_def)

lemma blocks_of_cost_mono: "m \<le> n \<Longrightarrow> cost_upto (nblks m) \<le> cost_upto (nblks n)"
  by (intro cost_upto_mono nblks_mono)

lemma mk_ialloc_inv:
  assumes inv: "mk_inv s fs B" and l: "length fs + 1 < NINODES"
  shows "\<exists>s'. mk_ialloc t s = Ok (of_nat (length fs + 1), s') \<and> mk_inv s' (fs @ [(t, [])]) (B @ [([], None)])"
proof -
  note D = mk_invD [OF inv]
  let ?n = "length fs + 1" and ?fb = "NMETA + blocks_of fs"
  let ?d = "\<lparr>d_type = t, d_major = 0, d_minor = 0, d_nlink = 1, d_size = 0, d_addrs = replicate (NDIRECT + 1) 0\<rparr>"
  let ?s = "s\<lparr>mk_freeinode := of_nat (length fs + 2)\<rparr>"
  have n: "?n < 208" using l by simp
  have s: "img_ok (mk_img ?s)" "mk_sb ?s = mk_super" "length (d_addrs ?d) = NDIRECT + 1" using D by simp_all
  obtain img where w: "winode (of_nat ?n) ?d ?s = Ok (?s\<lparr>mk_img := img\<rparr>)" "img_ok img" "image_inode img ?n = ?d"
      "\<And>m. m < 208 \<Longrightarrow> m \<noteq> ?n \<Longrightarrow> image_inode img m = image_inode (mk_img ?s) m"
      "\<And>b. b < 32 \<or> 58 \<le> b \<Longrightarrow> img ! b = mk_img ?s ! b"
    using winode_ok [OF s(1,2) n s(3)] by metis
  let ?s' = "?s\<lparr>mk_img := img\<rparr>"
  have hi: "img ! b = mk_img s ! b" if "NMETA \<le> b" for b using w(5) that by simp
  have old: "file_at ?s' ?fb (j + 1) (fs ! j) (B ! j)" if "j < length fs" for j
  proof (rule file_at_frame [OF D(6) [OF that]])
    show "image_inode (mk_img ?s') (j + 1) = image_inode (mk_img s) (j + 1)" using w(4) [of "j + 1"] that D(4) by simp
    show "mk_img ?s' ! c = mk_img s ! c" if "c \<in> owned (fst (B ! j)) (snd (B ! j))" for c
      using mk_inv_owned [OF inv \<open>j < length fs\<close>] that by (simp add: hi subset_iff)
  qed simp
  have new: "file_at ?s' ?fb ?n (t, []) ([], None)"
    using w(3) by (simp add: file_at_def file_ok_def frep_def owned_def blocks_bytes_def)
  have at: "file_at ?s' ?fb (j + 1) ((fs @ [(t, [])]) ! j) ((B @ [([], None)]) ! j)" if "j < length fs + 1" for j
    using old [of j] new that D(5) by (cases "j = length fs") (simp_all add: nth_append)
  have dis: "owned (fst ((B @ [([], None)]) ! j)) (snd ((B @ [([], None)]) ! j)) \<inter>
      owned (fst ((B @ [([], None)]) ! k)) (snd ((B @ [([], None)]) ! k)) = {}"
    if "j < length fs + 1" "k < length fs + 1" "j \<noteq> k" for j k
    using that D(5) D(7) [of j k] by (auto simp: nth_append owned_def)
  have "space ?s' ?fb" using D(1) w(2) hi by (simp add: space_def)
  moreover have "img ! 1 = mk_img s ! 1" using w(5) by simp
  ultimately have "mk_inv ?s' (fs @ [(t, [])]) (B @ [([], None)])"
    using at dis inv l D(5) by (simp add: mk_inv_def)
  moreover have "mk_ialloc t s = Ok (of_nat ?n, ?s')"
    using w(1) inv by (simp add: mk_ialloc_def mk_inv_def Let_def add.commute)
  ultimately show ?thesis by blast
qed

lemma mk_copy_inv:
  assumes "mk_inv s fs B" and "i < length fs" and "fs ! i = (t, c)" and "[] \<notin> set bufs"
    and "length c + length (concat bufs) \<le> MAXFILE * BSIZE" and "NMETA + blocks_of (fs[i := (t, c @ concat bufs)]) \<le> FSSIZE"
  shows "\<exists>s' B'. mk_copy (of_nat (i + 1)) bufs s = Ok s' \<and> mk_inv s' (fs[i := (t, c @ concat bufs)]) B'"
  using assms
proof (induction bufs arbitrary: s fs B c)
  case Nil
  then have "fs[i := (t, c)] = fs" by (metis list_update_id)
  then show ?case using Nil by auto
next
  case (Cons p bufs)
  let ?fs = "fs[i := (t, c @ p)]"
  have "cost_upto (nblks (length (c @ p))) \<le> cost_upto (nblks (length (c @ concat (p # bufs))))"
    by (intro blocks_of_cost_mono) simp
  then have r: "NMETA + blocks_of ?fs \<le> FSSIZE"
    using Cons.prems(6) blocks_of_update [OF Cons.prems(2), of "(t, c @ p)"]
      blocks_of_update [OF Cons.prems(2), of "(t, c @ concat (p # bufs))"] by simp
  then obtain s1 B1 where a: "iappend (of_nat (i + 1)) p s = Ok s1" "mk_inv s1 ?fs B1"
    using iappend_inv [OF Cons.prems(1-3), of p] Cons.prems(5) by auto
  have "\<exists>s' B'. mk_copy (of_nat (i + 1)) bufs s1 = Ok s' \<and> mk_inv s' (?fs[i := (t, (c @ p) @ concat bufs)]) B'"
    using Cons.prems by (intro Cons.IH [OF a(2)]) simp_all
  then show ?case using a(1) Cons.prems(4) by auto
qed

section \<open>The files of the command line\<close>

text \<open>A file that goes into the image, its contents, and the entries of the root directory for a list of files.\<close>

definition host_ok :: "host_file \<Rightarrow> bool" where
  "host_ok f \<longleftrightarrow> 0x2f \<notin> set (fst f) \<and>
     (case snd f of None \<Rightarrow> False | Some bufs \<Rightarrow> [] \<notin> set bufs \<and> length (concat bufs) \<le> MAXFILE * BSIZE)"

definition host_data :: "host_file \<Rightarrow> uchar list" where
  "host_data f = (case snd f of None \<Rightarrow> [] | Some bufs \<Rightarrow> concat bufs)"

primrec root_entries :: "nat \<Rightarrow> host_file list \<Rightarrow> uchar list" where
  "root_entries n [] = []"
| "root_entries n (f # fl) = mk_entry (of_nat n) (skip_underscore (fst f)) @ root_entries (n + 1) fl"

lemma length_mk_entry [simp]: "length (mk_entry n name) = 16"
  by (simp add: mk_entry_def dirent_bytes_def)

lemma length_root_entries [simp]: "length (root_entries n fl) = 16 * length fl"
  by (induction fl arbitrary: n) simp_all

lemma mk_file_inv:
  assumes inv: "mk_inv s ((T_DIR, r) # os) B" and f: "host_ok (name, Some bufs)" and l: "length os + 2 < NINODES"
    and e: "length e = 16" "length r + 16 \<le> MAXFILE * BSIZE"
    and room: "NMETA + blocks_of ((T_DIR, r @ e) # os @ [(T_FILE, concat bufs)]) \<le> FSSIZE"
  shows "\<exists>s1 s2 s3 B'. mk_ialloc T_FILE s = Ok (of_nat (length os + 2), s1) \<and> iappend ROOTINO e s1 = Ok s2 \<and>
    mk_copy (of_nat (length os + 2)) bufs s2 = Ok s3 \<and> mk_inv s3 ((T_DIR, r @ e) # os @ [(T_FILE, concat bufs)]) B'"
proof -
  let ?n = "length os + 2"
  let ?f1 = "(T_DIR, r) # os @ [(T_FILE, [])]" let ?f2 = "(T_DIR, r @ e) # os @ [(T_FILE, [])]"
  let ?f3 = "(T_DIR, r @ e) # os @ [(T_FILE, concat bufs)]"
  obtain s1 where s1: "mk_ialloc T_FILE s = Ok (of_nat ?n, s1)" "mk_inv s1 ?f1 (B @ [([], None)])"
    using mk_ialloc_inv [OF inv, of T_FILE] l by (auto simp: algebra_simps)
  have b: "[] \<notin> set bufs" "length (concat bufs) \<le> MAXFILE * BSIZE" using f by (simp_all add: host_ok_def)
  have "?f1[0 := (T_DIR, r @ e)] = ?f2" by simp
  moreover have "NMETA + blocks_of ?f2 \<le> FSSIZE" using room by simp
  ultimately obtain s2 B2 where s2: "iappend (of_nat (0 + 1)) e s1 = Ok s2" "mk_inv s2 ?f2 B2"
    using iappend_inv [OF s1(2), of 0 T_DIR r e] e by auto
  have "?f2 ! (length os + 1) = (T_FILE, [])" "?f2[length os + 1 := (T_FILE, [] @ concat bufs)] = ?f3"
    by (simp_all add: nth_append list_update_append)
  then obtain s3 B3 where "mk_copy (of_nat (length os + 1 + 1)) bufs s2 = Ok s3" "mk_inv s3 ?f3 B3"
    using mk_copy_inv [OF s2(2), of "length os + 1" T_FILE "[]" bufs] b room by auto
  moreover have "length os + 1 + 1 = ?n" by simp
  ultimately show ?thesis using s1(1) s2(1) by (metis add_0 of_nat_1)
qed

lemma mk_files_inv:
  assumes "mk_inv s ((T_DIR, r) # os) B" and "list_all host_ok fl" and "length os + length fl + 1 < NINODES"
    and "length r + 16 * length fl \<le> MAXFILE * BSIZE"
    and "NMETA + blocks_of ((T_DIR, r @ root_entries (length os + 2) fl) # os @ map (\<lambda>f. (T_FILE, host_data f)) fl) \<le> FSSIZE"
  shows "\<exists>s' B'. mk_files ROOTINO fl s = Ok s' \<and>
    mk_inv s' ((T_DIR, r @ root_entries (length os + 2) fl) # os @ map (\<lambda>f. (T_FILE, host_data f)) fl) B'"
  using assms
proof (induction fl arbitrary: s r os B)
  case (Cons f fl)
  obtain name bufs where f: "f = (name, Some bufs)" "0x2f \<notin> set name" "host_ok (name, Some bufs)"
    using Cons.prems(2) by (cases f) (auto simp: host_ok_def split: option.splits)
  let ?e = "mk_entry (of_nat (length os + 2)) (skip_underscore name)" and ?f = "(T_FILE, concat bufs)"
  have fd: "host_data f = concat bufs" using f(1) by (simp add: host_data_def)
  have "cost_upto (nblks (length (r @ ?e))) \<le> cost_upto (nblks (length (r @ root_entries (length os + 2) (f # fl))))"
    by (intro blocks_of_cost_mono) simp
  then have room: "NMETA + blocks_of ((T_DIR, r @ ?e) # os @ [?f]) \<le> FSSIZE" using Cons.prems(5) fd by simp
  have "\<exists>s1 s2 s3 B'. mk_ialloc T_FILE s = Ok (of_nat (length os + 2), s1) \<and> iappend ROOTINO ?e s1 = Ok s2 \<and>
      mk_copy (of_nat (length os + 2)) bufs s2 = Ok s3 \<and> mk_inv s3 ((T_DIR, r @ ?e) # os @ [?f]) B'"
    using Cons.prems(3,4) by (intro mk_file_inv [OF Cons.prems(1) f(3) _ _ _ room]) simp_all
  then obtain s1 s2 s3 B' where t: "mk_ialloc T_FILE s = Ok (of_nat (length os + 2), s1)" "iappend ROOTINO ?e s1 = Ok s2"
      "mk_copy (of_nat (length os + 2)) bufs s2 = Ok s3" "mk_inv s3 ((T_DIR, r @ ?e) # os @ [?f]) B'" by blast
  let ?fs = "(T_DIR, (r @ ?e) @ root_entries (length (os @ [?f]) + 2) fl) # (os @ [?f]) @ map (\<lambda>f. (T_FILE, host_data f)) fl"
  have eq: "?fs = (T_DIR, r @ root_entries (length os + 2) (f # fl)) # os @ map (\<lambda>f. (T_FILE, host_data f)) (f # fl)"
    using f(1) fd by simp
  have "\<exists>s' B'. mk_files ROOTINO fl s3 = Ok s' \<and> mk_inv s' ?fs B'"
    using Cons.prems(2-4) Cons.prems(5) [folded eq] by (intro Cons.IH [OF t(4)]) simp_all
  then show ?case unfolding eq using f t(1-3) by simp
qed auto

section \<open>The image\<close>

lemma layout_loop:
  assumes "mk_img s = []" and "n \<le> FSSIZE"
  shows "fold (\<lambda>i. wsect (of_nat i) (replicate BSIZE 0)) [0..<n] s = s\<lparr>mk_img := replicate n (replicate BSIZE 0)\<rparr>"
  using assms(2)
proof (induction n)
  case (Suc n)
  then show ?case by (simp add: wsect_def sect_pos_small Let_def replicate_append_same)
qed (use assms(1) in simp)

lemma layout_inv: "mk_inv mkfs_layout [] []"
proof -
  let ?z = "replicate BSIZE 0" and ?b = "put_words 0 (super_words mk_super) (replicate BSIZE 0)"
  let ?s = "\<lparr>mk_img = replicate FSSIZE ?z, mk_sb = mk_super, mk_freeinode = 1, mk_freeblock = of_nat NMETA\<rparr>"
  have im: "img_ok (mk_img ?s)" by (simp add: img_ok_def del: replicate_Suc)
  have "wsect (of_nat 1) ?b ?s = ?s\<lparr>mk_img := (mk_img ?s)[1 := ?b]\<rparr>" by (rule wsect_ok [OF im]) simp
  then have l: "mkfs_layout = ?s\<lparr>mk_img := (mk_img ?s)[1 := ?b]\<rparr>"
    by (simp add: mkfs_layout_def layout_loop ninodeblocks_def nbitmap_def Let_def del: upt_Suc replicate_Suc)
  have "length ?b = BSIZE" by (simp add: length_put_words super_words_def)
  then have "img_ok ((mk_img ?s)[1 := ?b])" by (rule img_ok_upd [OF im])
  then show ?thesis by (simp add: l mk_inv_def space_def)
qed

lemma super_read: "sb_of (put_words 0 (super_words sb) (replicate BSIZE 0)) = sb"
proof -
  have g: "get32 (put_words 0 (super_words sb) (replicate BSIZE 0)) (4 * i) = super_words sb ! i" if "i < 7" for i
    using get_put_words [of 0 "super_words sb" "replicate BSIZE 0" i] that by (simp add: super_words_def)
  show ?thesis using g [of 0] g [of 1] g [of 2] g [of 3] g [of 4] g [of 5] g [of 6]
    by (cases sb) (simp add: sb_of_def super_words_def)
qed

lemma bitmap_bits:
  assumes "n \<le> BPB" and "k < BPB"
  shows "bit (fold set_bit_in [0..<n] (replicate BSIZE 0) ! (k div 8)) (k mod 8) \<longleftrightarrow> k < n"
    "length (fold set_bit_in [0..<n] (replicate BSIZE 0)) = BSIZE"
  using assms(1)
proof (induction n)
  case (Suc n)
  { case 1 then show ?case using Suc bit_set_bit_in [of "fold set_bit_in [0..<n] (replicate BSIZE 0)" n k] assms(2) by auto }
  { case 2 then show ?case using Suc by simp }
qed (use assms(2) in simp_all)

text \<open>
  What a reader of the image finds for an inode: the block behind block \<open>k\<close> of the file, and the bytes of
  the file, by the rules of \<open>bmap\<close>.
\<close>

definition image_block :: "uchar list list \<Rightarrow> dinode \<Rightarrow> nat \<Rightarrow> nat" where
  "image_block img d k =
     unat (if k < NDIRECT then d_addrs d ! k else get32 (img ! unat (d_addrs d ! NDIRECT)) (4 * (k - NDIRECT)))"

definition image_bytes :: "uchar list list \<Rightarrow> dinode \<Rightarrow> nat \<Rightarrow> uchar list" where
  "image_bytes img d n = map (\<lambda>i. img ! image_block img d (i div BSIZE) ! (i mod BSIZE)) [0..<n]"

definition image_file :: "uchar list list \<Rightarrow> nat \<Rightarrow> nat \<Rightarrow> ushort \<Rightarrow> uchar list \<Rightarrow> bool" where
  "image_file img hi n t data \<longleftrightarrow>
     (let d = image_inode img n in d_type d = t \<and> d_nlink d = 1 \<and> image_bytes img d (length data) = data \<and>
      (\<forall>k < nblks (length data). NMETA \<le> image_block img d k \<and> image_block img d k < hi))"

lemma image_block_ok:
  assumes f: "file_ok s fb d bl ind" and k: "k < length bl" and fb: "fb \<le> FSSIZE"
  shows "image_block (mk_img s) d k = bl ! k"
proof -
  have b: "unat (of_nat (bl ! k) :: uint) = bl ! k" using file_ok_block(2) [OF f k] fb by (intro unat_small) simp
  note d = f [unfolded file_ok_def frep_def]
  show ?thesis
  proof (cases "k < NDIRECT")
    case True
    then show ?thesis using d k b by (simp add: image_block_def)
  next
    case False
    then obtain i where i: "ind = Some i" using d k by (cases ind) auto
    have "unat (of_nat i :: uint) = i" using file_ok_ind(2) [OF f i] fb by (intro unat_small) simp
    moreover have "get32 (mk_img s ! i) (4 * (k - 12)) = of_nat (bl ! k)" using d i False k by auto
    ultimately show ?thesis using d i False b by (simp add: image_block_def)
  qed
qed

lemma image_file_ok:
  assumes f: "file_ok s fb (image_inode (mk_img s) n) bl ind" and fb: "fb \<le> FSSIZE" and l: "length bl = nblks (length data)"
    and b: "blocks_bytes (mk_img s) bl (length data) = data"
    and d: "d_type (image_inode (mk_img s) n) = t" "d_nlink (image_inode (mk_img s) n) = 1"
  shows "image_file (mk_img s) fb n t data"
proof -
  have k: "image_block (mk_img s) (image_inode (mk_img s) n) k = bl ! k" if "k < nblks (length data)" for k
    using image_block_ok [OF f _ fb] that l by simp
  have "image_bytes (mk_img s) (image_inode (mk_img s) n) (length data) = blocks_bytes (mk_img s) bl (length data)"
    using k div_nblks by (simp add: image_bytes_def blocks_bytes_def)
  then show ?thesis using b d k file_ok_block [OF f] l by (simp add: image_file_def)
qed

lemma mk_balloc_ok:
  assumes im: "img_ok (mk_img s)" and sb: "mk_sb s = mk_super" and n: "n \<le> FSSIZE"
  shows "mk_balloc (of_nat n) s = Ok (s\<lparr>mk_img := (mk_img s)[58 := fold set_bit_in [0..<n] (replicate BSIZE 0)]\<rparr>)"
proof -
  have "sint (of_nat n :: uint) = int n"
    using n by (simp add: sint_uint uint_nat unat_small signed_take_bit_int_eq_self)
  moreover have "wsect (of_nat 58) b s = s\<lparr>mk_img := (mk_img s)[58 := b]\<rparr>" for b by (rule wsect_ok [OF im]) simp
  ultimately show ?thesis using n sb by (simp add: mk_balloc_def mk_super_starts Let_def)
qed

lemma root_size:
  assumes "n \<le> MAXFILE * BSIZE"
  shows "(of_nat n div 512 + 1) * 512 = (of_nat ((n div 512 + 1) * 512) :: uint)"
  using assms by (simp add: word_div_512)

lemma mk_finish_image:
  assumes inv: "mk_inv s ((T_DIR, r) # os) B"
  obtains t where "mk_finish ROOTINO s = Ok t" and "img_ok (mk_img t)"
    and "image_inode (mk_img t) 1 = (image_inode (mk_img s) 1)\<lparr>d_size := of_nat ((length r div BSIZE + 1) * BSIZE)\<rparr>"
    and "\<And>m. m < 208 \<Longrightarrow> m \<noteq> 1 \<Longrightarrow> image_inode (mk_img t) m = image_inode (mk_img s) m"
    and "\<And>b. b < 32 \<or> NMETA \<le> b \<Longrightarrow> mk_img t ! b = mk_img s ! b"
    and "mk_img t ! 58 = fold set_bit_in [0..<NMETA + blocks_of ((T_DIR, r) # os)] (replicate BSIZE 0)"
proof -
  let ?hi = "NMETA + blocks_of ((T_DIR, r) # os)" and ?din = "image_inode (mk_img s) 1"
  note D = mk_invD [OF inv]
  have hi: "?hi \<le> FSSIZE" "mk_freeblock s = of_nat ?hi" using D(1) unfolding space_def by blast+
  have root: "file_at s ?hi 1 (T_DIR, r) (B ! 0)" using D(6) [of 0] by simp
  then have r: "d_size ?din = of_nat (length r)" "length r \<le> MAXFILE * BSIZE"
    by (simp_all add: file_at_def Let_def)
  let ?d = "?din\<lparr>d_size := of_nat ((length r div BSIZE + 1) * BSIZE)\<rparr>"
  have l: "length (d_addrs ?d) = NDIRECT + 1" using root by (simp add: file_at_def file_ok_def frep_def Let_def)
  have one: "(1 :: nat) < 208" by simp
  obtain img where w: "winode (of_nat 1) ?d s = Ok (s\<lparr>mk_img := img\<rparr>)" "img_ok img" "image_inode img 1 = ?d"
      "\<And>m. m < 208 \<Longrightarrow> m \<noteq> 1 \<Longrightarrow> image_inode img m = image_inode (mk_img s) m"
      "\<And>b. b < 32 \<or> 58 \<le> b \<Longrightarrow> img ! b = mk_img s ! b"
    by (rule winode_ok [OF D(2,3) one l]) blast
  let ?m = "fold set_bit_in [0..<?hi] (replicate BSIZE 0)" let ?t = "s\<lparr>mk_img := img[58 := ?m]\<rparr>"
  have bal: "mk_balloc (mk_freeblock (s\<lparr>mk_img := img\<rparr>)) (s\<lparr>mk_img := img\<rparr>) = Ok ?t"
    using mk_balloc_ok [of "s\<lparr>mk_img := img\<rparr>", OF _ _ hi(1)] w(2) D(3) hi(2) by simp
  have rd: "rinode ROOTINO s = Ok ?din" using rinode_ok [OF D(2,3) one] by (simp only: of_nat_1)
  have sz: "(d_size ?din div of_nat BSIZE + 1) * of_nat BSIZE = of_nat ((length r div BSIZE + 1) * BSIZE)"
    unfolding r(1) of_nat_numeral by (rule root_size [OF r(2)])
  have "mk_finish ROOTINO s = Ok ?t"
    using w(1) unfolding mk_finish_def by (simp only: rd sz bal of_nat_1 andthen.simps Let_def xint_id)
  moreover have "length ?m = BSIZE" using hi(1) by (intro bitmap_bits(2) [of _ 0]) simp_all
  then have "img_ok (mk_img ?t)" using img_ok_upd [OF w(2)] by simp
  moreover have i: "image_inode (mk_img ?t) m = image_inode img m" if "m < 208" for m
  proof -
    have "2 + LOGSIZE + m div IPB \<noteq> 58" using that by (simp add: div_less_iff_less_mult nat_neq_iff)
    then show ?thesis by (simp add: image_inode_def)
  qed
  moreover have "mk_img ?t ! 58 = ?m" using w(2) by (simp add: img_ok_def)
  moreover have "mk_img ?t ! b = mk_img s ! b" if "b < 32 \<or> NMETA \<le> b" for b
  proof -
    have "b \<noteq> 58" "b < 32 \<or> 58 \<le> b" using that by auto
    then show ?thesis using w(5) by simp
  qed
  ultimately show thesis using w(3,4) one by (intro that [of ?t]) simp_all
qed

lemma mk_finish_ok:
  assumes inv: "mk_inv s ((T_DIR, r) # os) B"
  defines "hi \<equiv> NMETA + blocks_of ((T_DIR, r) # os)"
  shows "\<exists>t. mk_finish ROOTINO s = Ok t \<and> length (mk_img t) = FSSIZE \<and> sb_of (mk_img t ! 1) = mk_super \<and>
    image_file (mk_img t) hi 1 T_DIR r \<and> d_size (image_inode (mk_img t) 1) = of_nat ((length r div BSIZE + 1) * BSIZE) \<and>
    (\<forall>k < length os. image_file (mk_img t) hi (k + 2) (fst (os ! k)) (snd (os ! k)) \<and>
       d_size (image_inode (mk_img t) (k + 2)) = of_nat (length (snd (os ! k)))) \<and>
    (\<forall>b < FSSIZE. bit (mk_img t ! 58 ! (b div 8)) (b mod 8) \<longleftrightarrow> b < hi)"
proof -
  note D = mk_invD [OF inv, folded hi_def] and O = mk_inv_owned [OF inv, folded hi_def]
  have hi: "hi \<le> FSSIZE" using D(1) by (simp add: space_def)
  obtain t where t: "mk_finish ROOTINO s = Ok t" "img_ok (mk_img t)"
      "image_inode (mk_img t) 1 = (image_inode (mk_img s) 1)\<lparr>d_size := of_nat ((length r div BSIZE + 1) * BSIZE)\<rparr>"
      "\<And>m. m < 208 \<Longrightarrow> m \<noteq> 1 \<Longrightarrow> image_inode (mk_img t) m = image_inode (mk_img s) m"
      "\<And>b. b < 32 \<or> NMETA \<le> b \<Longrightarrow> mk_img t ! b = mk_img s ! b"
      "mk_img t ! 58 = fold set_bit_in [0..<hi] (replicate BSIZE 0)"
    using mk_finish_image [OF inv, folded hi_def] by blast
  have own: "mk_img t ! c = mk_img s ! c" if "i < Suc (length os)" "c \<in> owned (fst (B ! i)) (snd (B ! i))" for i c
    using O [of i] that by (intro t(5)) auto
  have root: "file_at s hi 1 (T_DIR, r) (B ! 0)" using D(6) [of 0] by simp
  have "file_ok t hi (image_inode (mk_img t) 1) (fst (B ! 0)) (snd (B ! 0))"
    using root own [of 0] unfolding t(3) by (auto simp: file_at_def file_ok_def frep_def owned_def Let_def)
  moreover have "blocks_bytes (mk_img t) (fst (B ! 0)) (length r) = blocks_bytes (mk_img s) (fst (B ! 0)) (length r)"
    using root own [of 0] by (intro blocks_bytes_same) (simp add: file_at_def owned_def Let_def)
  ultimately have r: "image_file (mk_img t) hi 1 T_DIR r"
    using root hi t(3) by (intro image_file_ok) (simp_all add: file_at_def Let_def)
  have f: "image_file (mk_img t) hi (k + 2) (fst (os ! k)) (snd (os ! k)) \<and>
      d_size (image_inode (mk_img t) (k + 2)) = of_nat (length (snd (os ! k)))" if k: "k < length os" for k
  proof -
    have i: "k + 2 < 208" "k + 1 < Suc (length os)" using k D(4) by simp_all
    have "file_at s hi (k + 1 + 1) (((T_DIR, r) # os) ! (k + 1)) (B ! (k + 1))" using i(2) by (intro D(6)) simp
    then have "file_at s hi (k + 2) (os ! k) (B ! (k + 1))" by simp
    then have "file_at t hi (k + 2) (os ! k) (B ! (k + 1))"
      by (rule file_at_frame) (rule t(4) [OF i(1)], simp, erule own [OF i(2)], simp)
    then show ?thesis unfolding file_at_def Let_def using image_file_ok [OF _ hi] by blast
  qed
  have "sb_of (mk_img t ! 1) = mk_super" using t(5) [of 1] inv super_read by (simp add: mk_inv_def)
  then show ?thesis using t(1-3,6) r f hi by (auto simp: img_ok_def bitmap_bits(1))
qed

section \<open>Properties\<close>

definition root_bytes :: "host_file list \<Rightarrow> uchar list" where
  "root_bytes fl = mk_entry ROOTINO [0x2e] @ mk_entry ROOTINO [0x2e, 0x2e] @ root_entries 2 fl"

definition mkfs_blocks :: "host_file list \<Rightarrow> nat" where
  "mkfs_blocks fl = cost_upto (nblks (16 * (length fl + 2))) +
     sum_list (map (\<lambda>f. cost_upto (nblks (length (host_data f)))) fl)"

lemma root_start:
  "\<exists>s1 s2 s3 B. mk_ialloc T_DIR mkfs_layout = Ok (ROOTINO, s1) \<and> iappend ROOTINO (mk_entry ROOTINO [0x2e]) s1 = Ok s2 \<and>
     iappend ROOTINO (mk_entry ROOTINO [0x2e, 0x2e]) s2 = Ok s3 \<and>
     mk_inv s3 [(T_DIR, mk_entry ROOTINO [0x2e] @ mk_entry ROOTINO [0x2e, 0x2e])] B"
proof -
  let ?a = "mk_entry ROOTINO [0x2e]" and ?b = "mk_entry ROOTINO [0x2e, 0x2e]"
  obtain s1 where s1: "mk_ialloc T_DIR mkfs_layout = Ok (ROOTINO, s1)" "mk_inv s1 [(T_DIR, [])] [([], None)]"
    using mk_ialloc_inv [OF layout_inv, of T_DIR] by auto
  have c: "cost_upto (nblks 16) = 1" "cost_upto (nblks 32) = 1" by (simp_all add: nblks_def cost_upto_def)
  obtain s2 B2 where s2: "iappend (of_nat (0 + 1)) ?a s1 = Ok s2" "mk_inv s2 [(T_DIR, ?a)] B2"
    using iappend_inv [OF s1(2), of 0 T_DIR "[]" ?a] c by auto
  obtain s3 B3 where "iappend (of_nat (0 + 1)) ?b s2 = Ok s3" "mk_inv s3 [(T_DIR, ?a @ ?b)] B3"
    using iappend_inv [OF s2(2), of 0 T_DIR ?a ?b] c by auto
  then show ?thesis using s1(1) s2(1) by (metis add_0 of_nat_1)
qed

text \<open>C37: mkfs builds the file system it is asked for. For files that can be opened, have no slash in their names and fit
  (198 files at most, 140 blocks each, all blocks within the image), mkfs ends without a failed assertion and leaves an
  image of 1000 blocks with the super block it computed; the root directory holds the entries for itself, its parent and
  every file, in order, with its size rounded up to the next block; inode k + 2 is a file with exactly the bytes of file
  k, through direct and indirect blocks; and the free map marks exactly the blocks below the first free one, with the
  blocks of every file among them.\<close>

theorem mkfs_image:
  assumes "list_all host_ok fl" and "length fl + 1 < NINODES" and "NMETA + mkfs_blocks fl \<le> FSSIZE"
  shows "\<exists>s. mkfs_main fl = Ok s \<and> length (mk_img s) = FSSIZE \<and> sb_of (mk_img s ! 1) = mk_super \<and>
    image_file (mk_img s) (NMETA + mkfs_blocks fl) 1 T_DIR (root_bytes fl) \<and>
    d_size (image_inode (mk_img s) 1) = of_nat ((16 * (length fl + 2) div BSIZE + 1) * BSIZE) \<and>
    (\<forall>k < length fl. image_file (mk_img s) (NMETA + mkfs_blocks fl) (k + 2) T_FILE (host_data (fl ! k)) \<and>
       d_size (image_inode (mk_img s) (k + 2)) = of_nat (length (host_data (fl ! k)))) \<and>
    (\<forall>b < FSSIZE. bit (mk_img s ! 58 ! (b div 8)) (b mod 8) \<longleftrightarrow> b < NMETA + mkfs_blocks fl)"
proof -
  let ?ab = "mk_entry ROOTINO [0x2e] @ mk_entry ROOTINO [0x2e, 0x2e]" and ?os = "map (\<lambda>f. (T_FILE, host_data f)) fl"
  obtain s1 s2 s3 B where s: "mk_ialloc T_DIR mkfs_layout = Ok (ROOTINO, s1)"
      "iappend ROOTINO (mk_entry ROOTINO [0x2e]) s1 = Ok s2" "iappend ROOTINO (mk_entry ROOTINO [0x2e, 0x2e]) s2 = Ok s3"
      "mk_inv s3 [(T_DIR, ?ab)] B"
    using root_start by blast
  have l: "length (root_bytes fl) = 16 * (length fl + 2)" by (simp add: root_bytes_def)
  then have n: "blocks_of ((T_DIR, root_bytes fl) # ?os) = mkfs_blocks fl"
    by (simp add: mkfs_blocks_def blocks_of_def comp_def)
  have r: "?ab @ root_entries (length ([] :: (ushort \<times> uchar list) list) + 2) fl = root_bytes fl" by (simp add: root_bytes_def numeral_2_eq_2)
  have "\<exists>s' B'. mk_files ROOTINO fl s3 = Ok s' \<and> mk_inv s' ((T_DIR, ?ab @ root_entries (length ([] :: (ushort \<times> uchar list) list) + 2) fl) # [] @ ?os) B'"
    using assms(1,2) assms(3) [folded n] r by (intro mk_files_inv [OF s(4)]) simp_all
  then obtain s4 B' where s4: "mk_files ROOTINO fl s3 = Ok s4" "mk_inv s4 ((T_DIR, root_bytes fl) # ?os) B'"
    unfolding r by auto
  have m: "mkfs_main fl = mk_finish ROOTINO s4" using s(1-3) s4(1) by (simp add: mkfs_main_def)
  show ?thesis using mk_finish_ok [OF s4(2)] unfolding m n l by simp
qed

theorem mkfs_image_witness:
  "\<exists>s. mkfs_main [([0x5f, 0x63, 0x61, 0x74], Some [replicate 512 1, [2, 3]])] = Ok s \<and>
    image_file (mk_img s) 62 2 T_FILE (replicate 512 1 @ [2, 3]) \<and>
    d_size (image_inode (mk_img s) 1) = 512 \<and> (\<forall>b < FSSIZE. bit (mk_img s ! 58 ! (b div 8)) (b mod 8) \<longleftrightarrow> b < 62)"
proof -
  let ?f = "([0x5f, 0x63, 0x61, 0x74], Some [replicate 512 1, [2, 3]]) :: host_file"
  have d: "host_data ?f = replicate 512 1 @ [2, 3]" by (simp add: host_data_def)
  have ok: "list_all host_ok [?f]" by (simp add: host_ok_def)
  have b: "mkfs_blocks [?f] = 3" by (simp add: mkfs_blocks_def d nblks_def cost_upto_def)
  have "\<exists>s. mkfs_main [?f] = Ok s \<and> length (mk_img s) = FSSIZE \<and> sb_of (mk_img s ! 1) = mk_super \<and>
    image_file (mk_img s) (NMETA + mkfs_blocks [?f]) 1 T_DIR (root_bytes [?f]) \<and>
    d_size (image_inode (mk_img s) 1) = of_nat ((16 * (length [?f] + 2) div BSIZE + 1) * BSIZE) \<and>
    (\<forall>k < length [?f]. image_file (mk_img s) (NMETA + mkfs_blocks [?f]) (k + 2) T_FILE (host_data ([?f] ! k)) \<and>
       d_size (image_inode (mk_img s) (k + 2)) = of_nat (length (host_data ([?f] ! k)))) \<and>
    (\<forall>b < FSSIZE. bit (mk_img s ! 58 ! (b div 8)) (b mod 8) \<longleftrightarrow> b < NMETA + mkfs_blocks [?f])"
    by (rule mkfs_image [OF ok]) (simp_all add: b)
  then show ?thesis by (auto simp: b d numeral_2_eq_2)
qed

end
