(* ===== verification/Spec2Isabelle.thy ===== *)
theory Spec2Isabelle
  imports Syscall Scheduler Fsdata Terminal Grep Wc Shell Dashboard Umalloc Ide Mkfs
begin

text \<open>
  A verification development for the tracing xv6 kernel under \<^verbatim>\<open>src/\<close>, a 64-bit teaching kernel with a
  ring of trace events, and for the user programs that come with it.

  \<^bold>\<open>How the program is modelled.\<close> C integers are words (\<open>Prelude\<close>), so that arithmetic wraps as on the
  machine; an \<open>int\<close> that is compared as a signed number is read with \<open>sint\<close>. Exceptions are the counters of the
  log (\<open>start\<close>, \<open>size\<close>, \<open>outstanding\<close> and the \<open>n\<close> of its header), which are integers, and quantities the code keeps
  within a small range (indices into its tables and buffers, the cursor, the loop variables), which are natural
  numbers or integers. Kernel memory is a function from
  64-bit addresses to bytes (\<open>Memory\<close>). Every kernel function maps a state to an \<open>outcome\<close>: \<open>Ok\<close> with its
  result and the new state, \<open>Panic\<close> for a call of \<open>panic\<close>, \<open>Blocked\<close> for a process that has to wait, and
  \<open>Fault\<close> for an access C leaves undefined. The state is one record that each component extends:
  \<open>kernel\<close> (processor and process table), \<open>tkernel\<close> (trace buffer), \<open>mkernel\<close> (memory and free pages),
  \<open>bkernel\<close> (buffers and disk), \<open>lkernel\<close> (log), \<open>vkernel\<close> (kernel page table), \<open>ikernel\<close> (inodes),
  \<open>ckernel\<close> (console), \<open>fkernel\<close> (files and pipes), \<open>pkernel\<close> and \<open>skernel\<close> (the rest). An operation of a
  component works on every extension of its record, so that the components compose without lifting. Pointers
  into the tables of the kernel are indices. A function that gives up the processor is cut there into two
  halves; only \<open>smp_step\<close> interleaves processors.

  \<^bold>\<open>Kernel theories.\<close>
  \<^item> \<open>Prelude\<close>, \<open>Params\<close>, \<open>Memory\<close>, \<open>Ring\<close>: types, outcomes, constants of \<^verbatim>\<open>param.h\<close>, \<^verbatim>\<open>mmu.h\<close> and
    \<^verbatim>\<open>memlayout.h\<close>, byte and word access, and the locale of a ring with free-running counters.
  \<^item> \<open>KString\<close> (\<^verbatim>\<open>string.c\<close>): memory and string routines are exactly what they should be, overlap and
    truncation included.
  \<^item> \<open>Spinlock\<close> (\<^verbatim>\<open>spinlock.c\<close>): \<open>acquire\<close> and \<open>release\<close> step by step on many processors exclude each
    other, with one access to the lock in each step; \<open>pushcli\<close> and \<open>popcli\<close> nest up to the range of the 32-bit
    counter. A processor is \<open>cpu_settled\<close> when the counter has room for two more calls of \<open>pushcli\<close>, the
    deepest nesting the lemmas on locks need.
  \<^item> \<open>Sched\<close> (\<^verbatim>\<open>proc.c\<close>): \<open>wakeup\<close> wakes exactly the sleepers of a channel. \<open>Scheduler\<close> (\<^verbatim>\<open>proc.c\<close>): in a round of
    \<open>scheduler\<close> exactly the processes that are runnable when their turn comes run, in table order and each in its
    own address space; what a process does with the processor is a parameter, of which \<open>good_run\<close> states what
    \<open>sched\<close> demands. \<open>Sleeplock\<close> (\<^verbatim>\<open>sleeplock.c\<close>).
  \<^item> \<open>Ktrace\<close>, \<open>Traceread\<close> (\<^verbatim>\<open>ktrace.c\<close>): the ring of 128 events refines a bounded queue that drops its
    oldest event; \<open>traceread\<close> delivers the oldest events to user memory, and loses one when the copy fails.
  \<^item> \<open>Kalloc\<close> (\<^verbatim>\<open>kalloc.c\<close>): the free list lives in the free pages; allocation and release are inverse.
  \<^item> \<open>Bio\<close> (\<^verbatim>\<open>bio.c\<close>, \<^verbatim>\<open>memide.c\<close>), \<open>Log\<close> (\<^verbatim>\<open>log.c\<close>): the buffer cache keeps a view of the blocks; a
    transaction reaches the disk as a whole or not at all, whenever the machine stops during the commit; three
    admitted operations can overflow the log.
  \<^item> \<open>Ide\<close> (\<^verbatim>\<open>ide.c\<close>), \<open>Ioapic\<close> (\<^verbatim>\<open>ioapic.c\<close>): the disk driver extends \<open>bkernel\<close> with its queue and the ports of
    the drive (\<open>dkernel\<close>). In every interleaving of calls and interrupts (\<open>ide_run\<close>), as long as the drive
    reports no error, requests for blocks of device 1 are served in order, each as \<^verbatim>\<open>memide.c\<close> would, and the
    callers return; a read error goes unnoticed. The drive is a parameter, of
    which \<open>ata_drive\<close> states the part of the ATA protocol the driver relies on. Interrupt lines are routed as
    asked for.
  \<^item> \<open>Vm\<close> (\<^verbatim>\<open>vm.c\<close>): four-level page tables; \<open>copyout\<close> writes exactly the bytes of a mapped range.
  \<^item> \<open>Inode\<close>, \<open>Fstx\<close>, \<open>Fs\<close> (\<^verbatim>\<open>fs.c\<close>): block allocator, inodes, files, directories and paths. \<open>Fstx\<close> gives
    the contracts of reading and updating a block in a transaction and shows that \<open>balloc\<close> hands out the
    first free block. \<open>Fsdata\<close>: what \<open>writei\<close> writes to a file within its blocks, \<open>readi\<close> reads back.
  \<^item> \<open>Console\<close>, \<open>Print\<close> (\<^verbatim>\<open>console.c\<close>, \<^verbatim>\<open>uart.c\<close>), \<open>Kbd\<close> (\<^verbatim>\<open>kbd.c\<close>): screen, formatted output, line editor,
    keyboard. \<open>Terminal\<close>: \<open>cprintf\<close> stays on the screen, the interrupt handler edits the line being typed as a
    list of bytes, \<open>consoleread\<close> hands out a finished line, and the keyboard driver types the characters that the history of
    pressed and released keys asks for.
  \<^item> \<open>File\<close> (\<^verbatim>\<open>file.c\<close>, \<^verbatim>\<open>pipe.c\<close>): a pipe is a bounded queue and delivers what is written, however its two
    ends take turns.
  \<^item> \<open>Proc\<close> (\<^verbatim>\<open>proc.c\<close>), \<open>Uaccess\<close> (\<^verbatim>\<open>syscall.c\<close>), \<open>Exec\<close> (\<^verbatim>\<open>exec.c\<close>), \<open>Sysfile\<close> (\<^verbatim>\<open>sysfile.c\<close>), \<open>Syscall\<close>
    (\<^verbatim>\<open>sysproc.c\<close>, \<^verbatim>\<open>syscall.c\<close>, \<^verbatim>\<open>trap.c\<close>): processes, access to user memory, program loading, the system calls,
    their dispatch with its trace events, and the trap handler.

  \<^bold>\<open>User programs.\<close> A pointer into a C string is the list of bytes from there to the NUL (\<open>Ulib\<close>).
  \<^item> \<open>Ulib\<close> (\<^verbatim>\<open>ulib.c\<close>), \<open>Printf\<close> (\<^verbatim>\<open>printf.c\<close>): what is printed for a number is read back by \<open>atoi\<close>.
  \<^item> \<open>Grep\<close> (\<^verbatim>\<open>grep.c\<close>): the matcher decides the language of its pattern; the loop prints the matching lines.
  \<^item> \<open>Wc\<close> (\<^verbatim>\<open>wc.c\<close>, \<^verbatim>\<open>cat.c\<close>): counts do not depend on how the input is cut.
  \<^item> \<open>Shell\<close> (\<^verbatim>\<open>sh.c\<close>): the parser ends on every line and reads back the parenthesised text of every
    command tree.
  \<^item> \<open>Umalloc\<close> (\<^verbatim>\<open>umalloc.c\<close>): \<open>malloc\<close> and \<open>free\<close> return and keep the free list sorted, joined and apart from the
    blocks in use; what the kernel grants to \<open>sbrk\<close> is a parameter.
  \<^item> \<open>Mkfs\<close> (\<^verbatim>\<open>mkfs.c\<close>): the image builder, on an image that is a list of blocks. For files that fit, the image
    has the super block, root directory, file contents and free map they ask for; the invariant \<open>mk_inv\<close> says which
    blocks each inode owns. The host is little-endian and its writes succeed.
  \<^item> \<open>Dashboard\<close> (\<^verbatim>\<open>trace.c\<close>): which events the dashboard shows in one-shot and live mode, when it ends,
    and its numbers.

  \<^bold>\<open>Bounds.\<close> Loops are structural or have a termination proof. The parser of the shell takes a bound on the
  depth of its calls; \<open>enough\<close>, four times the length of the line plus four, is shown to suffice for every
  line. The loops of the kernel over its tables run over the list of indices of the table.
  Searches along links in memory (the free list of \<open>malloc\<close>, the queue of the disk driver) are partial functions
  whose \<open>None\<close> is a search without end; on lists that are in order they are shown to end.

  \<^bold>\<open>Not modelled.\<close> Assembly (boot, trap entry, context switch) is not C. The local interrupt controller and the
  search for processors in BIOS memory, segment and interrupt descriptor tables are writes of fixed values to
  device registers and descriptors, without a contract the modelled code sees. The recorded call stacks of locks
  are debugging output. Test programs and user programs that only make a few system calls have no behaviour of
  their own.
\<close>

end
